(* ===== verification/Prelude.thy ===== *)
theory Prelude
  imports Main "HOL-Library.Word" "HOL-Library.AList" "HOL-Library.Code_Target_Nat"
begin

text \<open>
  Shared vocabulary of the development: machine words and byte strings, the little-endian
  codecs the Rust sources reach through \<open>to_le_bytes\<close> and \<open>from_le_bytes\<close>, slices of a
  mapped region and the overwriting of a part of it, and the overflow-aware arithmetic of
  \<open>u64\<close>.  The lemmas are collected so that the component theories close their goals with
  \<open>simp add: bytes_simps\<close> or \<open>slice_simps\<close>.
\<close>

unbundle bit_operations_syntax

named_theorems bytes_simps \<open>little-endian codecs: lengths and round trips\<close>
named_theorems slice_simps \<open>reading a region after a write to it\<close>
named_theorems fs_simps \<open>reading the file system after an operation on it\<close>

type_synonym u8 = "8 word"
type_synonym u32 = "32 word"
type_synonym u64 = "64 word"
type_synonym bytes = "8 word list"
type_synonym f32 = "32 word"

abbreviation U32_MAX :: nat where
  "U32_MAX \<equiv> 4294967295"

section \<open>Little-endian codecs\<close>

fun le_bytes :: "nat \<Rightarrow> nat \<Rightarrow> bytes" where
  "le_bytes 0 x = []"
| "le_bytes (Suc k) x = word_of_nat x # le_bytes k (x div 256)"

fun le_val :: "bytes \<Rightarrow> nat" where
  "le_val [] = 0"
| "le_val (b # bs) = unat b + 256 * le_val bs"

definition u32_to_le :: "u32 \<Rightarrow> bytes" where
  "u32_to_le w = le_bytes 4 (unat w)"

definition u32_from_le :: "bytes \<Rightarrow> u32" where
  "u32_from_le bs = word_of_nat (le_val bs)"

definition u64_to_le :: "u64 \<Rightarrow> bytes" where
  "u64_to_le w = le_bytes 8 (unat w)"

definition u64_from_le :: "bytes \<Rightarrow> u64" where
  "u64_from_le bs = word_of_nat (le_val bs)"

lemma length_le_bytes [simp, bytes_simps]: "length (le_bytes k x) = k"
  by (induction k arbitrary: x) auto

lemma unat_word_of_nat_u8: "unat (word_of_nat x :: u8) = x mod 256"
  by (simp add: unat_of_nat)

lemma le_val_le_bytes: "le_val (le_bytes k x) = x mod 256 ^ k"
proof (induction k arbitrary: x)
  case 0
  then show ?case by simp
next
  case (Suc k)
  have "le_val (le_bytes (Suc k) x) = x mod 256 + 256 * (x div 256 mod 256 ^ k)"
    by (simp add: Suc.IH unat_word_of_nat_u8)
  also have "\<dots> = x mod (256 * 256 ^ k)"
    by (simp add: mod_mult2_eq)
  finally show ?case by simp
qed

lemma unat_u8_less: "unat (b :: u8) < 256"
  using unsigned_less [of b, where ?'a = nat] by simp

lemma le_val_less: "le_val bs < 256 ^ length bs"
proof (induction bs)
  case (Cons b bs)
  then have "unat b + 256 * le_val bs < 256 * 256 ^ length bs"
    using unat_u8_less [of b] by linarith
  then show ?case by simp
qed simp

lemma le_bytes_le_val: "le_bytes (length bs) (le_val bs) = bs"
proof (induction bs)
  case (Cons b bs)
  have "unat (word_of_nat (unat b + 256 * le_val bs) :: u8) = unat b"
    by (simp only: unat_word_of_nat_u8) (simp add: unat_u8_less)
  then have "(word_of_nat (unat b + 256 * le_val bs) :: u8) = b"
    by (simp only: word_unat_eq_iff)
  moreover have "(unat b + 256 * le_val bs) div 256 = le_val bs"
    using unat_u8_less [of b] by simp
  ultimately show ?case using Cons.IH by simp
qed simp

lemma length_u32_to_le [simp, bytes_simps]: "length (u32_to_le w) = 4"
  by (simp add: u32_to_le_def)

lemma length_u64_to_le [simp, bytes_simps]: "length (u64_to_le w) = 8"
  by (simp add: u64_to_le_def)

lemma u32_from_to_le [simp, bytes_simps]: "u32_from_le (u32_to_le w) = w"
proof -
  have "unat w < 256 ^ 4"
    using unsigned_less [of w, where ?'a = nat] by simp
  then show ?thesis
    by (simp add: u32_from_le_def u32_to_le_def le_val_le_bytes)
qed

lemma u64_from_to_le [simp, bytes_simps]: "u64_from_le (u64_to_le w) = w"
proof -
  have "unat w < 256 ^ 8"
    using unsigned_less [of w, where ?'a = nat] by simp
  then show ?thesis
    by (simp add: u64_from_le_def u64_to_le_def le_val_le_bytes)
qed

lemma u32_to_from_le: "length bs = 4 \<Longrightarrow> u32_to_le (u32_from_le bs) = bs"
  using le_val_less [of bs] le_bytes_le_val [of bs]
  by (simp add: u32_to_le_def u32_from_le_def unat_of_nat)

lemma u64_to_from_le: "length bs = 8 \<Longrightarrow> u64_to_le (u64_from_le bs) = bs"
  using le_val_less [of bs] le_bytes_le_val [of bs]
  by (simp add: u64_to_le_def u64_from_le_def unat_of_nat)

lemma unat_u32_of_nat: "n \<le> U32_MAX \<Longrightarrow> unat (word_of_nat n :: u32) = n"
  by (simp add: unat_of_nat)

lemma unat_u32_le: "unat (w :: u32) \<le> U32_MAX"
  using unsigned_less [of w, where ?'a = nat] by simp

lemma unat_succ: "(k :: u32) + 1 \<noteq> 0 \<Longrightarrow> unat (k + 1) = Suc (unat k)"
  using unatSuc [of k] by (simp add: add.commute)

lemma word_less_succ: "(k :: u32) + 1 \<noteq> 0 \<Longrightarrow> k < k + 1"
  by (simp add: word_less_nat_alt unat_succ)

lemma word_xor_cancel_right: "(a :: 'a :: len word) XOR c = b XOR c \<longleftrightarrow> a = b"
proof
  assume "a XOR c = b XOR c"
  then have "(a XOR c) XOR c = (b XOR c) XOR c" by (rule arg_cong)
  then show "a = b" by (simp only: xor.assoc xor_self_eq xor.right_neutral)
qed simp

lemma word_xor_cancel_left: "(c :: 'a :: len word) XOR a = c XOR b \<longleftrightarrow> a = b"
  using word_xor_cancel_right [of a c b] by (simp only: xor.commute)

section \<open>Slices of a region\<close>

definition slice :: "'a list \<Rightarrow> nat \<Rightarrow> nat \<Rightarrow> 'a list" where
  "slice xs off n = take n (drop off xs)"

definition splice :: "'a list \<Rightarrow> nat \<Rightarrow> 'a list \<Rightarrow> 'a list" where
  "splice xs off ys = take off xs @ ys @ drop (off + length ys) xs"

lemma length_slice [simp, slice_simps]: "off + n \<le> length xs \<Longrightarrow> length (slice xs off n) = n"
  by (simp add: slice_def)

lemma length_splice [simp, slice_simps]:
  "off + length ys \<le> length xs \<Longrightarrow> length (splice xs off ys) = length xs"
  by (simp add: splice_def)

lemma slice_splice_same [slice_simps]:
  "off \<le> length xs \<Longrightarrow> slice (splice xs off ys) off (length ys) = ys"
  by (simp add: slice_def splice_def)

lemma slice_splice_before [slice_simps]:
  assumes "i + n \<le> off" "off \<le> length xs"
  shows "slice (splice xs off ys) i n = slice xs i n"
proof -
  have "take n (drop i (take off xs)) = take n (drop i xs)"
    using assms by (simp add: drop_take min_def)
  with assms show ?thesis
    by (simp add: slice_def splice_def)
qed

lemma slice_append_left [slice_simps]:
  "i + n \<le> length xs \<Longrightarrow> slice (xs @ ys) i n = slice xs i n"
  by (simp add: slice_def)

section \<open>Arithmetic of u64\<close>

definition checked_add_u64 :: "u64 \<Rightarrow> u64 \<Rightarrow> u64 option" where
  "checked_add_u64 a b = (if unat a + unat b < 2 ^ 64 then Some (a + b) else None)"

definition saturating_sub_u64 :: "u64 \<Rightarrow> u64 \<Rightarrow> u64" where
  "saturating_sub_u64 a b = (if a < b then 0 else a - b)"

lemma checked_add_u64_Some:
  "checked_add_u64 a b = Some c \<Longrightarrow> unat c = unat a + unat b"
  by (auto simp: checked_add_u64_def unat_word_ariths split: if_splits)

lemma unat_saturating_sub_u64 [simp]:
  "unat (saturating_sub_u64 a b) = unat a - unat b"
proof (cases "a < b")
  case True
  then show ?thesis by (simp add: saturating_sub_u64_def word_less_nat_alt)
next
  case False
  then have "b \<le> a" by simp
  with False show ?thesis
    by (simp add: saturating_sub_u64_def unat_sub)
qed

section \<open>Association lists as hash maps\<close>

lemma map_of_update [simp]: "map_of (AList.update k v al) = (map_of al)(k \<mapsto> v)"
  by (rule update_conv')

lemma map_of_delete [simp]: "map_of (AList.delete k al) = (map_of al)(k := None)"
  by (rule delete_conv')

lemma distinct_keys_update [intro]:
  "distinct (map fst al) \<Longrightarrow> distinct (map fst (AList.update k v al))"
  by (rule distinct_update)

lemma distinct_keys_delete [intro]:
  "distinct (map fst al) \<Longrightarrow> distinct (map fst (AList.delete k al))"
  by (rule distinct_delete)

end
