(* ===== verification/Store_Error.thy ===== *)
theory Store_Error
  imports Prelude
begin

text \<open>
  The error type of the engine (\<open>fs-core/src/error.rs\<close>) and the outcome of a Rust
  expression: a value, an \<open>Err\<close> that \<open>?\<close> propagates, or a panic.  The numbers that
  \<open>format!\<close> interpolates into the text of a \<open>Corrupt\<close> are left out of the string.
  A panic ends the run that is modelled; the state returned with it is what the process
  leaves behind.
\<close>

datatype heed_error = MdbMapFull | HeedOther

datatype store_error =
    Io
  | Heed heed_error
  | SerdeJson
  | NotFound
  | DuplicateVector u64
  | DimensionMismatch nat nat
  | QuotaExceeded
  | Busy
  | SegmentFull
  | LockBusy
  | Corrupt string
  | MapFull nat nat
  | Timeout
  | ValueTooLarge nat
  | LockPoisoned
  | InvalidKey string
  | Arrow

datatype 'a res = Ok 'a | Err store_error | Panic

fun is_ok :: "'a res \<Rightarrow> bool" where
  "is_ok (Ok x) = True"
| "is_ok (Err e) = False"
| "is_ok Panic = False"

text \<open>Rust's \<open>?\<close> on a pure expression.\<close>

fun res_bind :: "'a res \<Rightarrow> ('a \<Rightarrow> 'b res) \<Rightarrow> 'b res" where
  "res_bind (Ok x) f = f x"
| "res_bind (Err e) f = Err e"
| "res_bind Panic f = Panic"

lemma res_bind_eq_Ok [simp]:
  "res_bind m f = Ok y \<longleftrightarrow> (\<exists>x. m = Ok x \<and> f x = Ok y)"
  by (cases m) auto

lemma is_ok_iff: "is_ok r \<longleftrightarrow> (\<exists>x. r = Ok x)"
  by (cases r) auto

end
