(* ===== verification/Auth.thy ===== *)
theory Auth
  imports Store_Error "HOL-Library.AList"
begin

unbundle bit_operations_syntax

text \<open>
  \<open>fs-serve/src/lib.rs\<close>, access control: roles, the table of tokens, the check of the
  \<open>Authorization\<close> header, the policy that is enforced before the daemon listens, and the
  sources the tokens are read from.

  Rust strings are their UTF-8 bytes.  The table of tokens is a \<open>HashMap\<close>: the model keeps its
  pairs in the order an iteration visits them, which no theorem depends on.  A request carries
  the \<open>Authorization\<close> header as what \<open>HeaderValue::to_str\<close> gives (\<open>None\<close>: absent or not ASCII).
  The log lines of \<open>tracing\<close> are left out.
\<close>

section \<open>Roles\<close>

datatype auth_role = Readonly | Readwrite | Admin

fun role_rank :: "auth_role \<Rightarrow> nat" where
  "role_rank Readonly = 0"
| "role_rank Readwrite = 1"
| "role_rank Admin = 2"

lemma role_rank_inject [simp]: "role_rank a = role_rank b \<longleftrightarrow> a = b"
  by (cases a; cases b) simp_all

text \<open>The derived \<open>PartialOrd\<close> compares the discriminants.\<close>

instantiation auth_role :: linorder
begin

definition less_eq_auth_role :: "auth_role \<Rightarrow> auth_role \<Rightarrow> bool" where
  "less_eq_auth_role a b \<longleftrightarrow> role_rank a \<le> role_rank b"

definition less_auth_role :: "auth_role \<Rightarrow> auth_role \<Rightarrow> bool" where
  "less_auth_role a b \<longleftrightarrow> role_rank a < role_rank b"

instance
  by standard (auto simp: less_eq_auth_role_def less_auth_role_def)

end

lemma role_le_Admin [simp]: "r \<le> Admin"
  by (cases r) (simp_all add: less_eq_auth_role_def)

lemma Readonly_le [simp]: "Readonly \<le> r"
  by (simp add: less_eq_auth_role_def)

fun role_label :: "auth_role \<Rightarrow> string" where
  "role_label Admin = ''admin''"
| "role_label Readwrite = ''readwrite''"
| "role_label Readonly = ''readonly''"

section \<open>Responses\<close>

datatype status_code = OK_200 | NO_CONTENT | BAD_REQUEST | UNAUTHORIZED | FORBIDDEN | CONFLICT
  | INTERNAL_SERVER_ERROR | SERVICE_UNAVAILABLE

datatype app_error = AppError status_code string

section \<open>Tokens\<close>

record auth_config =
  ac_tokens :: "(bytes \<times> auth_role) list"

definition auth_empty :: auth_config where
  "auth_empty = \<lparr>ac_tokens = []\<rparr>"

definition auth_add :: "auth_config \<Rightarrow> bytes \<Rightarrow> auth_role \<Rightarrow> auth_config" where
  "auth_add a token role = a\<lparr>ac_tokens := AList.update token role (ac_tokens a)\<rparr>"

definition auth_is_empty :: "auth_config \<Rightarrow> bool" where
  "auth_is_empty a \<longleftrightarrow> ac_tokens a = []"

fun diff_loop :: "u8 \<Rightarrow> bytes \<Rightarrow> bytes \<Rightarrow> u8" where
  "diff_loop d (x # xs) (y # ys) = diff_loop (d OR (x XOR y)) xs ys"
| "diff_loop d _ _ = d"

definition constant_eq :: "bytes \<Rightarrow> bytes \<Rightarrow> bool" where
  "constant_eq a b \<longleftrightarrow> (if length a \<noteq> length b then False else diff_loop 0 a b = 0)"

fun strip_prefix :: "bytes \<Rightarrow> bytes \<Rightarrow> bytes option" where
  "strip_prefix [] s = Some s"
| "strip_prefix (p # ps) [] = None"
| "strip_prefix (p # ps) (c # cs) = (if p = c then strip_prefix ps cs else None)"

definition BEARER :: bytes where
  "BEARER = [66, 101, 97, 114, 101, 114, 32]"

fun find_token :: "bytes \<Rightarrow> (bytes \<times> auth_role) list \<Rightarrow> auth_role option" where
  "find_token tok [] = None"
| "find_token tok ((stored, role) # rest) =
     (if constant_eq tok stored then Some role else find_token tok rest)"

definition auth_check :: "auth_config \<Rightarrow> bytes option \<Rightarrow> auth_role option \<times> bool" where
  "auth_check a header =
     (if ac_tokens a = [] then (None, False)
      else
        (case header of
           None \<Rightarrow> (None, True)
         | Some raw \<Rightarrow>
             (case strip_prefix BEARER raw of
                None \<Rightarrow> (None, True)
              | Some tok \<Rightarrow> (find_token tok (ac_tokens a), True))))"

definition require_role :: "auth_config \<Rightarrow> bytes option \<Rightarrow> auth_role \<Rightarrow> app_error + auth_role" where
  "require_role a header mn =
     (case auth_check a header of
        (role, configured) \<Rightarrow>
          (if \<not> configured then Inr Admin
           else
             (case role of
                Some r \<Rightarrow>
                  (if r \<ge> mn then Inr r
                   else Inl (AppError FORBIDDEN
                          (''role '' @ role_label r @ '' insufficient, require >= '' @ role_label mn)))
              | None \<Rightarrow> Inl (AppError UNAUTHORIZED ''missing or invalid Authorization Bearer token''))))"

section \<open>Loading the tokens\<close>

text \<open>\<open>str::trim\<close> on UTF-8: the encodings of the characters with the property \<open>White_Space\<close>.\<close>

definition white_space :: "bytes list" where
  "white_space =
     [[9], [10], [11], [12], [13], [32], [0xC2, 0x85], [0xC2, 0xA0], [0xE1, 0x9A, 0x80],
      [0xE2, 0x80, 0x80], [0xE2, 0x80, 0x81], [0xE2, 0x80, 0x82], [0xE2, 0x80, 0x83],
      [0xE2, 0x80, 0x84], [0xE2, 0x80, 0x85], [0xE2, 0x80, 0x86], [0xE2, 0x80, 0x87],
      [0xE2, 0x80, 0x88], [0xE2, 0x80, 0x89], [0xE2, 0x80, 0x8A], [0xE2, 0x80, 0xA8],
      [0xE2, 0x80, 0xA9], [0xE2, 0x80, 0xAF], [0xE2, 0x81, 0x9F], [0xE3, 0x80, 0x80]]"

fun starts_with :: "bytes \<Rightarrow> bytes \<Rightarrow> bool" where
  "starts_with s w = (take (length w) s = w)"

function trim_left :: "bytes list \<Rightarrow> bytes \<Rightarrow> bytes" where
  "trim_left ws s =
     (case find (\<lambda>w. w \<noteq> [] \<and> starts_with s w) ws of
        None \<Rightarrow> s
      | Some w \<Rightarrow> trim_left ws (drop (length w) s))"
  by pat_completeness auto

termination
proof (relation "measure (\<lambda>(ws, s). length s)")
  fix ws s w
  assume "find (\<lambda>w. w \<noteq> [] \<and> starts_with s w) ws = Some w"
  then have "w \<noteq> []" and "take (length w) s = w" by (auto simp: find_Some_iff)
  then have "0 < length w" and "s \<noteq> []" by auto
  then show "((ws, drop (length w) s), ws, s) \<in> measure (\<lambda>(ws, s). length s)" by simp
qed simp

definition trim :: "bytes \<Rightarrow> bytes" where
  "trim s = rev (trim_left (map rev white_space) (rev (trim_left white_space s)))"

datatype build_auth_error = TokenFileUnreadable string bytes | TokenFileEmpty string bytes

text \<open>\<open>env\<close> is \<open>std::env::var\<close> and \<open>read\<close> is \<open>std::fs::read_to_string\<close> (\<open>None\<close>: their errors).\<close>

definition load_role_token ::
  "(string \<Rightarrow> bytes option) \<Rightarrow> (bytes \<Rightarrow> bytes option) \<Rightarrow> auth_config \<Rightarrow> auth_role \<Rightarrow> string \<Rightarrow> string
     \<Rightarrow> build_auth_error + auth_config" where
  "load_role_token env read auth role env_key file_key =
     (case env env_key of
        Some (c # cs) \<Rightarrow> Inr (auth_add auth (c # cs) role)
      | _ \<Rightarrow>
          (case env file_key of
             Some (p # ps) \<Rightarrow>
               (case read (p # ps) of
                  None \<Rightarrow> Inl (TokenFileUnreadable file_key (p # ps))
                | Some raw \<Rightarrow>
                    (if trim raw = [] then Inl (TokenFileEmpty file_key (p # ps))
                     else Inr (auth_add auth (trim raw) role)))
           | _ \<Rightarrow> Inr auth))"

fun and_then :: "'e + 'a \<Rightarrow> ('a \<Rightarrow> 'e + 'b) \<Rightarrow> 'e + 'b" where
  "and_then (Inl e) f = Inl e"
| "and_then (Inr x) f = f x"

definition build_auth_from_env ::
  "(string \<Rightarrow> bytes option) \<Rightarrow> (bytes \<Rightarrow> bytes option) \<Rightarrow> build_auth_error + auth_config" where
  "build_auth_from_env env read =
     and_then (load_role_token env read auth_empty Admin ''FS_AUTH_TOKEN'' ''FS_AUTH_TOKEN_FILE'') (\<lambda>a.
     and_then (load_role_token env read a Readwrite ''FS_AUTH_TOKEN_RW'' ''FS_AUTH_TOKEN_RW_FILE'') (\<lambda>a.
     load_role_token env read a Readonly ''FS_AUTH_TOKEN_RO'' ''FS_AUTH_TOKEN_RO_FILE''))"

datatype bind_auth_policy_error = BindAuthPolicyError bytes

definition enforce_bind_auth_policy :: "bytes \<Rightarrow> bool \<Rightarrow> bool \<Rightarrow> bind_auth_policy_error + unit" where
  "enforce_bind_auth_policy bind bind_is_loopback auth_enabled =
     (if \<not> auth_enabled \<and> \<not> bind_is_loopback then Inl (BindAuthPolicyError bind) else Inr ())"

text \<open>The checks of \<open>fs-serve/src/main.rs\<close> before the daemon listens.\<close>

datatype start_error = AuthError build_auth_error | PolicyError bind_auth_policy_error

definition startup_auth ::
  "(string \<Rightarrow> bytes option) \<Rightarrow> (bytes \<Rightarrow> bytes option) \<Rightarrow> bytes \<Rightarrow> bool \<Rightarrow> start_error + auth_config" where
  "startup_auth env read bind bind_is_loopback =
     (case build_auth_from_env env read of
        Inl e \<Rightarrow> Inl (AuthError e)
      | Inr auth \<Rightarrow>
          (case enforce_bind_auth_policy bind bind_is_loopback (\<not> auth_is_empty auth) of
             Inl e \<Rightarrow> Inl (PolicyError e)
           | Inr u \<Rightarrow> Inr auth))"

section \<open>The comparison of tokens\<close>

lemma byte_or_zero: "(a :: 8 word) OR b = 0 \<longleftrightarrow> a = 0 \<and> b = 0"
  by (auto simp: bit_eq_iff bit_or_iff)

lemma byte_xor_zero: "(a :: 8 word) XOR b = 0 \<longleftrightarrow> a = b"
  by (auto simp: bit_eq_iff bit_xor_iff)

lemma diff_loop_zero: "length a = length b \<Longrightarrow> diff_loop d a b = 0 \<longleftrightarrow> d = 0 \<and> a = b"
  by (induction a b arbitrary: d rule: list_induct2) (auto simp: byte_or_zero byte_xor_zero)

text \<open>The loop that ors the differences of all bytes accepts exactly equal tokens.\<close>

lemma constant_eq_iff [simp]: "constant_eq a b \<longleftrightarrow> a = b"
  by (auto simp: constant_eq_def diff_loop_zero)

lemma find_token_map_of [simp]: "find_token tok ts = map_of ts tok"
  by (induction tok ts rule: find_token.induct) auto

lemma strip_prefix_Some: "strip_prefix p s = Some t \<longleftrightarrow> s = p @ t"
  by (induction p s rule: strip_prefix.induct) auto

lemma strip_prefix_append [simp]: "strip_prefix p (p @ t) = Some t"
  by (simp add: strip_prefix_Some)

section \<open>Who is let through\<close>

lemma require_role_Inr:
  "require_role a header mn = Inr r \<longleftrightarrow>
     (if ac_tokens a = [] then r = Admin
      else (\<exists>tok. header = Some (BEARER @ tok) \<and> map_of (ac_tokens a) tok = Some r \<and> mn \<le> r))"
  by (auto simp: require_role_def auth_check_def strip_prefix_Some split: option.splits if_splits)

text \<open>
  The token a role is given: the variable if it is not empty, else the trimmed contents of the file, and
  the table of tokens, in which the role loaded last wins.
\<close>

definition role_token ::
  "(string \<Rightarrow> bytes option) \<Rightarrow> (bytes \<Rightarrow> bytes option) \<Rightarrow> string \<Rightarrow> bytes option" where
  "role_token env read key =
     (case env key of
        Some (c # cs) \<Rightarrow> Some (c # cs)
      | _ \<Rightarrow>
          (case env (key @ ''_FILE'') of
             Some (p # ps) \<Rightarrow> map_option trim (read (p # ps))
           | _ \<Rightarrow> None))"

definition granted :: "(string \<Rightarrow> bytes option) \<Rightarrow> (bytes \<Rightarrow> bytes option) \<Rightarrow> bytes \<rightharpoonup> auth_role" where
  "granted env read tok =
     (if role_token env read ''FS_AUTH_TOKEN_RO'' = Some tok then Some Readonly
      else if role_token env read ''FS_AUTH_TOKEN_RW'' = Some tok then Some Readwrite
      else if role_token env read ''FS_AUTH_TOKEN'' = Some tok then Some Admin
      else None)"

lemma load_role_token_tokens:
  assumes "load_role_token env read auth role key (key @ ''_FILE'') = Inr a"
  shows "map_of (ac_tokens a) =
    (case role_token env read key of None \<Rightarrow> map_of (ac_tokens auth) | Some tok \<Rightarrow> (map_of (ac_tokens auth))(tok \<mapsto> role))"
  using assms
  by (auto simp: load_role_token_def role_token_def auth_add_def update_conv' split: option.splits list.splits if_splits)

lemma build_auth_tokens:
  assumes "build_auth_from_env env read = Inr a"
  shows "map_of (ac_tokens a) = granted env read"
proof -
  from assms obtain a1 a2
    where 1: "load_role_token env read auth_empty Admin ''FS_AUTH_TOKEN'' ''FS_AUTH_TOKEN_FILE'' = Inr a1"
      and 2: "load_role_token env read a1 Readwrite ''FS_AUTH_TOKEN_RW'' ''FS_AUTH_TOKEN_RW_FILE'' = Inr a2"
      and 3: "load_role_token env read a2 Readonly ''FS_AUTH_TOKEN_RO'' ''FS_AUTH_TOKEN_RO_FILE'' = Inr a"
    unfolding build_auth_from_env_def
    by (metis (no_types, lifting) and_then.simps sum.exhaust sum.distinct(1))
  note load_role_token_tokens [of env read auth_empty Admin "''FS_AUTH_TOKEN''" a1]
    load_role_token_tokens [of env read a1 Readwrite "''FS_AUTH_TOKEN_RW''" a2]
    load_role_token_tokens [of env read a2 Readonly "''FS_AUTH_TOKEN_RO''" a]
  with 1 2 3 show ?thesis
    by (auto simp: fun_eq_iff granted_def auth_empty_def split: option.splits)
qed

text \<open>
  A token file with the two lines \<open>a\<close> and \<open>b\<close>: the token is both lines with the line break between them, so a request with the first
  line is refused.
\<close>

lemma multi_line_token_file:
  defines "env \<equiv> map_of [(''FS_AUTH_TOKEN_FILE'', [47])]" and "file \<equiv> map_of [([47 :: u8], [97 :: u8, 10, 98, 10])]"
  shows "startup_auth env file [48] False = Inr \<lparr>ac_tokens = [([97, 10, 98], Admin)]\<rparr>"
    and "require_role \<lparr>ac_tokens = [([97, 10, 98], Admin)]\<rparr> (Some (BEARER @ [97])) Readonly =
      Inl (AppError UNAUTHORIZED ''missing or invalid Authorization Bearer token'')"
  unfolding env_def file_def by code_simp+

text \<open>
  Access control (C12).  Once the daemon has started with a token configured, an endpoint that requires a role lets a request
  through exactly if its bearer token was configured for a role at least as high.  With no token configured everybody is let
  through as an administrator, and the daemon starts like this only on a loopback address.  The token of a
  role is the environment variable if it is set and not empty, and otherwise the whole contents of the file that the \<open>_FILE\<close> variable
  names, without the white space at both ends; this is what the code does, while a comment puts the file first and another one
  says that the first line of the file is taken (\<open>multi_line_token_file\<close> shows the difference).  Of a token that two roles
  share the lower role counts.
\<close>

theorem access_control_exact:
  assumes "startup_auth env read bind bind_is_loopback = Inr a"
  shows "(require_role a header mn = Inr r \<longleftrightarrow>
            (if granted env read = Map.empty then r = Admin
             else (\<exists>tok. header = Some (BEARER @ tok) \<and> granted env read tok = Some r \<and> mn \<le> r))) \<and>
         (bind_is_loopback \<or> granted env read \<noteq> Map.empty)"
proof -
  from assms have "build_auth_from_env env read = Inr a" and ok: "bind_is_loopback \<or> ac_tokens a \<noteq> []"
    by (auto simp: startup_auth_def enforce_bind_auth_policy_def auth_is_empty_def split: sum.splits if_splits)
  then have t: "map_of (ac_tokens a) = granted env read" by (simp add: build_auth_tokens)
  then have "ac_tokens a = [] \<longleftrightarrow> granted env read = Map.empty" by (metis map_of_eq_empty_iff)
  with t ok show ?thesis by (simp add: require_role_Inr)
qed

definition toy_env :: "string \<Rightarrow> bytes option" where
  "toy_env = map_of [(''FS_AUTH_TOKEN'', [115]), (''FS_AUTH_TOKEN_RO_FILE'', [47, 116])]"

definition toy_read :: "bytes \<Rightarrow> bytes option" where
  "toy_read = map_of [([47, 116], [32, 114, 111, 10])]"

theorem access_control_exact_witness:
  "startup_auth toy_env toy_read [48] False = Inr \<lparr>ac_tokens = [([115], Admin), ([114, 111], Readonly)]\<rparr> \<and>
   require_role \<lparr>ac_tokens = [([115], Admin), ([114, 111], Readonly)]\<rparr> (Some (BEARER @ [114, 111])) Readonly =
     Inr Readonly \<and> granted toy_env toy_read [114, 111] = Some Readonly"
proof (intro conjI)
  show s: "startup_auth toy_env toy_read [48] False = Inr \<lparr>ac_tokens = [([115], Admin), ([114, 111], Readonly)]\<rparr>"
    by code_simp
  show g: "granted toy_env toy_read [114, 111] = Some Readonly" by code_simp
  show "require_role \<lparr>ac_tokens = [([115], Admin), ([114, 111], Readonly)]\<rparr> (Some (BEARER @ [114, 111])) Readonly =
     Inr Readonly"
    using access_control_exact [OF s, of "Some (BEARER @ [114, 111])" Readonly Readonly] g by auto
qed

end
