(* ===== verification/Fs.thy ===== *)
theory Fs
  imports Prelude
begin

text \<open>
  The part of \<open>std::fs\<close> and of \<open>mmap\<close> the engine relies on: one directory, names bound to
  files, files bound to their bytes.  A name resolves to an inode, so that an open file or
  a mapping outlives the removal or replacement of its name, and two mappings of one file
  (\<open>MAP_SHARED\<close>) see each other's writes.  A state of the directory is what a process that
  is killed leaves behind; \<open>atomic_write_states\<close> lists the states a process killed inside
  the write-temporary-then-rename idiom can leave.
\<close>

record fs =
  fs_names :: "(string \<times> nat) list"
  fs_data :: "nat \<Rightarrow> bytes"
  fs_next :: nat

definition fs_empty :: fs where
  "fs_empty = \<lparr>fs_names = [], fs_data = (\<lambda>_. []), fs_next = 0\<rparr>"

definition fs_inode :: "fs \<Rightarrow> string \<Rightarrow> nat option" where
  "fs_inode d n = map_of (fs_names d) n"

definition fs_exists :: "fs \<Rightarrow> string \<Rightarrow> bool" where
  "fs_exists d n = (fs_inode d n \<noteq> None)"

definition fs_read :: "fs \<Rightarrow> string \<Rightarrow> bytes option" where
  "fs_read d n = map_option (fs_data d) (fs_inode d n)"

definition fs_put :: "fs \<Rightarrow> nat \<Rightarrow> bytes \<Rightarrow> fs" where
  "fs_put d i bs = d\<lparr>fs_data := (fs_data d)(i := bs)\<rparr>"

definition fs_open_create :: "fs \<Rightarrow> string \<Rightarrow> nat \<times> fs" where
  "fs_open_create d n =
     (case fs_inode d n of
        Some i \<Rightarrow> (i, d)
      | None \<Rightarrow> (fs_next d,
          d\<lparr>fs_names := (n, fs_next d) # fs_names d,
            fs_data := (fs_data d)(fs_next d := []),
            fs_next := Suc (fs_next d)\<rparr>))"

definition fs_write :: "fs \<Rightarrow> string \<Rightarrow> bytes \<Rightarrow> fs" where
  "fs_write d n bs = (case fs_open_create d n of (i, d') \<Rightarrow> fs_put d' i bs)"

definition fs_remove :: "fs \<Rightarrow> string \<Rightarrow> fs" where
  "fs_remove d n = d\<lparr>fs_names := AList.delete n (fs_names d)\<rparr>"

definition fs_rename :: "fs \<Rightarrow> string \<Rightarrow> string \<Rightarrow> fs" where
  "fs_rename d a b =
     (case fs_inode d a of
        None \<Rightarrow> d
      | Some i \<Rightarrow> d\<lparr>fs_names := (b, i) # AList.delete b (AList.delete a (fs_names d))\<rparr>)"

definition atomic_write :: "fs \<Rightarrow> string \<Rightarrow> string \<Rightarrow> bytes \<Rightarrow> fs" where
  "atomic_write d tmp dst bs = fs_rename (fs_write d tmp bs) tmp dst"

definition atomic_write_states :: "fs \<Rightarrow> string \<Rightarrow> string \<Rightarrow> bytes \<Rightarrow> fs list" where
  "atomic_write_states d tmp dst bs =
     d # map (\<lambda>k. fs_write d tmp (take k bs)) [0 ..< Suc (length bs)] @
     [atomic_write d tmp dst bs]"

text \<open>\<open>Path::join\<close>.\<close>

definition path_join :: "string \<Rightarrow> string \<Rightarrow> string" where
  "path_join a b =
     (if b \<noteq> [] \<and> hd b = CHR ''/'' then b
      else if a = [] \<or> last a = CHR ''/'' then a @ b
      else a @ ''/'' @ b)"

text \<open>Well-formedness: names and inodes are used once, and new inodes are fresh.\<close>

definition fs_ok :: "fs \<Rightarrow> bool" where
  "fs_ok d \<longleftrightarrow> distinct (map fst (fs_names d)) \<and> distinct (map snd (fs_names d)) \<and>
     (\<forall>i \<in> set (map snd (fs_names d)). i < fs_next d)"

section \<open>Reading after an operation\<close>

lemma fs_ok_empty [simp, fs_simps]: "fs_ok fs_empty"
  by (simp add: fs_ok_def fs_empty_def)

lemma fs_ok_put [simp, fs_simps]: "fs_ok (fs_put d i bs) = fs_ok d"
  by (simp add: fs_ok_def fs_put_def)

lemma fs_inode_put [simp, fs_simps]: "fs_inode (fs_put d i bs) n = fs_inode d n"
  by (simp add: fs_inode_def fs_put_def)

lemma fs_exists_put [simp, fs_simps]: "fs_exists (fs_put d i bs) n = fs_exists d n"
  by (simp add: fs_exists_def)

lemma fs_data_put [simp, fs_simps]: "fs_data (fs_put d i bs) = (fs_data d)(i := bs)"
  by (simp add: fs_put_def)

lemma fs_names_put [simp, fs_simps]: "fs_names (fs_put d i bs) = fs_names d"
  by (simp add: fs_put_def)

lemma fs_inode_bound: "fs_ok d \<Longrightarrow> fs_inode d n = Some i \<Longrightarrow> i < fs_next d"
  unfolding fs_ok_def fs_inode_def by (force dest: map_of_SomeD)

lemma fs_inode_inj:
  assumes "fs_ok d" "fs_inode d n = Some i" "fs_inode d m = Some i"
  shows "n = m"
proof -
  from assms have "(n, i) \<in> set (fs_names d)" "(m, i) \<in> set (fs_names d)"
    by (auto simp: fs_inode_def dest: map_of_SomeD)
  with assms(1) show ?thesis
    unfolding fs_ok_def by (metis distinct_map inj_onD prod.inject snd_conv)
qed

lemma fs_open_create_ok:
  assumes "fs_ok d" "fs_open_create d n = (i, d')"
  shows "fs_ok d'"
proof (cases "fs_inode d n")
  case None
  then have "n \<notin> fst ` set (fs_names d)"
    by (simp add: fs_inode_def map_of_eq_None_iff)
  with assms None show ?thesis
    by (force simp: fs_open_create_def fs_ok_def less_Suc_eq)
next
  case (Some j)
  with assms show ?thesis by (simp add: fs_open_create_def)
qed

lemma fs_open_create_inode:
  "fs_open_create d n = (i, d') \<Longrightarrow> fs_inode d' n = Some i"
  by (auto simp: fs_open_create_def fs_inode_def split: option.splits)

lemma fs_open_create_other:
  "fs_open_create d n = (i, d') \<Longrightarrow> m \<noteq> n \<Longrightarrow> fs_inode d' m = fs_inode d m"
  by (auto simp: fs_open_create_def fs_inode_def split: option.splits)

lemma fs_open_create_keep:
  "fs_open_create d n = (i, d') \<Longrightarrow> fs_inode d m = Some j \<Longrightarrow> fs_inode d' m = Some j"
  by (cases "m = n") (auto simp: fs_open_create_def fs_inode_def split: option.splits)

lemma fs_open_create_data:
  "fs_ok d \<Longrightarrow> fs_open_create d n = (i, d') \<Longrightarrow> fs_inode d m = Some j \<Longrightarrow> fs_data d' j = fs_data d j"
  by (auto simp: fs_open_create_def split: option.splits dest: fs_inode_bound)

lemma fs_read_write_same [simp, fs_simps]: "fs_read (fs_write d n bs) n = Some bs"
  by (auto simp: fs_write_def fs_read_def split: prod.splits dest: fs_open_create_inode)

lemma fs_read_write_other [fs_simps]:
  assumes "fs_ok d" "m \<noteq> n"
  shows "fs_read (fs_write d n bs) m = fs_read d m"
proof -
  obtain i d' where oc: "fs_open_create d n = (i, d')"
    by (cases "fs_open_create d n")
  from oc assms(2) have eq: "fs_inode d' m = fs_inode d m"
    by (rule fs_open_create_other)
  show ?thesis
  proof (cases "fs_inode d m")
    case None
    with oc eq show ?thesis by (simp add: fs_write_def fs_read_def)
  next
    case (Some j)
    from oc have "fs_inode d' n = Some i" by (rule fs_open_create_inode)
    moreover from assms(1) oc have "fs_ok d'" by (rule fs_open_create_ok)
    ultimately have "j \<noteq> i"
      using assms(2) eq Some by (metis fs_inode_inj)
    with oc eq Some assms(1) show ?thesis
      by (simp add: fs_write_def fs_read_def fs_open_create_data)
  qed
qed

lemma fs_ok_write [simp, fs_simps]: "fs_ok d \<Longrightarrow> fs_ok (fs_write d n bs)"
  by (auto simp: fs_write_def split: prod.splits dest: fs_open_create_ok)

lemma fs_read_rename_same: "fs_read d a = Some bs \<Longrightarrow> fs_read (fs_rename d a b) b = Some bs"
  by (auto simp: fs_read_def fs_rename_def fs_inode_def)

lemma fs_read_rename_other [fs_simps]:
  "m \<noteq> a \<Longrightarrow> m \<noteq> b \<Longrightarrow> fs_read (fs_rename d a b) m = fs_read d m"
  by (auto simp: fs_read_def fs_rename_def fs_inode_def split: option.splits)

lemma fs_ok_remove [simp, fs_simps]:
  assumes "fs_ok d"
  shows "fs_ok (fs_remove d n)"
proof -
  have "distinct (map snd (AList.delete n (fs_names d)))"
    using assms by (simp add: fs_ok_def AList.delete_eq distinct_map_filter)
  with assms show ?thesis
    by (auto simp: fs_ok_def fs_remove_def AList.delete_eq intro: distinct_map_filter)
qed

lemma fs_inode_remove [simp, fs_simps]:
  "fs_inode (fs_remove d n) m = (if m = n then None else fs_inode d m)"
  by (simp add: fs_inode_def fs_remove_def)

lemma fs_ok_rename:
  assumes "fs_ok d"
  shows "fs_ok (fs_rename d a b)"
proof (cases "fs_inode d a")
  case None
  with assms show ?thesis by (simp add: fs_rename_def)
next
  case (Some i)
  let ?del = "AList.delete b (AList.delete a (fs_names d))"
  have sub: "set ?del \<subseteq> set (fs_names d)"
    by (auto simp: AList.delete_eq)
  have keys: "b \<notin> fst ` set ?del" "distinct (map fst ?del)" "distinct (map snd ?del)"
    using assms by (auto simp: fs_ok_def AList.delete_eq distinct_map_filter)
  have "i \<notin> snd ` set ?del"
  proof
    assume "i \<in> snd ` set ?del"
    then obtain m where m: "(m, i) \<in> set (fs_names d)" "m \<noteq> a"
      by (auto simp: AList.delete_eq)
    with assms have "fs_inode d m = Some i"
      by (simp add: fs_inode_def fs_ok_def)
    with assms Some m(2) show False by (metis fs_inode_inj)
  qed
  moreover have "i < fs_next d"
    using assms Some by (rule fs_inode_bound)
  ultimately show ?thesis
    using assms keys sub Some by (force simp: fs_ok_def fs_rename_def)
qed

lemma fs_inode_write_other: "m \<noteq> n \<Longrightarrow> fs_inode (fs_write d n bs) m = fs_inode d m"
  by (auto simp: fs_write_def split: prod.splits dest: fs_open_create_other)

lemma fs_data_write_other:
  assumes "fs_ok d" "m \<noteq> n" "fs_inode d m = Some j"
  shows "fs_data (fs_write d n bs) j = fs_data d j"
  using fs_read_write_other [OF assms(1,2), of bs] fs_inode_write_other [OF assms(2), of d bs] assms(3)
  by (simp add: fs_read_def)

lemma fs_inode_rename_other:
  "m \<noteq> a \<Longrightarrow> m \<noteq> b \<Longrightarrow> fs_inode (fs_rename d a b) m = fs_inode d m"
  by (auto simp: fs_rename_def fs_inode_def split: option.splits)

lemma fs_data_rename [simp, fs_simps]: "fs_data (fs_rename d a b) = fs_data d"
  by (simp add: fs_rename_def split: option.splits)

section \<open>The write-temporary-then-rename idiom\<close>

lemma atomic_write_read: "fs_read (atomic_write d tmp dst bs) dst = Some bs"
  by (simp add: atomic_write_def fs_read_rename_same)

lemma atomic_write_other:
  "fs_ok d \<Longrightarrow> m \<noteq> tmp \<Longrightarrow> m \<noteq> dst \<Longrightarrow> fs_read (atomic_write d tmp dst bs) m = fs_read d m"
  by (simp add: atomic_write_def fs_simps)

lemma fs_ok_atomic_write [simp]: "fs_ok d \<Longrightarrow> fs_ok (atomic_write d tmp dst bs)"
  by (simp add: atomic_write_def fs_ok_rename)

lemma fs_inode_atomic_write_other:
  "m \<noteq> tmp \<Longrightarrow> m \<noteq> dst \<Longrightarrow> fs_inode (atomic_write d tmp dst bs) m = fs_inode d m"
  by (simp add: atomic_write_def fs_inode_rename_other fs_inode_write_other)

lemma fs_data_atomic_write_other:
  "fs_ok d \<Longrightarrow> m \<noteq> tmp \<Longrightarrow> fs_inode d m = Some j \<Longrightarrow>
     fs_data (atomic_write d tmp dst bs) j = fs_data d j"
  by (simp add: atomic_write_def fs_data_write_other)

lemma atomic_write_crash_states:
  assumes "fs_ok d" "tmp \<noteq> dst" "d' \<in> set (atomic_write_states d tmp dst bs)"
  shows "fs_read d' dst = fs_read d dst \<or> fs_read d' dst = Some bs"
  using assms
  by (auto simp: atomic_write_states_def atomic_write_read fs_read_write_other)

end
