(* ===== verification/Mmap.thy ===== *)
theory Mmap
  imports Store_Error Fs
begin

text \<open>
  \<open>fs-core/src/mem/mmap.rs\<close>: read-only mappings and the two bounds-checked zero-copy views.
  A mapping is an inode and the length it had when it was mapped; what a view reads is
  looked up in the directory at the time of the read, so a write through another mapping
  of the same file is visible, as with \<open>MAP_SHARED\<close>.  \<open>usize\<close> is 64 bits wide.
\<close>

record mmap_handle =
  mh_ino :: nat
  mh_len :: nat
  mh_sealed :: bool

abbreviation USIZE_BOUND :: nat where
  "USIZE_BOUND \<equiv> 18446744073709551616"

definition open_read :: "fs \<Rightarrow> nat \<Rightarrow> mmap_handle" where
  "open_read d i = \<lparr>mh_ino = i, mh_len = length (fs_data d i), mh_sealed = True\<rparr>"

definition from_parts :: "fs \<Rightarrow> nat \<Rightarrow> mmap_handle" where
  "from_parts d i = \<lparr>mh_ino = i, mh_len = length (fs_data d i), mh_sealed = False\<rparr>"

definition open_write :: "fs \<Rightarrow> nat \<Rightarrow> mmap_handle" where
  "open_write d i = \<lparr>mh_ino = i, mh_len = length (fs_data d i), mh_sealed = False\<rparr>"

definition seal :: "mmap_handle \<Rightarrow> mmap_handle" where
  "seal h = h\<lparr>mh_sealed := True\<rparr>"

definition is_sealed :: "mmap_handle \<Rightarrow> bool" where
  "is_sealed h = mh_sealed h"

definition mmap_as_bytes :: "fs \<Rightarrow> mmap_handle \<Rightarrow> bytes" where
  "mmap_as_bytes d h = take (mh_len h) (fs_data d (mh_ino h))"

record zero_copy_buffer =
  zb_handle :: mmap_handle
  zb_off :: nat
  zb_len :: nat

definition zero_copy_buffer_new :: "mmap_handle \<Rightarrow> nat \<Rightarrow> nat \<Rightarrow> zero_copy_buffer res" where
  "zero_copy_buffer_new h off n =
     (if off + n \<ge> USIZE_BOUND then Err (Corrupt ''buffer region offset overflow usize'')
      else if off + n > mh_len h then Err (Corrupt ''zero-copy buffer out of mmap region'')
      else Ok \<lparr>zb_handle = h, zb_off = off, zb_len = n\<rparr>)"

definition buffer_as_bytes :: "fs \<Rightarrow> zero_copy_buffer \<Rightarrow> bytes" where
  "buffer_as_bytes d b = slice (mmap_as_bytes d (zb_handle b)) (zb_off b) (zb_len b)"

definition to_owned_slice :: "fs \<Rightarrow> zero_copy_buffer \<Rightarrow> bytes" where
  "to_owned_slice d b = buffer_as_bytes d b"

text \<open>\<open>bytemuck::cast_slice\<close> between \<open>f32\<close> and \<open>u8\<close> on a little-endian machine.\<close>

definition f32s_to_bytes :: "f32 list \<Rightarrow> bytes" where
  "f32s_to_bytes vs = concat (map u32_to_le vs)"

fun bytes_to_f32s :: "bytes \<Rightarrow> f32 list" where
  "bytes_to_f32s (a # b # c # e # rest) = u32_from_le [a, b, c, e] # bytes_to_f32s rest"
| "bytes_to_f32s _ = []"

record zero_copy_vec =
  zv_handle :: mmap_handle
  zv_off :: nat
  zv_len :: nat

definition zero_copy_vec_new :: "mmap_handle \<Rightarrow> nat \<Rightarrow> nat \<Rightarrow> zero_copy_vec res" where
  "zero_copy_vec_new h off n =
     (if n * 4 \<ge> USIZE_BOUND then Err (Corrupt ''vector len overflow byte size'')
      else if off + n * 4 \<ge> USIZE_BOUND then Err (Corrupt ''vec region offset overflow usize'')
      else if off + n * 4 > mh_len h then Err (Corrupt ''zero-copy vec out of mmap region'')
      else Ok \<lparr>zv_handle = h, zv_off = off, zv_len = n\<rparr>)"

definition vec_as_f32 :: "fs \<Rightarrow> zero_copy_vec \<Rightarrow> f32 list" where
  "vec_as_f32 d v =
     bytes_to_f32s (slice (mmap_as_bytes d (zv_handle v)) (zv_off v) (zv_len v * 4))"

section \<open>Round trip of the cast and bounds of the views\<close>

lemma u32_to_le_cases: obtains a b c e where "u32_to_le w = [a, b, c, e]"
proof -
  have four: "4 = Suc (Suc (Suc (Suc 0)))" by simp
  show ?thesis
    using that unfolding u32_to_le_def four by simp
qed

lemma bytes_to_f32s_append [simp, bytes_simps]:
  "bytes_to_f32s (u32_to_le w @ bs) = w # bytes_to_f32s bs"
proof -
  obtain a b c e where w: "u32_to_le w = [a, b, c, e]" by (rule u32_to_le_cases)
  then have "u32_from_le [a, b, c, e] = w" by (metis u32_from_to_le)
  with w show ?thesis by simp
qed

lemma bytes_to_f32s_inverse [simp, bytes_simps]: "bytes_to_f32s (f32s_to_bytes vs) = vs"
  by (induction vs) (simp_all add: f32s_to_bytes_def)

lemma length_f32s_to_bytes [simp, bytes_simps]: "length (f32s_to_bytes vs) = 4 * length vs"
  by (induction vs) (simp_all add: f32s_to_bytes_def)

lemma f32s_to_bytes_inverse: "4 dvd length bs \<Longrightarrow> f32s_to_bytes (bytes_to_f32s bs) = bs"
proof (induction bs rule: bytes_to_f32s.induct)
  case (1 a b c e rest)
  then have "4 dvd length rest"
    by simp presburger
  with 1 show ?case
    using u32_to_from_le [of "[a, b, c, e]"] by (simp add: f32s_to_bytes_def)
qed (auto simp: f32s_to_bytes_def dest!: dvd_imp_le)

lemma length_bytes_to_f32s: "length (bytes_to_f32s bs) = length bs div 4"
  by (induction bs rule: bytes_to_f32s.induct) auto

lemma zero_copy_buffer_new_Ok:
  "zero_copy_buffer_new h off n = Ok b \<longleftrightarrow>
     off + n < USIZE_BOUND \<and> off + n \<le> mh_len h \<and> b = \<lparr>zb_handle = h, zb_off = off, zb_len = n\<rparr>"
  by (auto simp: zero_copy_buffer_new_def)

lemma zero_copy_vec_new_Ok:
  "zero_copy_vec_new h off n = Ok v \<longleftrightarrow>
     off + n * 4 < USIZE_BOUND \<and> off + n * 4 \<le> mh_len h \<and>
     v = \<lparr>zv_handle = h, zv_off = off, zv_len = n\<rparr>"
  by (auto simp: zero_copy_vec_new_def)

lemma slice_mmap_as_bytes:
  "off + n \<le> mh_len h \<Longrightarrow> slice (mmap_as_bytes d h) off n = slice (fs_data d (mh_ino h)) off n"
  by (simp add: slice_def mmap_as_bytes_def drop_take min_def)

end
