(* ===== verification/Wal.thy ===== *)
theory Wal
  imports Store_Error Mmap
begin

text \<open>
  \<open>fs-core/src/mem/wal.rs\<close>: the write-ahead log.  A frame is the sequence number, the tag of
  the operation, the length of the body and the body; the body is a binary encoding of the
  operation.  A \<open>String\<close> is the list of its UTF-8 bytes.  The log is a file of the directory
  \<open>wl_dir\<close>; the checkpoint marker is written by \<open>serde_json\<close>, whose encoder and decoder are
  arguments.  The lock that keeps a second process out is not modelled: one process runs.

  The lemmas show that an operation that is logged is read back, that every state a crash
  inside an append can leave is read as a prefix of what was appended, and what truncation
  keeps.
\<close>

definition FRAME_HEADER :: nat where
  "FRAME_HEADER = 13"

definition OP_PUT_KV :: u8 where "OP_PUT_KV = 1"
definition OP_INSERT_VEC :: u8 where "OP_INSERT_VEC = 2"
definition OP_DELETE_KV :: u8 where "OP_DELETE_KV = 3"
definition OP_DELETE_VEC :: u8 where "OP_DELETE_VEC = 4"
definition OP_PUT_COL :: u8 where "OP_PUT_COL = 5"

lemmas op_tag_consts =
  OP_PUT_KV_def OP_INSERT_VEC_def OP_DELETE_KV_def OP_DELETE_VEC_def OP_PUT_COL_def

datatype wal_op =
    PutKv bytes bytes
  | InsertVector u64 "f32 list"
  | DeleteKv bytes
  | DeleteVector u64
  | PutColumnar bytes bytes

record wal_entry =
  we_seq :: u64
  we_op :: wal_op

record checkpoint_marker =
  cm_applied_seq :: u64
  cm_checkpoint_seq :: u64
  cm_graph_snapshot :: "string option"

record wal =
  wl_dir :: fs
  wl_next_seq :: u64

section \<open>Codec of an operation\<close>

fun op_tag :: "wal_op \<Rightarrow> u8" where
  "op_tag (PutKv k v) = OP_PUT_KV"
| "op_tag (InsertVector i v) = OP_INSERT_VEC"
| "op_tag (DeleteKv k) = OP_DELETE_KV"
| "op_tag (DeleteVector i) = OP_DELETE_VEC"
| "op_tag (PutColumnar t ipc) = OP_PUT_COL"

definition write_u32 :: "bytes \<Rightarrow> u32 \<Rightarrow> bytes" where
  "write_u32 buf v = buf @ u32_to_le v"

fun encode_op :: "wal_op \<Rightarrow> bytes" where
  "encode_op (PutKv key value) =
     write_u32 (write_u32 [] (word_of_nat (length key)) @ key) (word_of_nat (length value)) @ value"
| "encode_op (InsertVector i vector) =
     write_u32 (u64_to_le i) (word_of_nat (length vector)) @ concat (map u32_to_le vector)"
| "encode_op (DeleteKv key) = write_u32 [] (word_of_nat (length key)) @ key"
| "encode_op (DeleteVector i) = u64_to_le i"
| "encode_op (PutColumnar tid ipc) =
     write_u32 (write_u32 [] (word_of_nat (length tid)) @ tid) (word_of_nat (length ipc)) @ ipc"

text \<open>The readers return what they read and the rest of the slice.\<close>

definition read_u32 :: "bytes \<Rightarrow> (u32 \<times> bytes) res" where
  "read_u32 r =
     (if length r < 4 then Err (Corrupt ''wal op body truncated at u32'')
      else Ok (u32_from_le (take 4 r), drop 4 r))"

definition read_bytes :: "bytes \<Rightarrow> nat \<Rightarrow> (bytes \<times> bytes) res" where
  "read_bytes r n =
     (if length r < n then Err (Corrupt ''wal op body truncated'') else Ok (take n r, drop n r))"

definition decode_put_kv :: "bytes \<Rightarrow> wal_op res" where
  "decode_put_kv body =
     res_bind (read_u32 body) (\<lambda>(klen, r).
     res_bind (read_bytes r (unat klen)) (\<lambda>(key, r).
     res_bind (read_u32 r) (\<lambda>(vlen, r).
     res_bind (read_bytes r (unat vlen)) (\<lambda>(value, r).
       if r \<noteq> [] then Err (Corrupt ''wal put_kv trailing bytes'') else Ok (PutKv key value)))))"

definition decode_insert_vec :: "bytes \<Rightarrow> wal_op res" where
  "decode_insert_vec body =
     (if length body < 8 then Err (Corrupt ''wal insert_vec truncated id'')
      else
        let i = u64_from_le (take 8 body)
        in res_bind (read_u32 (drop 8 body)) (\<lambda>(dim, r).
           if unat dim * 4 \<ge> USIZE_BOUND then Err (Corrupt ''wal insert_vec dim overflow'')
           else res_bind (read_bytes r (unat dim * 4)) (\<lambda>(raw, r).
             if r \<noteq> [] then Err (Corrupt ''wal insert_vec trailing bytes'')
             else Ok (InsertVector i (bytes_to_f32s raw)))))"

definition decode_delete_kv :: "bytes \<Rightarrow> wal_op res" where
  "decode_delete_kv body =
     res_bind (read_u32 body) (\<lambda>(klen, r).
     res_bind (read_bytes r (unat klen)) (\<lambda>(key, r).
       if r \<noteq> [] then Err (Corrupt ''wal delete_kv trailing bytes'') else Ok (DeleteKv key)))"

definition decode_delete_vec :: "bytes \<Rightarrow> wal_op res" where
  "decode_delete_vec body =
     (if length body \<noteq> 8 then Err (Corrupt ''wal delete_vec body != 8 bytes'')
      else Ok (DeleteVector (u64_from_le body)))"

text \<open>\<open>std::str::from_utf8\<close>: the well-formed byte sequences of the Unicode standard.\<close>

definition in_range :: "u8 \<Rightarrow> nat \<Rightarrow> nat \<Rightarrow> bool" where
  "in_range b lo hi = (lo \<le> unat b \<and> unat b \<le> hi)"

definition utf8_second :: "u8 \<Rightarrow> u8 \<Rightarrow> bool" where
  "utf8_second a b =
     (if unat a = 224 then in_range b 160 191
      else if unat a = 237 then in_range b 128 159
      else if unat a = 240 then in_range b 144 191
      else if unat a = 244 then in_range b 128 143
      else in_range b 128 191)"

fun utf8_valid :: "bytes \<Rightarrow> bool" where
  "utf8_valid [] = True"
| "utf8_valid (a # r) =
     (if unat a < 128 then utf8_valid r
      else if in_range a 194 223 then
        (case r of b # r' \<Rightarrow> in_range b 128 191 \<and> utf8_valid r' | _ \<Rightarrow> False)
      else if in_range a 224 239 then
        (case r of b # c # r' \<Rightarrow> utf8_second a b \<and> in_range c 128 191 \<and> utf8_valid r' | _ \<Rightarrow> False)
      else if in_range a 240 244 then
        (case r of b # c # e # r' \<Rightarrow>
             utf8_second a b \<and> in_range c 128 191 \<and> in_range e 128 191 \<and> utf8_valid r'
         | _ \<Rightarrow> False)
      else False)"

definition decode_put_col :: "bytes \<Rightarrow> wal_op res" where
  "decode_put_col body =
     res_bind (read_u32 body) (\<lambda>(tlen, r).
     res_bind (read_bytes r (unat tlen)) (\<lambda>(tid, r).
       if \<not> utf8_valid tid then Err (Corrupt ''wal put_col table_id not utf8'')
       else
         res_bind (read_u32 r) (\<lambda>(ilen, r).
         res_bind (read_bytes r (unat ilen)) (\<lambda>(ipc, r).
           if r \<noteq> [] then Err (Corrupt ''wal put_col trailing bytes'') else Ok (PutColumnar tid ipc)))))"

definition decode_op :: "u8 \<Rightarrow> bytes \<Rightarrow> wal_op res" where
  "decode_op tag body =
     (if tag = OP_PUT_KV then decode_put_kv body
      else if tag = OP_INSERT_VEC then decode_insert_vec body
      else if tag = OP_DELETE_KV then decode_delete_kv body
      else if tag = OP_DELETE_VEC then decode_delete_vec body
      else if tag = OP_PUT_COL then decode_put_col body
      else Err (Corrupt ''unknown wal op tag''))"

section \<open>Frames\<close>

text \<open>The bytes that \<open>append\<close>, \<open>append_batch\<close> and \<open>truncate_to\<close> write for one entry.\<close>

definition encode_frame :: "wal_entry \<Rightarrow> bytes" where
  "encode_frame e =
     u64_to_le (we_seq e) @ [op_tag (we_op e)] @
     u32_to_le (word_of_nat (length (encode_op (we_op e)))) @ encode_op (we_op e)"

datatype frame_read = FrEntry wal_entry | FrTornTail | FrEof

definition read_frame_or_torn :: "bytes \<Rightarrow> (frame_read \<times> bytes) res" where
  "read_frame_or_torn rd =
     (if length rd < FRAME_HEADER then Ok (FrEof, [])
      else
        let sq = u64_from_le (slice rd 0 8);
            tag = rd ! 8;
            body_len = unat (u32_from_le (slice rd 9 4));
            rest = drop FRAME_HEADER rd
        in if length rest < body_len then Ok (FrTornTail, [])
           else res_bind (decode_op tag (take body_len rest))
                  (\<lambda>op. Ok (FrEntry \<lparr>we_seq = sq, we_op = op\<rparr>, drop body_len rest)))"

lemma read_frame_shrinks:
  "read_frame_or_torn rd = Ok (FrEntry e, rest) \<Longrightarrow> length rest < length rd"
  by (auto simp: read_frame_or_torn_def FRAME_HEADER_def Let_def split: if_splits)

function read_entries :: "bytes \<Rightarrow> wal_entry list res" where
  "read_entries rd =
     (case read_frame_or_torn rd of
        Ok (FrEntry e, rest) \<Rightarrow> res_bind (read_entries rest) (\<lambda>es. Ok (e # es))
      | Ok (FrTornTail, rest) \<Rightarrow> Ok []
      | Ok (FrEof, rest) \<Rightarrow> Ok []
      | Err x \<Rightarrow> Err x
      | Panic \<Rightarrow> Panic)"
  by pat_completeness auto
termination
  by (relation "measure length") (auto dest: read_frame_shrinks)

declare read_entries.simps [simp del]

section \<open>Operations of the log\<close>

definition WAL_LOG :: string where "WAL_LOG = ''wal.log''"
definition MARKER :: string where "MARKER = ''checkpoint.marker''"

definition log_bytes :: "fs \<Rightarrow> bytes" where
  "log_bytes d = (case fs_read d WAL_LOG of None \<Rightarrow> [] | Some bs \<Rightarrow> bs)"

definition max_seq :: "fs \<Rightarrow> u64 res" where
  "max_seq d =
     (if \<not> fs_exists d WAL_LOG then Ok 0
      else res_bind (read_entries (log_bytes d)) (\<lambda>es. Ok (foldl (\<lambda>m e. max m (we_seq e)) 0 es)))"

definition wal_open :: "fs \<Rightarrow> wal res" where
  "wal_open dir =
     (let d = snd (fs_open_create (snd (fs_open_create dir ''wal.lock'')) WAL_LOG)
      in res_bind (max_seq d) (\<lambda>m. Ok \<lparr>wl_dir = d, wl_next_seq = m + 1\<rparr>))"

definition wal_append :: "wal \<Rightarrow> wal_op \<Rightarrow> u64 res \<times> wal" where
  "wal_append w op =
     (let sq = wl_next_seq w;
          body = encode_op op
      in if length body > U32_MAX then (Err (ValueTooLarge (length body)), w)
         else (Ok sq, \<lparr>wl_dir = fs_write (wl_dir w) WAL_LOG
                          (log_bytes (wl_dir w) @ encode_frame \<lparr>we_seq = sq, we_op = op\<rparr>),
                       wl_next_seq = sq + 1\<rparr>))"

text \<open>The loop of \<open>append_batch\<close>: buffer and next number, or the length of a body that is too large.\<close>

fun batch_frames :: "wal_op list \<Rightarrow> u64 \<Rightarrow> bytes \<Rightarrow> (bytes \<times> u64) res" where
  "batch_frames [] sq buf = Ok (buf, sq)"
| "batch_frames (op # ops) sq buf =
     (if length (encode_op op) > U32_MAX then Err (ValueTooLarge (length (encode_op op)))
      else batch_frames ops (sq + 1) (buf @ encode_frame \<lparr>we_seq = sq, we_op = op\<rparr>))"

definition append_batch :: "wal \<Rightarrow> wal_op list \<Rightarrow> u64 res \<times> wal" where
  "append_batch w ops =
     (if ops = [] then (Ok (wl_next_seq w), w)
      else case batch_frames ops (wl_next_seq w) [] of
             Ok (buf, sq) \<Rightarrow>
               (Ok (wl_next_seq w),
                \<lparr>wl_dir = fs_write (wl_dir w) WAL_LOG (log_bytes (wl_dir w) @ buf), wl_next_seq = sq\<rparr>)
           | Err e \<Rightarrow> (Err e, w)
           | Panic \<Rightarrow> (Panic, w))"

definition read_all :: "wal \<Rightarrow> wal_entry list res" where
  "read_all w = read_entries (log_bytes (wl_dir w))"

definition read_marker ::
  "(bytes \<Rightarrow> checkpoint_marker option) \<Rightarrow> wal \<Rightarrow> checkpoint_marker option res" where
  "read_marker from_slice w =
     (case fs_read (wl_dir w) MARKER of
        None \<Rightarrow> Ok None
      | Some bs \<Rightarrow> (case from_slice bs of None \<Rightarrow> Err SerdeJson | Some m \<Rightarrow> Ok (Some m)))"

definition write_marker :: "(checkpoint_marker \<Rightarrow> bytes) \<Rightarrow> wal \<Rightarrow> checkpoint_marker \<Rightarrow> wal" where
  "write_marker to_vec w m =
     w\<lparr>wl_dir := atomic_write (wl_dir w) ''checkpoint.marker.tmp'' MARKER (to_vec m)\<rparr>"

definition truncate_to :: "wal \<Rightarrow> u64 \<Rightarrow> unit res \<times> wal" where
  "truncate_to w applied =
     (case read_all w of
        Ok entries \<Rightarrow>
          (let keep = filter (\<lambda>e. we_seq e > applied) entries
           in if keep = [] \<and> entries = [] then (Ok (), w)
              else (Ok (), w\<lparr>wl_dir := fs_write (wl_dir w) WAL_LOG (concat (map encode_frame keep))\<rparr>))
      | Err e \<Rightarrow> (Err e, w)
      | Panic \<Rightarrow> (Panic, w))"

section \<open>Round trip of the codec\<close>

text \<open>
  What a logged entry satisfies: the body length fits the header and a table id is a Rust
  \<open>String\<close>.
\<close>

fun op_wf :: "wal_op \<Rightarrow> bool" where
  "op_wf (PutColumnar t ipc) = utf8_valid t"
| "op_wf _ = True"

definition op_ok :: "wal_op \<Rightarrow> bool" where
  "op_ok op \<longleftrightarrow> op_wf op \<and> length (encode_op op) \<le> U32_MAX"

definition frames :: "wal_entry list \<Rightarrow> bytes" where
  "frames es = concat (map encode_frame es)"

lemma read_u32_append [simp]: "read_u32 (u32_to_le v @ r) = Ok (v, r)"
  by (simp add: read_u32_def)

lemma read_u32_only [simp]: "read_u32 (u32_to_le v) = Ok (v, [])"
  using read_u32_append [of v "[]"] by simp

lemma read_bytes_append [simp]: "n = length xs \<Longrightarrow> read_bytes (xs @ r) n = Ok (xs, r)"
  by (simp add: read_bytes_def)

lemma read_bytes_only [simp]: "n = length xs \<Longrightarrow> read_bytes xs n = Ok (xs, [])"
  by (simp add: read_bytes_def)

lemma op_tags_distinct [simp]:
  "distinct [OP_PUT_KV, OP_INSERT_VEC, OP_DELETE_KV, OP_DELETE_VEC, OP_PUT_COL]"
  by (simp add: op_tag_consts)

lemma decode_op_tag [simp]:
  "decode_op OP_PUT_KV b = decode_put_kv b" "decode_op OP_INSERT_VEC b = decode_insert_vec b"
  "decode_op OP_DELETE_KV b = decode_delete_kv b" "decode_op OP_DELETE_VEC b = decode_delete_vec b"
  "decode_op OP_PUT_COL b = decode_put_col b"
  using op_tags_distinct by (auto simp: decode_op_def simp del: op_tags_distinct)

lemma decode_encode_op:
  assumes "op_ok op"
  shows "decode_op (op_tag op) (encode_op op) = Ok op"
proof (cases op)
  case (InsertVector i v)
  have dim: "unat (word_of_nat (length v) :: u32) = length v"
    using assms InsertVector
    by (intro unat_u32_of_nat)
      (simp add: op_ok_def write_u32_def f32s_to_bytes_def [symmetric])
  moreover have "length v \<le> U32_MAX" using dim unat_u32_le by metis
  ultimately show ?thesis
    using InsertVector
    by (simp add: decode_insert_vec_def write_u32_def f32s_to_bytes_def [symmetric])
qed (use assms in \<open>simp_all add: op_ok_def write_u32_def decode_put_kv_def decode_delete_kv_def
    decode_delete_vec_def decode_put_col_def unat_u32_of_nat\<close>)

lemma read_u32_Ok: "read_u32 r = Ok (v, r') \<Longrightarrow> r = u32_to_le v @ r'"
  by (auto simp: read_u32_def u32_to_from_le split: if_splits)

lemma read_bytes_Ok: "read_bytes r n = Ok (xs, r') \<Longrightarrow> r = xs @ r' \<and> length xs = n"
  by (auto simp: read_bytes_def split: if_splits)

lemmas readers_Ok = read_u32_Ok read_bytes_Ok

lemma encode_decode_op:
  assumes "decode_op tag body = Ok op"
  shows "op_tag op = tag \<and> encode_op op = body \<and> op_wf op"
proof -
  consider "tag = OP_PUT_KV" | "tag = OP_INSERT_VEC" | "tag = OP_DELETE_KV" | "tag = OP_DELETE_VEC"
    | "tag = OP_PUT_COL"
    using assms by (auto simp: decode_op_def split: if_splits)
  then show ?thesis
  proof cases
    case 2
    then obtain dim r raw where r: "8 \<le> length body" "read_u32 (drop 8 body) = Ok (dim, r)"
      "read_bytes r (unat dim * 4) = Ok (raw, [])"
      "op = InsertVector (u64_from_le (take 8 body)) (bytes_to_f32s raw)"
      using assms by (auto simp: decode_insert_vec_def Let_def split: if_splits)
    from readers_Ok(1) [OF r(2)] readers_Ok(2) [OF r(3)]
    have body: "drop 8 body = u32_to_le dim @ raw" and raw: "length raw = unat dim * 4" by simp_all
    have "f32s_to_bytes (bytes_to_f32s raw) = raw"
      using raw by (intro f32s_to_bytes_inverse) simp
    moreover have "word_of_nat (length (bytes_to_f32s raw)) = dim"
      using raw by (simp add: length_bytes_to_f32s)
    moreover have "body = take 8 body @ u32_to_le dim @ raw"
      using body by (metis append_take_drop_id)
    ultimately show ?thesis
      using 2 r(1,4) u64_to_from_le [of "take 8 body"]
      by (simp add: write_u32_def f32s_to_bytes_def)
  next
    case 4
    with assms show ?thesis
      by (auto simp: decode_delete_vec_def u64_to_from_le split: if_splits)
  qed (use assms in \<open>auto simp: decode_put_kv_def decode_delete_kv_def decode_put_col_def
      write_u32_def dest!: readers_Ok split: if_splits prod.splits\<close>)
qed

section \<open>Reading frames\<close>

lemma length_encode_frame: "length (encode_frame e) = FRAME_HEADER + length (encode_op (we_op e))"
  by (simp add: encode_frame_def FRAME_HEADER_def)

lemma slice_frame:
  fixes sq :: bytes
  assumes "length sq = 8" "length n = 4"
  shows "slice (sq @ t # n @ r) 0 8 = sq" "slice (sq @ t # n @ r) 9 4 = n"
    "(sq @ t # n @ r) ! 8 = t" "drop FRAME_HEADER (sq @ t # n @ r) = r"
  using assms by (simp_all add: slice_def nth_append FRAME_HEADER_def)

lemma read_frame_encode:
  assumes "op_ok (we_op e)"
  shows "read_frame_or_torn (encode_frame e @ r) = Ok (FrEntry e, r)"
  using assms decode_encode_op [OF assms]
  by (simp add: read_frame_or_torn_def encode_frame_def slice_frame op_ok_def unat_u32_of_nat Let_def
      del: drop_drop) (simp add: FRAME_HEADER_def)

lemma read_frame_torn:
  assumes "op_ok (we_op e)" "k < length (encode_frame e)"
  shows "\<exists>f. read_frame_or_torn (take k (encode_frame e)) = Ok (f, []) \<and> (f = FrTornTail \<or> f = FrEof)"
proof (cases "k < FRAME_HEADER")
  case True
  then show ?thesis by (simp add: read_frame_or_torn_def min_less_iff_disj)
next
  case False
  define j where "j = k - FRAME_HEADER"
  have k: "k = 13 + j" using False by (simp add: j_def FRAME_HEADER_def)
  let ?b = "encode_op (we_op e)"
  have "take k (encode_frame e) =
      u64_to_le (we_seq e) @ op_tag (we_op e) # u32_to_le (word_of_nat (length ?b)) @ take j ?b"
    by (simp add: k encode_frame_def numeral_eq_Suc)
  moreover have "j < length ?b"
    using assms(2) by (simp add: k length_encode_frame FRAME_HEADER_def)
  ultimately show ?thesis
    using assms(1)
    by (simp add: read_frame_or_torn_def slice_frame op_ok_def unat_u32_of_nat Let_def FRAME_HEADER_def)
qed

lemma read_entries_frames:
  assumes "\<forall>e \<in> set es. op_ok (we_op e)"
  shows "read_entries (frames es @ r) = res_bind (read_entries r) (\<lambda>es'. Ok (es @ es'))"
  using assms
proof (induction es)
  case Nil
  then show ?case by (cases "read_entries r") (simp_all add: frames_def)
next
  case (Cons e es)
  have "read_entries (frames (e # es) @ r) =
      res_bind (read_entries (frames es @ r)) (\<lambda>es'. Ok (e # es'))"
    using Cons.prems by (subst read_entries.simps) (simp add: frames_def read_frame_encode)
  with Cons show ?case by (cases "read_entries r") simp_all
qed

lemma read_entries_Nil [simp]: "read_entries [] = Ok []"
  by (simp add: read_entries.simps read_frame_or_torn_def FRAME_HEADER_def)

lemma read_entries_frames_only:
  "\<forall>e \<in> set es. op_ok (we_op e) \<Longrightarrow> read_entries (frames es) = Ok es"
  using read_entries_frames [of es "[]"] by simp

lemma read_entries_torn:
  assumes "\<forall>e \<in> set es. op_ok (we_op e)" "op_ok (we_op e)" "k < length (encode_frame e)"
  shows "read_entries (frames es @ take k (encode_frame e)) = Ok es"
proof -
  have "read_entries (take k (encode_frame e)) = Ok []"
    using read_frame_torn [OF assms(2,3)] by (auto simp: read_entries.simps [of "take k _"])
  with read_entries_frames [OF assms(1)] show ?thesis by simp
qed

text \<open>A prefix of a sequence of frames reads as a prefix of the entries.\<close>

lemma take_frames:
  assumes "k < length (frames es)"
  obtains i j where "i < length es" "j < length (encode_frame (es ! i))"
    "take k (frames es) = frames (take i es) @ take j (encode_frame (es ! i))"
  using assms
proof (induction es arbitrary: k thesis)
  case (Cons e es)
  show ?case
  proof (cases "k < length (encode_frame e)")
    case True
    show ?thesis
      by (rule Cons.prems(1) [of 0 k]) (use True in \<open>simp_all add: frames_def\<close>)
  next
    case False
    define k' where "k' = k - length (encode_frame e)"
    have "k' < length (frames es)"
      using Cons.prems(2) False by (simp add: frames_def k'_def)
    then obtain i j where ij: "i < length es" "j < length (encode_frame (es ! i))"
      "take k' (frames es) = frames (take i es) @ take j (encode_frame (es ! i))"
      by (rule Cons.IH [rotated])
    show ?thesis
      by (rule Cons.prems(1) [of "Suc i" j])
        (use ij False in \<open>simp_all add: frames_def k'_def\<close>)
  qed
qed (simp add: frames_def)

lemma read_entries_prefix:
  assumes "\<forall>e \<in> set es. op_ok (we_op e)" "\<forall>e \<in> set fs. op_ok (we_op e)"
  shows "\<exists>j \<le> length fs. read_entries (frames es @ take k (frames fs)) = Ok (es @ take j fs)"
proof (cases "k < length (frames fs)")
  case True
  then obtain i j where ij: "i < length fs" "j < length (encode_frame (fs ! i))"
    "take k (frames fs) = frames (take i fs) @ take j (encode_frame (fs ! i))"
    by (rule take_frames)
  have "read_entries (frames (es @ take i fs) @ take j (encode_frame (fs ! i))) = Ok (es @ take i fs)"
    using assms ij(1,2) by (intro read_entries_torn) (auto dest: in_set_takeD)
  with ij show ?thesis by (auto simp: frames_def intro!: exI [of _ i])
next
  case False
  moreover have "read_entries (frames (es @ fs)) = Ok (es @ fs)"
    using assms by (intro read_entries_frames_only) auto
  ultimately show ?thesis
    by (auto simp: frames_def intro!: exI [of _ "length fs"])
qed

text \<open>What is read from any log is well formed, so rewriting it reads back the same.\<close>

lemma read_frame_ok:
  assumes "read_frame_or_torn rd = Ok (FrEntry e, rest)"
  shows "op_ok (we_op e)"
proof -
  let ?n = "unat (u32_from_le (slice rd 9 4))"
  from assms obtain body where "decode_op (rd ! 8) body = Ok (we_op e)" "length body \<le> ?n"
    by (auto simp: read_frame_or_torn_def Let_def split: if_splits)
  with encode_decode_op [of "rd ! 8" body "we_op e"] unat_u32_le show ?thesis
    by (fastforce simp: op_ok_def intro: order_trans)
qed

lemma read_entries_ok:
  "read_entries rd = Ok es \<Longrightarrow> e \<in> set es \<Longrightarrow> op_ok (we_op e)"
proof (induction rd arbitrary: es rule: read_entries.induct)
  case (1 rd)
  show ?case
  proof (cases "read_frame_or_torn rd")
    case (Ok p)
    obtain f rest where p: "p = (f, rest)" by (cases p)
    show ?thesis
    proof (cases f)
      case (FrEntry e0)
      then obtain es' where es': "read_entries rest = Ok es'" "es = e0 # es'"
        using "1.prems"(1) Ok p by (auto simp: read_entries.simps [of rd])
      with "1.IH" [OF Ok p [symmetric] FrEntry] "1.prems"(2) read_frame_ok [of rd e0 rest] Ok p FrEntry
      show ?thesis by auto
    qed (use 1 Ok p in \<open>auto simp: read_entries.simps [of rd]\<close>)
  qed (use 1 in \<open>auto simp: read_entries.simps [of rd]\<close>)
qed

section \<open>The log as a list of entries\<close>

definition wal_clean :: "wal \<Rightarrow> wal_entry list \<Rightarrow> bool" where
  "wal_clean w es \<longleftrightarrow> fs_ok (wl_dir w) \<and> fs_read (wl_dir w) WAL_LOG = Some (frames es) \<and>
     (\<forall>e \<in> set es. op_ok (we_op e))"

fun number :: "u64 \<Rightarrow> wal_op list \<Rightarrow> wal_entry list" where
  "number sq [] = []"
| "number sq (op # ops) = \<lparr>we_seq = sq, we_op = op\<rparr> # number (sq + 1) ops"

lemma log_bytes_write [simp]: "log_bytes (fs_write d WAL_LOG bs) = bs"
  by (simp add: log_bytes_def)

lemma wal_clean_read_all: "wal_clean w es \<Longrightarrow> read_all w = Ok es"
  by (simp add: wal_clean_def read_all_def log_bytes_def read_entries_frames_only)

lemma wal_clean_append:
  assumes "wal_clean w es" "op_wf op" "length (encode_op op) \<le> U32_MAX"
  shows "\<exists>w'. wal_append w op = (Ok (wl_next_seq w), w') \<and> wl_next_seq w' = wl_next_seq w + 1 \<and>
    wal_clean w' (es @ [\<lparr>we_seq = wl_next_seq w, we_op = op\<rparr>])"
  using assms
  by (auto simp: wal_append_def wal_clean_def op_ok_def frames_def log_bytes_def Let_def)

lemma batch_frames_Ok:
  "batch_frames ops sq buf = Ok (buf', sq') \<Longrightarrow>
     buf' = buf @ frames (number sq ops) \<and> (\<forall>op \<in> set ops. length (encode_op op) \<le> U32_MAX)"
  by (induction ops sq buf rule: batch_frames.induct) (auto simp: frames_def split: if_splits)

lemma batch_frames_total:
  "\<forall>op \<in> set ops. length (encode_op op) \<le> U32_MAX \<Longrightarrow>
     batch_frames ops sq buf = Ok (buf @ frames (number sq ops), sq + word_of_nat (length ops))"
  by (induction ops sq buf rule: batch_frames.induct) (auto simp: frames_def algebra_simps)

lemma number_ok: "\<forall>op \<in> set ops. op_ok op \<Longrightarrow> e \<in> set (number sq ops) \<Longrightarrow> op_ok (we_op e)"
  by (induction sq ops rule: number.induct) auto

lemma length_number [simp]: "length (number sq ops) = length ops"
  by (induction sq ops rule: number.induct) auto

lemma wal_clean_append_batch:
  assumes "wal_clean w es" "\<forall>op \<in> set ops. op_ok op"
  shows "\<exists>w'. append_batch w ops = (Ok (wl_next_seq w), w') \<and>
    wl_next_seq w' = wl_next_seq w + word_of_nat (length ops) \<and>
    wal_clean w' (es @ number (wl_next_seq w) ops)"
  using assms batch_frames_total [of ops "wl_next_seq w" "[]"] number_ok [OF assms(2)]
  by (auto simp: append_batch_def wal_clean_def op_ok_def frames_def log_bytes_def)

text \<open>What is on disk when the process dies while it appends \<open>buf\<close> to the log.\<close>

definition append_crash :: "fs \<Rightarrow> bytes \<Rightarrow> nat \<Rightarrow> fs" where
  "append_crash d buf k = fs_write d WAL_LOG (log_bytes d @ take k buf)"

lemma fs_open_create_read:
  assumes "fs_ok d" "m \<noteq> n"
  shows "fs_read (snd (fs_open_create d n)) m = fs_read d m"
proof (cases "fs_open_create d n")
  case (Pair i d')
  then show ?thesis
    using fs_open_create_other [OF Pair assms(2)] fs_open_create_data [OF assms(1) Pair, of m]
    by (cases "fs_inode d m") (simp_all add: fs_read_def)
qed

lemma fs_open_create_read_same:
  "fs_read d n = Some bs \<Longrightarrow> fs_open_create d n = (i, d') \<Longrightarrow> d' = d"
  by (auto simp: fs_open_create_def fs_read_def split: option.splits)

lemma wal_open_existing:
  assumes ok: "fs_ok d" and log: "fs_read d WAL_LOG = Some bs"
    and es: "read_entries bs = Ok es"
  shows "\<exists>w. wal_open d = Ok w \<and> fs_ok (wl_dir w) \<and> fs_read (wl_dir w) WAL_LOG = Some bs \<and>
    read_all w = Ok es \<and> wl_next_seq w = foldl (\<lambda>m e. max m (we_seq e)) 0 es + 1"
proof -
  obtain i d1 where d1: "fs_open_create d ''wal.lock'' = (i, d1)"
    by (cases "fs_open_create d ''wal.lock''")
  obtain j d2 where d2: "fs_open_create d1 WAL_LOG = (j, d2)"
    by (cases "fs_open_create d1 WAL_LOG")
  have log1: "fs_read d1 WAL_LOG = Some bs"
    using fs_open_create_read [OF ok, of WAL_LOG "''wal.lock''"] log d1 by (simp add: WAL_LOG_def)
  with d2 have "d2 = d1" by (rule fs_open_create_read_same [rotated])
  moreover have "fs_exists d1 WAL_LOG"
    using log1 by (auto simp: fs_exists_def fs_read_def)
  ultimately show ?thesis
    using fs_open_create_ok [OF ok d1] log1 es d1 d2
    by (simp add: wal_open_def max_seq_def read_all_def log_bytes_def Let_def)
qed

lemma foldl_max_seq: "foldl (\<lambda>m e. max m (we_seq e)) m es = Max (insert m (we_seq ` set es))"
proof (induction es arbitrary: m)
  case (Cons e es)
  have "Max (insert (max m (we_seq e)) (we_seq ` set es)) =
      Max (insert m (insert (we_seq e) (we_seq ` set es)))"
    by (cases "set es = {}") (simp_all add: max.assoc)
  with Cons show ?case by simp
qed simp

section \<open>Properties\<close>

text \<open>
  Codec of the log (C22).  Decoding accepts exactly the encodings: a body of at most
  \<open>u32::MAX\<close> bytes decodes to an operation if and only if it is the encoding of that
  operation under its tag and the table id is valid UTF-8; everything else is an error.
\<close>

theorem decode_op_exact:
  assumes "length body \<le> U32_MAX"
  shows "decode_op tag body = Ok op \<longleftrightarrow> op_tag op = tag \<and> encode_op op = body \<and> op_wf op"
  using assms encode_decode_op [of tag body op] decode_encode_op [of op]
  by (auto simp: op_ok_def)

theorem decode_op_exact_witness:
  "length [1 :: u8, 0, 0, 0, 65] \<le> U32_MAX \<and> decode_op 3 [1, 0, 0, 0, 65] = Ok (DeleteKv [65])"
proof
  show len: "length [1 :: u8, 0, 0, 0, 65] \<le> U32_MAX" by simp
  show "decode_op 3 [1, 0, 0, 0, 65] = Ok (DeleteKv [65])"
    unfolding decode_op_exact [OF len] by code_simp
qed

text \<open>
  Durability of a logged operation (C17).  After an append to a log that is exactly the frames of the entries \<open>es\<close>, without a
  torn tail, opening the directory again reads \<open>es\<close> followed by the new entry, with the sequence number the
  append returned.  A log that a crash left with a torn last frame is not such a log, and opening it does not make it one:
  then the next append can be lost (\<open>torn_tail_corrupts_next_append\<close>).
\<close>

theorem wal_append_durable:
  assumes "wal_clean w es" "op_wf op" "length (encode_op op) \<le> U32_MAX"
  shows "\<exists>w' w''. wal_append w op = (Ok (wl_next_seq w), w') \<and> wal_open (wl_dir w') = Ok w'' \<and>
    read_all w'' = Ok (es @ [\<lparr>we_seq = wl_next_seq w, we_op = op\<rparr>])"
proof -
  obtain w' where w': "wal_append w op = (Ok (wl_next_seq w), w')"
    "wal_clean w' (es @ [\<lparr>we_seq = wl_next_seq w, we_op = op\<rparr>])"
    using wal_clean_append [OF assms] by blast
  from w'(2) have "fs_ok (wl_dir w')" and
    log: "fs_read (wl_dir w') WAL_LOG = Some (frames (es @ [\<lparr>we_seq = wl_next_seq w, we_op = op\<rparr>]))"
    and ok: "\<forall>e \<in> set (es @ [\<lparr>we_seq = wl_next_seq w, we_op = op\<rparr>]). op_ok (we_op e)"
    unfolding wal_clean_def by blast+
  with wal_open_existing [OF this(1) log read_entries_frames_only [OF ok]] w'(1)
  show ?thesis by blast
qed

abbreviation wal_fresh :: wal where
  "wal_fresh \<equiv> \<lparr>wl_dir = fs_write fs_empty WAL_LOG [], wl_next_seq = 1\<rparr>"

lemma wal_clean_empty: "wal_clean wal_fresh []"
  by (simp add: wal_clean_def frames_def)

theorem wal_append_durable_witness:
  "\<exists>w' w''. wal_append wal_fresh (DeleteVector 7) = (Ok 1, w') \<and> wal_open (wl_dir w') = Ok w'' \<and>
    read_all w'' = Ok [\<lparr>we_seq = 1, we_op = DeleteVector 7\<rparr>]"
  using wal_append_durable [OF wal_clean_empty, of "DeleteVector 7"] by simp

text \<open>
  Torn writes.  Whatever part of a batch reaches the disk before a crash, reopening
  succeeds and reads the old entries followed by a prefix of the batch: nothing is
  misread and nothing that was there before is lost.  The prefix may be a proper one, so the
  batch as a whole is not atomic.
\<close>

theorem append_batch_crash:
  assumes "wal_clean w es" "\<forall>op \<in> set ops. op_ok op"
  shows "\<exists>w' j. wal_open (append_crash (wl_dir w) (frames (number (wl_next_seq w) ops)) k) = Ok w' \<and>
    j \<le> length ops \<and> read_all w' = Ok (es @ take j (number (wl_next_seq w) ops))"
proof -
  let ?f = "number (wl_next_seq w) ops"
  have es: "\<forall>e \<in> set es. op_ok (we_op e)" and log: "log_bytes (wl_dir w) = frames es"
    using assms(1) by (simp_all add: wal_clean_def log_bytes_def)
  have fs: "\<forall>e \<in> set ?f. op_ok (we_op e)"
    using number_ok [OF assms(2)] by blast
  obtain j where j: "j \<le> length ops" "read_entries (frames es @ take k (frames ?f)) = Ok (es @ take j ?f)"
    using read_entries_prefix [OF es fs] by auto
  have "fs_ok (append_crash (wl_dir w) (frames ?f) k)"
    "fs_read (append_crash (wl_dir w) (frames ?f) k) WAL_LOG = Some (frames es @ take k (frames ?f))"
    using assms(1) by (simp_all add: append_crash_def wal_clean_def log)
  from wal_open_existing [OF this j(2)] j(1) show ?thesis by blast
qed

theorem append_batch_crash_witness:
  "\<exists>w' j. wal_open (append_crash (wl_dir wal_fresh)
      (frames (number (wl_next_seq wal_fresh) [DeleteVector 7, DeleteVector 8])) 30) = Ok w' \<and>
    j \<le> length [DeleteVector 7, DeleteVector 8] \<and>
    read_all w' = Ok ([] @ take j (number (wl_next_seq wal_fresh) [DeleteVector 7, DeleteVector 8]))"
  by (rule append_batch_crash [OF wal_clean_empty]) code_simp

text \<open>
  Batches are not atomic.  A crash after 30 bytes of a two-entry batch leaves the first
  entry of the batch in the log: recovery replays half of the batch.
\<close>

theorem append_batch_not_atomic:
  "res_bind (wal_open (append_crash (fs_write fs_empty WAL_LOG [])
       (frames (number 1 [DeleteVector 7, DeleteVector 8])) 30)) read_all
     = Ok [\<lparr>we_seq = 1, we_op = DeleteVector 7\<rparr>]"
  by code_simp

definition append_after_crash :: "wal_op \<Rightarrow> nat \<Rightarrow> wal_op \<Rightarrow> wal_entry list res" where
  "append_after_crash op k op' =
     res_bind (wal_open (append_crash (wl_dir wal_fresh) (frames (number 1 [op])) k))
       (\<lambda>w. case wal_append w op' of
              (r, w') \<Rightarrow> res_bind r (\<lambda>sq. res_bind (wal_open (wl_dir w')) read_all))"

text \<open>
  Appending after a torn tail.  Opening does not cut a torn tail off the log.  When a
  crash inside a put leaves a torn frame, the next append is acknowledged, but its bytes
  complete the torn frame: the acknowledged deletion is lost and recovery sees a put of
  a value nobody wrote.  With other lengths the log cannot be opened at all.
\<close>

theorem torn_tail_corrupts_next_append:
  "append_after_crash (PutKv [9] (replicate 17 7)) 22 (DeleteKv []) =
     Ok [\<lparr>we_seq = 1, we_op = PutKv [9] [1, 0, 0, 0, 0, 0, 0, 0, 3, 4, 0, 0, 0, 0, 0, 0, 0]\<rparr>] \<and>
   append_after_crash (PutKv [] []) 14 (DeleteKv []) = Err (Corrupt ''wal op body truncated'')"
  by (rule conjI) code_simp+

lemma truncate_to_reads:
  assumes "read_all w = Ok es"
  shows "\<exists>w'. truncate_to w applied = (Ok (), w') \<and> wl_next_seq w' = wl_next_seq w \<and>
    read_all w' = Ok (filter (\<lambda>e. we_seq e > applied) es) \<and>
    (w' = w \<or> (\<exists>bs. w' = w\<lparr>wl_dir := fs_write (wl_dir w) WAL_LOG bs\<rparr>))"
proof (cases "es = []")
  case True
  with assms show ?thesis by (simp add: truncate_to_def)
next
  case False
  let ?keep = "filter (\<lambda>e. we_seq e > applied) es"
  have "\<forall>e \<in> set ?keep. op_ok (we_op e)"
    using assms read_entries_ok by (auto simp: read_all_def)
  then have "read_entries (concat (map encode_frame ?keep)) = Ok ?keep"
    unfolding frames_def [symmetric] by (rule read_entries_frames_only)
  with assms False show ?thesis by (auto simp: truncate_to_def read_all_def)
qed

text \<open>
  Truncation.  After \<open>truncate_to applied\<close> the log reads exactly the entries with a
  larger sequence number, in their order, whatever the bytes of the log were.
\<close>

theorem truncate_to_correct:
  assumes "read_all w = Ok es"
  shows "\<exists>w'. truncate_to w applied = (Ok (), w') \<and> wl_next_seq w' = wl_next_seq w \<and>
    read_all w' = Ok (filter (\<lambda>e. we_seq e > applied) es)"
  using truncate_to_reads [OF assms] by blast

theorem truncate_to_correct_witness:
  "\<exists>w'. truncate_to \<lparr>wl_dir = fs_write fs_empty WAL_LOG (frames (number 1 [DeleteVector 7, DeleteVector 8])),
        wl_next_seq = 3\<rparr> 1 = (Ok (), w') \<and> wl_next_seq w' = 3 \<and>
    read_all w' = Ok [\<lparr>we_seq = 2, we_op = DeleteVector 8\<rparr>]"
  using truncate_to_correct
    [of "\<lparr>wl_dir = fs_write fs_empty WAL_LOG (frames (number 1 [DeleteVector 7, DeleteVector 8])),
        wl_next_seq = 3\<rparr>" "number 1 [DeleteVector 7, DeleteVector 8]" 1]
  by (simp add: read_all_def read_entries_frames_only op_ok_def)

end
