(* ===== verification/Recover.thy ===== *)
theory Recover
  imports Wal
begin

text \<open>
  \<open>fs-core/src/mem/recover.rs\<close> and the plan the engine reads through its own log
  (\<open>Engine::pending_recover_plan\<close>): the entries with a sequence number above the one of the
  checkpoint marker.  \<open>from_slice\<close> and \<open>to_vec\<close> are \<open>serde_json\<close>'s decoder and encoder of the
  marker; what is used of them is that decoding an encoding gives the marker back.
\<close>

record recover_plan =
  rp_entries :: "wal_entry list"
  rp_applied_seq :: u64

type_synonym marker_decoder = "bytes \<Rightarrow> checkpoint_marker option"

definition marker_applied :: "checkpoint_marker option \<Rightarrow> u64" where
  "marker_applied m = (case m of None \<Rightarrow> 0 | Some c \<Rightarrow> cm_applied_seq c)"

definition pending_recover_plan :: "marker_decoder \<Rightarrow> wal \<Rightarrow> recover_plan res" where
  "pending_recover_plan from_slice w =
     res_bind (read_marker from_slice w) (\<lambda>m.
     res_bind (read_all w) (\<lambda>all.
       Ok \<lparr>rp_entries = filter (\<lambda>e. we_seq e > marker_applied m) all,
           rp_applied_seq = marker_applied m\<rparr>))"

definition build_recover_plan :: "marker_decoder \<Rightarrow> fs \<Rightarrow> recover_plan res" where
  "build_recover_plan from_slice d =
     res_bind (wal_open d) (\<lambda>w.
     res_bind (read_marker from_slice w) (\<lambda>m.
     res_bind (read_all w) (\<lambda>all.
       Ok \<lparr>rp_entries = filter (\<lambda>e. we_seq e > marker_applied m) all,
           rp_applied_seq = marker_applied m\<rparr>)))"

definition finalize_recover :: "fs \<Rightarrow> u64 \<Rightarrow> unit res \<times> fs" where
  "finalize_recover d applied =
     (case wal_open d of
        Ok w \<Rightarrow> (case truncate_to w applied of (r, w') \<Rightarrow> (r, wl_dir w'))
      | Err e \<Rightarrow> (Err e, d)
      | Panic \<Rightarrow> (Panic, d))"

section \<open>The marker\<close>

definition serde_marker_law :: "(checkpoint_marker \<Rightarrow> bytes) \<Rightarrow> marker_decoder \<Rightarrow> bool" where
  "serde_marker_law to_vec from_slice \<longleftrightarrow> (\<forall>m. from_slice (to_vec m) = Some m)"

lemma MARKER_neq [simp]:
  "WAL_LOG \<noteq> MARKER" "MARKER \<noteq> WAL_LOG" "WAL_LOG \<noteq> ''checkpoint.marker.tmp''"
  "MARKER \<noteq> ''checkpoint.marker.tmp''" "''checkpoint.marker.tmp'' \<noteq> MARKER"
  "MARKER \<noteq> ''wal.lock''" "WAL_LOG \<noteq> ''wal.lock''"
  by (simp_all add: WAL_LOG_def MARKER_def)

lemma read_write_marker:
  "serde_marker_law to_vec from_slice \<Longrightarrow>
     read_marker from_slice (write_marker to_vec w m) = Ok (Some m)"
  by (simp add: read_marker_def write_marker_def atomic_write_read serde_marker_law_def)

lemma wal_clean_write_marker:
  "wal_clean w es \<Longrightarrow> wal_clean (write_marker to_vec w m) es"
  by (simp add: wal_clean_def write_marker_def atomic_write_other)

lemma read_marker_log_write:
  "fs_ok (wl_dir w) \<Longrightarrow>
     read_marker from_slice \<lparr>wl_dir = fs_write (wl_dir w) WAL_LOG bs, wl_next_seq = sq\<rparr> =
     read_marker from_slice w"
  by (simp add: read_marker_def fs_read_write_other)

text \<open>Opening the log leaves the marker and the log as they are.\<close>

lemma wal_open_keeps:
  assumes ok: "fs_ok d" and log: "fs_read d WAL_LOG = Some bs" and es: "read_entries bs = Ok es"
  shows "\<exists>w. wal_open d = Ok w \<and> fs_ok (wl_dir w) \<and> fs_read (wl_dir w) WAL_LOG = Some bs \<and>
    read_all w = Ok es \<and> wl_next_seq w = foldl (\<lambda>m e. max m (we_seq e)) 0 es + 1 \<and>
    fs_read (wl_dir w) MARKER = fs_read d MARKER"
proof -
  obtain w where w: "wal_open d = Ok w" "fs_ok (wl_dir w)" "fs_read (wl_dir w) WAL_LOG = Some bs"
    "read_all w = Ok es" "wl_next_seq w = foldl (\<lambda>m e. max m (we_seq e)) 0 es + 1"
    using wal_open_existing [OF assms] by blast
  let ?d1 = "snd (fs_open_create d ''wal.lock'')"
  have ok1: "fs_ok ?d1"
    using fs_open_create_ok [OF ok] by (metis prod.collapse)
  have "wl_dir w = snd (fs_open_create ?d1 WAL_LOG)"
    using w(1) by (auto simp: wal_open_def Let_def)
  then have "fs_read (wl_dir w) MARKER = fs_read d MARKER"
    by (simp add: fs_open_create_read [OF ok1] fs_open_create_read [OF ok])
  with w show ?thesis by blast
qed

section \<open>Properties\<close>

text \<open>
  Atomicity of the checkpoint marker (C10).  Whatever state a crash inside \<open>write_marker\<close>
  leaves, the marker that is read back is the old one or the new one, and the log is
  untouched.
\<close>

theorem write_marker_atomic:
  assumes "serde_marker_law to_vec from_slice" "fs_ok (wl_dir w)"
    and "d \<in> set (atomic_write_states (wl_dir w) ''checkpoint.marker.tmp'' MARKER (to_vec m))"
  shows "(read_marker from_slice (w\<lparr>wl_dir := d\<rparr>) = read_marker from_slice w \<or>
      read_marker from_slice (w\<lparr>wl_dir := d\<rparr>) = Ok (Some m)) \<and>
    read_all (w\<lparr>wl_dir := d\<rparr>) = read_all w"
proof -
  have "fs_read d MARKER = fs_read (wl_dir w) MARKER \<or> fs_read d MARKER = Some (to_vec m)"
    by (rule atomic_write_crash_states [OF assms(2) _ assms(3)]) simp
  moreover have "fs_read d WAL_LOG = fs_read (wl_dir w) WAL_LOG"
    using assms(2,3) by (auto simp: atomic_write_states_def atomic_write_other fs_read_write_other)
  ultimately show ?thesis
    using assms(1) by (auto simp: read_marker_def read_all_def log_bytes_def serde_marker_law_def)
qed

text \<open>A marker codec that satisfies the law, for the witnesses.\<close>

definition toy_to_vec :: "checkpoint_marker \<Rightarrow> bytes" where
  "toy_to_vec m = u64_to_le (cm_applied_seq m) @ u64_to_le (cm_checkpoint_seq m) @
     (case cm_graph_snapshot m of None \<Rightarrow> [] | Some s \<Rightarrow> 1 # map of_char s)"

definition toy_from_slice :: marker_decoder where
  "toy_from_slice bs = Some
     \<lparr>cm_applied_seq = u64_from_le (take 8 bs), cm_checkpoint_seq = u64_from_le (take 8 (drop 8 bs)),
      cm_graph_snapshot = (case drop 16 bs of [] \<Rightarrow> None | _ # s \<Rightarrow> Some (map (\<lambda>w. char_of (unat w)) s))\<rparr>"

lemma char_of_of_char_u8: "char_of (unat (of_char c :: u8)) = c"
proof -
  have "unat (of_char c :: u8) = (of_char c :: nat) mod 256"
    by (metis of_nat_of_char unat_word_of_nat_u8)
  then show ?thesis by simp
qed

lemma toy_marker_law: "serde_marker_law toy_to_vec toy_from_slice"
  by (auto simp: serde_marker_law_def toy_to_vec_def toy_from_slice_def char_of_of_char_u8
      comp_def split: option.split)

theorem write_marker_atomic_witness:
  "let m = \<lparr>cm_applied_seq = 3, cm_checkpoint_seq = 3, cm_graph_snapshot = None\<rparr>;
       d = atomic_write (wl_dir wal_fresh) ''checkpoint.marker.tmp'' MARKER (toy_to_vec m)
   in (read_marker toy_from_slice (wal_fresh\<lparr>wl_dir := d\<rparr>) = read_marker toy_from_slice wal_fresh \<or>
       read_marker toy_from_slice (wal_fresh\<lparr>wl_dir := d\<rparr>) = Ok (Some m)) \<and>
    read_all (wal_fresh\<lparr>wl_dir := d\<rparr>) = read_all wal_fresh"
  unfolding Let_def
  by (rule write_marker_atomic [OF toy_marker_law]) (simp_all add: atomic_write_states_def)

text \<open>
  Replay completeness within one run.  As long as the checkpoint is behind the next
  sequence number, an operation that is logged is the last entry of the recovery plan a
  restart builds, after the entries that were pending before.
\<close>

theorem append_is_pending:
  assumes clean: "wal_clean w es" and op: "op_wf op" "length (encode_op op) \<le> U32_MAX"
    and m: "read_marker from_slice w = Ok m" and a: "marker_applied m < wl_next_seq w"
  shows "\<exists>w'. wal_append w op = (Ok (wl_next_seq w), w') \<and>
    build_recover_plan from_slice (wl_dir w') =
      Ok \<lparr>rp_entries = filter (\<lambda>e. we_seq e > marker_applied m) es @
            [\<lparr>we_seq = wl_next_seq w, we_op = op\<rparr>],
          rp_applied_seq = marker_applied m\<rparr>"
proof -
  let ?es = "es @ [\<lparr>we_seq = wl_next_seq w, we_op = op\<rparr>]"
  obtain w' where w': "wal_append w op = (Ok (wl_next_seq w), w')" "wal_clean w' ?es"
    using wal_clean_append [OF clean op] by blast
  then have c: "fs_ok (wl_dir w')" "fs_read (wl_dir w') WAL_LOG = Some (frames ?es)"
    "\<forall>e \<in> set ?es. op_ok (we_op e)"
    unfolding wal_clean_def by blast+
  obtain w2 where w2: "wal_open (wl_dir w') = Ok w2" "read_all w2 = Ok ?es"
    "fs_read (wl_dir w2) MARKER = fs_read (wl_dir w') MARKER"
    using wal_open_keeps [OF c(1,2) read_entries_frames_only [OF c(3)]] by blast
  have "fs_read (wl_dir w') MARKER = fs_read (wl_dir w) MARKER"
    using w'(1) clean by (auto simp: wal_append_def wal_clean_def fs_read_write_other Let_def
        split: if_splits)
  with m w2(3) have "read_marker from_slice w2 = Ok m"
    by (simp add: read_marker_def)
  with w'(1) w2 a show ?thesis by (simp add: build_recover_plan_def)
qed

theorem append_is_pending_witness:
  "\<exists>w'. wal_append wal_fresh (DeleteVector 7) = (Ok 1, w') \<and>
    build_recover_plan toy_from_slice (wl_dir w') =
      Ok \<lparr>rp_entries = [\<lparr>we_seq = 1, we_op = DeleteVector 7\<rparr>], rp_applied_seq = 0\<rparr>"
proof -
  have m: "read_marker toy_from_slice wal_fresh = Ok None" by code_simp
  show ?thesis
    using append_is_pending [OF wal_clean_empty _ _ m, of "DeleteVector 7"]
    by (simp add: marker_applied_def)
qed

text \<open>
  Sequence numbers restart.  A checkpoint at \<open>a\<close> truncates the log; after a restart the
  empty log makes the numbering start again at 1.  The next operation is acknowledged, but
  since its number is not above \<open>a\<close>, the plan of the following recovery is empty: the
  acknowledged operation is never replayed.
\<close>

theorem seq_restart_hides_append:
  assumes serde: "serde_marker_law to_vec from_slice"
    and clean: "wal_clean w es" and old: "\<forall>e \<in> set es. we_seq e \<le> cm_applied_seq m"
    and m: "cm_applied_seq m \<noteq> 0" and es: "es \<noteq> []"
    and op: "op_wf op" "length (encode_op op) \<le> U32_MAX"
  shows "\<exists>w1 w2 w3. truncate_to (write_marker to_vec w m) (cm_applied_seq m) = (Ok (), w1) \<and>
    wal_open (wl_dir w1) = Ok w2 \<and> wal_append w2 op = (Ok 1, w3) \<and>
    build_recover_plan from_slice (wl_dir w3) =
      Ok \<lparr>rp_entries = [], rp_applied_seq = cm_applied_seq m\<rparr>"
proof -
  let ?wm = "write_marker to_vec w m"
  have cm: "wal_clean ?wm es" by (rule wal_clean_write_marker [OF clean])
  have "filter (\<lambda>e. we_seq e > cm_applied_seq m) es = []"
    using old by (auto simp: filter_empty_conv)
  with es wal_clean_read_all [OF cm]
  have t: "truncate_to ?wm (cm_applied_seq m) = (Ok (), ?wm\<lparr>wl_dir := fs_write (wl_dir ?wm) WAL_LOG []\<rparr>)"
    by (simp add: truncate_to_def)
  let ?d1 = "fs_write (wl_dir ?wm) WAL_LOG []"
  have d1: "fs_ok ?d1" "fs_read ?d1 WAL_LOG = Some []"
    "fs_read ?d1 MARKER = Some (to_vec m)"
    using cm by (simp_all add: wal_clean_def fs_read_write_other)
      (simp add: write_marker_def atomic_write_read)
  obtain w2 where w2: "wal_open ?d1 = Ok w2" "fs_ok (wl_dir w2)" "fs_read (wl_dir w2) WAL_LOG = Some []"
    "wl_next_seq w2 = 1" "fs_read (wl_dir w2) MARKER = Some (to_vec m)"
    using wal_open_keeps [OF d1(1,2) read_entries_Nil] d1(3) by auto
  have c2: "wal_clean w2 []" using w2 by (simp add: wal_clean_def frames_def)
  obtain w3 where w3: "wal_append w2 op = (Ok 1, w3)"
    "wal_clean w3 [\<lparr>we_seq = 1, we_op = op\<rparr>]"
    using wal_clean_append [OF c2 op] w2(4) by auto
  then have c3: "fs_ok (wl_dir w3)" "fs_read (wl_dir w3) WAL_LOG = Some (frames [\<lparr>we_seq = 1, we_op = op\<rparr>])"
    "\<forall>e \<in> set [\<lparr>we_seq = 1, we_op = op\<rparr>]. op_ok (we_op e)"
    unfolding wal_clean_def by blast+
  have m3: "fs_read (wl_dir w3) MARKER = Some (to_vec m)"
    using w3(1) w2(2,5) by (auto simp: wal_append_def fs_read_write_other Let_def split: if_splits)
  obtain w4 where w4: "wal_open (wl_dir w3) = Ok w4" "read_all w4 = Ok [\<lparr>we_seq = 1, we_op = op\<rparr>]"
    "fs_read (wl_dir w4) MARKER = Some (to_vec m)"
    using wal_open_keeps [OF c3(1,2) read_entries_frames_only [OF c3(3)]] m3 by auto
  have "read_marker from_slice w4 = Ok (Some m)"
    using serde w4(3) by (simp add: read_marker_def serde_marker_law_def)
  with w4 m have "build_recover_plan from_slice (wl_dir w3) =
      Ok \<lparr>rp_entries = [], rp_applied_seq = cm_applied_seq m\<rparr>"
    by (simp add: build_recover_plan_def marker_applied_def linorder_not_less)
  with t w2(1) w3(1) show ?thesis by auto
qed

theorem seq_restart_hides_append_witness:
  "let m = \<lparr>cm_applied_seq = 1, cm_checkpoint_seq = 1, cm_graph_snapshot = None\<rparr>;
       w = snd (wal_append wal_fresh (DeleteVector 7))
   in \<exists>w1 w2 w3. truncate_to (write_marker toy_to_vec w m) (cm_applied_seq m) = (Ok (), w1) \<and>
    wal_open (wl_dir w1) = Ok w2 \<and> wal_append w2 (DeleteVector 8) = (Ok 1, w3) \<and>
    build_recover_plan toy_from_slice (wl_dir w3) =
      Ok \<lparr>rp_entries = [], rp_applied_seq = cm_applied_seq m\<rparr>"
proof -
  have "wal_clean (snd (wal_append wal_fresh (DeleteVector 7))) [\<lparr>we_seq = 1, we_op = DeleteVector 7\<rparr>]"
    using wal_clean_append [OF wal_clean_empty, of "DeleteVector 7"] by auto
  from seq_restart_hides_append [OF toy_marker_law this, of
      "\<lparr>cm_applied_seq = 1, cm_checkpoint_seq = 1, cm_graph_snapshot = None\<rparr>" "DeleteVector 8"]
  show ?thesis by (simp add: Let_def)
qed

end
