(* ===== verification/Seg_Names.thy ===== *)
theory Seg_Names
  imports Fs
begin

text \<open>
  Names of segment files: \<open>format!("kv_payload_{:04}.mmap")\<close> and its parser, and the scan of
  a directory for the next segment id.  The KV and columnar pool (\<open>mem/segment.rs\<close>) and the
  vector pool (\<open>vector/store.rs\<close>) use the same scheme with different prefixes.
\<close>

section \<open>Decimal numbers\<close>

definition digit :: "nat \<Rightarrow> char" where
  "digit n = char_of (48 + n)"

fun dec :: "nat \<Rightarrow> string" where
  "dec n = (if n < 10 then [digit n] else dec (n div 10) @ [digit (n mod 10)])"

declare dec.simps [simp del]

definition fmt04 :: "nat \<Rightarrow> string" where
  "fmt04 n = replicate (4 - length (dec n)) (CHR ''0'') @ dec n"

definition is_digit :: "char \<Rightarrow> bool" where
  "is_digit c = (48 \<le> (of_char c :: nat) \<and> (of_char c :: nat) \<le> 57)"

definition digits_val :: "string \<Rightarrow> nat" where
  "digits_val s = foldl (\<lambda>a c. a * 10 + (of_char c - 48)) 0 s"

text \<open>\<open><u32 as FromStr>::from_str\<close>: an optional plus sign, digits, no overflow.\<close>

definition parse_u32 :: "string \<Rightarrow> u32 option" where
  "parse_u32 s =
     (let ds = (case s of c # r \<Rightarrow> if c = CHR ''+'' then r else s | [] \<Rightarrow> [])
      in if ds = [] \<or> \<not> list_all is_digit ds then None
         else if digits_val ds > U32_MAX then None
         else Some (word_of_nat (digits_val ds)))"

definition strip_prefix :: "string \<Rightarrow> string \<Rightarrow> string option" where
  "strip_prefix p s = (if take (length p) s = p then Some (drop (length p) s) else None)"

definition strip_suffix :: "string \<Rightarrow> string \<Rightarrow> string option" where
  "strip_suffix p s =
     (if length p \<le> length s \<and> drop (length s - length p) s = p
      then Some (take (length s - length p) s) else None)"

section \<open>Segment file names\<close>

definition seg_name :: "string \<Rightarrow> u32 \<Rightarrow> string" where
  "seg_name pre i = pre @ fmt04 (unat i) @ ''.mmap''"

definition parse_seg_name :: "string \<Rightarrow> string \<Rightarrow> u32 option" where
  "parse_seg_name pre s =
     (case strip_prefix pre s of
        None \<Rightarrow> None
      | Some r \<Rightarrow> (case strip_suffix ''.mmap'' r of None \<Rightarrow> None | Some ds \<Rightarrow> parse_u32 ds))"

definition max_seg_step :: "string \<Rightarrow> u32 option \<Rightarrow> string \<Rightarrow> u32 option" where
  "max_seg_step pre m name =
     (case parse_seg_name pre name of
        None \<Rightarrow> m
      | Some i \<Rightarrow> Some (case m of None \<Rightarrow> i | Some j \<Rightarrow> max j i))"

definition next_seg_of :: "string \<Rightarrow> fs \<Rightarrow> u32" where
  "next_seg_of pre d =
     (case foldl (max_seg_step pre) None (map fst (fs_names d)) of
        None \<Rightarrow> 0
      | Some m \<Rightarrow> m + 1)"

text \<open>\<open>path.extension() == Some("mmap")\<close> and the sum of the file lengths.\<close>

definition has_mmap_ext :: "string \<Rightarrow> bool" where
  "has_mmap_ext n = (case strip_suffix ''.mmap'' n of None \<Rightarrow> False | Some s \<Rightarrow> s \<noteq> [])"

definition mmap_disk_bytes :: "fs \<Rightarrow> nat" where
  "mmap_disk_bytes d =
     sum_list (map (\<lambda>(n, i). if has_mmap_ext n then length (fs_data d i) else 0) (fs_names d))"

definition open_or_create_sized :: "fs \<Rightarrow> string \<Rightarrow> nat \<Rightarrow> nat \<times> fs" where
  "open_or_create_sized d name sz =
     (case fs_open_create d name of
        (i, d1) \<Rightarrow>
          (let cur = length (fs_data d1 i)
           in (i, if cur < sz then fs_put d1 i (fs_data d1 i @ replicate (sz - cur) 0)
                  else d1)))"

section \<open>Round trip\<close>

lemma of_char_digit [simp]: "n < 10 \<Longrightarrow> (of_char (digit n) :: nat) = 48 + n"
  by (simp add: digit_def)

lemma digit_is_digit: "n < 10 \<Longrightarrow> is_digit (digit n)"
  by (simp add: is_digit_def)

lemma digits_val_snoc: "digits_val (s @ [c]) = digits_val s * 10 + (of_char c - 48)"
  by (simp add: digits_val_def)

lemma dec_digits: "dec n \<noteq> [] \<and> list_all is_digit (dec n) \<and> digits_val (dec n) = n"
proof (induction n rule: dec.induct)
  case (1 n)
  show ?case
  proof (cases "n < 10")
    case True
    then show ?thesis
      by (simp add: dec.simps [of n] digit_is_digit digits_val_def)
  next
    case False
    with "1.IH" show ?thesis
      by (simp add: dec.simps [of n] digit_is_digit digits_val_snoc)
  qed
qed

lemma digits_val_zeros: "digits_val (replicate k (CHR ''0'') @ s) = digits_val s"
  by (induction k) (simp_all add: digits_val_def)

lemma fmt04_digits:
  "fmt04 n \<noteq> []" "list_all is_digit (fmt04 n)" "digits_val (fmt04 n) = n"
  using dec_digits [of n]
  by (auto simp: fmt04_def digits_val_zeros list_all_iff is_digit_def)

lemma parse_u32_fmt04: "n \<le> U32_MAX \<Longrightarrow> parse_u32 (fmt04 n) = Some (word_of_nat n)"
proof -
  assume n: "n \<le> U32_MAX"
  have "\<not> is_digit (CHR ''+'')"
    by (simp add: is_digit_def)
  then have "(case fmt04 n of c # r \<Rightarrow> if c = CHR ''+'' then r else fmt04 n | [] \<Rightarrow> []) = fmt04 n"
    using fmt04_digits [of n] by (cases "fmt04 n") auto
  with n show ?thesis
    using fmt04_digits [of n] by (simp add: parse_u32_def Let_def del: of_char_eq_iff)
qed

lemma parse_seg_name_seg_name [simp, fs_simps]: "parse_seg_name pre (seg_name pre i) = Some i"
  using unat_u32_le [of i]
  by (simp add: parse_seg_name_def seg_name_def strip_prefix_def strip_suffix_def parse_u32_fmt04)

lemma seg_name_inj [simp, fs_simps]: "seg_name pre i = seg_name pre j \<longleftrightarrow> i = j"
  by (metis option.inject parse_seg_name_seg_name)

section \<open>The scan finds a fresh id\<close>

lemma max_seg_foldl:
  "foldl (max_seg_step pre) m names = Some k \<Longrightarrow>
     (\<forall>j. m = Some j \<longrightarrow> j \<le> k) \<and>
     (\<forall>n \<in> set names. \<forall>i. parse_seg_name pre n = Some i \<longrightarrow> i \<le> k)"
proof (induction names arbitrary: m)
  case (Cons n names)
  then have "foldl (max_seg_step pre) (max_seg_step pre m n) names = Some k" by simp
  from Cons.IH [OF this] show ?case
    by (auto simp: max_seg_step_def split: option.splits)
qed simp

lemma max_seg_foldl_None:
  "foldl (max_seg_step pre) m names = None \<Longrightarrow> n \<in> set names \<Longrightarrow> parse_seg_name pre n = None"
proof (induction names arbitrary: m)
  case (Cons x names)
  have mono: "foldl (max_seg_step pre) (Some j) xs \<noteq> None" for j xs
    by (induction xs arbitrary: j) (auto simp: max_seg_step_def split: option.splits)
  from Cons.prems(1) mono have "max_seg_step pre m x = None"
    by (cases "max_seg_step pre m x") auto
  with Cons show ?case
    by (auto simp: max_seg_step_def split: option.splits)
qed simp

lemma fs_inode_in_names: "fs_inode d n = Some i \<Longrightarrow> n \<in> set (map fst (fs_names d))"
  by (force simp: fs_inode_def dest: map_of_SomeD)

lemma next_seg_of_fresh:
  assumes "fs_inode d (seg_name pre i) = Some ino" "next_seg_of pre d \<noteq> 0"
  shows "i < next_seg_of pre d"
proof -
  from assms(1) have mem: "seg_name pre i \<in> set (map fst (fs_names d))"
    by (rule fs_inode_in_names)
  obtain k where k: "foldl (max_seg_step pre) None (map fst (fs_names d)) = Some k"
    using assms(2) by (auto simp: next_seg_of_def split: option.splits)
  from max_seg_foldl [OF k] mem have le: "i \<le> k"
    by (metis parse_seg_name_seg_name)
  moreover have "k < k + 1"
    using assms(2) k by (simp add: next_seg_of_def word_less_succ)
  ultimately show ?thesis using k by (simp add: next_seg_of_def)
qed

section \<open>Opening a segment of a given sz\<close>

lemma open_or_create_sized_spec:
  assumes ok: "fs_ok d" and oc: "open_or_create_sized d name sz = (i, d')"
  shows "fs_ok d'" "fs_inode d' name = Some i" "sz \<le> length (fs_data d' i)"
    "m \<noteq> name \<Longrightarrow> fs_inode d' m = fs_inode d m"
    "fs_inode d m = Some j \<Longrightarrow> fs_inode d' m = Some j"
    "m \<noteq> name \<Longrightarrow> fs_inode d m = Some j \<Longrightarrow> fs_data d' j = fs_data d j"
proof -
  obtain k d1 where k: "fs_open_create d name = (k, d1)"
    by (cases "fs_open_create d name")
  with oc have i: "k = i" by (auto simp: open_or_create_sized_def Let_def)
  note k = k [unfolded i]
  from ok k have ok1: "fs_ok d1" by (rule fs_open_create_ok)
  from k have n1: "fs_inode d1 name = Some i" by (rule fs_open_create_inode)
  have d': "d' = (if length (fs_data d1 i) < sz
      then fs_put d1 i (fs_data d1 i @ replicate (sz - length (fs_data d1 i)) 0) else d1)"
    using oc k by (auto simp: open_or_create_sized_def Let_def)
  show "fs_ok d'" "fs_inode d' name = Some i" "sz \<le> length (fs_data d' i)"
    using ok1 n1 by (auto simp: d')
  show "fs_inode d' m = fs_inode d m" if "m \<noteq> name"
    using fs_open_create_other [OF k that] by (simp add: d')
  show "fs_inode d' m = Some j" if "fs_inode d m = Some j"
    using fs_open_create_keep [OF k that] by (simp add: d')
  show "fs_data d' j = fs_data d j" if "m \<noteq> name" "fs_inode d m = Some j"
  proof -
    have "j \<noteq> i"
      using fs_open_create_other [OF k that(1)] that n1 ok1 by (metis fs_inode_inj)
    then show ?thesis
      using fs_open_create_data [OF ok k that(2)] by (simp add: d')
  qed
qed

lemma open_or_create_sized_fresh:
  assumes "fs_inode d name = None" "open_or_create_sized d name sz = (i, d')"
  shows "fs_data d' i = replicate sz 0"
  using assms by (auto simp: open_or_create_sized_def fs_open_create_def Let_def)

end
