(* ===== verification/Payload_Store.thy ===== *)
theory Payload_Store
  imports Store_Error
begin

text \<open>
  The interface between an append-only payload pool and the stores that keep an index of
  locators into it: appending returns a locator, reading it back gives the payload, and
  nothing an append does changes what an earlier locator reads.  \<open>room\<close> says that the pool
  can take the payload (it has the segment ids left); a payload is a byte string, a vector or
  a whole record batch.  \<open>idx_lookup\<close> is what a store with index \<open>idx\<close> answers for a key.
\<close>

definition idx_lookup :: "('p \<Rightarrow> 'l \<Rightarrow> 'b option) \<Rightarrow> 'p \<Rightarrow> ('k \<rightharpoonup> 'l) \<Rightarrow> 'k \<rightharpoonup> 'b" where
  "idx_lookup rd p idx = (\<lambda>k. case idx k of None \<Rightarrow> None | Some l \<Rightarrow> rd p l)"

definition idx_covered :: "('p \<Rightarrow> 'l \<Rightarrow> 'b option) \<Rightarrow> 'p \<Rightarrow> ('k \<rightharpoonup> 'l) \<Rightarrow> bool" where
  "idx_covered rd p idx \<longleftrightarrow> (\<forall>k l. idx k = Some l \<longrightarrow> rd p l \<noteq> None)"

lemma idx_lookup_delete: "idx_lookup rd p (idx(k := None)) = (idx_lookup rd p idx)(k := None)"
  by (auto simp: idx_lookup_def)

lemma idx_covered_delete: "idx_covered rd p idx \<Longrightarrow> idx_covered rd p (idx(k := None))"
  by (auto simp: idx_covered_def)

lemma idx_lookup_dom: "idx_covered rd p idx \<Longrightarrow> dom (idx_lookup rd p idx) = dom idx"
  by (force simp: idx_lookup_def idx_covered_def split: option.splits)

locale append_store =
  fixes inv :: "'p \<Rightarrow> bool"
    and room :: "'p \<Rightarrow> 'b \<Rightarrow> bool"
    and app :: "'p \<Rightarrow> 'b \<Rightarrow> 'l res \<times> 'p"
    and rd :: "'p \<Rightarrow> 'l \<Rightarrow> 'b option"
  assumes app_inv: "inv p \<Longrightarrow> room p bs \<Longrightarrow> app p bs = (r, p') \<Longrightarrow> inv p'"
    and app_read: "inv p \<Longrightarrow> room p bs \<Longrightarrow> app p bs = (Ok l, p') \<Longrightarrow> rd p' l = Some bs"
    and app_keep: "inv p \<Longrightarrow> room p bs \<Longrightarrow> app p bs = (r, p') \<Longrightarrow> rd p l0 = Some b \<Longrightarrow> rd p' l0 = Some b"
begin

lemma covered_keep:
  "inv p \<Longrightarrow> room p bs \<Longrightarrow> app p bs = (r, p') \<Longrightarrow> idx_covered rd p idx \<Longrightarrow> idx_covered rd p' idx"
  unfolding idx_covered_def by (metis app_keep not_None_eq)

lemma lookup_keep:
  assumes "inv p" "room p bs" "app p bs = (r, p')" "idx_covered rd p idx"
  shows "idx_lookup rd p' idx = idx_lookup rd p idx"
proof
  fix k
  show "idx_lookup rd p' idx k = idx_lookup rd p idx k"
  proof (cases "idx k")
    case (Some l)
    with assms(4) obtain b where "rd p l = Some b"
      by (auto simp: idx_covered_def)
    with assms Some show ?thesis
      by (simp add: idx_lookup_def app_keep)
  qed (simp add: idx_lookup_def)
qed

lemma covered_update:
  "inv p \<Longrightarrow> room p bs \<Longrightarrow> app p bs = (Ok l, p') \<Longrightarrow> idx_covered rd p idx \<Longrightarrow>
     idx_covered rd p' (idx(k \<mapsto> l))"
  using covered_keep [of p bs "Ok l" p' idx] app_read [of p bs l p']
  by (auto simp: idx_covered_def)

lemma lookup_update:
  assumes "inv p" "room p bs" "app p bs = (Ok l, p')" "idx_covered rd p idx"
  shows "idx_lookup rd p' (idx(k \<mapsto> l)) = (idx_lookup rd p idx)(k \<mapsto> bs)"
  using lookup_keep [OF assms] app_read [OF assms(1,2,3)]
  by (auto simp: idx_lookup_def fun_eq_iff)

end

end
