(* ===== verification/Segment.thy ===== *)
theory Segment
  imports Mmap Seg_Names Payload_Store
begin

text \<open>
  \<open>fs-core/src/mem/segment.rs\<close>: the append-only pool of payload segments behind the KV and
  the columnar store.  The pool record holds the directory (\<open>sp_data_dir\<close>), the active
  segment and its write cursor, and the cache of read-only mappings with its LRU queue.
  \<open>sp_readers\<close> stands for \<open>Arc::strong_count > 1\<close>: it says of which cached mapping a reader
  holds a clone.  Sizes and cursors are \<open>nat\<close> (the \<open>u64\<close> values stay below the length of a
  file); segment ids, offsets and lengths are \<open>u32\<close> words, since they are persisted in
  that width, and \<open>sealed_id + 1\<close> wraps as it does in a release build.

  The lemmas show that the pool keeps its invariant, that an append can be read back, that
  no operation changes the bytes a valid locator points to (the promise behind zero-copy
  reads), and what the LRU eviction keeps.
\<close>

definition DEFAULT_SEGMENT_SIZE :: nat where
  "DEFAULT_SEGMENT_SIZE = 64 * 1024 * 1024"

definition SEALED_CACHE_CAP :: nat where
  "SEALED_CACHE_CAP = 64"

record value_locator =
  vl_seg_id :: u32
  vl_offset :: u32
  vl_len :: u32

definition segment_file :: "u32 \<Rightarrow> string" where
  "segment_file i = seg_name ''kv_payload_'' i"

definition parse_seg_id :: "string \<Rightarrow> u32 option" where
  "parse_seg_id name = parse_seg_name ''kv_payload_'' name"

definition ACTIVE_CURSOR_FILE :: string where
  "ACTIVE_CURSOR_FILE = ''active.cursor''"

record segment_pool =
  sp_data_dir :: fs
  sp_seg_size :: nat
  sp_active_id :: u32
  sp_active_ino :: nat
  sp_active_cursor :: nat
  sp_sealed :: "(u32 \<times> mmap_handle) list"
  sp_sealed_lru :: "u32 list"
  sp_readers :: "u32 \<Rightarrow> bool"

definition next_seg_id :: "fs \<Rightarrow> u32" where
  "next_seg_id d = next_seg_of ''kv_payload_'' d"

definition read_active_cursor :: "fs \<Rightarrow> (u32 \<times> nat) option" where
  "read_active_cursor d =
     (case fs_read d ACTIVE_CURSOR_FILE of
        None \<Rightarrow> None
      | Some bs \<Rightarrow>
          (if length bs \<noteq> 12 then None
           else Some (u32_from_le (slice bs 0 4), unat (u64_from_le (slice bs 4 8)))))"

definition write_active_cursor :: "fs \<Rightarrow> u32 \<Rightarrow> nat \<Rightarrow> fs" where
  "write_active_cursor d i c =
     atomic_write d ''active.cursor.tmp'' ACTIVE_CURSOR_FILE
       (u32_to_le i @ u64_to_le (word_of_nat c))"

definition open_or_create_segment :: "fs \<Rightarrow> string \<Rightarrow> nat \<Rightarrow> nat \<times> fs" where
  "open_or_create_segment d name sz = open_or_create_sized d name sz"

definition pool_open :: "fs \<Rightarrow> nat \<Rightarrow> segment_pool" where
  "pool_open d seg_size =
     (let sz = (if seg_size = 0 then DEFAULT_SEGMENT_SIZE else seg_size);
          (aid, cur) =
            (case read_active_cursor d of
               Some (sid, c) \<Rightarrow>
                 (if fs_exists d (segment_file sid) \<and> c \<le> sz then (sid, c)
                  else (next_seg_id d, 0))
             | None \<Rightarrow> (next_seg_id d, 0));
          (ino, d') = open_or_create_segment d (segment_file aid) sz
      in \<lparr>sp_data_dir = d', sp_seg_size = sz, sp_active_id = aid, sp_active_ino = ino,
          sp_active_cursor = cur, sp_sealed = [], sp_sealed_lru = [],
          sp_readers = (\<lambda>_. False)\<rparr>)"

definition pool_remaining :: "segment_pool \<Rightarrow> nat" where
  "pool_remaining p = sp_seg_size p - sp_active_cursor p"

definition pool_disk_bytes :: "segment_pool \<Rightarrow> nat" where
  "pool_disk_bytes p = mmap_disk_bytes (sp_data_dir p)"

text \<open>LRU cache of mappings.  The eviction loop takes the state it changes as arguments.\<close>

definition evict_safe :: "(u32 \<times> mmap_handle) list \<Rightarrow> (u32 \<Rightarrow> bool) \<Rightarrow> u32 \<Rightarrow> bool" where
  "evict_safe sealed readers c =
     (case map_of sealed c of None \<Rightarrow> False | Some h \<Rightarrow> \<not> readers c)"

function evict_loop ::
  "nat \<Rightarrow> (u32 \<Rightarrow> bool) \<Rightarrow> nat \<Rightarrow> nat \<Rightarrow> (u32 \<times> mmap_handle) list \<Rightarrow> u32 list
     \<Rightarrow> (u32 \<times> mmap_handle) list \<times> u32 list"
where
  "evict_loop cap readers queue_len touched sealed lru =
     (if length lru > cap \<and> touched < queue_len
      then (case lru of
              [] \<Rightarrow> (sealed, lru)
            | c # rest \<Rightarrow>
                (if evict_safe sealed readers c
                 then evict_loop cap readers queue_len touched (AList.delete c sealed) rest
                 else evict_loop cap readers queue_len (Suc touched) sealed (rest @ [c])))
      else (sealed, lru))"
  by pat_completeness auto
termination
  by (relation "measure (\<lambda>(cap, rd, q, t, s, l). length l + (q - t))") auto

declare evict_loop.simps [simp del]

definition evict_sealed :: "segment_pool \<Rightarrow> segment_pool" where
  "evict_sealed p =
     (case evict_loop SEALED_CACHE_CAP (sp_readers p) (length (sp_sealed_lru p)) 0
             (sp_sealed p) (sp_sealed_lru p) of
        (s, l) \<Rightarrow> p\<lparr>sp_sealed := s, sp_sealed_lru := l\<rparr>)"

definition touch_sealed :: "segment_pool \<Rightarrow> u32 \<Rightarrow> segment_pool" where
  "touch_sealed p seg =
     (if seg \<in> set (sp_sealed_lru p)
      then p\<lparr>sp_sealed_lru := remove1 seg (sp_sealed_lru p) @ [seg]\<rparr> else p)"

definition seal_and_rotate :: "segment_pool \<Rightarrow> segment_pool" where
  "seal_and_rotate p =
     (let sealed_id = sp_active_id p;
          h = seal (from_parts (sp_data_dir p) (sp_active_ino p));
          p1 = evict_sealed (p\<lparr>sp_sealed := AList.update sealed_id h (sp_sealed p),
                               sp_sealed_lru := sp_sealed_lru p @ [sealed_id],
                               sp_readers := (sp_readers p)(sealed_id := False)\<rparr>);
          new_id = sealed_id + 1;
          (ino, d') = open_or_create_segment (sp_data_dir p1) (segment_file new_id) (sp_seg_size p1)
      in p1\<lparr>sp_data_dir := write_active_cursor d' new_id 0, sp_active_id := new_id,
            sp_active_ino := ino, sp_active_cursor := 0\<rparr>)"

definition pool_append :: "segment_pool \<Rightarrow> bytes \<Rightarrow> value_locator res \<times> segment_pool" where
  "pool_append p payload =
     (if length payload > U32_MAX then (Err (ValueTooLarge (length payload)), p)
      else
        let need = length payload;
            p1 = (if need > pool_remaining p then seal_and_rotate p else p)
        in if sp_active_cursor p1 > U32_MAX
           then (Err (Corrupt ''active cursor exceeds u32 max, segment overflow''), p1)
           else
             let i = sp_active_ino p1;
                 cur = sp_active_cursor p1;
                 stop = cur + need;
                 old = fs_data (sp_data_dir p1) i
             in if stop > length old then (Panic, p1)
                else (Ok \<lparr>vl_seg_id = sp_active_id p1, vl_offset = word_of_nat cur,
                          vl_len = word_of_nat need\<rparr>,
                      p1\<lparr>sp_data_dir := fs_put (sp_data_dir p1) i (splice old cur payload),
                         sp_active_cursor := stop\<rparr>))"

definition pool_append_aligned ::
  "segment_pool \<Rightarrow> bytes \<Rightarrow> nat \<Rightarrow> value_locator res \<times> segment_pool" where
  "pool_append_aligned p payload align =
     (if align \<le> 1 then pool_append p payload
      else
        let pad = (align - sp_active_cursor p mod align) mod align
        in if pad > 0 then
             (if pad > pool_remaining p then pool_append (seal_and_rotate p) payload
              else (case pool_append p (replicate pad 0) of
                      (Ok l, p1) \<Rightarrow> pool_append p1 payload
                    | (Err e, p1) \<Rightarrow> (Err e, p1)
                    | (Panic, p1) \<Rightarrow> (Panic, p1)))
           else pool_append p payload)"

definition rewind_active_to :: "segment_pool \<Rightarrow> u32 \<Rightarrow> u32 \<Rightarrow> unit res \<times> segment_pool" where
  "rewind_active_to p seg off =
     (if seg \<noteq> sp_active_id p then (Ok (), p)
      else if unat off > sp_active_cursor p then (Err (Corrupt ''rewind target > active cursor''), p)
      else (Ok (), p\<lparr>sp_active_cursor := unat off\<rparr>))"

text \<open>A returned handle is a clone, so the segment has a reader from then on.\<close>

definition sealed_handle :: "segment_pool \<Rightarrow> u32 \<Rightarrow> mmap_handle res \<times> segment_pool" where
  "sealed_handle p seg =
     (case map_of (sp_sealed p) seg of
        Some h \<Rightarrow> (Ok h, (touch_sealed p seg)\<lparr>sp_readers := (sp_readers p)(seg := True)\<rparr>)
      | None \<Rightarrow>
          (case fs_inode (sp_data_dir p) (segment_file seg) of
             None \<Rightarrow> (Err (Corrupt ''sealed segment missing''), p)
           | Some i \<Rightarrow>
               (let h = seal (from_parts (sp_data_dir p) i)
                in (Ok h, evict_sealed (p\<lparr>sp_sealed := AList.update seg h (sp_sealed p),
                                          sp_sealed_lru := sp_sealed_lru p @ [seg],
                                          sp_readers := (sp_readers p)(seg := True)\<rparr>)))))"

definition pool_flush :: "segment_pool \<Rightarrow> segment_pool" where
  "pool_flush p = p\<lparr>sp_data_dir :=
     write_active_cursor (sp_data_dir p) (sp_active_id p) (sp_active_cursor p)\<rparr>"

text \<open>The scan for the end of the written part that the source keeps as a tool.\<close>

definition written_len_scan :: "bytes \<Rightarrow> nat" where
  "written_len_scan bs =
     foldl (\<lambda>e (i, b). if b \<noteq> 0 then Suc i else e) 0 (enumerate 0 bs)"

section \<open>Invariant and reading by locator\<close>

text \<open>
  The active segment is the highest one of the directory, the cursor is within it, and
  every cached mapping is the mapping of its whole file.
\<close>

definition pool_inv :: "segment_pool \<Rightarrow> bool" where
  "pool_inv p \<longleftrightarrow>
     fs_ok (sp_data_dir p) \<and>
     fs_inode (sp_data_dir p) (segment_file (sp_active_id p)) = Some (sp_active_ino p) \<and>
     sp_active_cursor p \<le> sp_seg_size p \<and>
     sp_seg_size p \<le> length (fs_data (sp_data_dir p) (sp_active_ino p)) \<and>
     (\<forall>s. fs_exists (sp_data_dir p) (segment_file s) \<longrightarrow> s \<le> sp_active_id p) \<and>
     (\<forall>s h. map_of (sp_sealed p) s = Some h \<longrightarrow>
        fs_inode (sp_data_dir p) (segment_file s) = Some (mh_ino h) \<and>
        mh_len h = length (fs_data (sp_data_dir p) (mh_ino h)))"

definition pool_room :: "segment_pool \<Rightarrow> bool" where
  "pool_room p \<longleftrightarrow> sp_active_id p + 1 \<noteq> 0"

definition pool_read :: "segment_pool \<Rightarrow> value_locator \<Rightarrow> bytes option" where
  "pool_read p l =
     (case fs_inode (sp_data_dir p) (segment_file (vl_seg_id l)) of
        None \<Rightarrow> None
      | Some i \<Rightarrow>
          (let hi = (if vl_seg_id l = sp_active_id p then sp_active_cursor p
                     else length (fs_data (sp_data_dir p) i))
           in if unat (vl_offset l) + unat (vl_len l) \<le> hi
              then Some (slice (fs_data (sp_data_dir p) i) (unat (vl_offset l)) (unat (vl_len l)))
              else None))"

lemma pool_invD:
  assumes "pool_inv p"
  shows pool_inv_fs_ok: "fs_ok (sp_data_dir p)"
    and pool_inv_active: "fs_inode (sp_data_dir p) (segment_file (sp_active_id p)) = Some (sp_active_ino p)"
    and pool_inv_cursor: "sp_active_cursor p \<le> sp_seg_size p"
    and pool_inv_size: "sp_seg_size p \<le> length (fs_data (sp_data_dir p) (sp_active_ino p))"
    and pool_inv_top: "fs_inode (sp_data_dir p) (segment_file s) = Some i \<Longrightarrow> s \<le> sp_active_id p"
    and pool_inv_cache: "map_of (sp_sealed p) s = Some h \<Longrightarrow>
        fs_inode (sp_data_dir p) (segment_file s) = Some (mh_ino h) \<and>
        mh_len h = length (fs_data (sp_data_dir p) (mh_ino h))"
  using assms by (auto simp: pool_inv_def fs_exists_def)

lemma segment_file_inj [simp]: "segment_file i = segment_file j \<longleftrightarrow> i = j"
  by (simp add: segment_file_def)

lemma segment_file_other [simp]:
  "segment_file i \<noteq> ACTIVE_CURSOR_FILE" "segment_file i \<noteq> ''active.cursor.tmp''"
  by (simp_all add: segment_file_def seg_name_def ACTIVE_CURSOR_FILE_def)

lemma parse_seg_id_segment_file: "parse_seg_id (segment_file i) = Some i"
  by (simp add: parse_seg_id_def segment_file_def)

lemma read_write_active_cursor:
  "c < 2 ^ 64 \<Longrightarrow> read_active_cursor (write_active_cursor d i c) = Some (i, c)"
  by (simp add: read_active_cursor_def write_active_cursor_def atomic_write_read slice_def
      unat_of_nat)

lemma fs_ok_write_active_cursor [simp]: "fs_ok d \<Longrightarrow> fs_ok (write_active_cursor d i c)"
  by (simp add: write_active_cursor_def)

lemma inode_write_active_cursor [simp]:
  "fs_inode (write_active_cursor d i c) (segment_file s) = fs_inode d (segment_file s)"
  by (simp add: write_active_cursor_def fs_inode_atomic_write_other)

lemma data_write_active_cursor:
  "fs_ok d \<Longrightarrow> fs_inode d (segment_file s) = Some j \<Longrightarrow>
     fs_data (write_active_cursor d i c) j = fs_data d j"
  unfolding write_active_cursor_def by (rule fs_data_atomic_write_other) auto

section \<open>Eviction\<close>

lemma evict_loop_stop:
  "\<not> (cap < length l \<and> t < q) \<Longrightarrow> evict_loop cap rd q t s l = (s, l)"
  by (subst evict_loop.simps) (simp only: if_False)

lemma evict_loop_evict:
  "cap < length (x # rest) \<Longrightarrow> t < q \<Longrightarrow> evict_safe s rd x \<Longrightarrow>
     evict_loop cap rd q t s (x # rest) = evict_loop cap rd q t (AList.delete x s) rest"
  by (simp add: evict_loop.simps [of cap rd q t s "x # rest"])

lemma evict_loop_skip:
  "cap < length (x # rest) \<Longrightarrow> t < q \<Longrightarrow> \<not> evict_safe s rd x \<Longrightarrow>
     evict_loop cap rd q t s (x # rest) = evict_loop cap rd q (Suc t) s (rest @ [x])"
  by (simp add: evict_loop.simps [of cap rd q t s "x # rest"])

lemmas evict_loop_eqs = evict_loop_stop evict_loop_evict evict_loop_skip

lemma evict_loop_induct [case_names stop evict skip]:
  assumes "\<And>t s l. \<not> (cap < length l \<and> t < q) \<Longrightarrow> P t s l"
    and "\<And>t s x rest. cap < length (x # rest) \<Longrightarrow> t < q \<Longrightarrow> evict_safe s rd x \<Longrightarrow>
           P t (AList.delete x s) rest \<Longrightarrow> P t s (x # rest)"
    and "\<And>t s x rest. cap < length (x # rest) \<Longrightarrow> t < q \<Longrightarrow> \<not> evict_safe s rd x \<Longrightarrow>
           P (Suc t) s (rest @ [x]) \<Longrightarrow> P t s (x # rest)"
  shows "P t s l"
proof (induction "length l + (q - t)" arbitrary: t s l rule: less_induct)
  case less
  show ?case
  proof (cases "cap < length l \<and> t < q")
    case True
    then obtain x rest where l: "l = x # rest" by (cases l) auto
    show ?thesis
    proof (cases "evict_safe s rd x")
      case safe: True
      show ?thesis
        unfolding l using True l safe by (intro assms(2) less) auto
    next
      case unsafe: False
      show ?thesis
        unfolding l using True l unsafe by (intro assms(3) less) auto
    qed
  qed (simp add: assms(1))
qed

lemma evict_loop_sub:
  "evict_loop cap rd q t s l = (s', l') \<Longrightarrow> map_of s' c = Some h \<Longrightarrow> map_of s c = Some h"
  by (induction t s l rule: evict_loop_induct [where cap = cap and q = q and rd = rd])
    (auto simp: evict_loop_eqs split: if_splits)

lemma evict_loop_held:
  "evict_loop cap rd q t s l = (s', l') \<Longrightarrow> rd c \<Longrightarrow> map_of s' c = map_of s c"
  by (induction t s l rule: evict_loop_induct [where cap = cap and q = q and rd = rd])
    (auto simp: evict_loop_eqs evict_safe_def split: if_splits option.splits)

lemma evict_safe_delete: "evict_safe (AList.delete x s) rd c \<Longrightarrow> evict_safe s rd c"
  by (auto simp: evict_safe_def split: option.splits if_splits)

lemma evict_loop_bound:
  "evict_loop cap rd q t s l = (s', l') \<Longrightarrow> length l \<le> q \<Longrightarrow>
     \<forall>c \<in> set (drop (length l - t) l). \<not> evict_safe s rd c \<Longrightarrow>
     length l' \<le> cap \<or> (\<forall>c \<in> set l'. \<not> evict_safe s' rd c)"
proof (induction t s l rule: evict_loop_induct [where cap = cap and q = q and rd = rd])
  case (stop t s l)
  then have eq: "s' = s" "l' = l" by (simp_all add: evict_loop_stop)
  show ?case
  proof (cases "cap < length l")
    case True
    with stop have "length l - t = 0" by simp
    with stop.prems(3) eq show ?thesis by simp
  qed (simp add: eq)
next
  case (evict t s x rest)
  have "t < length (x # rest)"
  proof (rule ccontr)
    assume "\<not> t < length (x # rest)"
    then have "drop (length (x # rest) - t) (x # rest) = x # rest" by simp
    with evict.prems(3) evict.hyps(3) show False
      by (metis list.set_intros(1))
  qed
  then have tail: "drop (length (x # rest) - t) (x # rest) = drop (length rest - t) rest"
    by (simp add: Suc_diff_le)
  have "\<forall>c \<in> set (drop (length rest - t) rest). \<not> evict_safe (AList.delete x s) rd c"
    using evict.prems(3) unfolding tail by (blast dest: evict_safe_delete)
  with evict show ?case
    by (simp add: evict_loop_evict)
next
  case (skip t s x rest)
  have "set (drop (length rest - t) rest) \<subseteq> set (drop (length (x # rest) - t) (x # rest))"
    by (cases "t \<le> length rest") (auto simp: Suc_diff_le)
  with skip.prems(3) skip.hyps(3)
  have "\<forall>c \<in> set (drop (length (rest @ [x]) - Suc t) (rest @ [x])). \<not> evict_safe s rd c"
    by auto
  with skip show ?case
    by (simp add: evict_loop_skip)
qed

lemma evict_sealed_frame [simp]:
  "sp_data_dir (evict_sealed p) = sp_data_dir p" "sp_seg_size (evict_sealed p) = sp_seg_size p"
  "sp_active_id (evict_sealed p) = sp_active_id p" "sp_active_ino (evict_sealed p) = sp_active_ino p"
  "sp_active_cursor (evict_sealed p) = sp_active_cursor p"
  "sp_readers (evict_sealed p) = sp_readers p"
  by (simp_all add: evict_sealed_def split: prod.split)

lemma evict_sealed_sub:
  "map_of (sp_sealed (evict_sealed p)) s = Some h \<Longrightarrow> map_of (sp_sealed p) s = Some h"
  by (auto simp: evict_sealed_def split: prod.splits dest: evict_loop_sub)

lemma pool_inv_evict: "pool_inv p \<Longrightarrow> pool_inv (evict_sealed p)"
  by (auto simp: pool_inv_def dest: evict_sealed_sub)

lemma pool_read_cong:
  "sp_data_dir p' = sp_data_dir p \<Longrightarrow> sp_active_id p' = sp_active_id p \<Longrightarrow>
     sp_active_cursor p' = sp_active_cursor p \<Longrightarrow> pool_read p' l = pool_read p l"
  by (simp add: pool_read_def Let_def split: option.split)

section \<open>Rotation\<close>

text \<open>What opening the next segment and persisting the cursor leave of the directory.\<close>

definition rotate_dir :: "segment_pool \<Rightarrow> nat \<times> fs" where
  "rotate_dir p =
     (case open_or_create_segment (sp_data_dir p) (segment_file (sp_active_id p + 1)) (sp_seg_size p)
      of (i, d) \<Rightarrow> (i, write_active_cursor d (sp_active_id p + 1) 0))"

lemma rotate_dir_spec:
  assumes ok: "fs_ok (sp_data_dir p)" and rot: "rotate_dir p = (i, d')"
  shows "fs_ok d'" "fs_inode d' (segment_file (sp_active_id p + 1)) = Some i"
    "sp_seg_size p \<le> length (fs_data d' i)"
    "s \<noteq> sp_active_id p + 1 \<Longrightarrow> fs_inode d' (segment_file s) = fs_inode (sp_data_dir p) (segment_file s)"
    "s \<noteq> sp_active_id p + 1 \<Longrightarrow> fs_inode (sp_data_dir p) (segment_file s) = Some j \<Longrightarrow>
       fs_data d' j = fs_data (sp_data_dir p) j"
proof -
  let ?new = "segment_file (sp_active_id p + 1)"
  obtain d1 where oc: "open_or_create_sized (sp_data_dir p) ?new (sp_seg_size p) = (i, d1)"
    and d': "d' = write_active_cursor d1 (sp_active_id p + 1) 0"
    using rot by (auto simp: rotate_dir_def open_or_create_segment_def split: prod.splits)
  note spec = open_or_create_sized_spec [OF ok oc]
  show "fs_ok d'" "fs_inode d' ?new = Some i"
    using spec(1,2) by (simp_all add: d')
  show "sp_seg_size p \<le> length (fs_data d' i)"
    using spec(3) data_write_active_cursor [OF spec(1,2)] by (simp add: d')
  show "fs_inode d' (segment_file s) = fs_inode (sp_data_dir p) (segment_file s)"
    if "s \<noteq> sp_active_id p + 1"
    using spec(4) [of "segment_file s"] that by (simp add: d')
  show "fs_data d' j = fs_data (sp_data_dir p) j"
    if s: "s \<noteq> sp_active_id p + 1" and j: "fs_inode (sp_data_dir p) (segment_file s) = Some j"
    using spec(5) [OF j] spec(6) [OF _ j] s
    by (simp add: d' data_write_active_cursor [OF spec(1), of s])
qed

lemma seal_and_rotate_eq:
  obtains i d' where "rotate_dir p = (i, d')"
    and "sp_data_dir (seal_and_rotate p) = d'" "sp_active_ino (seal_and_rotate p) = i"
    and "sp_active_id (seal_and_rotate p) = sp_active_id p + 1"
    and "sp_active_cursor (seal_and_rotate p) = 0"
    and "sp_seg_size (seal_and_rotate p) = sp_seg_size p"
    and "\<And>s h. map_of (sp_sealed (seal_and_rotate p)) s = Some h \<Longrightarrow>
           ((map_of (sp_sealed p))
              (sp_active_id p \<mapsto> seal (from_parts (sp_data_dir p) (sp_active_ino p)))) s = Some h"
proof (cases "rotate_dir p")
  case (Pair i d')
  show ?thesis
    by (rule that [OF Pair])
      (use Pair in \<open>auto simp: seal_and_rotate_def rotate_dir_def Let_def split: prod.splits
          dest!: evict_sealed_sub simp del: fun_upd_apply\<close>)
qed

lemma pool_inv_rotate:
  assumes inv: "pool_inv p" and room: "pool_room p"
  shows "pool_inv (seal_and_rotate p)"
proof (rule seal_and_rotate_eq [of p])
  fix i d'
  assume rot: "rotate_dir p = (i, d')"
    and eq: "sp_data_dir (seal_and_rotate p) = d'" "sp_active_ino (seal_and_rotate p) = i"
      "sp_active_id (seal_and_rotate p) = sp_active_id p + 1"
      "sp_active_cursor (seal_and_rotate p) = 0" "sp_seg_size (seal_and_rotate p) = sp_seg_size p"
    and cache: "\<And>s h. map_of (sp_sealed (seal_and_rotate p)) s = Some h \<Longrightarrow>
           ((map_of (sp_sealed p))
              (sp_active_id p \<mapsto> seal (from_parts (sp_data_dir p) (sp_active_ino p)))) s = Some h"
  note spec = rotate_dir_spec [OF pool_inv_fs_ok [OF inv] rot]
  have lt: "sp_active_id p < sp_active_id p + 1"
    using room by (simp add: pool_room_def word_less_succ)
  have top: "s \<le> sp_active_id p + 1" if ex: "fs_exists d' (segment_file s)" for s
  proof (cases "s = sp_active_id p + 1")
    case False
    then obtain j where "fs_inode (sp_data_dir p) (segment_file s) = Some j"
      using spec(4) [OF False] ex by (auto simp: fs_exists_def)
    from pool_inv_top [OF inv this] lt show ?thesis by simp
  qed simp
  have mapped: "fs_inode d' (segment_file s) = Some (mh_ino h) \<and> mh_len h = length (fs_data d' (mh_ino h))"
    if "map_of (sp_sealed (seal_and_rotate p)) s = Some h" for s h
  proof -
    have old: "fs_inode (sp_data_dir p) (segment_file s) = Some (mh_ino h) \<and>
        mh_len h = length (fs_data (sp_data_dir p) (mh_ino h))"
      using cache [OF that] pool_inv_active [OF inv] pool_inv_cache [OF inv]
      by (auto simp: seal_def from_parts_def split: if_splits)
    with pool_inv_top [OF inv, of s] lt have "s \<noteq> sp_active_id p + 1" by auto
    with spec(4,5) old show ?thesis by simp
  qed
  show ?thesis
    unfolding pool_inv_def eq using spec(1,2,3) top mapped by simp
qed

lemma pool_read_rotate:
  assumes inv: "pool_inv p" and room: "pool_room p" and rd: "pool_read p l = Some b"
  shows "pool_read (seal_and_rotate p) l = Some b"
proof (rule seal_and_rotate_eq [of p])
  fix i d'
  assume rot: "rotate_dir p = (i, d')"
    and eq: "sp_data_dir (seal_and_rotate p) = d'" "sp_active_ino (seal_and_rotate p) = i"
      "sp_active_id (seal_and_rotate p) = sp_active_id p + 1"
  note spec = rotate_dir_spec [OF pool_inv_fs_ok [OF inv] rot]
  have lt: "sp_active_id p < sp_active_id p + 1"
    using room by (simp add: pool_room_def word_less_succ)
  obtain j where j: "fs_inode (sp_data_dir p) (segment_file (vl_seg_id l)) = Some j"
    using rd by (auto simp: pool_read_def split: option.splits)
  from pool_inv_top [OF inv j] lt have ne: "vl_seg_id l \<noteq> sp_active_id p + 1" by auto
  have "sp_active_cursor p \<le> length (fs_data (sp_data_dir p) j)" if "vl_seg_id l = sp_active_id p"
    using that j pool_inv_active [OF inv] pool_inv_cursor [OF inv] pool_inv_size [OF inv] by simp
  with rd j ne spec(4) [OF ne] spec(5) [OF ne j] show ?thesis
    by (auto simp: pool_read_def eq Let_def split: if_splits)
qed

section \<open>Appending\<close>

text \<open>The state in which \<open>append\<close> writes: after the rotation, if one was needed.\<close>

definition append_target :: "segment_pool \<Rightarrow> bytes \<Rightarrow> segment_pool" where
  "append_target p bs = (if length bs > pool_remaining p then seal_and_rotate p else p)"

lemma append_target_keeps:
  assumes "pool_inv p" "pool_room p"
  shows "pool_inv (append_target p bs)"
    and "pool_read p l = Some b \<Longrightarrow> pool_read (append_target p bs) l = Some b"
  using assms by (auto simp: append_target_def pool_inv_rotate pool_read_rotate)

lemma pool_append_cases:
  assumes "pool_append p bs = (r, p')"
  obtains
      (reject) "r = Err (ValueTooLarge (length bs))" "p' = p" "length bs > U32_MAX"
    | (failed) "\<not> is_ok r" "p' = append_target p bs" "length bs \<le> U32_MAX"
    | (written) l where "r = Ok l" "length bs \<le> U32_MAX"
        "sp_active_cursor (append_target p bs) \<le> U32_MAX"
        "sp_active_cursor (append_target p bs) + length bs
           \<le> length (fs_data (sp_data_dir (append_target p bs)) (sp_active_ino (append_target p bs)))"
        "l = \<lparr>vl_seg_id = sp_active_id (append_target p bs),
              vl_offset = word_of_nat (sp_active_cursor (append_target p bs)),
              vl_len = word_of_nat (length bs)\<rparr>"
        "p' = (append_target p bs)
           \<lparr>sp_data_dir := fs_put (sp_data_dir (append_target p bs)) (sp_active_ino (append_target p bs))
              (splice (fs_data (sp_data_dir (append_target p bs)) (sp_active_ino (append_target p bs)))
                 (sp_active_cursor (append_target p bs)) bs),
            sp_active_cursor := sp_active_cursor (append_target p bs) + length bs\<rparr>"
  using assms unfolding pool_append_def Let_def append_target_def [symmetric]
  by (auto split: if_splits)

text \<open>Writing at the cursor keeps what is before it, in this segment and in every other.\<close>

lemma pool_write_keeps:
  assumes inv: "pool_inv p" and fit: "sp_active_cursor p + length bs \<le> sp_seg_size p"
    and p': "p' = p\<lparr>sp_data_dir := fs_put (sp_data_dir p) (sp_active_ino p)
              (splice (fs_data (sp_data_dir p) (sp_active_ino p)) (sp_active_cursor p) bs),
            sp_active_cursor := sp_active_cursor p + length bs\<rparr>"
  shows "pool_inv p'"
    and "pool_read p l = Some b \<Longrightarrow> pool_read p' l = Some b"
proof -
  let ?i = "sp_active_ino p"
  have len: "sp_active_cursor p + length bs \<le> length (fs_data (sp_data_dir p) ?i)"
    using fit pool_inv_size [OF inv] by simp
  show "pool_inv p'"
    using inv fit len by (auto simp: pool_inv_def p' fs_exists_def)
  assume rd: "pool_read p l = Some b"
  then obtain j where j: "fs_inode (sp_data_dir p) (segment_file (vl_seg_id l)) = Some j"
    by (auto simp: pool_read_def split: option.splits)
  show "pool_read p' l = Some b"
  proof (cases "vl_seg_id l = sp_active_id p")
    case True
    with j pool_inv_active [OF inv] have "j = ?i" by simp
    with True rd j len show ?thesis
      by (auto simp: pool_read_def p' slice_splice_before split: if_splits)
  next
    case False
    have "j \<noteq> ?i"
      using False j pool_inv_active [OF inv] fs_inode_inj [OF pool_inv_fs_ok [OF inv]]
      by (metis segment_file_inj)
    with False rd j show ?thesis
      by (auto simp: pool_read_def p' split: if_splits)
  qed
qed

lemma append_target_fits:
  assumes "pool_inv p" "pool_room p" "length bs \<le> sp_seg_size p"
  shows "sp_active_cursor (append_target p bs) + length bs \<le> sp_seg_size (append_target p bs)"
proof (cases "length bs > pool_remaining p")
  case True
  then show ?thesis
    using assms by (auto simp: append_target_def intro: seal_and_rotate_eq [of p])
next
  case False
  with pool_inv_cursor [OF assms(1)] show ?thesis
    by (auto simp: append_target_def pool_remaining_def)
qed

lemma rotated_length:
  assumes inv: "pool_inv p" and room: "pool_room p"
  shows "length (fs_data (sp_data_dir (seal_and_rotate p)) (sp_active_ino (seal_and_rotate p)))
    = sp_seg_size p"
proof (rule seal_and_rotate_eq [of p])
  fix i d'
  assume rot: "rotate_dir p = (i, d')"
    and eq: "sp_data_dir (seal_and_rotate p) = d'" "sp_active_ino (seal_and_rotate p) = i"
  let ?new = "segment_file (sp_active_id p + 1)"
  obtain d1 where oc: "open_or_create_sized (sp_data_dir p) ?new (sp_seg_size p) = (i, d1)"
    and d': "d' = write_active_cursor d1 (sp_active_id p + 1) 0"
    using rot by (auto simp: rotate_dir_def open_or_create_segment_def split: prod.splits)
  have "fs_inode (sp_data_dir p) ?new = None"
  proof (cases "fs_inode (sp_data_dir p) ?new")
    case (Some j)
    from pool_inv_top [OF inv this] word_less_succ [of "sp_active_id p"] room
    show ?thesis by (simp add: pool_room_def)
  qed
  from open_or_create_sized_fresh [OF this oc]
    open_or_create_sized_spec(1,2) [OF pool_inv_fs_ok [OF inv] oc]
  show ?thesis by (simp add: eq d' data_write_active_cursor)
qed

lemma append_target_length:
  assumes inv: "pool_inv p" and room: "pool_room p"
    and fit: "sp_active_cursor (append_target p bs) + length bs
           \<le> length (fs_data (sp_data_dir (append_target p bs)) (sp_active_ino (append_target p bs)))"
  shows "length bs \<le> sp_seg_size p"
proof (cases "length bs > pool_remaining p")
  case True
  with fit rotated_length [OF inv room] show ?thesis by (simp add: append_target_def)
qed (auto simp: pool_remaining_def)

lemma pool_append_laws:
  assumes inv: "pool_inv p" and room: "pool_room p" and app: "pool_append p bs = (r, p')"
  shows pool_append_inv: "pool_inv p'"
    and pool_append_keep: "pool_read p l0 = Some b \<Longrightarrow> pool_read p' l0 = Some b"
    and pool_append_read: "r = Ok l \<Longrightarrow> pool_read p' l = Some bs"
proof -
  let ?t = "append_target p bs"
  note t = append_target_keeps [OF inv room, where bs = bs]
  have *: "pool_inv p' \<and> (\<forall>l0 b. pool_read p l0 = Some b \<longrightarrow> pool_read p' l0 = Some b) \<and>
      (\<forall>l. r = Ok l \<longrightarrow> pool_read p' l = Some bs)"
    using app
  proof (cases rule: pool_append_cases)
    case (written l)
    have fit: "sp_active_cursor ?t + length bs \<le> sp_seg_size ?t"
      by (rule append_target_fits [OF inv room append_target_length [OF inv room written(4)]])
    note w = pool_write_keeps [OF t(1) fit written(6)]
    have "pool_read p' l = Some bs"
      using pool_inv_active [OF t(1)] written
      by (simp add: pool_read_def unat_u32_of_nat slice_splice_same)
    with w t(2) written(1) show ?thesis by blast
  qed (use inv t in auto)
  show "pool_inv p'" "pool_read p l0 = Some b \<Longrightarrow> pool_read p' l0 = Some b"
    "r = Ok l \<Longrightarrow> pool_read p' l = Some bs"
    using * by blast+
qed

interpretation seg: append_store pool_inv "\<lambda>p bs. pool_room p" pool_append pool_read
  by unfold_locales (auto intro: pool_append_inv pool_append_keep pool_append_read)

section \<open>Aligned appends and rewinding\<close>

text \<open>An aligned append may rotate twice, so it needs two segment ids.\<close>

definition pool_room2 :: "segment_pool \<Rightarrow> bool" where
  "pool_room2 p \<longleftrightarrow> pool_room p \<and> sp_active_id p + 2 \<noteq> 0"

lemma pool_append_id:
  "pool_append p bs = (r, p') \<Longrightarrow> sp_active_id p' = sp_active_id p \<or> sp_active_id p' = sp_active_id p + 1"
  by (erule pool_append_cases) (auto simp: append_target_def intro: seal_and_rotate_eq [of p])

lemma pool_append_no_rotate:
  assumes "pool_append p bs = (Ok l, p')" "length bs \<le> pool_remaining p"
  shows "sp_active_id p' = sp_active_id p" "sp_active_cursor p' = sp_active_cursor p + length bs"
    "vl_seg_id l = sp_active_id p" "vl_offset l = word_of_nat (sp_active_cursor p)"
  using assms by (auto elim!: pool_append_cases simp: append_target_def)

lemma room2_rotate: "pool_room2 p \<Longrightarrow> pool_room (seal_and_rotate p)"
  by (rule seal_and_rotate_eq [of p]) (auto simp: pool_room2_def pool_room_def add.assoc)

lemma room2_append: "pool_room2 p \<Longrightarrow> pool_append p bs = (r, p') \<Longrightarrow> pool_room p'"
  using pool_append_id [of p bs r p']
  by (auto simp: pool_room2_def pool_room_def add.assoc)

definition align_pad :: "segment_pool \<Rightarrow> nat \<Rightarrow> nat" where
  "align_pad p a = (a - sp_active_cursor p mod a) mod a"

text \<open>The last append of an aligned append, the state it starts from and its outcome.\<close>

lemma pool_append_aligned_cases:
  assumes "pool_append_aligned p bs a = (r, p')"
  obtains
      (plain) "pool_append p bs = (r, p')" "a \<le> 1 \<or> align_pad p a = 0"
    | (rotate) "pool_append (seal_and_rotate p) bs = (r, p')"
    | (pad) l p1 where "pool_append p (replicate (align_pad p a) 0) = (Ok l, p1)"
        "align_pad p a \<le> pool_remaining p" "pool_append p1 bs = (r, p')"
    | (pad_failed) r1 where "pool_append p (replicate (align_pad p a) 0) = (r1, p')" "\<not> is_ok r" 
  using assms unfolding pool_append_aligned_def Let_def align_pad_def [symmetric]
  by (auto split: if_splits prod.splits res.splits)

lemma pool_append_aligned_laws:
  assumes inv: "pool_inv p" and room: "pool_room2 p" and app: "pool_append_aligned p bs a = (r, p')"
  shows aligned_inv: "pool_inv p'"
    and aligned_keep: "pool_read p l0 = Some b \<Longrightarrow> pool_read p' l0 = Some b"
    and aligned_read: "r = Ok l \<Longrightarrow> pool_read p' l = Some bs"
proof -
  from room have room1: "pool_room p" by (simp add: pool_room2_def)
  have "pool_inv p' \<and> (\<forall>l0 b. pool_read p l0 = Some b \<longrightarrow> pool_read p' l0 = Some b) \<and>
      (\<forall>l. r = Ok l \<longrightarrow> pool_read p' l = Some bs)"
    using app
  proof (cases rule: pool_append_aligned_cases)
    case plain
    with pool_append_laws [OF inv room1] show ?thesis by blast
  next
    case rotate
    from pool_append_laws [OF pool_inv_rotate [OF inv room1] room2_rotate [OF room] rotate]
      pool_read_rotate [OF inv room1]
    show ?thesis by blast
  next
    case (pad l p1)
    from pool_append_laws [OF pool_append_inv [OF inv room1 pad(1)] room2_append [OF room pad(1)] pad(3)]
      pool_append_keep [OF inv room1 pad(1)]
    show ?thesis by blast
  next
    case (pad_failed r1)
    with pool_append_laws [OF inv room1 pad_failed(1)] show ?thesis by auto
  qed
  then show "pool_inv p'" "pool_read p l0 = Some b \<Longrightarrow> pool_read p' l0 = Some b"
    "r = Ok l \<Longrightarrow> pool_read p' l = Some bs"
    by blast+
qed

interpretation aseg: append_store pool_inv "\<lambda>p bs. pool_room2 p" "\<lambda>p bs. pool_append_aligned p bs a" pool_read
  for a
  by unfold_locales (auto intro: aligned_inv aligned_keep aligned_read)

lemma align_pad_0:
  assumes "0 < a"
  shows "(sp_active_cursor p + align_pad p a) mod a = 0"
proof -
  let ?c = "sp_active_cursor p"
  have "(?c + align_pad p a) mod a = (?c mod a + (a - ?c mod a)) mod a"
    unfolding align_pad_def by (simp only: mod_add_left_eq mod_add_right_eq)
  also have "?c mod a + (a - ?c mod a) = a"
    using assms mod_less_divisor [of a ?c] by simp
  finally show ?thesis by simp
qed

lemma append_ok_offset:
  assumes "pool_inv p" "pool_append p bs = (Ok l, p')" "sp_active_cursor p mod a = 0"
  shows "unat (vl_offset l) mod a = 0"
  using assms(2)
proof (cases rule: pool_append_cases)
  case (written l')
  then have "unat (vl_offset l) = sp_active_cursor (append_target p bs)"
    by (simp add: unat_u32_of_nat)
  moreover have "sp_active_cursor (append_target p bs) mod a = 0"
    using assms(3) by (auto simp: append_target_def intro: seal_and_rotate_eq [of p])
  ultimately show ?thesis by simp
qed simp_all

lemma aligned_offset:
  assumes inv: "pool_inv p" and a: "1 < a" and app: "pool_append_aligned p bs a = (Ok l, p')"
    and room: "pool_room p"
  shows "unat (vl_offset l) mod a = 0"
  using app
proof (cases rule: pool_append_aligned_cases)
  case plain
  with a align_pad_0 [of a p] append_ok_offset [OF inv plain(1)] show ?thesis by auto
next
  case rotate
  have "sp_active_cursor (seal_and_rotate p) = 0" by (rule seal_and_rotate_eq [of p])
  with append_ok_offset [OF pool_inv_rotate [OF inv room] rotate] show ?thesis by simp
next
  case (pad l1 p1)
  from pad(2) pool_append_no_rotate(2) [OF pad(1)]
  have "sp_active_cursor p1 = sp_active_cursor p + align_pad p a" by simp
  with a align_pad_0 [of a p] append_ok_offset [OF pool_append_inv [OF inv room pad(1)] pad(3)]
  show ?thesis by simp
qed simp_all

lemma pool_append_rewind:
  assumes inv: "pool_inv p" and room: "pool_room p" and app: "pool_append p bs = (Ok l, p1)"
    and rew: "rewind_active_to p1 (vl_seg_id l) (vl_offset l) = (r, p2)"
  shows "r = Ok ()" "pool_inv p2" "pool_read p l0 = Some b \<Longrightarrow> pool_read p2 l0 = Some b"
    "sp_active_cursor p2 = sp_active_cursor (append_target p bs)" "sp_active_id p2 = sp_active_id (append_target p bs)"
proof -
  let ?t = "append_target p bs"
  note t = append_target_keeps [OF inv room, where bs = bs]
  from app have "r = Ok () \<and> pool_inv p2 \<and> (\<forall>l0 b. pool_read ?t l0 = Some b \<longrightarrow> pool_read p2 l0 = Some b)
      \<and> sp_active_cursor p2 = sp_active_cursor ?t \<and> sp_active_id p2 = sp_active_id ?t"
  proof (cases rule: pool_append_cases)
    case (written l')
    let ?d = "fs_put (sp_data_dir ?t) (sp_active_ino ?t)
       (splice (fs_data (sp_data_dir ?t) (sp_active_ino ?t)) (sp_active_cursor ?t) bs)"
    from written rew have r: "r = Ok ()" and p2: "p2 = ?t\<lparr>sp_data_dir := ?d\<rparr>"
      by (auto simp: rewind_active_to_def unat_u32_of_nat)
    have "pool_inv p2"
      using t(1) written(4) by (auto simp: pool_inv_def p2 fs_exists_def)
    moreover have "pool_read p2 l0 = Some b" if rd: "pool_read ?t l0 = Some b" for l0 b
    proof -
      have fit: "sp_active_cursor ?t + length bs \<le> sp_seg_size ?t"
        by (rule append_target_fits [OF inv room append_target_length [OF inv room written(4)]])
      have "pool_read p1 l0 = Some b"
        by (rule pool_write_keeps(2) [OF t(1) fit written(6) rd])
      with rd show ?thesis
        by (auto simp: pool_read_def written(6) p2 Let_def split: option.splits if_splits)
    qed
    ultimately show ?thesis using r by (simp add: p2)
  qed simp_all
  with t(2) show "r = Ok ()" "pool_inv p2" "pool_read p l0 = Some b \<Longrightarrow> pool_read p2 l0 = Some b"
    "sp_active_cursor p2 = sp_active_cursor ?t" "sp_active_id p2 = sp_active_id ?t"
    by blast+
qed

section \<open>Reading through a mapping\<close>

lemma inode_rotate:
  assumes inv: "pool_inv p" and room: "pool_room p"
    and j: "fs_inode (sp_data_dir p) (segment_file s) = Some j"
  shows "fs_inode (sp_data_dir (seal_and_rotate p)) (segment_file s) = Some j"
proof (rule seal_and_rotate_eq [of p])
  fix i d'
  assume rot: "rotate_dir p = (i, d')" and eq: "sp_data_dir (seal_and_rotate p) = d'"
  have "s \<noteq> sp_active_id p + 1"
    using pool_inv_top [OF inv j] room word_less_succ [of "sp_active_id p"]
    by (auto simp: pool_room_def)
  with rotate_dir_spec(4) [OF pool_inv_fs_ok [OF inv] rot, of s] j show ?thesis
    by (simp add: eq)
qed

lemma inode_append:
  assumes "pool_inv p" "pool_room p" "pool_append p bs = (r, p')"
    and "fs_inode (sp_data_dir p) (segment_file s) = Some j"
  shows "fs_inode (sp_data_dir p') (segment_file s) = Some j"
  using assms by (auto elim!: pool_append_cases simp: append_target_def inode_rotate)

lemma inode_append_aligned:
  assumes inv: "pool_inv p" and room: "pool_room2 p" and app: "pool_append_aligned p bs a = (r, p')"
    and j: "fs_inode (sp_data_dir p) (segment_file s) = Some j"
  shows "fs_inode (sp_data_dir p') (segment_file s) = Some j"
proof -
  from room have room1: "pool_room p" by (simp add: pool_room2_def)
  show ?thesis
    using app
  proof (cases rule: pool_append_aligned_cases)
    case plain
    with inode_append [OF inv room1] j show ?thesis by blast
  next
    case rotate
    from inode_append [OF pool_inv_rotate [OF inv room1] room2_rotate [OF room] rotate]
      inode_rotate [OF inv room1 j]
    show ?thesis by blast
  next
    case (pad l p1)
    from inode_append [OF pool_append_inv [OF inv room1 pad(1)] room2_append [OF room pad(1)] pad(3)]
      inode_append [OF inv room1 pad(1) j]
    show ?thesis by blast
  next
    case (pad_failed r1)
    with inode_append [OF inv room1] j show ?thesis by blast
  qed
qed

lemma touch_sealed_frame [simp]:
  "sp_data_dir (touch_sealed p s) = sp_data_dir p" "sp_seg_size (touch_sealed p s) = sp_seg_size p"
  "sp_active_id (touch_sealed p s) = sp_active_id p" "sp_active_ino (touch_sealed p s) = sp_active_ino p"
  "sp_active_cursor (touch_sealed p s) = sp_active_cursor p" "sp_sealed (touch_sealed p s) = sp_sealed p"
  "sp_readers (touch_sealed p s) = sp_readers p"
  by (simp_all add: touch_sealed_def)

lemma sealed_handle_frame:
  assumes "sealed_handle p s = (r, p')"
  shows "sp_data_dir p' = sp_data_dir p" "sp_active_id p' = sp_active_id p"
    "sp_active_cursor p' = sp_active_cursor p"
  using assms by (auto simp: sealed_handle_def Let_def split: option.splits)

lemma pool_inv_sealed_handle:
  assumes inv: "pool_inv p" and sh: "sealed_handle p s = (r, p')"
  shows "pool_inv p'"
proof (cases "map_of (sp_sealed p) s")
  case (Some h)
  with inv sh show ?thesis by (auto simp: sealed_handle_def pool_inv_def)
next
  case None
  show ?thesis
  proof (cases "fs_inode (sp_data_dir p) (segment_file s)")
    case (Some i)
    let ?q = "p\<lparr>sp_sealed := AList.update s (seal (from_parts (sp_data_dir p) i)) (sp_sealed p),
                sp_sealed_lru := sp_sealed_lru p @ [s], sp_readers := (sp_readers p)(s := True)\<rparr>"
    have "pool_inv ?q"
      using inv Some by (auto simp: pool_inv_def seal_def from_parts_def)
    with None Some sh show ?thesis
      by (auto simp: sealed_handle_def Let_def intro: pool_inv_evict)
  qed (use None inv sh in \<open>simp add: sealed_handle_def\<close>)
qed

text \<open>A handle maps the whole file of its segment.\<close>

lemma sealed_handle_maps:
  assumes "pool_inv p" "fs_inode (sp_data_dir p) (segment_file s) = Some i"
  obtains h p' where "sealed_handle p s = (Ok h, p')" "mh_ino h = i"
    "mh_len h = length (fs_data (sp_data_dir p) i)"
proof (cases "map_of (sp_sealed p) s")
  case (Some h)
  with pool_inv_cache [OF assms(1) Some] assms(2) show ?thesis
    by (intro that [of h]) (auto simp: sealed_handle_def)
next
  case None
  with assms(2) show ?thesis
    by (intro that [of "seal (from_parts (sp_data_dir p) i)"])
      (auto simp: sealed_handle_def Let_def seal_def from_parts_def)
qed

text \<open>The buffer a reader builds from a locator.\<close>

definition buffer_of :: "segment_pool \<Rightarrow> value_locator \<Rightarrow> zero_copy_buffer \<Rightarrow> bool" where
  "buffer_of p l z \<longleftrightarrow>
     fs_inode (sp_data_dir p) (segment_file (vl_seg_id l)) = Some (mh_ino (zb_handle z)) \<and>
     zb_off z = unat (vl_offset l) \<and> zb_len z = unat (vl_len l) \<and>
     zb_off z + zb_len z \<le> mh_len (zb_handle z)"

lemma buffer_of_reads:
  "buffer_of p l z \<Longrightarrow> pool_read p l = Some b \<Longrightarrow> buffer_as_bytes (sp_data_dir p) z = b"
  by (auto simp: buffer_of_def buffer_as_bytes_def slice_mmap_as_bytes pool_read_def Let_def
      split: if_splits)

lemma pool_read_buffer:
  assumes inv: "pool_inv p" and rd: "pool_read p l = Some b"
  obtains h p' z where "sealed_handle p (vl_seg_id l) = (Ok h, p')"
    "zero_copy_buffer_new h (unat (vl_offset l)) (unat (vl_len l)) = Ok z"
    "buffer_of p' l z" "pool_inv p'" "pool_read p' l = Some b"
proof -
  obtain i where i: "fs_inode (sp_data_dir p) (segment_file (vl_seg_id l)) = Some i"
    using rd by (auto simp: pool_read_def split: option.splits)
  obtain h p' where h: "sealed_handle p (vl_seg_id l) = (Ok h, p')" "mh_ino h = i"
    "mh_len h = length (fs_data (sp_data_dir p) i)"
    by (rule sealed_handle_maps [OF inv i])
  have "unat (vl_offset l) + unat (vl_len l) \<le> length (fs_data (sp_data_dir p) i)"
    using rd i pool_inv_active [OF inv] pool_inv_cursor [OF inv] pool_inv_size [OF inv]
    by (auto simp: pool_read_def Let_def split: if_splits)
  moreover have "unat (vl_offset l) + unat (vl_len l) < USIZE_BOUND"
    using unat_u32_le [of "vl_offset l"] unat_u32_le [of "vl_len l"] by linarith
  ultimately have z: "zero_copy_buffer_new h (unat (vl_offset l)) (unat (vl_len l)) =
      Ok \<lparr>zb_handle = h, zb_off = unat (vl_offset l), zb_len = unat (vl_len l)\<rparr>"
    using h(3) by (simp add: zero_copy_buffer_new_Ok)
  note fr = sealed_handle_frame [OF h(1)]
  show ?thesis
  proof (rule that [OF h(1) z])
    show "buffer_of p' l \<lparr>zb_handle = h, zb_off = unat (vl_offset l), zb_len = unat (vl_len l)\<rparr>"
      using h(2) i z by (simp add: buffer_of_def fr zero_copy_buffer_new_Ok)
    show "pool_inv p'" by (rule pool_inv_sealed_handle [OF inv h(1)])
    show "pool_read p' l = Some b" using rd pool_read_cong [OF fr] by simp
  qed
qed

section \<open>Steps of a pool\<close>

inductive pool_step :: "segment_pool \<Rightarrow> segment_pool \<Rightarrow> bool" where
  step_append: "pool_room p \<Longrightarrow> pool_append p bs = (r, p') \<Longrightarrow> pool_step p p'"
| step_aligned: "pool_room2 p \<Longrightarrow> pool_append_aligned p bs a = (r, p') \<Longrightarrow> pool_step p p'"
| step_handle: "sealed_handle p s = (h, p') \<Longrightarrow> pool_step p p'"
| step_flush: "pool_step p (pool_flush p)"
| step_release: "pool_step p (p\<lparr>sp_readers := rd\<rparr>)"

inductive_cases pool_stepE: "pool_step p p'"

lemma pool_flush_keeps:
  assumes "pool_inv p"
  shows "pool_inv (pool_flush p)" "pool_read (pool_flush p) l = pool_read p l"
    "fs_inode (sp_data_dir (pool_flush p)) (segment_file s) = fs_inode (sp_data_dir p) (segment_file s)"
proof -
  note ok = pool_inv_fs_ok [OF assms]
  show "pool_inv (pool_flush p)"
    using assms
    by (simp add: pool_inv_def pool_flush_def fs_exists_def) (metis data_write_active_cursor)
  show "pool_read (pool_flush p) l = pool_read p l"
    by (auto simp: pool_read_def pool_flush_def Let_def data_write_active_cursor [OF ok]
        split: option.split)
qed (simp add: pool_flush_def)

lemma pool_step_keeps:
  assumes "pool_step p p'" "pool_inv p"
  shows "pool_inv p' \<and> (\<forall>l b. pool_read p l = Some b \<longrightarrow> pool_read p' l = Some b) \<and>
    (\<forall>s j. fs_inode (sp_data_dir p) (segment_file s) = Some j \<longrightarrow>
       fs_inode (sp_data_dir p') (segment_file s) = Some j)"
  using assms
proof cases
  case (step_append bs r)
  with pool_append_laws [OF assms(2) step_append] inode_append [OF assms(2) step_append]
  show ?thesis by blast
next
  case (step_aligned bs a r)
  with pool_append_aligned_laws [OF assms(2) step_aligned]
    inode_append_aligned [OF assms(2) step_aligned]
  show ?thesis by blast
next
  case (step_handle s h)
  with assms(2) show ?thesis
    by (simp add: pool_inv_sealed_handle sealed_handle_frame [OF step_handle] pool_read_cong
        [OF sealed_handle_frame [OF step_handle]])
next
  case step_flush
  with assms(2) show ?thesis by (simp add: pool_flush_keeps)
next
  case (step_release rd)
  with assms(2) pool_read_cong [of "p\<lparr>sp_readers := rd\<rparr>" p] show ?thesis
    by (simp add: pool_inv_def)
qed

lemma pool_steps_keep:
  assumes "pool_step\<^sup>*\<^sup>* p p'" "pool_inv p"
  shows "pool_inv p' \<and> (\<forall>l b. pool_read p l = Some b \<longrightarrow> pool_read p' l = Some b) \<and>
    (\<forall>s j. fs_inode (sp_data_dir p) (segment_file s) = Some j \<longrightarrow>
       fs_inode (sp_data_dir p') (segment_file s) = Some j)"
  using assms
proof (induction rule: rtranclp_induct)
  case (step y z)
  with pool_step_keeps [OF step.hyps(2)] show ?case by blast
qed simp

lemma pool_rewind_inv:
  "pool_inv p' \<Longrightarrow> pool_inv (snd (rewind_active_to p' seg off))"
  "sp_seg_size (snd (rewind_active_to p' seg off)) = sp_seg_size p'"
  by (auto simp: rewind_active_to_def pool_inv_def)

text \<open>
  Rewinding.  \<open>pool_step\<close> has no rewind: a rewind gives the space of the last payloads back and the next append
  writes over it.  The steps below are the steps of a pool of which one locator is still in use:
  they include every rewind except one of the active segment to an offset before the end of that payload.
\<close>

definition rewind_spares :: "value_locator \<Rightarrow> segment_pool \<Rightarrow> u32 \<Rightarrow> u32 \<Rightarrow> bool" where
  "rewind_spares l p seg off =
     (seg = sp_active_id p \<and> seg = vl_seg_id l \<longrightarrow> unat (vl_offset l) + unat (vl_len l) \<le> unat off)"

inductive pool_step_sparing :: "value_locator \<Rightarrow> segment_pool \<Rightarrow> segment_pool \<Rightarrow> bool" for l where
  sparing_step: "pool_step p p' \<Longrightarrow> pool_step_sparing l p p'"
| sparing_rewind: "rewind_spares l p seg off \<Longrightarrow> rewind_active_to p seg off = (r, p') \<Longrightarrow> pool_step_sparing l p p'"

inductive_cases pool_step_sparingE: "pool_step_sparing l p p'"

lemma rewind_spares_keeps:
  assumes "rewind_spares l p seg off" "rewind_active_to p seg off = (r, p')"
  shows "sp_data_dir p' = sp_data_dir p" "pool_read p l = Some b \<Longrightarrow> pool_read p' l = Some b"
proof -
  consider "p' = p" | "seg = sp_active_id p" "p' = p\<lparr>sp_active_cursor := unat off\<rparr>"
    using assms(2) by (auto simp: rewind_active_to_def split: if_splits)
  then have "sp_data_dir p' = sp_data_dir p \<and> (pool_read p l = Some b \<longrightarrow> pool_read p' l = Some b)"
  proof cases
    case 2
    with assms(1) show ?thesis
      by (auto simp: rewind_spares_def pool_read_def Let_def split: option.split)
  qed simp
  then show "sp_data_dir p' = sp_data_dir p" "pool_read p l = Some b \<Longrightarrow> pool_read p' l = Some b"
    by blast+
qed

lemma pool_step_sparing_keeps:
  assumes "pool_step_sparing l p p'" "pool_inv p" "pool_read p l = Some b"
  shows "pool_inv p' \<and> pool_read p' l = Some b \<and>
    (\<forall>s j. fs_inode (sp_data_dir p) (segment_file s) = Some j \<longrightarrow>
       fs_inode (sp_data_dir p') (segment_file s) = Some j)"
  using assms(1)
proof (cases rule: pool_step_sparing.cases)
  case sparing_step
  with pool_step_keeps [OF sparing_step assms(2)] assms(3) show ?thesis by blast
next
  case (sparing_rewind seg off r)
  from rewind_spares_keeps [OF sparing_rewind] pool_rewind_inv(1) [OF assms(2), of seg off] sparing_rewind(2) assms(3)
  show ?thesis by simp
qed

lemma pool_steps_sparing_keep:
  assumes "(pool_step_sparing l)\<^sup>*\<^sup>* p p'" "pool_inv p" "pool_read p l = Some b"
  shows "pool_inv p' \<and> pool_read p' l = Some b \<and>
    (\<forall>s j. fs_inode (sp_data_dir p) (segment_file s) = Some j \<longrightarrow>
       fs_inode (sp_data_dir p') (segment_file s) = Some j)"
  using assms
proof (induction rule: rtranclp_induct)
  case (step y z)
  with pool_step_sparing_keeps [OF step.hyps(2), of b] show ?case by blast
qed simp

section \<open>Opening and reopening\<close>

lemma pool_open_resume:
  assumes inv: "pool_inv p" and sz: "0 < sp_seg_size p" "sp_seg_size p < 2 ^ 64"
  defines "q \<equiv> pool_open (sp_data_dir (pool_flush p)) (sp_seg_size p)"
  shows "sp_active_id q = sp_active_id p" "sp_active_cursor q = sp_active_cursor p"
    "pool_inv q" "pool_read q l = pool_read p l"
proof -
  let ?d = "sp_data_dir (pool_flush p)"
  note fl = pool_flush_keeps [OF inv]
  have "sp_active_cursor p < 2 ^ 64"
    using pool_inv_cursor [OF inv] sz by linarith
  then have rc: "read_active_cursor ?d = Some (sp_active_id p, sp_active_cursor p)"
    by (simp add: pool_flush_def read_write_active_cursor)
  have act: "fs_inode ?d (segment_file (sp_active_id p)) = Some (sp_active_ino p)"
    using fl(3) pool_inv_active [OF inv] by simp
  have "length (fs_data ?d (sp_active_ino p)) \<ge> sp_seg_size p"
    using pool_inv_size [OF fl(1)] by (simp add: pool_flush_def)
  with act have oc: "open_or_create_segment ?d (segment_file (sp_active_id p)) (sp_seg_size p)
      = (sp_active_ino p, ?d)"
    by (simp add: open_or_create_segment_def open_or_create_sized_def fs_open_create_def)
  have q: "q = (pool_flush p)\<lparr>sp_sealed := [], sp_sealed_lru := [], sp_readers := (\<lambda>_. False)\<rparr>"
    using rc oc act sz pool_inv_cursor [OF inv]
    by (simp add: q_def pool_open_def fs_exists_def) (simp add: pool_flush_def)
  show "sp_active_id q = sp_active_id p" "sp_active_cursor q = sp_active_cursor p"
    by (simp_all add: q pool_flush_def)
  show "pool_inv q"
    using fl(1) by (simp add: q pool_inv_def)
  show "pool_read q l = pool_read p l"
    using fl(2) pool_read_cong [of q "pool_flush p" l] by (simp add: q)
qed

lemma pool_open_fresh:
  assumes ok: "fs_ok d" and nc: "read_active_cursor d = None"
    and ids: "next_seg_id d = 0 \<Longrightarrow> \<forall>s. \<not> fs_exists d (segment_file s)"
  shows "pool_inv (pool_open d n)"
proof -
  let ?sz = "if n = 0 then DEFAULT_SEGMENT_SIZE else n"
  let ?id = "next_seg_id d"
  obtain i d' where oc: "open_or_create_sized d (segment_file ?id) ?sz = (i, d')"
    by (cases "open_or_create_sized d (segment_file ?id) ?sz")
  note spec = open_or_create_sized_spec [OF ok oc]
  have top: "s \<le> ?id" if ex: "fs_exists d' (segment_file s)" for s
  proof (cases "s = ?id")
    case False
    then obtain j where j: "fs_inode d (segment_file s) = Some j"
      using spec(4) [of "segment_file s"] ex by (auto simp: fs_exists_def)
    then have "?id \<noteq> 0" using ids by (auto simp: fs_exists_def)
    with j next_seg_of_fresh [of d "''kv_payload_''" s j] show ?thesis
      by (simp add: next_seg_id_def segment_file_def)
  qed simp
  show ?thesis
    using nc oc spec(1,2,3) top
    by (simp add: pool_open_def open_or_create_segment_def pool_inv_def Let_def)
qed

lemma pool_inv_open_empty: "pool_inv (pool_open fs_empty n)"
  by (rule pool_open_fresh)
    (simp_all add: fs_empty_def fs_ok_def read_active_cursor_def fs_read_def fs_inode_def fs_exists_def)

section \<open>Properties\<close>

lemma pool_append_fits:
  assumes inv: "pool_inv p" and room: "pool_room p" and sz: "sp_seg_size p \<le> U32_MAX"
    and len: "length bs \<le> sp_seg_size p"
  shows "\<exists>l. fst (pool_append p bs) = Ok l"
proof -
  let ?t = "append_target p bs"
  note t = append_target_keeps [OF inv room, where bs = bs]
  note fit = append_target_fits [OF inv room len]
  have "sp_seg_size ?t = sp_seg_size p"
    by (auto simp: append_target_def intro: seal_and_rotate_eq [of p])
  with fit sz have "\<not> U32_MAX < sp_active_cursor ?t" by linarith
  moreover have "\<not> length (fs_data (sp_data_dir ?t) (sp_active_ino ?t)) < sp_active_cursor ?t + length bs"
    using fit pool_inv_size [OF t(1)] by linarith
  moreover have "\<not> U32_MAX < length bs" using len sz by linarith
  ultimately show ?thesis
    unfolding pool_append_def Let_def append_target_def [symmetric] by simp
qed

lemma pool_append_oversized:
  assumes inv: "pool_inv p" and room: "pool_room p"
    and len: "sp_seg_size p < length bs" "length bs \<le> U32_MAX"
  shows "fst (pool_append p bs) = Panic"
proof -
  have t: "append_target p bs = seal_and_rotate p"
    using len by (simp add: append_target_def pool_remaining_def)
  have "sp_active_cursor (seal_and_rotate p) = 0" by (rule seal_and_rotate_eq [of p])
  with rotated_length [OF inv room] len show ?thesis
    unfolding pool_append_def Let_def append_target_def [symmetric] t by simp
qed

text \<open>
  Append of the payload pool (C7).  A payload that fits a segment is always stored: the
  append succeeds, the locator reads back exactly the payload, the pool keeps its invariant
  and every locator handed out before reads what it read before, whether or not the append
  rotated to a new segment.
\<close>

theorem pool_append_correct:
  assumes "pool_inv p" "pool_room p" "sp_seg_size p \<le> U32_MAX" "length bs \<le> sp_seg_size p"
  shows "\<exists>l p'. pool_append p bs = (Ok l, p') \<and> pool_inv p' \<and> pool_read p' l = Some bs \<and>
    (\<forall>l0 b. pool_read p l0 = Some b \<longrightarrow> pool_read p' l0 = Some b)"
proof -
  obtain l p' where app: "pool_append p bs = (Ok l, p')"
    using pool_append_fits [OF assms] by (metis prod.collapse)
  with pool_append_laws [OF assms(1,2) app] show ?thesis by blast
qed

theorem pool_append_correct_witness:
  "\<exists>l p'. pool_append (pool_open fs_empty 16) [1, 2, 3] = (Ok l, p') \<and> pool_inv p' \<and>
    pool_read p' l = Some [1, 2, 3] \<and>
    (\<forall>l0 b. pool_read (pool_open fs_empty 16) l0 = Some b \<longrightarrow> pool_read p' l0 = Some b)"
  by (rule pool_append_correct [OF pool_inv_open_empty]) code_simp+

text \<open>
  Oversized payloads.  A payload longer than a whole segment (and no longer than
  \<open>u32::MAX\<close>) is not refused: after the rotation the copy into the mapping is out of range
  and the append panics.
\<close>

theorem pool_append_oversized_panics:
  assumes "pool_inv p" "pool_room p" "sp_seg_size p < length bs" "length bs \<le> U32_MAX"
  shows "pool_append p bs = (Panic, seal_and_rotate p)"
proof -
  have "append_target p bs = seal_and_rotate p"
    using assms(3) by (simp add: append_target_def pool_remaining_def)
  with pool_append_oversized [OF assms] show ?thesis
    by (cases "pool_append p bs") (auto elim!: pool_append_cases)
qed

theorem pool_append_oversized_panics_witness:
  "pool_append (pool_open fs_empty 2) [1, 2, 3] = (Panic, seal_and_rotate (pool_open fs_empty 2))"
  by (rule pool_append_oversized_panics [OF pool_inv_open_empty]) code_simp+

lemma rewind_below_overwrites:
  assumes buf: "buffer_of p l z" and inv: "pool_inv p" and rd: "pool_read p l = Some b"
    and act: "vl_seg_id l = sp_active_id p" and len: "length b' = length b"
  shows "buffer_as_bytes (sp_data_dir (snd (pool_append (snd (rewind_active_to p (vl_seg_id l) (vl_offset l))) b'))) z = b'"
proof -
  let ?q = "snd (rewind_active_to p (vl_seg_id l) (vl_offset l))"
  from rd have hi: "unat (vl_offset l) + unat (vl_len l) \<le> sp_active_cursor p" and b: "length b = unat (vl_len l)"
    using act pool_inv_active [OF inv] pool_inv_cursor [OF inv] pool_inv_size [OF inv]
    by (auto simp: pool_read_def Let_def slice_def split: if_splits)
  then have q: "?q = p\<lparr>sp_active_cursor := unat (vl_offset l)\<rparr>"
    using act by (simp add: rewind_active_to_def)
  have bound: "sp_active_cursor p \<le> length (fs_data (sp_data_dir p) (sp_active_ino p))" "sp_active_cursor p \<le> sp_seg_size p"
    using pool_inv_cursor [OF inv] pool_inv_size [OF inv] by linarith+
  have "unat (vl_offset l) \<le> U32_MAX" "unat (vl_len l) \<le> U32_MAX"
    by (rule unat_u32_le)+
  with bound have "sp_data_dir (snd (pool_append ?q b')) = fs_put (sp_data_dir p) (sp_active_ino p)
      (splice (fs_data (sp_data_dir p) (sp_active_ino p)) (unat (vl_offset l)) b')"
    using hi b len by (simp add: q pool_append_def pool_remaining_def Let_def)
  moreover have "slice (splice (fs_data (sp_data_dir p) (sp_active_ino p)) (unat (vl_offset l)) b')
      (unat (vl_offset l)) (unat (vl_len l)) = b'"
    using slice_splice_same [of "unat (vl_offset l)" "fs_data (sp_data_dir p) (sp_active_ino p)" b'] bound(1) hi b len
    by simp
  ultimately show ?thesis
    using buf pool_inv_active [OF inv] act
    by (simp add: buffer_of_def buffer_as_bytes_def slice_mmap_as_bytes)
qed

text \<open>
  Zero-copy reads (C6).  For a locator that is valid in the pool, opening the segment and
  building the buffer succeed, the buffer reads the payload, and it keeps reading the same
  bytes after any sequence of appends, aligned appends, handle look-ups with their LRU
  evictions, flushes, releases of readers and rewinds, except a rewind of the payload's own segment,
  while it is active, to an offset before the payload's end.  Such a rewind gives the space back: when the active
  segment is rewound to the payload and as many other bytes are appended, the buffer reads those.
\<close>

theorem zero_copy_read_stable:
  assumes inv: "pool_inv p" and rd: "pool_read p l = Some b"
  shows "\<exists>h p1 z. sealed_handle p (vl_seg_id l) = (Ok h, p1) \<and>
    zero_copy_buffer_new h (unat (vl_offset l)) (unat (vl_len l)) = Ok z \<and>
    (\<forall>p2. (pool_step_sparing l)\<^sup>*\<^sup>* p1 p2 \<longrightarrow> buffer_as_bytes (sp_data_dir p2) z = b) \<and>
    (\<forall>b'. vl_seg_id l = sp_active_id p \<and> length b' = length b \<longrightarrow>
       buffer_as_bytes (sp_data_dir (snd (pool_append (snd (rewind_active_to p1 (vl_seg_id l) (vl_offset l))) b'))) z = b')"
proof -
  obtain h p1 z where h: "sealed_handle p (vl_seg_id l) = (Ok h, p1)"
    "zero_copy_buffer_new h (unat (vl_offset l)) (unat (vl_len l)) = Ok z"
    and p1: "buffer_of p1 l z" "pool_inv p1" "pool_read p1 l = Some b"
    by (rule pool_read_buffer [OF inv rd])
  have "buffer_as_bytes (sp_data_dir p2) z = b" if "(pool_step_sparing l)\<^sup>*\<^sup>* p1 p2" for p2
  proof (rule buffer_of_reads)
    show "buffer_of p2 l z" "pool_read p2 l = Some b"
      using pool_steps_sparing_keep [OF that p1(2,3)] p1 by (auto simp: buffer_of_def)
  qed
  moreover have "buffer_as_bytes (sp_data_dir (snd (pool_append (snd (rewind_active_to p1 (vl_seg_id l) (vl_offset l))) b'))) z = b'"
    if "vl_seg_id l = sp_active_id p" "length b' = length b" for b'
    using rewind_below_overwrites [OF p1] that sealed_handle_frame [OF h(1)] by simp
  ultimately show ?thesis using h by blast
qed

theorem zero_copy_read_stable_witness:
  "let p = snd (pool_append (pool_open fs_empty 16) [1, 2, 3]);
       l = \<lparr>vl_seg_id = 0, vl_offset = 0, vl_len = 3\<rparr>
   in \<exists>h p1 z. sealed_handle p (vl_seg_id l) = (Ok h, p1) \<and>
    zero_copy_buffer_new h (unat (vl_offset l)) (unat (vl_len l)) = Ok z \<and>
    (\<forall>p2. (pool_step_sparing l)\<^sup>*\<^sup>* p1 p2 \<longrightarrow> buffer_as_bytes (sp_data_dir p2) z = [1, 2, 3]) \<and>
    buffer_as_bytes (sp_data_dir (snd (pool_append (snd (rewind_active_to p1 (vl_seg_id l) (vl_offset l))) [9, 9, 9]))) z = [9, 9, 9]"
proof -
  let ?p = "snd (pool_append (pool_open fs_empty 16) [1, 2, 3])"
  let ?l = "\<lparr>vl_seg_id = 0, vl_offset = 0, vl_len = 3\<rparr> :: value_locator"
  have inv: "pool_inv ?p"
    by (rule pool_append_inv [OF pool_inv_open_empty _ surjective_pairing]) code_simp
  have rd: "pool_read ?p ?l = Some [1, 2, 3]" and act: "vl_seg_id ?l = sp_active_id ?p" by code_simp+
  from zero_copy_read_stable [OF inv rd] act show ?thesis
    unfolding Let_def by fastforce
qed

text \<open>
  Aligned appends.  The offset of an aligned append is a multiple of the alignment,
  the payload reads back, and earlier locators keep reading what they read.
\<close>

theorem pool_append_aligned_correct:
  assumes "pool_inv p" "pool_room2 p" "1 < a" "pool_append_aligned p bs a = (Ok l, p')"
  shows "unat (vl_offset l) mod a = 0 \<and> pool_inv p' \<and> pool_read p' l = Some bs \<and>
    (\<forall>l0 b. pool_read p l0 = Some b \<longrightarrow> pool_read p' l0 = Some b)"
  using aligned_offset [OF assms(1,3,4)] pool_append_aligned_laws [OF assms(1,2,4)] assms(2)
  by (auto simp: pool_room2_def)

theorem pool_append_aligned_correct_witness:
  "let p = snd (pool_append (pool_open fs_empty 64) [1, 2, 3]);
       l = \<lparr>vl_seg_id = 0, vl_offset = 8, vl_len = 2\<rparr>;
       p' = snd (pool_append_aligned p [7, 8] 8)
   in unat (vl_offset l) mod 8 = 0 \<and> pool_inv p' \<and> pool_read p' l = Some [7, 8] \<and>
    (\<forall>l0 b. pool_read p l0 = Some b \<longrightarrow> pool_read p' l0 = Some b)"
proof -
  let ?p = "snd (pool_append (pool_open fs_empty 64) [1, 2, 3])"
  have inv: "pool_inv ?p"
    by (rule pool_append_inv [OF pool_inv_open_empty _ surjective_pairing]) code_simp
  have app: "pool_append_aligned ?p [7, 8] 8 =
      (Ok \<lparr>vl_seg_id = 0, vl_offset = 8, vl_len = 2\<rparr>, snd (pool_append_aligned ?p [7, 8] 8))"
  proof (rule prod_eqI)
    show "fst (pool_append_aligned ?p [7, 8] 8) =
        fst (Ok \<lparr>vl_seg_id = 0, vl_offset = 8, vl_len = 2\<rparr>, snd (pool_append_aligned ?p [7, 8] 8))"
      unfolding fst_conv by code_simp
  qed simp
  have "pool_room2 ?p" by code_simp
  from pool_append_aligned_correct [OF inv this _ app] show ?thesis
    unfolding Let_def by simp
qed

text \<open>
  Reopening.  After a flush, opening the directory again resumes the same active
  segment at the same cursor, and every locator reads the same bytes.
\<close>

theorem pool_reopen_resumes:
  assumes "pool_inv p" "0 < sp_seg_size p" "sp_seg_size p < 2 ^ 64"
    and "q = pool_open (sp_data_dir (pool_flush p)) (sp_seg_size p)"
  shows "sp_active_id q = sp_active_id p \<and> sp_active_cursor q = sp_active_cursor p \<and> pool_inv q \<and>
    (\<forall>l. pool_read q l = pool_read p l)"
  using pool_open_resume [OF assms(1,2,3)] assms(4) by simp

theorem pool_reopen_resumes_witness:
  "let p = snd (pool_append (pool_open fs_empty 16) [1, 2, 3]);
       q = pool_open (sp_data_dir (pool_flush p)) (sp_seg_size p)
   in sp_active_id q = sp_active_id p \<and> sp_active_cursor q = sp_active_cursor p \<and> pool_inv q \<and>
    (\<forall>l. pool_read q l = pool_read p l)"
  unfolding Let_def
  by (rule pool_reopen_resumes,
      rule pool_append_inv [OF pool_inv_open_empty _ surjective_pairing], code_simp,
      code_simp, code_simp, rule refl)

text \<open>
  LRU eviction.  A mapping that a reader holds is never dropped from the cache, no
  other cached mapping is changed, and after the pass either the queue is within its bound
  of 64 entries or nothing that is left in it may be evicted.
\<close>

theorem evict_sealed_correct:
  "(\<forall>s. sp_readers p s \<longrightarrow> map_of (sp_sealed (evict_sealed p)) s = map_of (sp_sealed p) s) \<and>
   (\<forall>s h. map_of (sp_sealed (evict_sealed p)) s = Some h \<longrightarrow> map_of (sp_sealed p) s = Some h) \<and>
   (length (sp_sealed_lru (evict_sealed p)) \<le> SEALED_CACHE_CAP \<or>
    (\<forall>c \<in> set (sp_sealed_lru (evict_sealed p)).
       \<not> evict_safe (sp_sealed (evict_sealed p)) (sp_readers p) c))"
proof -
  obtain s' l' where e: "evict_loop SEALED_CACHE_CAP (sp_readers p) (length (sp_sealed_lru p)) 0
      (sp_sealed p) (sp_sealed_lru p) = (s', l')"
    by (cases "evict_loop SEALED_CACHE_CAP (sp_readers p) (length (sp_sealed_lru p)) 0
      (sp_sealed p) (sp_sealed_lru p)")
  then have p': "sp_sealed (evict_sealed p) = s'" "sp_sealed_lru (evict_sealed p) = l'"
    by (simp_all add: evict_sealed_def)
  have "length l' \<le> SEALED_CACHE_CAP \<or> (\<forall>c \<in> set l'. \<not> evict_safe s' (sp_readers p) c)"
    by (rule evict_loop_bound [OF e]) simp_all
  with evict_loop_held [OF e] evict_loop_sub [OF e] show ?thesis
    unfolding p' by blast
qed

theorem evict_sealed_correct_witness:
  "let p = (pool_open fs_empty 16)\<lparr>sp_readers := (\<lambda>s. s = 0),
             sp_sealed := [(0, \<lparr>mh_ino = 0, mh_len = 16, mh_sealed = True\<rparr>)]\<rparr>
   in sp_readers p 0 \<and> map_of (sp_sealed (evict_sealed p)) 0 = map_of (sp_sealed p) 0"
  unfolding Let_def
  using evict_sealed_correct
    [of "(pool_open fs_empty 16)\<lparr>sp_readers := (\<lambda>s. s = 0),
             sp_sealed := [(0, \<lparr>mh_ino = 0, mh_len = 16, mh_sealed = True\<rparr>)]\<rparr>"]
  by simp

end
