(* ===== verification/Heed.thy ===== *)
theory Heed
  imports Store_Error
begin

text \<open>
  The interface of \<open>heed\<close> (LMDB) that the stores call, as a record of operations over an
  abstract state \<open>'h\<close>.  A write transaction works on a copy of the state; \<open>commit\<close> publishes
  it or fails, and a transaction that is dropped leaves the published state as it was.  The
  engine relies on the documented behaviour of the library as stated in \<open>heed_laws\<close>; every
  theorem that needs it has it as a hypothesis.  \<open>mem_heed\<close> is a concrete instance that
  satisfies the laws, used to evaluate the model.
\<close>

datatype 'a hres = HOk 'a | HErr heed_error

record 'h heed =
  hd_write_txn :: "'h \<Rightarrow> unit hres"
  hd_read_txn :: "'h \<Rightarrow> unit hres"
  hd_create :: "'h \<Rightarrow> string \<Rightarrow> 'h hres"
  hd_open :: "'h \<Rightarrow> string \<Rightarrow> bool hres"
  hd_get :: "'h \<Rightarrow> string \<Rightarrow> bytes \<Rightarrow> bytes option hres"
  hd_put :: "'h \<Rightarrow> string \<Rightarrow> bytes \<Rightarrow> bytes \<Rightarrow> 'h hres"
  hd_del :: "'h \<Rightarrow> string \<Rightarrow> bytes \<Rightarrow> (bool \<times> 'h) hres"
  hd_iter :: "'h \<Rightarrow> string \<Rightarrow> (bytes \<times> bytes) list hres"
  hd_commit :: "'h \<Rightarrow> 'h hres"

text \<open>\<open>?\<close> on a \<open>heed\<close> result: the error becomes \<open>StoreError::Heed\<close>.\<close>

fun heed_res :: "'a hres \<Rightarrow> 'a res" where
  "heed_res (HOk x) = Ok x"
| "heed_res (HErr e) = Err (Heed e)"

lemma heed_res_Ok [simp]: "heed_res r = Ok x \<longleftrightarrow> r = HOk x"
  by (cases r) auto

lemma heed_res_not_Panic [simp]: "heed_res r \<noteq> Panic"
  by (cases r) auto

definition heed_view :: "('h, 'm) heed_scheme \<Rightarrow> 'h \<Rightarrow> string \<Rightarrow> bytes \<rightharpoonup> bytes" where
  "heed_view H h db k = (case hd_get H h db k of HOk v \<Rightarrow> v | HErr e \<Rightarrow> None)"

definition heed_laws :: "('h, 'm) heed_scheme \<Rightarrow> bool" where
  "heed_laws H \<longleftrightarrow>
     (\<forall>h db k v h'. hd_put H h db k v = HOk h' \<longrightarrow>
        hd_get H h' db k = HOk (Some v) \<and>
        (\<forall>db' k'. (db', k') \<noteq> (db, k) \<longrightarrow> hd_get H h' db' k' = hd_get H h db' k')) \<and>
     (\<forall>h db k b h'. hd_del H h db k = HOk (b, h') \<longrightarrow>
        hd_get H h' db k = HOk None \<and> (b \<longleftrightarrow> hd_get H h db k \<noteq> HOk None) \<and>
        (\<forall>db' k'. (db', k') \<noteq> (db, k) \<longrightarrow> hd_get H h' db' k' = hd_get H h db' k')) \<and>
     (\<forall>h h' db k. hd_commit H h = HOk h' \<longrightarrow> hd_get H h' db k = hd_get H h db k) \<and>
     (\<forall>h h' n db k. hd_create H h n = HOk h' \<longrightarrow> hd_get H h' db k = hd_get H h db k) \<and>
     (\<forall>h db kvs. hd_iter H h db = HOk kvs \<longrightarrow> distinct (map fst kvs) \<and> map_of kvs = heed_view H h db)"

lemma heed_put_get:
  "heed_laws H \<Longrightarrow> hd_put H h db k v = HOk h' \<Longrightarrow>
     hd_get H h' db' k' = (if db' = db \<and> k' = k then HOk (Some v) else hd_get H h db' k')"
  unfolding heed_laws_def by (cases "db' = db \<and> k' = k") auto

lemma heed_del_get:
  "heed_laws H \<Longrightarrow> hd_del H h db k = HOk (b, h') \<Longrightarrow>
     hd_get H h' db' k' = (if db' = db \<and> k' = k then HOk None else hd_get H h db' k')"
  unfolding heed_laws_def by (cases "db' = db \<and> k' = k") auto

lemma heed_del_found:
  "heed_laws H \<Longrightarrow> hd_del H h db k = HOk (b, h') \<Longrightarrow> b \<longleftrightarrow> hd_get H h db k \<noteq> HOk None"
  unfolding heed_laws_def by blast

lemma heed_commit_get:
  "heed_laws H \<Longrightarrow> hd_commit H h = HOk h' \<Longrightarrow> hd_get H h' db k = hd_get H h db k"
  unfolding heed_laws_def by blast

lemma heed_create_get:
  "heed_laws H \<Longrightarrow> hd_create H h n = HOk h' \<Longrightarrow> hd_get H h' db k = hd_get H h db k"
  unfolding heed_laws_def by blast

lemma heed_iter_view:
  "heed_laws H \<Longrightarrow> hd_iter H h db = HOk kvs \<Longrightarrow> distinct (map fst kvs) \<and> map_of kvs = heed_view H h db"
  unfolding heed_laws_def by blast

lemmas heed_gets = heed_put_get heed_del_get heed_commit_get heed_create_get

lemma heed_view_Some: "heed_view H h db k = Some v \<longleftrightarrow> hd_get H h db k = HOk (Some v)"
  by (auto simp: heed_view_def split: hres.splits)

lemma heed_put_view:
  "heed_laws H \<Longrightarrow> hd_put H h db k v = HOk h' \<Longrightarrow>
     heed_view H h' db' = (if db' = db then (heed_view H h db')(k \<mapsto> v) else heed_view H h db')"
  by (auto simp: heed_view_def heed_put_get fun_eq_iff)

lemma heed_del_view:
  "heed_laws H \<Longrightarrow> hd_del H h db k = HOk (b, h') \<Longrightarrow>
     heed_view H h' db' = (if db' = db then (heed_view H h db')(k := None) else heed_view H h db')"
  by (auto simp: heed_view_def heed_del_get fun_eq_iff)

lemma heed_commit_view:
  "heed_laws H \<Longrightarrow> hd_commit H h = HOk h' \<Longrightarrow> heed_view H h' db = heed_view H h db"
  by (auto simp: heed_view_def heed_commit_get fun_eq_iff)

lemma heed_create_view:
  "heed_laws H \<Longrightarrow> hd_create H h n = HOk h' \<Longrightarrow> heed_view H h' db = heed_view H h db"
  by (auto simp: heed_view_def heed_create_get fun_eq_iff)

lemmas heed_views = heed_put_view heed_del_view heed_commit_view heed_create_view

section \<open>An instance\<close>

text \<open>
  LMDB rejects empty keys and keys of more than 511 bytes; otherwise a list of bindings.
  The bindings of a database come out in the order of their keys in LMDB; here in the order
  of their first insertion.
\<close>

type_synonym mem_db = "((string \<times> bytes) \<times> bytes) list"

definition bad_key :: "bytes \<Rightarrow> bool" where
  "bad_key k \<longleftrightarrow> k = [] \<or> length k > 511"

definition mem_heed :: "mem_db heed" where
  "mem_heed =
     \<lparr>hd_write_txn = (\<lambda>h. HOk ()), hd_read_txn = (\<lambda>h. HOk ()), hd_create = (\<lambda>h n. HOk h), hd_open = (\<lambda>h n. HOk True),
      hd_get = (\<lambda>h db k. if bad_key k then HErr HeedOther else HOk (map_of h (db, k))),
      hd_put = (\<lambda>h db k v. if bad_key k then HErr HeedOther else HOk (AList.update (db, k) v h)),
      hd_del = (\<lambda>h db k. if bad_key k then HErr HeedOther
                  else HOk (map_of h (db, k) \<noteq> None, AList.delete (db, k) h)),
      hd_iter = (\<lambda>h db. HOk (map (\<lambda>((d, k), v). (k, v))
                  (filter (\<lambda>((d, k), v). d = db \<and> \<not> bad_key k) (AList.clearjunk h)))),
      hd_commit = (\<lambda>h. HOk h)\<rparr>"

lemma mem_iter_map_of:
  "map_of (map (\<lambda>((d, k), v). (k, v)) (filter (\<lambda>((d, k), v). d = db \<and> P k) kvs)) k =
     (if P k then map_of kvs (db, k) else None)"
  by (induction kvs) auto

lemma mem_iter_distinct:
  "distinct (map fst kvs) \<Longrightarrow>
     distinct (map fst (map (\<lambda>((d, k), v). (k, v)) (filter (\<lambda>((d, k), v). d = db \<and> P k) kvs)))"
  by (induction kvs) force+

lemma mem_heed_laws: "heed_laws mem_heed"
  unfolding heed_laws_def
proof (intro conjI)
  have "distinct (map fst kvs) \<and> map_of kvs = heed_view mem_heed h db"
    if "hd_iter mem_heed h db = HOk kvs" for h db kvs
  proof
    have kvs: "kvs = map (\<lambda>((d, k), v). (k, v))
        (filter (\<lambda>((d, k), v). d = db \<and> \<not> bad_key k) (AList.clearjunk h))"
      using that by (simp add: mem_heed_def)
    show "distinct (map fst kvs)"
      unfolding kvs by (rule mem_iter_distinct [OF distinct_clearjunk])
    show "map_of kvs = heed_view mem_heed h db"
      unfolding kvs by (auto simp: mem_heed_def heed_view_def mem_iter_map_of map_of_clearjunk)
  qed
  then show "\<forall>h db kvs. hd_iter mem_heed h db = HOk kvs \<longrightarrow>
      distinct (map fst kvs) \<and> map_of kvs = heed_view mem_heed h db"
    by blast
qed (auto simp: mem_heed_def split: if_splits)

lemma mem_heed_empty: "heed_view mem_heed [] db = Map.empty"
  by (auto simp: heed_view_def mem_heed_def fun_eq_iff)

end
