(* ===== verification/Kv.thy ===== *)
theory Kv
  imports Segment Heed
begin

text \<open>
  \<open>fs-core/src/store/kv.rs\<close>: the KV store of one namespace.  The value of a key is a locator in
  the \<open>heed\<close> database \<open>kv_locators\<close> that points into the payload pool; the namespace quota is a
  counter in the database \<open>kv_quota\<close>, updated in the same transaction.  The \<open>heed\<close> operations are
  an argument \<open>H\<close>; the answers of \<open>flock\<close> are the argument \<open>lk\<close>.  Durations are in nanoseconds.

  The store refines a map from keys to values (\<open>kv_abs\<close>), whatever the outcome of an operation,
  and the quota counter bounds the number of live payload bytes.
\<close>

definition KV_DB_NAME :: string where "KV_DB_NAME = ''kv_locators''"
definition QUOTA_DB_NAME :: string where "QUOTA_DB_NAME = ''kv_quota''"
definition QUOTA_KEY :: bytes where "QUOTA_KEY = [117, 115, 101, 100]"
definition KV_MAP_SIZE :: nat where "KV_MAP_SIZE = 2 * 1024 * 1024 * 1024"
definition LMDB_MAX_KEY :: nat where "LMDB_MAX_KEY = 511"

fun classify_heed :: "heed_error \<Rightarrow> store_error" where
  "classify_heed MdbMapFull = MapFull 0 KV_MAP_SIZE"
| "classify_heed HeedOther = Heed HeedOther"

record 'h kv_store =
  ks_env :: 'h
  ks_pool :: segment_pool
  ks_quota_limit :: u64

section \<open>Locators and quota in the database\<close>

definition binencode :: "value_locator \<Rightarrow> bytes" where
  "binencode l = u32_to_le (vl_seg_id l) @ u32_to_le (vl_offset l) @ u32_to_le (vl_len l)"

definition bindecode :: "bytes \<Rightarrow> value_locator res" where
  "bindecode bs =
     (if length bs \<noteq> 12 then Err (Corrupt ''locator len != 12'')
      else Ok \<lparr>vl_seg_id = u32_from_le (slice bs 0 4), vl_offset = u32_from_le (slice bs 4 4),
               vl_len = u32_from_le (slice bs 8 4)\<rparr>)"

definition quota_of_bytes :: "bytes option \<Rightarrow> u64" where
  "quota_of_bytes v = (case v of None \<Rightarrow> 0 | Some bs \<Rightarrow> if length bs = 8 then u64_from_le bs else 0)"

definition read_quota_txn :: "('h, 'm) heed_scheme \<Rightarrow> 'h \<Rightarrow> u64 res" where
  "read_quota_txn H h = res_bind (heed_res (hd_get H h QUOTA_DB_NAME QUOTA_KEY)) (\<lambda>v. Ok (quota_of_bytes v))"

definition write_quota_txn :: "('h, 'm) heed_scheme \<Rightarrow> 'h \<Rightarrow> u64 \<Rightarrow> 'h res" where
  "write_quota_txn H h v = heed_res (hd_put H h QUOTA_DB_NAME QUOTA_KEY (u64_to_le v))"

definition fnv1a :: "bytes \<Rightarrow> u64" where
  "fnv1a key = foldl (\<lambda>h b. (h XOR ucast b) * 0x100000001b3) 0xcbf29ce484222325 key"

section \<open>The write lock\<close>

record flock =
  fl_blocking :: bool
  fl_try :: "nat \<Rightarrow> bool"

function acquire_loop :: "(nat \<Rightarrow> bool) \<Rightarrow> nat \<Rightarrow> nat \<Rightarrow> nat \<Rightarrow> unit res" where
  "acquire_loop try_lock d n waited =
     (if try_lock n then Ok ()
      else if waited \<ge> d then Err LockBusy
      else acquire_loop try_lock d (Suc n) (waited + 5000000))"
  by pat_completeness auto
termination
  by (relation "measure (\<lambda>(t, d, n, w). d - w)") auto

declare acquire_loop.simps [simp del]

definition acquire_write_lock :: "flock \<Rightarrow> nat option \<Rightarrow> unit res" where
  "acquire_write_lock lk timeout =
     (case timeout of
        None \<Rightarrow> (if fl_blocking lk then Ok () else Err LockBusy)
      | Some d \<Rightarrow> acquire_loop (fl_try lk) d 0 0)"

section \<open>Operations\<close>

definition kv_open :: "('h, 'm) heed_scheme \<Rightarrow> 'h \<Rightarrow> fs \<Rightarrow> nat \<Rightarrow> u64 \<Rightarrow> 'h kv_store res" where
  "kv_open H env data_dir seg_size quota_limit =
     res_bind (heed_res (hd_write_txn H env)) (\<lambda>u.
     res_bind (heed_res (hd_create H env KV_DB_NAME)) (\<lambda>h1.
     res_bind (heed_res (hd_create H h1 QUOTA_DB_NAME)) (\<lambda>h2.
     res_bind (heed_res (hd_commit H h2)) (\<lambda>h3.
       Ok \<lparr>ks_env = h3, ks_pool = pool_open data_dir seg_size, ks_quota_limit = quota_limit\<rparr>))))"

definition admit_quota :: "u64 \<Rightarrow> u64 \<Rightarrow> u64 \<Rightarrow> u64 \<Rightarrow> u64 res" where
  "admit_quota limit used len old_len =
     (case checked_add_u64 used (saturating_sub_u64 len old_len) of
        None \<Rightarrow> Err QuotaExceeded
      | Some new_used \<Rightarrow>
          if limit > 0 \<and> new_used > limit then Err QuotaExceeded else Ok new_used)"

text \<open>The checks of \<open>put_kv_inner\<close> before anything is written: the new value of the counter.\<close>

definition put_kv_quota :: "('h, 'm) heed_scheme \<Rightarrow> 'h kv_store \<Rightarrow> bytes \<Rightarrow> bytes \<Rightarrow> u64 res" where
  "put_kv_quota H st key value =
     (if key = [] then Err (InvalidKey ''empty key rejected'')
      else if length key > LMDB_MAX_KEY then Err (InvalidKey ''key exceeds LMDB MDB_MAXKEYSIZE (511)'')
      else
        res_bind (heed_res (hd_write_txn H (ks_env st))) (\<lambda>u.
        res_bind (heed_res (hd_get H (ks_env st) KV_DB_NAME key)) (\<lambda>old.
        res_bind (case old of
                    None \<Rightarrow> Ok 0
                  | Some lb \<Rightarrow> res_bind (bindecode lb) (\<lambda>l. Ok (ucast (vl_len l)))) (\<lambda>old_len.
        res_bind (read_quota_txn H (ks_env st)) (\<lambda>used.
          admit_quota (ks_quota_limit st) used (word_of_nat (length value)) old_len)))))"

definition put_kv_inner ::
  "('h, 'm) heed_scheme \<Rightarrow> 'h kv_store \<Rightarrow> bytes \<Rightarrow> bytes \<Rightarrow> unit res \<times> 'h kv_store" where
  "put_kv_inner H st key value =
     (case put_kv_quota H st key value of
        Err e \<Rightarrow> (Err e, st)
      | Panic \<Rightarrow> (Panic, st)
      | Ok new_used \<Rightarrow>
          (case pool_append (ks_pool st) value of
             (Err e, p) \<Rightarrow> (Err e, st\<lparr>ks_pool := p\<rparr>)
           | (Panic, p) \<Rightarrow> (Panic, st\<lparr>ks_pool := p\<rparr>)
           | (Ok loc, p) \<Rightarrow>
               (case res_bind (heed_res (hd_put H (ks_env st) KV_DB_NAME key (binencode loc)))
                       (\<lambda>h1. write_quota_txn H h1 new_used) of
                  Err e \<Rightarrow> (Err e, st\<lparr>ks_pool := p\<rparr>)
                | Panic \<Rightarrow> (Panic, st\<lparr>ks_pool := p\<rparr>)
                | Ok h2 \<Rightarrow>
                    (case hd_commit H h2 of
                       HOk h3 \<Rightarrow> (Ok (), st\<lparr>ks_env := h3, ks_pool := p\<rparr>)
                     | HErr e \<Rightarrow>
                         (Err (classify_heed e),
                          st\<lparr>ks_pool := snd (rewind_active_to p (vl_seg_id loc) (vl_offset loc))\<rparr>)))))"

definition put_kv ::
  "('h, 'm) heed_scheme \<Rightarrow> flock \<Rightarrow> 'h kv_store \<Rightarrow> bytes \<Rightarrow> bytes \<Rightarrow> nat option
     \<Rightarrow> unit res \<times> 'h kv_store" where
  "put_kv H lk st key value timeout =
     (case acquire_write_lock lk timeout of
        Err e \<Rightarrow> (Err e, st)
      | Panic \<Rightarrow> (Panic, st)
      | Ok u \<Rightarrow> put_kv_inner H st key value)"

definition get_kv_zero_copy ::
  "('h, 'm) heed_scheme \<Rightarrow> 'h kv_store \<Rightarrow> bytes \<Rightarrow> zero_copy_buffer option res \<times> 'h kv_store" where
  "get_kv_zero_copy H st key =
     (case res_bind (heed_res (hd_read_txn H (ks_env st)))
             (\<lambda>u. heed_res (hd_get H (ks_env st) KV_DB_NAME key)) of
        Err e \<Rightarrow> (Err e, st)
      | Panic \<Rightarrow> (Panic, st)
      | Ok None \<Rightarrow> (Ok None, st)
      | Ok (Some lb) \<Rightarrow>
          (case bindecode lb of
             Err e \<Rightarrow> (Err e, st)
           | Panic \<Rightarrow> (Panic, st)
           | Ok loc \<Rightarrow>
               (case sealed_handle (ks_pool st) (vl_seg_id loc) of
                  (r, p) \<Rightarrow>
                    (res_bind r (\<lambda>h.
                     res_bind (zero_copy_buffer_new h (unat (vl_offset loc)) (unat (vl_len loc)))
                       (\<lambda>b. Ok (Some b))),
                     st\<lparr>ks_pool := p\<rparr>))))"

definition delete_kv_inner ::
  "('h, 'm) heed_scheme \<Rightarrow> 'h kv_store \<Rightarrow> bytes \<Rightarrow> bool res \<times> 'h kv_store" where
  "delete_kv_inner H st key =
     (case res_bind (heed_res (hd_write_txn H (ks_env st)))
             (\<lambda>u. heed_res (hd_get H (ks_env st) KV_DB_NAME key)) of
        Err e \<Rightarrow> (Err e, st)
      | Panic \<Rightarrow> (Panic, st)
      | Ok None \<Rightarrow> (Ok False, st)
      | Ok (Some lb) \<Rightarrow>
          (let old_len = (case bindecode lb of Ok l \<Rightarrow> ucast (vl_len l) | _ \<Rightarrow> 0)
           in case res_bind (heed_res (hd_del H (ks_env st) KV_DB_NAME key)) (\<lambda>(deleted, h1).
                   res_bind (read_quota_txn H h1) (\<lambda>used.
                   res_bind (write_quota_txn H h1 (saturating_sub_u64 used old_len)) (\<lambda>h2.
                     Ok (deleted, h2)))) of
                Err e \<Rightarrow> (Err e, st)
              | Panic \<Rightarrow> (Panic, st)
              | Ok (deleted, h2) \<Rightarrow>
                  (case hd_commit H h2 of
                     HOk h3 \<Rightarrow> (Ok deleted, st\<lparr>ks_env := h3\<rparr>)
                   | HErr e \<Rightarrow> (Err (classify_heed e), st))))"

definition delete_kv ::
  "('h, 'm) heed_scheme \<Rightarrow> flock \<Rightarrow> 'h kv_store \<Rightarrow> bytes \<Rightarrow> nat option \<Rightarrow> bool res \<times> 'h kv_store" where
  "delete_kv H lk st key timeout =
     (case acquire_write_lock lk timeout of
        Err e \<Rightarrow> (Err e, st)
      | Panic \<Rightarrow> (Panic, st)
      | Ok u \<Rightarrow> delete_kv_inner H st key)"

definition used_bytes :: "('h, 'm) heed_scheme \<Rightarrow> 'h kv_store \<Rightarrow> u64 res" where
  "used_bytes H st =
     res_bind (heed_res (hd_read_txn H (ks_env st))) (\<lambda>u. read_quota_txn H (ks_env st))"

definition kv_disk_bytes :: "'h kv_store \<Rightarrow> nat" where
  "kv_disk_bytes st = pool_disk_bytes (ks_pool st)"

definition kv_flush :: "'h kv_store \<Rightarrow> 'h kv_store" where
  "kv_flush st = st\<lparr>ks_pool := pool_flush (ks_pool st)\<rparr>"

section \<open>Abstraction and invariant\<close>

definition kv_index :: "('h, 'm) heed_scheme \<Rightarrow> 'h \<Rightarrow> bytes \<rightharpoonup> value_locator" where
  "kv_index H h k =
     (case heed_view H h KV_DB_NAME k of
        None \<Rightarrow> None
      | Some lb \<Rightarrow> (case bindecode lb of Ok l \<Rightarrow> Some l | _ \<Rightarrow> None))"

definition kv_abs :: "('h, 'm) heed_scheme \<Rightarrow> 'h kv_store \<Rightarrow> bytes \<rightharpoonup> bytes" where
  "kv_abs H st = idx_lookup pool_read (ks_pool st) (kv_index H (ks_env st))"

definition kv_used :: "('h, 'm) heed_scheme \<Rightarrow> 'h \<Rightarrow> u64" where
  "kv_used H h = quota_of_bytes (heed_view H h QUOTA_DB_NAME QUOTA_KEY)"

definition kv_live :: "('h, 'm) heed_scheme \<Rightarrow> 'h \<Rightarrow> nat" where
  "kv_live H h = (\<Sum>k \<in> dom (kv_index H h). unat (vl_len (the (kv_index H h k))))"

definition kv_inv :: "('h, 'm) heed_scheme \<Rightarrow> 'h kv_store \<Rightarrow> bool" where
  "kv_inv H st \<longleftrightarrow> pool_inv (ks_pool st) \<and>
     (\<forall>k lb. heed_view H (ks_env st) KV_DB_NAME k = Some lb \<longrightarrow> length lb = 12) \<and>
     idx_covered pool_read (ks_pool st) (kv_index H (ks_env st)) \<and>
     finite (dom (kv_index H (ks_env st)))"

lemma kv_invD:
  assumes "kv_inv H st"
  shows kv_inv_pool: "pool_inv (ks_pool st)"
    and kv_inv_len: "heed_view H (ks_env st) KV_DB_NAME k = Some lb \<Longrightarrow> length lb = 12"
    and kv_inv_covered: "idx_covered pool_read (ks_pool st) (kv_index H (ks_env st))"
    and kv_inv_finite: "finite (dom (kv_index H (ks_env st)))"
  using assms by (auto simp: kv_inv_def)

lemma bindecode_binencode [simp]: "bindecode (binencode l) = Ok l"
  by (simp add: bindecode_def binencode_def slice_def)

lemma length_binencode [simp]: "length (binencode l) = 12"
  by (simp add: binencode_def)

lemma bindecode_12: "length bs = 12 \<Longrightarrow> \<exists>l. bindecode bs = Ok l"
  by (simp add: bindecode_def)

lemma quota_roundtrip [simp]: "quota_of_bytes (Some (u64_to_le v)) = v"
  by (simp add: quota_of_bytes_def)

lemma db_names [simp]: "KV_DB_NAME \<noteq> QUOTA_DB_NAME" "QUOTA_DB_NAME \<noteq> KV_DB_NAME"
  by (simp_all add: KV_DB_NAME_def QUOTA_DB_NAME_def)

lemma kv_index_cong:
  "heed_view H h' KV_DB_NAME = heed_view H h KV_DB_NAME \<Longrightarrow> kv_index H h' = kv_index H h"
  by (simp add: kv_index_def fun_eq_iff)

lemma read_quota_txn_Ok: "read_quota_txn H h = Ok u \<Longrightarrow> u = kv_used H h"
  by (auto simp: read_quota_txn_def kv_used_def heed_view_def)

section \<open>Transactions\<close>

definition index_len :: "value_locator option \<Rightarrow> nat" where
  "index_len l = (case l of None \<Rightarrow> 0 | Some l \<Rightarrow> unat (vl_len l))"

lemma unat_ucast_u32_u64 [simp]: "unat (ucast (x :: u32) :: u64) = unat x"
  using unat_u32_le [of x] by (simp add: unsigned_ucast_eq take_bit_nat_eq_self)

lemma kv_index_hd_get:
  "hd_get H h KV_DB_NAME k = HOk (Some lb) \<Longrightarrow> bindecode lb = Ok l \<Longrightarrow> kv_index H h k = Some l"
  "hd_get H h KV_DB_NAME k = HOk None \<Longrightarrow> kv_index H h k = None"
  by (simp_all add: kv_index_def heed_view_def)

lemma admit_quota_Ok:
  "admit_quota limit used len old = Ok nu \<Longrightarrow>
     unat nu = unat used + (unat len - unat old) \<and> (limit > 0 \<longrightarrow> nu \<le> limit)"
  by (auto simp: admit_quota_def dest!: checked_add_u64_Some split: option.splits if_splits)

lemma put_kv_quota_Ok:
  assumes "put_kv_quota H st key value = Ok nu"
  shows "key \<noteq> []" "length key \<le> LMDB_MAX_KEY"
    "unat nu = unat (kv_used H (ks_env st)) +
       (unat (word_of_nat (length value) :: u64) - index_len (kv_index H (ks_env st) key))"
    "ks_quota_limit st > 0 \<Longrightarrow> nu \<le> ks_quota_limit st"
proof -
  from assms obtain old ol where old: "hd_get H (ks_env st) KV_DB_NAME key = HOk old"
    and ol: "(case old of None \<Rightarrow> Ok 0
                 | Some lb \<Rightarrow> res_bind (bindecode lb) (\<lambda>l. Ok (ucast (vl_len l)))) = Ok (ol :: u64)"
    and nu: "admit_quota (ks_quota_limit st) (kv_used H (ks_env st)) (word_of_nat (length value)) ol = Ok nu"
    and key: "key \<noteq> []" "length key \<le> LMDB_MAX_KEY"
    by (auto simp: put_kv_quota_def dest!: read_quota_txn_Ok split: if_splits)
  show "key \<noteq> []" "length key \<le> LMDB_MAX_KEY" by (rule key)+
  have "unat ol = index_len (kv_index H (ks_env st) key)"
    using old ol by (auto simp: index_len_def kv_index_hd_get split: option.splits)
  with admit_quota_Ok [OF nu]
  show "unat nu = unat (kv_used H (ks_env st)) +
       (unat (word_of_nat (length value) :: u64) - index_len (kv_index H (ks_env st) key))"
    "ks_quota_limit st > 0 \<Longrightarrow> nu \<le> ks_quota_limit st"
    by simp_all
qed

lemma put_txn_view:
  assumes laws: "heed_laws H"
    and "hd_put H h KV_DB_NAME key (binencode loc) = HOk h1"
    and "write_quota_txn H h1 nu = Ok h2" "hd_commit H h2 = HOk h3"
  shows "heed_view H h3 KV_DB_NAME = (heed_view H h KV_DB_NAME)(key \<mapsto> binencode loc)"
    "kv_index H h3 = (kv_index H h)(key \<mapsto> loc)" "kv_used H h3 = nu"
proof -
  from assms(3) have q: "hd_put H h1 QUOTA_DB_NAME QUOTA_KEY (u64_to_le nu) = HOk h2"
    by (simp add: write_quota_txn_def)
  note v = heed_put_view [OF laws assms(2)] heed_put_view [OF laws q] heed_commit_view [OF laws assms(4)]
  show view: "heed_view H h3 KV_DB_NAME = (heed_view H h KV_DB_NAME)(key \<mapsto> binencode loc)"
    by (simp add: v)
  show "kv_index H h3 = (kv_index H h)(key \<mapsto> loc)"
    by (simp add: fun_eq_iff kv_index_def view)
  show "kv_used H h3 = nu"
    by (simp add: kv_used_def v)
qed

lemma put_kv_inner_cases:
  assumes laws: "heed_laws H" and put: "put_kv_inner H st key value = (r, st')"
  obtains
      (stored) nu loc p h where "r = Ok ()" "put_kv_quota H st key value = Ok nu"
        "pool_append (ks_pool st) value = (Ok loc, p)" "st' = st\<lparr>ks_env := h, ks_pool := p\<rparr>"
        "kv_index H h = (kv_index H (ks_env st))(key \<mapsto> loc)" "kv_used H h = nu"
        "heed_view H h KV_DB_NAME = (heed_view H (ks_env st) KV_DB_NAME)(key \<mapsto> binencode loc)"
    | (refused) "\<not> is_ok r" "st' = st"
    | (append_only) r' p where "\<not> is_ok r" "pool_append (ks_pool st) value = (r', p)"
        "st' = st\<lparr>ks_pool := p\<rparr>"
    | (rewound) loc p where "\<not> is_ok r" "pool_append (ks_pool st) value = (Ok loc, p)"
        "st' = st\<lparr>ks_pool := snd (rewind_active_to p (vl_seg_id loc) (vl_offset loc))\<rparr>"
proof (cases "put_kv_quota H st key value")
  case (Ok nu)
  obtain r' p where app: "pool_append (ks_pool st) value = (r', p)"
    by (cases "pool_append (ks_pool st) value")
  show thesis
  proof (cases r')
    case r': (Ok loc)
    let ?t = "res_bind (heed_res (hd_put H (ks_env st) KV_DB_NAME key (binencode loc)))
        (\<lambda>h1. write_quota_txn H h1 nu)"
    show thesis
    proof (cases ?t)
      case t: (Ok h2)
      then obtain h1 where h1: "hd_put H (ks_env st) KV_DB_NAME key (binencode loc) = HOk h1"
        "write_quota_txn H h1 nu = Ok h2" by auto
      show thesis
      proof (cases "hd_commit H h2")
        case (HOk h3)
        note v = put_txn_view [OF laws h1 HOk]
        show thesis
          by (rule stored [of nu loc p h3]) (use Ok app r' t HOk put v in \<open>auto simp: put_kv_inner_def\<close>)
      next
        case (HErr e)
        show thesis
          by (rule rewound [of loc p]) (use Ok app r' t HErr put in \<open>auto simp: put_kv_inner_def\<close>)
      qed
    next
      case (Err e)
      show thesis
        by (rule append_only [OF _ app]) (use Ok app r' put Err in \<open>auto simp: put_kv_inner_def\<close>)
    next
      case Panic
      show thesis
        by (rule append_only [OF _ app]) (use Ok app r' put Panic in \<open>auto simp: put_kv_inner_def\<close>)
    qed
  next
    case (Err e)
    show thesis
      by (rule append_only [OF _ app]) (use Ok app put Err in \<open>auto simp: put_kv_inner_def\<close>)
  next
    case Panic
    show thesis
      by (rule append_only [OF _ app]) (use Ok app put Panic in \<open>auto simp: put_kv_inner_def\<close>)
  qed
next
  case (Err e)
  show thesis by (rule refused) (use put Err in \<open>auto simp: put_kv_inner_def\<close>)
next
  case Panic
  show thesis by (rule refused) (use put Panic in \<open>auto simp: put_kv_inner_def\<close>)
qed

text \<open>The pool a put leaves, whatever its outcome, keeps the invariant and every value.\<close>

lemma put_pool_keeps:
  assumes laws: "heed_laws H" and inv: "pool_inv (ks_pool st)" and room: "pool_room (ks_pool st)"
    and put: "put_kv_inner H st key value = (r, st')"
  shows "pool_inv (ks_pool st')"
    "idx_covered pool_read (ks_pool st) idx \<Longrightarrow> idx_covered pool_read (ks_pool st') idx"
    "idx_covered pool_read (ks_pool st) idx \<Longrightarrow>
       idx_lookup pool_read (ks_pool st') idx = idx_lookup pool_read (ks_pool st) idx"
proof -
  have "pool_inv (ks_pool st') \<and>
      (\<forall>l b. pool_read (ks_pool st) l = Some b \<longrightarrow> pool_read (ks_pool st') l = Some b)"
    using laws put
  proof (cases rule: put_kv_inner_cases)
    case (stored nu loc p h)
    with pool_append_laws [OF inv room stored(3)] show ?thesis by auto
  next
    case (append_only r' p)
    with pool_append_laws [OF inv room append_only(2)] show ?thesis by auto
  next
    case (rewound loc p)
    with pool_append_rewind [OF inv room rewound(2) prod.collapse [symmetric]] show ?thesis by auto
  qed (use inv in simp)
  then show "pool_inv (ks_pool st')"
    "idx_covered pool_read (ks_pool st) idx \<Longrightarrow> idx_covered pool_read (ks_pool st') idx"
    "idx_covered pool_read (ks_pool st) idx \<Longrightarrow>
       idx_lookup pool_read (ks_pool st') idx = idx_lookup pool_read (ks_pool st) idx"
    by (auto simp: idx_covered_def idx_lookup_def fun_eq_iff split: option.splits) (metis option.inject)+
qed

lemma put_kv_inner_refines:
  assumes laws: "heed_laws H" and inv: "kv_inv H st" and room: "pool_room (ks_pool st)"
    and put: "put_kv_inner H st key value = (r, st')"
  shows "kv_inv H st'"
    and "kv_abs H st' = (if r = Ok () then (kv_abs H st)(key \<mapsto> value) else kv_abs H st)"
proof -
  note pinv = kv_inv_pool [OF inv] and cov = kv_inv_covered [OF inv]
  note keep = put_pool_keeps [OF laws pinv room put]
  have "kv_inv H st' \<and> kv_abs H st' = (if r = Ok () then (kv_abs H st)(key \<mapsto> value) else kv_abs H st)"
    using laws put
  proof (cases rule: put_kv_inner_cases)
    case (stored nu loc p h)
    have "idx_covered pool_read p ((kv_index H (ks_env st))(key \<mapsto> loc))"
      by (rule seg.covered_update [OF pinv room stored(3) cov])
    moreover have "idx_lookup pool_read p ((kv_index H (ks_env st))(key \<mapsto> loc)) =
        (kv_abs H st)(key \<mapsto> value)"
      unfolding kv_abs_def by (rule seg.lookup_update [OF pinv room stored(3) cov])
    ultimately show ?thesis
      using stored inv keep(1) by (auto simp: kv_inv_def kv_abs_def)
  qed (use keep cov inv in \<open>auto simp: kv_inv_def kv_abs_def\<close>)
  then show "kv_inv H st'" "kv_abs H st' = (if r = Ok () then (kv_abs H st)(key \<mapsto> value) else kv_abs H st)"
    by blast+
qed

section \<open>Reading and deleting\<close>

lemma kv_abs_Some:
  assumes "kv_inv H st" "kv_abs H st key = Some v"
  obtains lb l where "hd_get H (ks_env st) KV_DB_NAME key = HOk (Some lb)" "bindecode lb = Ok l"
    "pool_read (ks_pool st) l = Some v"
  using assms
  by (auto simp: kv_abs_def idx_lookup_def kv_index_def heed_view_def
      split: option.splits hres.splits res.splits)

lemma kv_abs_None:
  assumes "kv_inv H st" "kv_abs H st key = None" "hd_get H (ks_env st) KV_DB_NAME key = HOk old"
  shows "old = None"
proof (cases old)
  case (Some lb)
  with assms(3) have "heed_view H (ks_env st) KV_DB_NAME key = Some lb" by (simp add: heed_view_def)
  with kv_inv_len [OF assms(1)] obtain l where "kv_index H (ks_env st) key = Some l"
    using bindecode_12 [of lb] by (auto simp: kv_index_def)
  with assms(2) have "pool_read (ks_pool st) l = None"
    by (simp add: kv_abs_def idx_lookup_def)
  with kv_inv_covered [OF assms(1)] \<open>kv_index H (ks_env st) key = Some l\<close> show ?thesis
    unfolding idx_covered_def by blast
qed simp

lemma kv_dom: "kv_inv H st \<Longrightarrow> dom (kv_abs H st) = dom (kv_index H (ks_env st))"
  unfolding kv_abs_def by (rule idx_lookup_dom [OF kv_inv_covered])

lemma kv_inv_pool_cong:
  "kv_inv H st \<Longrightarrow> pool_inv p \<Longrightarrow> (\<And>l. pool_read p l = pool_read (ks_pool st) l) \<Longrightarrow>
     kv_inv H (st\<lparr>ks_pool := p\<rparr>) \<and> kv_abs H (st\<lparr>ks_pool := p\<rparr>) = kv_abs H st"
  by (simp add: kv_inv_def kv_abs_def idx_covered_def idx_lookup_def fun_eq_iff split: option.split)

lemma del_txn_view:
  assumes laws: "heed_laws H" and del: "hd_del H h KV_DB_NAME key = HOk (b, h1)"
    and q: "write_quota_txn H h1 nu = Ok h2" and c: "hd_commit H h2 = HOk h3"
  shows "heed_view H h3 KV_DB_NAME = (heed_view H h KV_DB_NAME)(key := None)"
    "kv_index H h3 = (kv_index H h)(key := None)" "kv_used H h3 = nu" "kv_used H h1 = kv_used H h"
proof -
  from q have q': "hd_put H h1 QUOTA_DB_NAME QUOTA_KEY (u64_to_le nu) = HOk h2"
    by (simp add: write_quota_txn_def)
  note v = heed_del_view [OF laws del] heed_put_view [OF laws q'] heed_commit_view [OF laws c]
  show view: "heed_view H h3 KV_DB_NAME = (heed_view H h KV_DB_NAME)(key := None)"
    by (simp add: v)
  show "kv_index H h3 = (kv_index H h)(key := None)"
    by (simp add: fun_eq_iff kv_index_def view)
  show "kv_used H h3 = nu" "kv_used H h1 = kv_used H h"
    by (simp_all add: kv_used_def v)
qed

lemma delete_kv_inner_cases:
  assumes laws: "heed_laws H" and inv: "kv_inv H st" and del: "delete_kv_inner H st key = (r, st')"
  obtains
      (absent) "r = Ok False" "st' = st" "kv_abs H st key = None"
    | (failed) "\<not> is_ok r" "st' = st"
    | (deleted) h where "r = Ok True" "st' = st\<lparr>ks_env := h\<rparr>" "kv_abs H st key \<noteq> None"
        "heed_view H h KV_DB_NAME = (heed_view H (ks_env st) KV_DB_NAME)(key := None)"
        "kv_index H h = (kv_index H (ks_env st))(key := None)"
        "unat (kv_used H h) = unat (kv_used H (ks_env st)) - index_len (kv_index H (ks_env st) key)"
proof (cases "res_bind (heed_res (hd_write_txn H (ks_env st)))
             (\<lambda>u. heed_res (hd_get H (ks_env st) KV_DB_NAME key))")
  case (Ok old)
  then have old: "hd_get H (ks_env st) KV_DB_NAME key = HOk old" by auto
  show thesis
  proof (cases old)
    case None
    have "kv_abs H st key = None"
      using old None by (simp add: kv_abs_def idx_lookup_def kv_index_def heed_view_def)
    with del Ok None show thesis by (intro absent) (auto simp: delete_kv_inner_def)
  next
    case (Some lb)
    then have "length lb = 12" using kv_inv_len [OF inv, of key lb] old by (simp add: heed_view_def)
    then obtain l where l: "bindecode lb = Ok l" using bindecode_12 by blast
    have present: "kv_abs H st key \<noteq> None"
      using kv_abs_None [OF inv _ old] Some by auto
    let ?t = "res_bind (heed_res (hd_del H (ks_env st) KV_DB_NAME key)) (\<lambda>(deleted, h1).
           res_bind (read_quota_txn H h1) (\<lambda>used.
           res_bind (write_quota_txn H h1 (saturating_sub_u64 used (ucast (vl_len l)))) (\<lambda>h2.
             Ok (deleted, h2))))"
    show thesis
    proof (cases ?t)
      case t: (Ok p)
      then obtain b h1 h2 used where s: "hd_del H (ks_env st) KV_DB_NAME key = HOk (b, h1)"
        "read_quota_txn H h1 = Ok used"
        "write_quota_txn H h1 (saturating_sub_u64 used (ucast (vl_len l))) = Ok h2" "p = (b, h2)"
        by auto
      show thesis
      proof (cases "hd_commit H h2")
        case (HOk h3)
        note v = del_txn_view [OF laws s(1,3) HOk]
        have "b" using heed_del_found [OF laws s(1)] old Some by simp
        show thesis
        proof (rule deleted [of h3])
          show "r = Ok True" "st' = st\<lparr>ks_env := h3\<rparr>"
            using del Ok Some l t s(4) HOk \<open>b\<close> by (auto simp: delete_kv_inner_def)
          show "unat (kv_used H h3) = unat (kv_used H (ks_env st)) - index_len (kv_index H (ks_env st) key)"
            using v(3,4) read_quota_txn_Ok [OF s(2)] kv_index_hd_get(1) [OF old [unfolded Some] l]
            by (simp add: index_len_def)
        qed (rule present v)+
      next
        case (HErr e)
        show thesis
          by (rule failed) (use del Ok Some l t s(4) HErr in \<open>auto simp: delete_kv_inner_def\<close>)
      qed
    next
      case (Err e)
      show thesis
        by (rule failed) (use del Ok Some l Err in \<open>auto simp: delete_kv_inner_def\<close>)
    next
      case Panic
      show thesis
        by (rule failed) (use del Ok Some l Panic in \<open>auto simp: delete_kv_inner_def\<close>)
    qed
  qed
next
  case (Err e)
  show thesis by (rule failed) (use del Err in \<open>auto simp: delete_kv_inner_def\<close>)
next
  case Panic
  show thesis by (rule failed) (use del Panic in \<open>auto simp: delete_kv_inner_def\<close>)
qed

lemma delete_kv_inner_refines:
  assumes laws: "heed_laws H" and inv: "kv_inv H st" and del: "delete_kv_inner H st key = (r, st')"
  shows "kv_inv H st'"
    and "r = Ok b \<Longrightarrow> b = (kv_abs H st key \<noteq> None) \<and> kv_abs H st' = (kv_abs H st)(key := None)"
    and "\<not> is_ok r \<Longrightarrow> st' = st"
proof -
  have "kv_inv H st' \<and> (\<forall>b. r = Ok b \<longrightarrow> b = (kv_abs H st key \<noteq> None) \<and>
      kv_abs H st' = (kv_abs H st)(key := None)) \<and> (\<not> is_ok r \<longrightarrow> st' = st)"
    using laws inv del
  proof (cases rule: delete_kv_inner_cases)
    case (deleted h)
    have "finite (dom (kv_index H h))"
      using kv_inv_finite [OF inv] deleted(5) by simp
    with deleted inv show ?thesis
      by (auto simp: kv_inv_def kv_abs_def idx_lookup_delete idx_covered_delete split: if_splits)
  qed (use inv in auto)
  then show "kv_inv H st'"
    "r = Ok b \<Longrightarrow> b = (kv_abs H st key \<noteq> None) \<and> kv_abs H st' = (kv_abs H st)(key := None)"
    "\<not> is_ok r \<Longrightarrow> st' = st"
    by blast+
qed

section \<open>Quota\<close>

text \<open>Updating one key changes the sum of the lengths by that key alone.\<close>

lemma live_split:
  assumes "finite (dom idx)"
  shows "(\<Sum>k \<in> dom idx. unat (vl_len (the (idx k)))) =
    (\<Sum>k \<in> dom idx - {key}. unat (vl_len (the (idx k)))) + index_len (idx key)"
proof (cases "idx key")
  case None
  then have "dom idx - {key} = dom idx" by auto
  with None show ?thesis by (simp add: index_len_def)
next
  case (Some l)
  then have "key \<in> dom idx" by auto
  with assms Some show ?thesis by (simp add: index_len_def sum.remove)
qed

lemma live_update:
  assumes fin: "finite (dom idx)"
  shows "(\<Sum>k \<in> dom (idx(key := l)). unat (vl_len (the ((idx(key := l)) k)))) + index_len (idx key) =
    (\<Sum>k \<in> dom idx. unat (vl_len (the (idx k)))) + index_len l"
proof -
  let ?idx = "idx(key := l)"
  have fin': "finite (dom ?idx)" using fin by (cases l) auto
  have "dom ?idx - {key} = dom idx - {key}" by auto
  then have "(\<Sum>k \<in> dom ?idx - {key}. unat (vl_len (the (?idx k)))) =
      (\<Sum>k \<in> dom idx - {key}. unat (vl_len (the (idx k))))"
    by (intro sum.cong) auto
  with live_split [OF fin', of key] live_split [OF fin, of key] show ?thesis by simp
qed

definition quota_inv :: "('h, 'm) heed_scheme \<Rightarrow> 'h kv_store \<Rightarrow> bool" where
  "quota_inv H st \<longleftrightarrow> kv_live H (ks_env st) \<le> unat (kv_used H (ks_env st)) \<and>
     (ks_quota_limit st > 0 \<longrightarrow> kv_used H (ks_env st) \<le> ks_quota_limit st)"

lemma pool_append_len:
  "pool_append p bs = (Ok l, p') \<Longrightarrow> unat (vl_len l) = length bs \<and> length bs \<le> U32_MAX"
  by (erule pool_append_cases) (auto simp: unat_u32_of_nat)

lemma put_kv_inner_used:
  assumes laws: "heed_laws H" and inv: "kv_inv H st" and put: "put_kv_inner H st key value = (Ok (), st')"
  shows "unat (kv_used H (ks_env st')) =
      unat (kv_used H (ks_env st)) + (length value - index_len (kv_index H (ks_env st) key))"
    and "kv_live H (ks_env st') + index_len (kv_index H (ks_env st) key) =
      kv_live H (ks_env st) + length value"
    and "ks_quota_limit st > 0 \<Longrightarrow> kv_used H (ks_env st') \<le> ks_quota_limit st"
    and "ks_quota_limit st' = ks_quota_limit st"
proof -
  have "unat (kv_used H (ks_env st')) =
      unat (kv_used H (ks_env st)) + (length value - index_len (kv_index H (ks_env st) key)) \<and>
    kv_live H (ks_env st') + index_len (kv_index H (ks_env st) key) =
      kv_live H (ks_env st) + length value \<and>
    (ks_quota_limit st > 0 \<longrightarrow> kv_used H (ks_env st') \<le> ks_quota_limit st) \<and>
    ks_quota_limit st' = ks_quota_limit st"
    using laws put
  proof (cases rule: put_kv_inner_cases)
    case (stored nu loc p h)
    have len: "unat (vl_len loc) = length value" "length value \<le> U32_MAX"
      using pool_append_len [OF stored(3)] by simp_all
    then have v: "unat (word_of_nat (length value) :: u64) = length value"
      by (simp add: unat_of_nat)
    have "kv_live H h + index_len (kv_index H (ks_env st) key) =
        kv_live H (ks_env st) + index_len (Some loc)"
      unfolding kv_live_def stored(5) by (rule live_update [OF kv_inv_finite [OF inv]])
    with put_kv_quota_Ok(3,4) [OF stored(2)] stored(4,6) v len(1) show ?thesis
      by (simp add: index_len_def)
  qed auto
  then show "unat (kv_used H (ks_env st')) =
      unat (kv_used H (ks_env st)) + (length value - index_len (kv_index H (ks_env st) key))"
    "kv_live H (ks_env st') + index_len (kv_index H (ks_env st) key) =
      kv_live H (ks_env st) + length value"
    "ks_quota_limit st > 0 \<Longrightarrow> kv_used H (ks_env st') \<le> ks_quota_limit st"
    "ks_quota_limit st' = ks_quota_limit st"
    by blast+
qed

lemma put_kv_inner_not_ok_env:
  assumes "heed_laws H" "put_kv_inner H st key value = (r, st')" "r \<noteq> Ok ()"
  shows "ks_env st' = ks_env st \<and> ks_quota_limit st' = ks_quota_limit st"
  using assms(1,2) by (cases rule: put_kv_inner_cases) (use assms(3) in auto)

lemma quota_inv_put:
  assumes laws: "heed_laws H" and inv: "kv_inv H st" and q: "quota_inv H st"
    and put: "put_kv_inner H st key value = (r, st')"
  shows "quota_inv H st'"
proof (cases "r = Ok ()")
  case True
  note u = put_kv_inner_used [OF laws inv put [unfolded True]]
  from u q show ?thesis unfolding quota_inv_def by auto
next
  case False
  with put_kv_inner_not_ok_env [OF laws put] q show ?thesis by (simp add: quota_inv_def)
qed

lemma quota_inv_delete:
  assumes laws: "heed_laws H" and inv: "kv_inv H st" and q: "quota_inv H st"
    and del: "delete_kv_inner H st key = (r, st')"
  shows "quota_inv H st'"
  using laws inv del
proof (cases rule: delete_kv_inner_cases)
  case (deleted h)
  have "kv_live H h + index_len (kv_index H (ks_env st) key) = kv_live H (ks_env st) + index_len None"
    unfolding kv_live_def deleted(5) by (rule live_update [OF kv_inv_finite [OF inv]])
  then have live: "kv_live H h + index_len (kv_index H (ks_env st) key) = kv_live H (ks_env st)"
    by (simp add: index_len_def)
  have "unat (kv_used H h) \<le> unat (kv_used H (ks_env st))" using deleted(6) by simp
  then have "kv_used H h \<le> kv_used H (ks_env st)" by (simp add: word_le_nat_alt)
  with live deleted(2,6) q show ?thesis by (auto simp: quota_inv_def)
qed (use q in auto)

section \<open>Runs of the store\<close>

lemma get_kv_cases:
  assumes inv: "kv_inv H st" and rt: "hd_read_txn H (ks_env st) = HOk ()"
  shows "kv_abs H st key = Some v \<Longrightarrow> \<exists>z st'. get_kv_zero_copy H st key = (Ok (Some z), st') \<and>
      (\<forall>p. pool_step\<^sup>*\<^sup>* (ks_pool st') p \<longrightarrow> buffer_as_bytes (sp_data_dir p) z = v)"
    and "kv_abs H st key = None \<Longrightarrow> hd_get H (ks_env st) KV_DB_NAME key = HOk old \<Longrightarrow>
      get_kv_zero_copy H st key = (Ok None, st)"
proof -
  assume "kv_abs H st key = Some v"
  then obtain lb l where l: "hd_get H (ks_env st) KV_DB_NAME key = HOk (Some lb)" "bindecode lb = Ok l"
    "pool_read (ks_pool st) l = Some v"
    using kv_abs_Some [OF inv] by blast
  obtain h p z where h: "sealed_handle (ks_pool st) (vl_seg_id l) = (Ok h, p)"
    "zero_copy_buffer_new h (unat (vl_offset l)) (unat (vl_len l)) = Ok z"
    "buffer_of p l z" "pool_inv p" "pool_read p l = Some v"
    by (rule pool_read_buffer [OF kv_inv_pool [OF inv] l(3)])
  have "get_kv_zero_copy H st key = (Ok (Some z), st\<lparr>ks_pool := p\<rparr>)"
    using rt l h(1,2) by (simp add: get_kv_zero_copy_def)
  moreover have "buffer_as_bytes (sp_data_dir q) z = v" if "pool_step\<^sup>*\<^sup>* p q" for q
  proof (rule buffer_of_reads)
    show "buffer_of q l z" "pool_read q l = Some v"
      using pool_steps_keep [OF that h(4)] h(3,5) by (auto simp: buffer_of_def)
  qed
  ultimately show "\<exists>z st'. get_kv_zero_copy H st key = (Ok (Some z), st') \<and>
      (\<forall>p. pool_step\<^sup>*\<^sup>* (ks_pool st') p \<longrightarrow> buffer_as_bytes (sp_data_dir p) z = v)"
    by (auto intro!: exI [of _ z])
next
  assume "kv_abs H st key = None" and old: "hd_get H (ks_env st) KV_DB_NAME key = HOk old"
  with kv_abs_None [OF inv] have "old = None" by blast
  with old rt show "get_kv_zero_copy H st key = (Ok None, st)"
    by (simp add: get_kv_zero_copy_def)
qed

lemma get_kv_keeps:
  assumes inv: "kv_inv H st" and get: "get_kv_zero_copy H st key = (r, st')"
  shows "kv_inv H st' \<and> kv_abs H st' = kv_abs H st \<and> ks_env st' = ks_env st \<and>
    ks_quota_limit st' = ks_quota_limit st"
proof -
  have "st' = st \<or> (\<exists>s h p. sealed_handle (ks_pool st) s = (h, p) \<and> st' = st\<lparr>ks_pool := p\<rparr>)"
    using get by (auto simp: get_kv_zero_copy_def split: res.splits option.splits prod.splits)
  then show ?thesis
  proof
    assume "\<exists>s h p. sealed_handle (ks_pool st) s = (h, p) \<and> st' = st\<lparr>ks_pool := p\<rparr>"
    then obtain s h p where p: "sealed_handle (ks_pool st) s = (h, p)" "st' = st\<lparr>ks_pool := p\<rparr>"
      by blast
    with kv_inv_pool_cong [OF inv pool_inv_sealed_handle [OF kv_inv_pool [OF inv] p(1)]]
      pool_read_cong [OF sealed_handle_frame [OF p(1)]]
    show ?thesis by simp
  qed (use inv in simp)
qed

inductive kv_step :: "('h, 'm) heed_scheme \<Rightarrow> 'h kv_store \<Rightarrow> 'h kv_store \<Rightarrow> bool" for H where
  kv_step_put: "pool_room (ks_pool st) \<Longrightarrow> put_kv H lk st k v t = (r, st') \<Longrightarrow> kv_step H st st'"
| kv_step_delete: "delete_kv H lk st k t = (r', st') \<Longrightarrow> kv_step H st st'"
| kv_step_get: "get_kv_zero_copy H st k = (b, st') \<Longrightarrow> kv_step H st st'"
| kv_step_flush: "kv_step H st (kv_flush st)"

lemma put_kv_cases:
  assumes "put_kv H lk st k v t = (r, st')"
  obtains (locked) "put_kv_inner H st k v = (r, st')" | (busy) "\<not> is_ok r" "st' = st"
proof (cases "acquire_write_lock lk t")
  case (Ok u)
  with assms show thesis by (intro locked) (simp add: put_kv_def)
next
  case (Err e)
  with assms have "r = Err e" "st' = st" by (simp_all add: put_kv_def)
  then show thesis by (intro busy) simp_all
next
  case Panic
  with assms have "r = Panic" "st' = st" by (simp_all add: put_kv_def)
  then show thesis by (intro busy) simp_all
qed

lemma delete_kv_cases:
  assumes "delete_kv H lk st k t = (r, st')"
  obtains (locked) "delete_kv_inner H st k = (r, st')" | (busy) "\<not> is_ok r" "st' = st"
proof (cases "acquire_write_lock lk t")
  case (Ok u)
  with assms show thesis by (intro locked) (simp add: delete_kv_def)
next
  case (Err e)
  with assms have "r = Err e" "st' = st" by (simp_all add: delete_kv_def)
  then show thesis by (intro busy) simp_all
next
  case Panic
  with assms have "r = Panic" "st' = st" by (simp_all add: delete_kv_def)
  then show thesis by (intro busy) simp_all
qed

lemma kv_step_inv:
  assumes laws: "heed_laws H" and step: "kv_step H st st'" and inv: "kv_inv H st" and q: "quota_inv H st"
  shows "kv_inv H st' \<and> quota_inv H st' \<and> ks_quota_limit st' = ks_quota_limit st"
  using step
proof cases
  case (kv_step_put lk k v t r)
  from kv_step_put(2) show ?thesis
  proof (cases rule: put_kv_cases)
    case locked
    have "ks_quota_limit st' = ks_quota_limit st"
      using put_kv_inner_used(4) [OF laws inv] put_kv_inner_not_ok_env [OF laws locked] locked by auto
    with put_kv_inner_refines(1) [OF laws inv kv_step_put(1) locked] quota_inv_put [OF laws inv q locked]
    show ?thesis by simp
  qed (use inv q in simp)
next
  case (kv_step_delete lk k t r)
  from kv_step_delete show ?thesis
  proof (cases rule: delete_kv_cases)
    case locked
    have "ks_quota_limit st' = ks_quota_limit st"
      using laws inv locked by (cases rule: delete_kv_inner_cases) auto
    with delete_kv_inner_refines(1) [OF laws inv locked] quota_inv_delete [OF laws inv q locked]
    show ?thesis by simp
  qed (use inv q in simp)
next
  case (kv_step_get k b)
  from get_kv_keeps [OF inv kv_step_get] q show ?thesis by (simp add: quota_inv_def)
next
  case kv_step_flush
  with kv_inv_pool_cong [OF inv pool_flush_keeps(1,2) [OF kv_inv_pool [OF inv]]] q
  show ?thesis by (simp add: kv_flush_def quota_inv_def)
qed

lemma kv_open_inv:
  assumes laws: "heed_laws H" and env: "\<And>db. heed_view H env db = Map.empty"
    and pool: "pool_inv (pool_open d seg_size)" and op: "kv_open H env d seg_size q = Ok st"
  shows "kv_inv H st" "quota_inv H st" "kv_abs H st = Map.empty" "ks_quota_limit st = q"
    "ks_pool st = pool_open d seg_size"
proof -
  from op obtain h1 h2 h3 where h: "hd_create H env KV_DB_NAME = HOk h1"
    "hd_create H h1 QUOTA_DB_NAME = HOk h2" "hd_commit H h2 = HOk h3"
    and st: "st = \<lparr>ks_env = h3, ks_pool = pool_open d seg_size, ks_quota_limit = q\<rparr>"
    by (auto simp: kv_open_def)
  have v: "heed_view H h3 db = Map.empty" for db
    using env by (simp add: heed_create_view [OF laws h(1)] heed_create_view [OF laws h(2)]
        heed_commit_view [OF laws h(3)])
  then have idx: "kv_index H h3 = Map.empty" by (simp add: fun_eq_iff kv_index_def)
  show "kv_inv H st" "kv_abs H st = Map.empty" "ks_quota_limit st = q" "ks_pool st = pool_open d seg_size"
    using pool v idx by (simp_all add: kv_inv_def kv_abs_def idx_covered_def idx_lookup_def st)
  show "quota_inv H st"
    using idx by (simp add: quota_inv_def kv_live_def st kv_used_def v quota_of_bytes_def)
qed

lemma kv_reopen_abs:
  assumes laws: "heed_laws H" and inv: "kv_inv H st"
    and sz: "0 < sp_seg_size (ks_pool st)" "sp_seg_size (ks_pool st) < 2 ^ 64"
    and op: "kv_open H (ks_env st) (sp_data_dir (ks_pool (kv_flush st))) (sp_seg_size (ks_pool st)) q = Ok st'"
  shows "kv_inv H st' \<and> kv_abs H st' = kv_abs H st \<and> kv_used H (ks_env st') = kv_used H (ks_env st)"
proof -
  let ?p = "pool_open (sp_data_dir (ks_pool (kv_flush st))) (sp_seg_size (ks_pool st))"
  from op obtain h1 h2 h3 where h: "hd_create H (ks_env st) KV_DB_NAME = HOk h1"
    "hd_create H h1 QUOTA_DB_NAME = HOk h2" "hd_commit H h2 = HOk h3"
    and st': "st' = \<lparr>ks_env = h3, ks_pool = ?p, ks_quota_limit = q\<rparr>"
    by (auto simp: kv_open_def)
  have v: "heed_view H h3 db = heed_view H (ks_env st) db" for db
    by (simp add: heed_create_view [OF laws h(1)] heed_create_view [OF laws h(2)]
        heed_commit_view [OF laws h(3)])
  have "pool_inv ?p" "\<And>l. pool_read ?p l = pool_read (ks_pool st) l"
    using pool_open_resume(3,4) [OF kv_inv_pool [OF inv] sz] by (simp_all add: kv_flush_def)
  from kv_inv_pool_cong [OF inv this] kv_index_cong [OF v] v show ?thesis
    by (simp add: st' kv_inv_def kv_abs_def kv_used_def)
qed

section \<open>Properties\<close>

lemma acquire_loop_iff:
  "acquire_loop try_lock d n waited = Ok () \<longleftrightarrow>
     (\<exists>i \<le> (d - waited + 4999999) div 5000000. try_lock (n + i))"
proof (induction try_lock d n waited rule: acquire_loop.induct)
  case (1 tr d n w)
  show ?case
  proof (cases "tr n \<or> w \<ge> d")
    case True
    then show ?thesis
      by (cases "tr n") (auto simp: acquire_loop.simps [of tr d n w] intro: exI [of _ 0])
  next
    case False
    have steps: "(d - w + 4999999) div 5000000 = Suc ((d - (w + 5000000) + 4999999) div 5000000)"
    proof (cases "5000000 \<le> d - w")
      case True
      then have "d - w + 4999999 = d - (w + 5000000) + 4999999 + 5000000" by simp
      then show ?thesis by (simp only: div_add_self2)
    next
      case short: False
      have "(d - w + 4999999) div 5000000 = 1"
        by (rule div_nat_eqI) (use short False in \<open>simp, linarith\<close>, use short in simp)
      with short show ?thesis by simp
    qed
    have "(\<exists>i \<le> Suc m. tr (n + i)) \<longleftrightarrow> (\<exists>i \<le> m. tr (Suc n + i))" for m
    proof
      assume "\<exists>i \<le> Suc m. tr (n + i)"
      then obtain i where i: "i \<le> Suc m" "tr (n + i)" by blast
      with False have "i \<noteq> 0" by (metis add_0_right)
      then obtain j where "i = Suc j" by (cases i) auto
      with i show "\<exists>i \<le> m. tr (Suc n + i)" by auto
    qed auto
    with 1 False show ?thesis
      unfolding steps by (simp add: acquire_loop.simps [of tr d n w])
  qed
qed

lemma acquire_loop_outcome: "acquire_loop tr d n w = Ok () \<or> acquire_loop tr d n w = Err LockBusy"
proof (induction tr d n w rule: acquire_loop.induct)
  case (1 tr d n w)
  then show ?case
    by (cases "tr n"; cases "w \<ge> d") (simp_all add: acquire_loop.simps [of tr d n w])
qed

text \<open>
  The timed lock (C24).  With a timeout of \<open>d\<close> nanoseconds the lock is obtained exactly if one
  of the first \<open>ceil(d / 5ms) + 1\<close> attempts succeeds; otherwise the caller gets \<open>LockBusy\<close>.
  There is no other outcome and the loop always ends.
\<close>

theorem acquire_write_lock_timed:
  "acquire_write_lock lk (Some d) =
     (if \<exists>i \<le> (d + 4999999) div 5000000. fl_try lk i then Ok () else Err LockBusy)"
  using acquire_loop_iff [of "fl_try lk" d 0 0] acquire_loop_outcome [of "fl_try lk" d 0 0]
  by (auto simp: acquire_write_lock_def)

text \<open>
  Puts (C1).  Whatever happens in a put (lock not obtained, key or quota refused, segment
  full, panic in the copy, database error, failed commit), the store keeps its invariant and
  is the old map, except that a put that returns \<open>Ok\<close> has bound the key to the value.
\<close>

theorem put_kv_refines:
  assumes "heed_laws H" "kv_inv H st" "pool_room (ks_pool st)" "put_kv H lk st key value t = (r, st')"
  shows "kv_inv H st' \<and>
    kv_abs H st' = (if r = Ok () then (kv_abs H st)(key \<mapsto> value) else kv_abs H st)"
  using assms(4)
proof (cases rule: put_kv_cases)
  case locked
  from put_kv_inner_refines [OF assms(1,2,3) locked] show ?thesis by blast
next
  case busy
  with assms(2) show ?thesis by auto
qed

abbreviation kv_fresh :: "mem_db kv_store" where
  "kv_fresh \<equiv> \<lparr>ks_env = [], ks_pool = pool_open fs_empty 16, ks_quota_limit = 0\<rparr>"

lemma kv_fresh_open: "kv_open mem_heed [] fs_empty 16 0 = Ok kv_fresh"
  by (simp add: kv_open_def mem_heed_def)

lemmas kv_fresh_inv = kv_open_inv [OF mem_heed_laws mem_heed_empty pool_inv_open_empty kv_fresh_open]

abbreviation free_lock :: flock where
  "free_lock \<equiv> \<lparr>fl_blocking = True, fl_try = (\<lambda>_. True)\<rparr>"

abbreviation kv_one :: "mem_db kv_store" where
  "kv_one \<equiv> snd (put_kv mem_heed free_lock kv_fresh [7] [1, 2, 3] None)"

lemma kv_one_put: "put_kv mem_heed free_lock kv_fresh [7] [1, 2, 3] None = (Ok (), kv_one)"
proof (rule prod_eqI)
  show "fst (put_kv mem_heed free_lock kv_fresh [7] [1, 2, 3] None) = fst (Ok (), kv_one)"
    unfolding fst_conv by code_simp
qed simp

lemma kv_fresh_room: "pool_room (ks_pool kv_fresh)"
  by code_simp

theorem put_kv_refines_witness:
  "kv_inv mem_heed kv_one \<and> kv_abs mem_heed kv_one = [[7] \<mapsto> [1, 2, 3]]"
  using put_kv_refines [OF mem_heed_laws kv_fresh_inv(1) kv_fresh_room kv_one_put] kv_fresh_inv(3)
  by simp

text \<open>
  Reads (C2).  When the map has a value for the key, the read returns a zero-copy buffer
  with exactly that value, and the buffer keeps reading it after any further appends, look-ups of handles with their
  evictions, flushes and releases of the pool (\<open>pool_step\<close>; a failed put rewinds the pool to where its own payload began, which keeps
  earlier payloads, see \<open>pool_append_rewind\<close>); when the key has no value, the read returns \<open>None\<close>.  A read changes neither the map
  nor the quota.
\<close>

theorem get_kv_correct:
  assumes "kv_inv H st" "hd_read_txn H (ks_env st) = HOk ()"
    and "hd_get H (ks_env st) KV_DB_NAME key = HOk old"
  shows "(case kv_abs H st key of
       None \<Rightarrow> get_kv_zero_copy H st key = (Ok None, st)
     | Some v \<Rightarrow> (\<exists>z st'. get_kv_zero_copy H st key = (Ok (Some z), st') \<and> kv_inv H st' \<and>
         kv_abs H st' = kv_abs H st \<and> ks_env st' = ks_env st \<and>
         (\<forall>p. pool_step\<^sup>*\<^sup>* (ks_pool st') p \<longrightarrow> buffer_as_bytes (sp_data_dir p) z = v)))"
proof (cases "kv_abs H st key")
  case None
  with get_kv_cases(2) [OF assms(1,2) None assms(3)] show ?thesis by simp
next
  case (Some v)
  with get_kv_cases(1) [OF assms(1,2) Some] get_kv_keeps [OF assms(1)] show ?thesis by fastforce
qed

theorem get_kv_correct_witness:
  "\<exists>z st'. get_kv_zero_copy mem_heed kv_one [7] = (Ok (Some z), st') \<and>
    (\<forall>p. pool_step\<^sup>*\<^sup>* (ks_pool st') p \<longrightarrow> buffer_as_bytes (sp_data_dir p) z = [1, 2, 3])"
proof -
  note one = put_kv_inner_refines [OF mem_heed_laws kv_fresh_inv(1) kv_fresh_room, of "[7]" "[1, 2, 3]" "Ok ()" kv_one]
  have put: "put_kv_inner mem_heed kv_fresh [7] [1, 2, 3] = (Ok (), kv_one)"
    using kv_one_put by (simp add: put_kv_def acquire_write_lock_def)
  have inv: "kv_inv mem_heed kv_one" by (rule one(1) [OF put])
  have "kv_abs mem_heed kv_one [7] = Some [1, 2, 3]" using one(2) [OF put] by simp
  moreover have "hd_get mem_heed (ks_env kv_one) KV_DB_NAME [7] = HOk (map_of (ks_env kv_one) (KV_DB_NAME, [7]))"
    by (simp add: mem_heed_def bad_key_def)
  ultimately show ?thesis
    using get_kv_correct [OF inv _, of "[7]"] by (auto simp: mem_heed_def)
qed

text \<open>
  Deletes.  A delete that returns says whether the key had a value and removes it from
  the map; a delete that fails changes nothing.
\<close>

theorem delete_kv_refines:
  assumes "heed_laws H" "kv_inv H st" "delete_kv H lk st key t = (r, st')"
  shows "kv_inv H st' \<and> (case r of
      Ok b \<Rightarrow> b = (kv_abs H st key \<noteq> None) \<and> kv_abs H st' = (kv_abs H st)(key := None)
    | _ \<Rightarrow> st' = st)"
  using assms(3)
proof (cases rule: delete_kv_cases)
  case locked
  from delete_kv_inner_refines [OF assms(1,2) locked] show ?thesis by (cases r) auto
next
  case busy
  with assms(2) show ?thesis by (cases r) auto
qed

theorem delete_kv_refines_witness:
  "kv_inv mem_heed (snd (delete_kv mem_heed free_lock kv_fresh [7] None)) \<and>
   (case fst (delete_kv mem_heed free_lock kv_fresh [7] None) of
      Ok b \<Rightarrow> b = (kv_abs mem_heed kv_fresh [7] \<noteq> None) \<and>
        kv_abs mem_heed (snd (delete_kv mem_heed free_lock kv_fresh [7] None)) =
          (kv_abs mem_heed kv_fresh)([7] := None)
    | _ \<Rightarrow> snd (delete_kv mem_heed free_lock kv_fresh [7] None) = kv_fresh)"
  by (rule delete_kv_refines [OF mem_heed_laws kv_fresh_inv(1) surjective_pairing])

text \<open>
  Quota (C15).  In every state that puts, deletes, reads and flushes reach from a state that
  satisfies the invariants, the total length of the live values is at most the quota
  counter, and with a quota limit the counter never exceeds it.
\<close>

theorem kv_quota_safe:
  assumes laws: "heed_laws H" and steps: "(kv_step H)\<^sup>*\<^sup>* st st'"
    and inv: "kv_inv H st" "quota_inv H st" and lim: "ks_quota_limit st > 0"
  shows "kv_live H (ks_env st') \<le> unat (kv_used H (ks_env st')) \<and>
    kv_used H (ks_env st') \<le> ks_quota_limit st"
proof -
  have "kv_inv H st' \<and> quota_inv H st' \<and> ks_quota_limit st' = ks_quota_limit st"
    using steps
  proof (induction rule: rtranclp_induct)
    case (step y z)
    with kv_step_inv [OF laws step.hyps(2)] show ?case by auto
  qed (use inv in simp)
  with lim show ?thesis by (metis quota_inv_def)
qed

theorem kv_quota_safe_witness:
  "let st = kv_fresh\<lparr>ks_quota_limit := 5\<rparr>; st' = kv_flush st in
   kv_live mem_heed (ks_env st') \<le> unat (kv_used mem_heed (ks_env st')) \<and>
   kv_used mem_heed (ks_env st') \<le> 5"
proof -
  have open5: "kv_open mem_heed [] fs_empty 16 5 = Ok (kv_fresh\<lparr>ks_quota_limit := 5\<rparr>)"
    by (simp add: kv_open_def mem_heed_def)
  note i = kv_open_inv [OF mem_heed_laws mem_heed_empty pool_inv_open_empty open5]
  from kv_quota_safe [OF mem_heed_laws r_into_rtranclp [where r = "kv_step mem_heed", OF kv_step_flush] i(1,2)]
  show ?thesis by (simp add: Let_def)
qed

text \<open>
  Quota drift.  Overwriting a value by a shorter one does not lower the counter, so
  after the overwrite and a delete the store is empty and bytes stay charged.
\<close>

theorem quota_drift:
  "let st = snd (put_kv mem_heed free_lock kv_fresh [7] [1, 2, 3] None);
       st = snd (put_kv mem_heed free_lock st [7] [4] None);
       st = snd (delete_kv mem_heed free_lock st [7] None)
   in used_bytes mem_heed st = Ok 2 \<and> hd_iter mem_heed (ks_env st) KV_DB_NAME = HOk []"
  by code_simp

text \<open>
  Reopening a store.  After a flush, opening the namespace again gives a store with the
  same map and the same quota counter.
\<close>

theorem kv_reopen:
  assumes "heed_laws H" "kv_inv H st"
    and "0 < sp_seg_size (ks_pool st)" "sp_seg_size (ks_pool st) < 2 ^ 64"
    and "kv_open H (ks_env st) (sp_data_dir (ks_pool (kv_flush st))) (sp_seg_size (ks_pool st)) q = Ok st'"
  shows "kv_inv H st' \<and> kv_abs H st' = kv_abs H st \<and> kv_used H (ks_env st') = kv_used H (ks_env st)"
  by (rule kv_reopen_abs [OF assms])

theorem kv_reopen_witness:
  "\<exists>st'. kv_open mem_heed (ks_env kv_fresh) (sp_data_dir (ks_pool (kv_flush kv_fresh)))
      (sp_seg_size (ks_pool kv_fresh)) 0 = Ok st' \<and>
    kv_inv mem_heed st' \<and> kv_abs mem_heed st' = kv_abs mem_heed kv_fresh \<and>
    kv_used mem_heed (ks_env st') = kv_used mem_heed (ks_env kv_fresh)"
proof -
  have op: "kv_open mem_heed (ks_env kv_fresh) (sp_data_dir (ks_pool (kv_flush kv_fresh)))
      (sp_seg_size (ks_pool kv_fresh)) 0 =
      Ok \<lparr>ks_env = [], ks_pool = pool_open (sp_data_dir (ks_pool (kv_flush kv_fresh)))
        (sp_seg_size (ks_pool kv_fresh)), ks_quota_limit = 0\<rparr>"
    by (simp add: kv_open_def mem_heed_def)
  have "0 < sp_seg_size (ks_pool kv_fresh)" "sp_seg_size (ks_pool kv_fresh) < 2 ^ 64"
    by code_simp+
  from kv_reopen [OF mem_heed_laws kv_fresh_inv(1) this op] op show ?thesis by blast
qed

end
