(* ===== verification/Columnar.thy ===== *)
theory Columnar
  imports Kv
begin

text \<open>
  \<open>fs-core/src/columnar/types.rs\<close> and \<open>columnar/store.rs\<close>: the columnar store.  A table is a list
  of columns whose buffers are appended, aligned to their element width, to a \<open>SegmentPool\<close>;
  the description of the table is in the \<open>heed\<close> database \<open>col_tables\<close>.  Values are bit patterns.
  Arguments are \<open>heed\<close>, \<open>serde_json\<close> of a table description, and Arrow's packed layout of
  Booleans.  Table ids and column names are strings of bytes.  An array that is read is the value
  its zero-copy view has at that moment.

  The store refines a map from table ids to record batches.
\<close>

section \<open>Types\<close>

datatype data_type = DtInt32 | DtInt64 | DtFloat32 | DtFloat64 | DtBoolean | DtOther

datatype col_type = Int32 | Int64 | Float32 | Float64 | Boolean

fun to_arrow :: "col_type \<Rightarrow> data_type" where
  "to_arrow Int32 = DtInt32"
| "to_arrow Int64 = DtInt64"
| "to_arrow Float32 = DtFloat32"
| "to_arrow Float64 = DtFloat64"
| "to_arrow Boolean = DtBoolean"

fun byte_width :: "col_type \<Rightarrow> nat" where
  "byte_width Int32 = 4"
| "byte_width Float32 = 4"
| "byte_width Int64 = 8"
| "byte_width Float64 = 8"
| "byte_width Boolean = 1"

fun from_arrow :: "data_type \<Rightarrow> col_type option" where
  "from_arrow DtInt32 = Some Int32"
| "from_arrow DtInt64 = Some Int64"
| "from_arrow DtFloat32 = Some Float32"
| "from_arrow DtFloat64 = Some Float64"
| "from_arrow DtBoolean = Some Boolean"
| "from_arrow DtOther = None"

record column_meta =
  cl_name :: bytes
  cl_dtype :: col_type
  cl_seg_id :: u32
  cl_offset :: u32
  cl_len :: u32

record table_meta =
  tm_row_count :: nat
  tm_columns :: "column_meta list"

text \<open>Arrow arrays and record batches, as far as the store looks at them.\<close>

datatype array = Int32Array "u32 list" | Int64Array "u64 list" | Float32Array "u32 list"
  | Float64Array "u64 list" | BooleanArray "bool list" | OtherArray

record batch_column =
  bc_name :: bytes
  bc_type :: data_type
  bc_null_count :: nat
  bc_array :: array

record record_batch =
  rb_num_rows :: nat
  rb_columns :: "batch_column list"

record 'h col_ctx =
  cc_heed :: "'h heed"
  cc_meta_to_vec :: "table_meta \<Rightarrow> bytes"
  cc_meta_from_slice :: "bytes \<Rightarrow> table_meta option"
  cc_pack :: "bool list \<Rightarrow> bytes"
  cc_unpack :: "bytes \<Rightarrow> nat \<Rightarrow> bool list"

record 'h columnar_store =
  cs_env :: 'h
  cs_pool :: segment_pool
  cs_quota_limit :: u64

definition COL_TABLE_DB :: string where "COL_TABLE_DB = ''col_tables''"
definition COL_QUOTA_DB :: string where "COL_QUOTA_DB = ''col_quota''"
definition COL_QUOTA_KEY :: bytes where "COL_QUOTA_KEY = [117, 115, 101, 100]"

section \<open>Buffers\<close>

text \<open>\<open>bytemuck_cast\<close> on a little-endian machine and the typed views of a buffer.\<close>

definition u64s_to_bytes :: "u64 list \<Rightarrow> bytes" where
  "u64s_to_bytes vs = concat (map u64_to_le vs)"

fun bytes_to_u64s :: "nat \<Rightarrow> bytes \<Rightarrow> u64 list" where
  "bytes_to_u64s 0 bs = []"
| "bytes_to_u64s (Suc n) bs = u64_from_le (take 8 bs) # bytes_to_u64s n (drop 8 bs)"

fun primitive_buffer_bytes :: "(bool list \<Rightarrow> bytes) \<Rightarrow> data_type \<Rightarrow> array \<Rightarrow> bytes res" where
  "primitive_buffer_bytes pack DtInt32 arr =
     (case arr of Int32Array vs \<Rightarrow> Ok (f32s_to_bytes vs) | _ \<Rightarrow> Err (Corrupt ''Int32 downcast failed''))"
| "primitive_buffer_bytes pack DtInt64 arr =
     (case arr of Int64Array vs \<Rightarrow> Ok (u64s_to_bytes vs) | _ \<Rightarrow> Err (Corrupt ''Int64 downcast failed''))"
| "primitive_buffer_bytes pack DtFloat32 arr =
     (case arr of Float32Array vs \<Rightarrow> Ok (f32s_to_bytes vs) | _ \<Rightarrow> Err (Corrupt ''Float32 downcast failed''))"
| "primitive_buffer_bytes pack DtFloat64 arr =
     (case arr of Float64Array vs \<Rightarrow> Ok (u64s_to_bytes vs) | _ \<Rightarrow> Err (Corrupt ''Float64 downcast failed''))"
| "primitive_buffer_bytes pack DtBoolean arr =
     (case arr of BooleanArray vs \<Rightarrow> Ok (pack vs) | _ \<Rightarrow> Err (Corrupt ''Boolean downcast failed''))"
| "primitive_buffer_bytes pack DtOther arr = Err (Corrupt ''unsupported dtype'')"

text \<open>
  \<open>ScalarBuffer::new\<close> panics on a misaligned buffer and on one that is too short, the constructor
  of a packed Boolean array on one that is too short.
\<close>

definition scalar_ok :: "nat \<Rightarrow> nat \<Rightarrow> bytes \<Rightarrow> nat \<Rightarrow> bool" where
  "scalar_ok width offset buf row_count \<longleftrightarrow> offset mod width = 0 \<and> row_count * width \<le> length buf"

fun typed_array :: "(bytes \<Rightarrow> nat \<Rightarrow> bool list) \<Rightarrow> col_type \<Rightarrow> nat \<Rightarrow> bytes \<Rightarrow> nat \<Rightarrow> array res" where
  "typed_array unpack Int32 offset buf n =
     (if scalar_ok 4 offset buf n then Ok (Int32Array (bytes_to_f32s (take (n * 4) buf))) else Panic)"
| "typed_array unpack Int64 offset buf n =
     (if scalar_ok 8 offset buf n then Ok (Int64Array (bytes_to_u64s n buf)) else Panic)"
| "typed_array unpack Float32 offset buf n =
     (if scalar_ok 4 offset buf n then Ok (Float32Array (bytes_to_f32s (take (n * 4) buf))) else Panic)"
| "typed_array unpack Float64 offset buf n =
     (if scalar_ok 8 offset buf n then Ok (Float64Array (bytes_to_u64s n buf)) else Panic)"
| "typed_array unpack Boolean offset buf n =
     (if n \<le> 8 * length buf then Ok (BooleanArray (unpack buf n)) else Panic)"

definition build_primitive_array ::
  "(bytes \<Rightarrow> nat \<Rightarrow> bool list) \<Rightarrow> fs \<Rightarrow> col_type \<Rightarrow> mmap_handle \<Rightarrow> nat \<Rightarrow> nat \<Rightarrow> nat \<Rightarrow> array res" where
  "build_primitive_array unpack d dtype h offset len row_count =
     typed_array unpack dtype offset (slice (mmap_as_bytes d h) offset len) row_count"

section \<open>Operations\<close>

definition read_col_quota_txn :: "('h, 'm) heed_scheme \<Rightarrow> 'h \<Rightarrow> u64 res" where
  "read_col_quota_txn H h =
     res_bind (heed_res (hd_get H h COL_QUOTA_DB COL_QUOTA_KEY)) (\<lambda>v.
       case v of
         None \<Rightarrow> Ok 0
       | Some bs \<Rightarrow> if length bs = 8 then Ok (u64_from_le bs) else Ok 0)"

definition write_col_quota_txn :: "('h, 'm) heed_scheme \<Rightarrow> 'h \<Rightarrow> u64 \<Rightarrow> 'h res" where
  "write_col_quota_txn H h v = heed_res (hd_put H h COL_QUOTA_DB COL_QUOTA_KEY (u64_to_le v))"

definition col_open :: "'h col_ctx \<Rightarrow> 'h \<Rightarrow> fs \<Rightarrow> nat \<Rightarrow> u64 \<Rightarrow> 'h columnar_store res" where
  "col_open C env data_dir seg_size quota_limit =
     res_bind (heed_res (hd_write_txn (cc_heed C) env)) (\<lambda>u.
     res_bind (heed_res (hd_create (cc_heed C) env COL_TABLE_DB)) (\<lambda>h1.
     res_bind (heed_res (hd_create (cc_heed C) h1 COL_QUOTA_DB)) (\<lambda>h2.
     res_bind (heed_res (hd_commit (cc_heed C) h2)) (\<lambda>h3.
       Ok \<lparr>cs_env = h3, cs_pool = pool_open data_dir seg_size, cs_quota_limit = quota_limit\<rparr>))))"

definition col_acquire_write_lock :: "flock \<Rightarrow> nat option \<Rightarrow> unit res" where
  "col_acquire_write_lock lk timeout =
     (case timeout of
        None \<Rightarrow> (if fl_blocking lk then Ok () else Err LockBusy)
      | Some d \<Rightarrow> acquire_loop (fl_try lk) d 0 0)"

definition sum_lens :: "column_meta list \<Rightarrow> u64" where
  "sum_lens cols = sum_list (map (\<lambda>c. ucast (cl_len c)) cols)"

fun append_columns ::
  "'h col_ctx \<Rightarrow> segment_pool \<Rightarrow> batch_column list \<Rightarrow> column_meta list res \<times> segment_pool" where
  "append_columns C p [] = (Ok [], p)"
| "append_columns C p (c # cs) =
     (case from_arrow (bc_type c) of
        None \<Rightarrow> (Err (Corrupt ''unsupported column type''), p)
      | Some dtype \<Rightarrow>
          if bc_null_count c \<noteq> 0 then (Err (Corrupt ''column has nulls''), p)
          else
            (case primitive_buffer_bytes (cc_pack C) (bc_type c) (bc_array c) of
               Err e \<Rightarrow> (Err e, p)
             | Panic \<Rightarrow> (Panic, p)
             | Ok buf \<Rightarrow>
                 (case pool_append_aligned p buf (byte_width dtype) of
                    (Err e, p1) \<Rightarrow> (Err e, p1)
                  | (Panic, p1) \<Rightarrow> (Panic, p1)
                  | (Ok loc, p1) \<Rightarrow>
                      (case append_columns C p1 cs of
                         (r, p2) \<Rightarrow>
                           (res_bind r (\<lambda>cols. Ok (\<lparr>cl_name = bc_name c, cl_dtype = dtype,
                              cl_seg_id = vl_seg_id loc, cl_offset = vl_offset loc, cl_len = vl_len loc\<rparr> # cols)),
                            p2)))))"

text \<open>The bytes of the table that is replaced and the quota counter.\<close>

definition put_columnar_reads :: "'h col_ctx \<Rightarrow> 'h \<Rightarrow> bytes \<Rightarrow> (u64 \<times> u64) res" where
  "put_columnar_reads C h table_id =
     res_bind (heed_res (hd_write_txn (cc_heed C) h)) (\<lambda>u.
     res_bind (heed_res (hd_get (cc_heed C) h COL_TABLE_DB table_id)) (\<lambda>v.
     res_bind (case v of
                 None \<Rightarrow> Ok 0
               | Some prev \<Rightarrow> (case cc_meta_from_slice C prev of
                                 None \<Rightarrow> Err SerdeJson | Some m \<Rightarrow> Ok (sum_lens (tm_columns m)))) (\<lambda>old_bytes.
     res_bind (read_col_quota_txn (cc_heed C) h) (\<lambda>used. Ok (old_bytes, used)))))"

definition put_columnar_inner ::
  "'h col_ctx \<Rightarrow> 'h columnar_store \<Rightarrow> bytes \<Rightarrow> record_batch \<Rightarrow> unit res \<times> 'h columnar_store" where
  "put_columnar_inner C st table_id batch =
     (case put_columnar_reads C (cs_env st) table_id of
        Err e \<Rightarrow> (Err e, st)
      | Panic \<Rightarrow> (Panic, st)
      | Ok (old_bytes, used) \<Rightarrow>
          (let rollback_seg = sp_active_id (cs_pool st);
               rollback_off = word_of_nat (sp_active_cursor (cs_pool st));
               rewound = (\<lambda>p. st\<lparr>cs_pool := snd (rewind_active_to p rollback_seg rollback_off)\<rparr>)
           in case append_columns C (cs_pool st) (rb_columns batch) of
                (Err e, p) \<Rightarrow> (Err e, rewound p)
              | (Panic, p) \<Rightarrow> (Panic, st\<lparr>cs_pool := p\<rparr>)
              | (Ok cols, p) \<Rightarrow>
                  (case checked_add_u64 used (saturating_sub_u64 (sum_lens cols) old_bytes) of
                     None \<Rightarrow> (Err QuotaExceeded, st\<lparr>cs_pool := p\<rparr>)
                   | Some new_used \<Rightarrow>
                       if cs_quota_limit st > 0 \<and> new_used > cs_quota_limit st
                       then (Err QuotaExceeded, rewound p)
                       else
                         (case res_bind (heed_res (hd_put (cc_heed C) (cs_env st) COL_TABLE_DB table_id
                                 (cc_meta_to_vec C \<lparr>tm_row_count = rb_num_rows batch, tm_columns = cols\<rparr>)))
                                 (\<lambda>h1. write_col_quota_txn (cc_heed C) h1 new_used) of
                            Err e \<Rightarrow> (Err e, st\<lparr>cs_pool := p\<rparr>)
                          | Panic \<Rightarrow> (Panic, st\<lparr>cs_pool := p\<rparr>)
                          | Ok h2 \<Rightarrow>
                              (case hd_commit (cc_heed C) h2 of
                                 HErr e \<Rightarrow> (Err (Heed e), rewound p)
                               | HOk h3 \<Rightarrow> (Ok (), st\<lparr>cs_env := h3, cs_pool := p\<rparr>))))))"

definition put_columnar ::
  "'h col_ctx \<Rightarrow> flock \<Rightarrow> 'h columnar_store \<Rightarrow> bytes \<Rightarrow> record_batch \<Rightarrow> nat option
     \<Rightarrow> unit res \<times> 'h columnar_store" where
  "put_columnar C lk st table_id batch timeout =
     (case col_acquire_write_lock lk timeout of
        Err e \<Rightarrow> (Err e, st)
      | Panic \<Rightarrow> (Panic, st)
      | Ok u \<Rightarrow> put_columnar_inner C st table_id batch)"

definition selected :: "bytes list \<Rightarrow> column_meta \<Rightarrow> bool" where
  "selected columns m \<longleftrightarrow> columns = [] \<or> cl_name m \<in> set columns"

fun read_columns ::
  "'h col_ctx \<Rightarrow> bytes list \<Rightarrow> nat \<Rightarrow> segment_pool \<Rightarrow> column_meta list
     \<Rightarrow> batch_column list res \<times> segment_pool" where
  "read_columns C columns row_count p [] = (Ok [], p)"
| "read_columns C columns row_count p (m # ms) =
     (if \<not> selected columns m then read_columns C columns row_count p ms
      else
        (case sealed_handle p (cl_seg_id m) of
           (Err e, p1) \<Rightarrow> (Err e, p1)
         | (Panic, p1) \<Rightarrow> (Panic, p1)
         | (Ok h, p1) \<Rightarrow>
             (case build_primitive_array (cc_unpack C) (sp_data_dir p1) (cl_dtype m) h
                     (unat (cl_offset m)) (unat (cl_len m)) row_count of
                Err e \<Rightarrow> (Err e, p1)
              | Panic \<Rightarrow> (Panic, p1)
              | Ok arr \<Rightarrow>
                  (case read_columns C columns row_count p1 ms of
                     (r, p2) \<Rightarrow>
                       (res_bind r (\<lambda>cols. Ok (\<lparr>bc_name = cl_name m, bc_type = to_arrow (cl_dtype m),
                          bc_null_count = 0, bc_array = arr\<rparr> # cols)), p2)))))"

text \<open>No selected column leaves no mapping to keep alive: the answer is \<open>None\<close>.\<close>

definition get_columnar_zero_copy ::
  "'h col_ctx \<Rightarrow> 'h columnar_store \<Rightarrow> bytes \<Rightarrow> bytes list \<Rightarrow> record_batch option res \<times> 'h columnar_store" where
  "get_columnar_zero_copy C st table_id columns =
     (case res_bind (heed_res (hd_read_txn (cc_heed C) (cs_env st)))
             (\<lambda>u. heed_res (hd_get (cc_heed C) (cs_env st) COL_TABLE_DB table_id)) of
        Err e \<Rightarrow> (Err e, st)
      | Panic \<Rightarrow> (Panic, st)
      | Ok None \<Rightarrow> (Ok None, st)
      | Ok (Some meta_bytes) \<Rightarrow>
          (case cc_meta_from_slice C meta_bytes of
             None \<Rightarrow> (Err SerdeJson, st)
           | Some meta \<Rightarrow>
               (case read_columns C columns (tm_row_count meta) (cs_pool st) (tm_columns meta) of
                  (r, p) \<Rightarrow>
                    (res_bind r (\<lambda>cols. Ok (if cols = [] then None
                       else Some \<lparr>rb_num_rows = tm_row_count meta, rb_columns = cols\<rparr>)),
                     st\<lparr>cs_pool := p\<rparr>))))"

definition col_flush :: "'h columnar_store \<Rightarrow> 'h columnar_store" where
  "col_flush st = st\<lparr>cs_pool := pool_flush (cs_pool st)\<rparr>"

definition col_used_bytes :: "'h col_ctx \<Rightarrow> 'h columnar_store \<Rightarrow> u64 res" where
  "col_used_bytes C st =
     res_bind (heed_res (hd_read_txn (cc_heed C) (cs_env st))) (\<lambda>u. read_col_quota_txn (cc_heed C) (cs_env st))"

definition col_disk_bytes :: "'h columnar_store \<Rightarrow> nat" where
  "col_disk_bytes st = pool_disk_bytes (cs_pool st)"

section \<open>Several appends and one rewind\<close>

text \<open>
  \<open>pool_later p p' k\<close>: \<open>p'\<close> comes after \<open>p\<close> with at most \<open>k\<close> rotations in between; without a
  rotation the cursor has not gone back.
\<close>

definition room_for :: "segment_pool \<Rightarrow> nat \<Rightarrow> bool" where
  "room_for p k \<longleftrightarrow> unat (sp_active_id p) + k \<le> U32_MAX"

definition pool_later :: "segment_pool \<Rightarrow> segment_pool \<Rightarrow> nat \<Rightarrow> bool" where
  "pool_later p p' k \<longleftrightarrow> sp_seg_size p' = sp_seg_size p \<and>
     (sp_active_id p' = sp_active_id p \<and> sp_active_cursor p \<le> sp_active_cursor p' \<or>
      unat (sp_active_id p) < unat (sp_active_id p') \<and> unat (sp_active_id p') \<le> unat (sp_active_id p) + k)"

lemma unat_add_u32: "unat (w :: u32) + k \<le> U32_MAX \<Longrightarrow> unat (w + word_of_nat k) = unat w + k"
  by (simp add: unat_word_ariths unat_of_nat)

lemma room_for_room:
  assumes "room_for p k" "1 \<le> k"
  shows "pool_room p" "unat (sp_active_id p + 1) = Suc (unat (sp_active_id p))"
proof -
  from assms have "unat (sp_active_id p) + 1 \<le> U32_MAX" by (simp add: room_for_def)
  from unat_add_u32 [OF this] show "unat (sp_active_id p + 1) = Suc (unat (sp_active_id p))" by simp
  then have "unat (sp_active_id p + 1) \<noteq> unat (0 :: u32)" by simp
  then show "pool_room p" unfolding pool_room_def by (metis word_unat_eq_iff)
qed

lemma room_for_room2:
  assumes "room_for p k" "2 \<le> k"
  shows "pool_room2 p"
proof -
  from assms have "unat (sp_active_id p) + 2 \<le> U32_MAX" by (simp add: room_for_def)
  from unat_add_u32 [OF this] have "unat (sp_active_id p + 2) \<noteq> unat (0 :: u32)" by simp
  with room_for_room(1) [OF assms(1)] assms(2) show ?thesis
    unfolding pool_room2_def by (metis word_unat_eq_iff one_le_numeral order_trans)
qed

lemma room_for_later: "room_for p (j + k) \<Longrightarrow> pool_later p p' j \<Longrightarrow> room_for p' k"
  by (auto simp: room_for_def pool_later_def)

lemma pool_later_refl: "pool_later p p k"
  by (simp add: pool_later_def)

lemma pool_later_trans: "pool_later p p1 j \<Longrightarrow> pool_later p1 p2 k \<Longrightarrow> pool_later p p2 (j + k)"
  by (auto simp: pool_later_def)

lemma pool_later_mono: "pool_later p p' j \<Longrightarrow> j \<le> k \<Longrightarrow> pool_later p p' k"
  by (auto simp: pool_later_def)

lemma pool_later_rotate: "room_for p 1 \<Longrightarrow> pool_later p (seal_and_rotate p) 1"
  by (rule seal_and_rotate_eq [of p]) (simp add: pool_later_def room_for_room)

lemma pool_later_append: "room_for p 1 \<Longrightarrow> pool_append p bs = (r, p') \<Longrightarrow> pool_later p p' 1"
  using pool_later_rotate [of p] pool_later_refl [of p 1]
  by (auto elim!: pool_append_cases simp: append_target_def pool_later_def)

lemma pool_later_aligned:
  assumes room: "room_for p 2" and app: "pool_append_aligned p bs a = (r, p')"
  shows "pool_later p p' 2"
proof -
  have room1: "room_for p 1" "room_for p (1 + 1)" using room by (simp_all add: room_for_def)
  have two: "pool_later p p' 2" if "pool_later p p1 1" "pool_append p1 bs = (r, p')" for p1
    using pool_later_trans [OF that(1) pool_later_append [OF room_for_later [OF room1(2) that(1)] that(2)]]
    by (simp add: numeral_2_eq_2)
  from app show ?thesis
  proof (cases rule: pool_append_aligned_cases)
    case plain
    with two [OF pool_later_refl] show ?thesis by blast
  next
    case rotate
    with two [OF pool_later_rotate [OF room1(1)]] show ?thesis by blast
  next
    case (pad l p1)
    with two [OF pool_later_append [OF room1(1) pad(1)]] show ?thesis by blast
  next
    case (pad_failed r1)
    with pool_later_mono [OF pool_later_append [OF room1(1)]] show ?thesis by fastforce
  qed
qed

text \<open>Going back to a cursor remembered from \<open>p\<close> keeps everything that \<open>p\<close> could read.\<close>

lemma pool_rewind_keeps:
  assumes inv: "pool_inv p" "pool_inv p'" and later: "pool_later p p' k"
    and keep: "pool_read p' l = Some b" and rd: "pool_read p l = Some b"
    and cur: "sp_active_cursor p \<le> U32_MAX"
  shows "pool_read (snd (rewind_active_to p' (sp_active_id p) (word_of_nat (sp_active_cursor p)))) l = Some b"
  using later keep rd cur
  by (auto simp: rewind_active_to_def pool_read_def Let_def unat_u32_of_nat pool_later_def
      split: option.splits if_splits)

section \<open>Reading a table\<close>

definition col_loc :: "column_meta \<Rightarrow> value_locator" where
  "col_loc m = \<lparr>vl_seg_id = cl_seg_id m, vl_offset = cl_offset m, vl_len = cl_len m\<rparr>"

definition col_read :: "'h col_ctx \<Rightarrow> nat \<Rightarrow> segment_pool \<Rightarrow> column_meta \<Rightarrow> batch_column option" where
  "col_read C n p m =
     (case pool_read p (col_loc m) of
        None \<Rightarrow> None
      | Some bs \<Rightarrow>
          (case typed_array (cc_unpack C) (cl_dtype m) (unat (cl_offset m)) bs n of
             Ok a \<Rightarrow> Some \<lparr>bc_name = cl_name m, bc_type = to_arrow (cl_dtype m), bc_null_count = 0, bc_array = a\<rparr>
           | _ \<Rightarrow> None))"

definition table_read :: "'h col_ctx \<Rightarrow> segment_pool \<Rightarrow> table_meta \<Rightarrow> record_batch option" where
  "table_read C p meta =
     map_option (\<lambda>cs. \<lparr>rb_num_rows = tm_row_count meta, rb_columns = cs\<rparr>)
       (those (map (col_read C (tm_row_count meta) p) (tm_columns meta)))"

definition col_tables :: "'h col_ctx \<Rightarrow> 'h \<Rightarrow> bytes \<rightharpoonup> table_meta" where
  "col_tables C h tid =
     (case heed_view (cc_heed C) h COL_TABLE_DB tid of None \<Rightarrow> None | Some v \<Rightarrow> cc_meta_from_slice C v)"

definition col_abs :: "'h col_ctx \<Rightarrow> 'h columnar_store \<Rightarrow> bytes \<rightharpoonup> record_batch" where
  "col_abs C st = idx_lookup (table_read C) (cs_pool st) (col_tables C (cs_env st))"

definition col_inv :: "'h col_ctx \<Rightarrow> 'h columnar_store \<Rightarrow> bool" where
  "col_inv C st \<longleftrightarrow> pool_inv (cs_pool st) \<and> sp_seg_size (cs_pool st) \<le> U32_MAX \<and>
     (\<forall>tid v. heed_view (cc_heed C) (cs_env st) COL_TABLE_DB tid = Some v \<longrightarrow> cc_meta_from_slice C v \<noteq> None) \<and>
     idx_covered (table_read C) (cs_pool st) (col_tables C (cs_env st))"

text \<open>What the store relies on: \<open>heed\<close>, the JSON round trip and Arrow's packing of Booleans.\<close>

definition col_ctx_ok :: "'h col_ctx \<Rightarrow> bool" where
  "col_ctx_ok C \<longleftrightarrow> heed_laws (cc_heed C) \<and> (\<forall>m. cc_meta_from_slice C (cc_meta_to_vec C m) = Some m) \<and>
     (\<forall>bs. length bs \<le> 8 * length (cc_pack C bs) \<and> cc_unpack C (cc_pack C bs) (length bs) = bs)"

text \<open>The columns of a \<open>RecordBatch\<close> have its number of rows.\<close>

fun array_len :: "array \<Rightarrow> nat" where
  "array_len (Int32Array vs) = length vs"
| "array_len (Int64Array vs) = length vs"
| "array_len (Float32Array vs) = length vs"
| "array_len (Float64Array vs) = length vs"
| "array_len (BooleanArray vs) = length vs"
| "array_len OtherArray = 0"

definition batch_ok :: "record_batch \<Rightarrow> bool" where
  "batch_ok b \<longleftrightarrow> list_all (\<lambda>c. array_len (bc_array c) = rb_num_rows b) (rb_columns b)"

definition col_room :: "segment_pool \<Rightarrow> record_batch \<Rightarrow> bool" where
  "col_room p b \<longleftrightarrow> batch_ok b \<and> room_for p (2 * length (rb_columns b))"

lemma from_arrow_to_arrow: "from_arrow dt = Some ct \<longleftrightarrow> dt = to_arrow ct"
  by (cases dt; cases ct) auto

lemma length_u64s_to_bytes [simp]: "length (u64s_to_bytes vs) = 8 * length vs"
  by (induction vs) (simp_all add: u64s_to_bytes_def)

lemma bytes_to_u64s_inverse [simp]: "bytes_to_u64s (length vs) (u64s_to_bytes vs) = vs"
  by (induction vs) (simp_all add: u64s_to_bytes_def)

lemma typed_array_buffer:
  assumes ctx: "col_ctx_ok C" and buf: "primitive_buffer_bytes (cc_pack C) (to_arrow ct) arr = Ok bs"
    and len: "array_len arr = n" and al: "1 < byte_width ct \<longrightarrow> off mod byte_width ct = 0"
  shows "typed_array (cc_unpack C) ct off bs n = Ok arr"
  using assms
  by (cases ct; cases arr)
    (auto simp: scalar_ok_def mult.commute col_ctx_ok_def)

lemma col_read_keep:
  assumes "\<And>l b. pool_read p l = Some b \<Longrightarrow> pool_read p' l = Some b" "col_read C n p m = Some c"
  shows "col_read C n p' m = Some c"
  using assms(1) [of "col_loc m"] assms(2) by (auto simp: col_read_def split: option.splits)

lemma those_map_keep:
  assumes "\<And>x y. f x = Some y \<Longrightarrow> g x = Some y" "those (map f xs) = Some ys"
  shows "those (map g xs) = Some ys"
  using assms(2) by (induction xs arbitrary: ys) (auto split: option.splits dest: assms(1))

lemma table_read_keep:
  assumes "\<And>l b. pool_read p l = Some b \<Longrightarrow> pool_read p' l = Some b" "table_read C p m = Some t"
  shows "table_read C p' m = Some t"
  using assms(2) those_map_keep [OF col_read_keep [OF assms(1)]]
  by (fastforce simp: table_read_def)

text \<open>One column: the buffer is appended, aligned, and read back as the same array.\<close>

lemma append_column_reads:
  assumes ctx: "col_ctx_ok C" and inv: "pool_inv p" and room: "room_for p 2"
    and ty: "from_arrow (bc_type c) = Some ct" and nulls: "bc_null_count c = 0"
    and buf: "primitive_buffer_bytes (cc_pack C) (bc_type c) (bc_array c) = Ok bs"
    and app: "pool_append_aligned p bs (byte_width ct) = (Ok loc, p1)"
    and len: "array_len (bc_array c) = n"
  shows "col_read C n p1 \<lparr>cl_name = bc_name c, cl_dtype = ct,
           cl_seg_id = vl_seg_id loc, cl_offset = vl_offset loc, cl_len = vl_len loc\<rparr> = Some c"
proof -
  have rd: "pool_read p1 loc = Some bs"
    by (rule aseg.app_read [OF inv room_for_room2 [OF room order_refl] app])
  have al: "1 < byte_width ct \<longrightarrow> unat (vl_offset loc) mod byte_width ct = 0"
    using aligned_offset [OF inv _ app room_for_room(1) [OF room]] by simp
  have dt: "bc_type c = to_arrow ct"
    using ty by (simp add: from_arrow_to_arrow)
  from typed_array_buffer [OF ctx buf [unfolded dt] len al] rd nulls dt show ?thesis
    by (cases c; cases loc) (simp add: col_read_def col_loc_def)
qed

lemma append_columns_laws:
  assumes "col_ctx_ok C" "pool_inv p" "room_for p (2 * length cs)" "append_columns C p cs = (r, p')"
    "list_all (\<lambda>c. array_len (bc_array c) = n) cs"
  shows "pool_inv p' \<and> pool_later p p' (2 * length cs) \<and>
    (\<forall>l b. pool_read p l = Some b \<longrightarrow> pool_read p' l = Some b) \<and>
    (\<forall>cols. r = Ok cols \<longrightarrow> those (map (col_read C n p') cols) = Some cs)"
  using assms(2-)
proof (induction cs arbitrary: p r p')
  case Nil
  then show ?case by (auto simp: pool_later_refl)
next
  case (Cons c cs)
  show ?case
  proof (cases "\<exists>ct bs loc p1. from_arrow (bc_type c) = Some ct \<and> bc_null_count c = 0 \<and>
      primitive_buffer_bytes (cc_pack C) (bc_type c) (bc_array c) = Ok bs \<and>
      pool_append_aligned p bs (byte_width ct) = (Ok loc, p1)")
    case False
    then have "p' = p \<and> \<not> is_ok r \<or>
        (\<exists>bs a r1. pool_append_aligned p bs a = (r1, p') \<and> \<not> is_ok r)"
      using Cons.prems(3) by (auto split: option.splits if_splits res.splits prod.splits)
    moreover have "room_for p 2" using Cons.prems(2) by (simp add: room_for_def)
    moreover note pool_later_aligned [OF this] aseg.app_inv [OF Cons.prems(1) room_for_room2 [OF this order_refl]]
      aseg.app_keep [OF Cons.prems(1) room_for_room2 [OF this order_refl]]
    ultimately show ?thesis
      using Cons.prems(1) by (auto simp: pool_later_refl intro: pool_later_mono [where j = 2])
  next
    case True
    then obtain ct bs loc p1 where c: "from_arrow (bc_type c) = Some ct" "bc_null_count c = 0"
      "primitive_buffer_bytes (cc_pack C) (bc_type c) (bc_array c) = Ok bs"
      and app: "pool_append_aligned p bs (byte_width ct) = (Ok loc, p1)"
      by blast
    obtain r2 where rest: "append_columns C p1 cs = (r2, p')"
      and r: "r = res_bind r2 (\<lambda>cols. Ok (\<lparr>cl_name = bc_name c, cl_dtype = ct,
                 cl_seg_id = vl_seg_id loc, cl_offset = vl_offset loc, cl_len = vl_len loc\<rparr> # cols))"
      using Cons.prems(3) c app by (auto split: prod.splits)
    have room: "room_for p 2" "room_for p (2 + 2 * length cs)"
      using Cons.prems(2) by (simp_all add: room_for_def)
    note room2 = room_for_room2 [OF room(1) order_refl]
    note later = pool_later_aligned [OF room(1) app]
    note p1 = aseg.app_inv [OF Cons.prems(1) room2 app] room_for_later [OF room(2) later]
    have IH: "pool_inv p'" "pool_later p1 p' (2 * length cs)"
      "\<And>l b. pool_read p1 l = Some b \<Longrightarrow> pool_read p' l = Some b"
      "\<And>cols. r2 = Ok cols \<Longrightarrow> those (map (col_read C n p') cols) = Some cs"
      using Cons.IH [OF p1 rest] Cons.prems(4) by auto
    have "col_read C n p' \<lparr>cl_name = bc_name c, cl_dtype = ct, cl_seg_id = vl_seg_id loc,
        cl_offset = vl_offset loc, cl_len = vl_len loc\<rparr> = Some c"
      using Cons.prems(4)
      by (intro col_read_keep [OF IH(3) append_column_reads [OF assms(1) Cons.prems(1) room(1) c app]]) auto
    moreover have "pool_read p' l = Some b" if "pool_read p l = Some b" for l b
      by (rule IH(3) [OF aseg.app_keep [OF Cons.prems(1) room2 app that]])
    ultimately show ?thesis
      using IH(1,4) r pool_later_trans [OF later IH(2)] by auto
  qed
qed

text \<open>A table is a payload of the pool: the whole batch is appended and read back as one.\<close>

definition append_table :: "'h col_ctx \<Rightarrow> segment_pool \<Rightarrow> record_batch \<Rightarrow> table_meta res \<times> segment_pool" where
  "append_table C p b =
     (case append_columns C p (rb_columns b) of
        (r, p') \<Rightarrow> (res_bind r (\<lambda>cols. Ok \<lparr>tm_row_count = rb_num_rows b, tm_columns = cols\<rparr>), p'))"

lemma append_table_laws:
  assumes "col_ctx_ok C" "pool_inv p" "col_room p b" "append_table C p b = (r, p')"
  shows append_table_inv: "pool_inv p'"
    and append_table_later: "pool_later p p' (2 * length (rb_columns b))"
    and append_table_pool_read: "pool_read p l0 = Some bs \<Longrightarrow> pool_read p' l0 = Some bs"
    and append_table_reads: "r = Ok m \<Longrightarrow> table_read C p' m = Some b"
proof -
  obtain rc where ac: "append_columns C p (rb_columns b) = (rc, p')"
    and r: "r = res_bind rc (\<lambda>cols. Ok \<lparr>tm_row_count = rb_num_rows b, tm_columns = cols\<rparr>)"
    using assms(4) by (auto simp: append_table_def split: prod.splits)
  note laws = append_columns_laws [OF assms(1,2) _ ac, of "rb_num_rows b"]
  from laws assms(3) show "pool_inv p'" "pool_later p p' (2 * length (rb_columns b))"
    "pool_read p l0 = Some bs \<Longrightarrow> pool_read p' l0 = Some bs"
    by (auto simp: col_room_def batch_ok_def)
  assume "r = Ok m"
  with r obtain cols where cols: "rc = Ok cols" "m = \<lparr>tm_row_count = rb_num_rows b, tm_columns = cols\<rparr>"
    by (cases rc) auto
  then have "those (map (col_read C (rb_num_rows b) p') cols) = Some (rb_columns b)"
    using laws assms(3) by (auto simp: col_room_def batch_ok_def)
  with cols show "table_read C p' m = Some b"
    by (simp add: table_read_def)
qed

lemma col_append_store:
  assumes "col_ctx_ok C"
  shows "append_store pool_inv col_room (append_table C) (table_read C)"
  by unfold_locales
    (auto intro: append_table_inv [OF assms] append_table_reads [OF assms]
      table_read_keep [OF append_table_pool_read [OF assms]])

section \<open>Transactions\<close>

lemma col_db_names [simp]: "COL_TABLE_DB \<noteq> COL_QUOTA_DB" "COL_QUOTA_DB \<noteq> COL_TABLE_DB"
  by (simp_all add: COL_TABLE_DB_def COL_QUOTA_DB_def)

lemma col_txn_tables:
  assumes ctx: "col_ctx_ok C"
    and put: "hd_put (cc_heed C) h COL_TABLE_DB tid (cc_meta_to_vec C m) = HOk h1"
    and quota: "write_col_quota_txn (cc_heed C) h1 nu = Ok h2" and commit: "hd_commit (cc_heed C) h2 = HOk h3"
  shows "heed_view (cc_heed C) h3 COL_TABLE_DB = (heed_view (cc_heed C) h COL_TABLE_DB)(tid \<mapsto> cc_meta_to_vec C m)"
    and "col_tables C h3 = (col_tables C h)(tid \<mapsto> m)"
proof -
  have laws: "heed_laws (cc_heed C)" and serde: "cc_meta_from_slice C (cc_meta_to_vec C m) = Some m"
    using ctx by (simp_all add: col_ctx_ok_def)
  have q: "hd_put (cc_heed C) h1 COL_QUOTA_DB COL_QUOTA_KEY (u64_to_le nu) = HOk h2"
    using quota by (simp add: write_col_quota_txn_def)
  show view: "heed_view (cc_heed C) h3 COL_TABLE_DB
      = (heed_view (cc_heed C) h COL_TABLE_DB)(tid \<mapsto> cc_meta_to_vec C m)"
    by (simp add: heed_put_view [OF laws put] heed_put_view [OF laws q] heed_commit_view [OF laws commit])
  show "col_tables C h3 = (col_tables C h)(tid \<mapsto> m)"
    by (simp add: col_tables_def view serde fun_eq_iff)
qed

definition col_rewound :: "segment_pool \<Rightarrow> segment_pool \<Rightarrow> segment_pool" where
  "col_rewound p p' = snd (rewind_active_to p' (sp_active_id p) (word_of_nat (sp_active_cursor p)))"

lemma put_columnar_inner_cases:
  assumes ctx: "col_ctx_ok C" and put: "put_columnar_inner C st tid b = (r, st')"
  obtains
      (stored) m p h where "r = Ok ()" "append_table C (cs_pool st) b = (Ok m, p)"
        "st' = st\<lparr>cs_env := h, cs_pool := p\<rparr>" "col_tables C h = (col_tables C (cs_env st))(tid \<mapsto> m)"
        "heed_view (cc_heed C) h COL_TABLE_DB =
           (heed_view (cc_heed C) (cs_env st) COL_TABLE_DB)(tid \<mapsto> cc_meta_to_vec C m)"
    | (refused) "\<not> is_ok r" "st' = st"
    | (leaked) ra p where "\<not> is_ok r" "append_table C (cs_pool st) b = (ra, p)" "st' = st\<lparr>cs_pool := p\<rparr>"
    | (rewound) ra p where "\<not> is_ok r" "append_table C (cs_pool st) b = (ra, p)"
        "st' = st\<lparr>cs_pool := col_rewound (cs_pool st) p\<rparr>"
proof (cases "put_columnar_reads C (cs_env st) tid")
  case (Ok ou)
  obtain old used where ou: "ou = (old, used)" by (cases ou)
  obtain rc p where ac: "append_columns C (cs_pool st) (rb_columns b) = (rc, p)"
    by (cases "append_columns C (cs_pool st) (rb_columns b)")
  have at: "append_table C (cs_pool st) b =
      (res_bind rc (\<lambda>cols. Ok \<lparr>tm_row_count = rb_num_rows b, tm_columns = cols\<rparr>), p)"
    by (simp add: append_table_def ac)
  show thesis
  proof (cases rc)
    case rc: (Ok cols)
    let ?m = "\<lparr>tm_row_count = rb_num_rows b, tm_columns = cols\<rparr>"
    show thesis
    proof (cases "\<exists>nu h1 h2 h3. hd_put (cc_heed C) (cs_env st) COL_TABLE_DB tid (cc_meta_to_vec C ?m) = HOk h1 \<and>
        write_col_quota_txn (cc_heed C) h1 nu = Ok h2 \<and> hd_commit (cc_heed C) h2 = HOk h3 \<and>
        (r, st') = (Ok (), st\<lparr>cs_env := h3, cs_pool := p\<rparr>)")
      case True
      then obtain nu h1 h2 h3 where t: "hd_put (cc_heed C) (cs_env st) COL_TABLE_DB tid (cc_meta_to_vec C ?m) = HOk h1"
        "write_col_quota_txn (cc_heed C) h1 nu = Ok h2" "hd_commit (cc_heed C) h2 = HOk h3"
        and res: "(r, st') = (Ok (), st\<lparr>cs_env := h3, cs_pool := p\<rparr>)"
        by blast
      show thesis
        by (rule stored [of ?m p h3]) (use at rc res col_txn_tables [OF ctx t] in simp_all)
    next
      case False
      with put Ok ou ac rc have "\<not> is_ok r \<and> (st' = st\<lparr>cs_pool := p\<rparr> \<or> st' = st\<lparr>cs_pool := col_rewound (cs_pool st) p\<rparr>)"
        by (auto simp: put_columnar_inner_def Let_def col_rewound_def split: option.splits if_splits res.splits hres.splits)
      with leaked [OF _ at] rewound [OF _ at] show thesis by blast
    qed
  next
    case (Err e)
    with put Ok ou ac have "\<not> is_ok r" "st' = st\<lparr>cs_pool := col_rewound (cs_pool st) p\<rparr>"
      by (auto simp: put_columnar_inner_def Let_def col_rewound_def)
    with rewound [OF _ at] show thesis by blast
  next
    case Panic
    with put Ok ou ac have "\<not> is_ok r" "st' = st\<lparr>cs_pool := p\<rparr>"
      by (auto simp: put_columnar_inner_def Let_def)
    with leaked [OF _ at] show thesis by blast
  qed
next
  case (Err e)
  with put have "\<not> is_ok r" "st' = st" by (auto simp: put_columnar_inner_def)
  then show thesis by (rule refused)
next
  case Panic
  with put have "\<not> is_ok r" "st' = st" by (auto simp: put_columnar_inner_def)
  then show thesis by (rule refused)
qed

lemma col_invD:
  assumes "col_inv C st"
  shows col_inv_pool: "pool_inv (cs_pool st)" and col_inv_size: "sp_seg_size (cs_pool st) \<le> U32_MAX"
    and col_inv_covered: "idx_covered (table_read C) (cs_pool st) (col_tables C (cs_env st))"
    and col_inv_meta: "heed_view (cc_heed C) (cs_env st) COL_TABLE_DB tid = Some v \<Longrightarrow> cc_meta_from_slice C v \<noteq> None"
  using assms by (auto simp: col_inv_def)

text \<open>A change of the pool that keeps what it could read keeps the tables.\<close>

lemma col_pool_keeps:
  assumes inv: "col_inv C st" and p: "pool_inv p" "sp_seg_size p = sp_seg_size (cs_pool st)"
    and keep: "\<And>l b. pool_read (cs_pool st) l = Some b \<Longrightarrow> pool_read p l = Some b"
  shows "col_inv C (st\<lparr>cs_pool := p\<rparr>)" "col_abs C (st\<lparr>cs_pool := p\<rparr>) = col_abs C st"
proof -
  note tr = table_read_keep [OF keep]
  have cov: "idx_covered (table_read C) p (col_tables C (cs_env st))"
    using col_inv_covered [OF inv] tr by (fastforce simp: idx_covered_def)
  with p inv show "col_inv C (st\<lparr>cs_pool := p\<rparr>)"
    by (simp add: col_inv_def)
  have "(case col_tables C (cs_env st) k of None \<Rightarrow> None | Some m \<Rightarrow> table_read C p m) =
      (case col_tables C (cs_env st) k of None \<Rightarrow> None | Some m \<Rightarrow> table_read C (cs_pool st) m)" for k
    using col_inv_covered [OF inv] tr by (fastforce simp: idx_covered_def split: option.splits)
  then show "col_abs C (st\<lparr>cs_pool := p\<rparr>) = col_abs C st"
    by (simp add: col_abs_def idx_lookup_def)
qed

lemma put_columnar_inner_refines:
  assumes ctx: "col_ctx_ok C" and inv: "col_inv C st" and room: "col_room (cs_pool st) b"
    and put: "put_columnar_inner C st tid b = (r, st')"
  shows "col_inv C st' \<and> col_abs C st' = (if is_ok r then (col_abs C st)(tid \<mapsto> b) else col_abs C st)"
  using ctx put
proof (cases rule: put_columnar_inner_cases)
  case (stored m p h)
  note st = col_append_store [OF ctx] col_inv_pool [OF inv] room stored(2) col_inv_covered [OF inv]
  have "col_inv C st'"
    using inv append_table_laws(1,2) [OF ctx col_inv_pool [OF inv] room stored(2)]
      append_store.covered_update [OF st] ctx
    by (auto simp: col_inv_def stored(3,4,5) pool_later_def col_ctx_ok_def split: if_splits)
  moreover have "col_abs C st' = (col_abs C st)(tid \<mapsto> b)"
    using append_store.lookup_update [OF st] by (simp add: col_abs_def stored(3,4))
  ultimately show ?thesis by (simp add: stored(1))
next
  case refused
  with inv show ?thesis by simp
next
  case (leaked ra p)
  note laws = append_table_laws [OF ctx col_inv_pool [OF inv] room leaked(2)]
  have "sp_seg_size p = sp_seg_size (cs_pool st)" using laws(2) by (simp add: pool_later_def)
  from col_pool_keeps [OF inv laws(1) this laws(3)] leaked(1,3) show ?thesis by simp
next
  case (rewound ra p)
  note laws = append_table_laws [OF ctx col_inv_pool [OF inv] room rewound(2)]
  have "sp_active_cursor (cs_pool st) \<le> U32_MAX"
    using pool_inv_cursor [OF col_inv_pool [OF inv]] col_inv_size [OF inv] by linarith
  note keep = pool_rewind_keeps [OF col_inv_pool [OF inv] laws(1,2,3) _ this]
  have sz: "sp_seg_size (col_rewound (cs_pool st) p) = sp_seg_size (cs_pool st)"
    using laws(2) by (simp add: pool_later_def col_rewound_def pool_rewind_inv)
  have inv': "pool_inv (col_rewound (cs_pool st) p)"
    using laws(1) by (simp add: col_rewound_def pool_rewind_inv)
  from col_pool_keeps [OF inv inv' sz] keep rewound(1,3) show ?thesis
    by (simp add: col_rewound_def)
qed

section \<open>Reading\<close>

definition project :: "bytes list \<Rightarrow> record_batch \<Rightarrow> record_batch option" where
  "project columns b =
     (let cs = filter (\<lambda>c. columns = [] \<or> bc_name c \<in> set columns) (rb_columns b)
      in if cs = [] then None else Some (b\<lparr>rb_columns := cs\<rparr>))"

lemma sealed_handle_size: "sealed_handle p s = (r, p') \<Longrightarrow> sp_seg_size p' = sp_seg_size p"
  by (auto simp: sealed_handle_def Let_def split: option.splits)

text \<open>The mapped column is the array the locator reads.\<close>

lemma col_read_mapped:
  assumes inv: "pool_inv p" and rd: "col_read C n p m = Some c"
  obtains h p1 where "sealed_handle p (cl_seg_id m) = (Ok h, p1)"
    "build_primitive_array (cc_unpack C) (sp_data_dir p1) (cl_dtype m) h (unat (cl_offset m)) (unat (cl_len m)) n
       = Ok (bc_array c)"
    "c = \<lparr>bc_name = cl_name m, bc_type = to_arrow (cl_dtype m), bc_null_count = 0, bc_array = bc_array c\<rparr>"
    "pool_inv p1" "\<And>l. pool_read p1 l = pool_read p l" "sp_seg_size p1 = sp_seg_size p"
proof -
  obtain bs where bs: "pool_read p (col_loc m) = Some bs"
    and ta: "typed_array (cc_unpack C) (cl_dtype m) (unat (cl_offset m)) bs n = Ok (bc_array c)"
    and c: "c = \<lparr>bc_name = cl_name m, bc_type = to_arrow (cl_dtype m), bc_null_count = 0, bc_array = bc_array c\<rparr>"
    using rd by (auto simp: col_read_def split: option.splits res.splits)
  obtain h p1 z where h: "sealed_handle p (cl_seg_id m) = (Ok h, p1)"
    and z: "zero_copy_buffer_new h (unat (cl_offset m)) (unat (cl_len m)) = Ok z"
    and p1: "buffer_of p1 (col_loc m) z" "pool_inv p1" "pool_read p1 (col_loc m) = Some bs"
    by (rule pool_read_buffer [OF inv bs]) (simp add: col_loc_def)
  have "slice (mmap_as_bytes (sp_data_dir p1) h) (unat (cl_offset m)) (unat (cl_len m)) = bs"
    using buffer_of_reads [OF p1(1,3)] z by (auto simp: buffer_as_bytes_def zero_copy_buffer_new_Ok)
  with ta have "build_primitive_array (cc_unpack C) (sp_data_dir p1) (cl_dtype m) h
      (unat (cl_offset m)) (unat (cl_len m)) n = Ok (bc_array c)"
    by (simp add: build_primitive_array_def)
  from that [OF h this c p1(2)] pool_read_cong [OF sealed_handle_frame [OF h]] sealed_handle_size [OF h]
  show thesis by simp
qed

lemma read_columns_correct:
  assumes "pool_inv p" "those (map (col_read C n p) ms) = Some cs"
  shows "\<exists>p'. read_columns C columns n p ms =
      (Ok (filter (\<lambda>c. columns = [] \<or> bc_name c \<in> set columns) cs), p') \<and>
    pool_inv p' \<and> (\<forall>l. pool_read p' l = pool_read p l) \<and> sp_seg_size p' = sp_seg_size p"
  using assms
proof (induction ms arbitrary: p cs)
  case Nil
  then show ?case by simp
next
  case (Cons m ms)
  then obtain c cs' where c: "col_read C n p m = Some c" and cs: "those (map (col_read C n p) ms) = Some cs'"
    "cs = c # cs'"
    by (auto split: option.splits)
  from c have name: "bc_name c = cl_name m"
    by (auto simp: col_read_def split: option.splits res.splits)
  show ?case
  proof (cases "selected columns m")
    case False
    with Cons.IH [OF Cons.prems(1) cs(1)] cs(2) name show ?thesis
      by (simp add: selected_def)
  next
    case True
    obtain h p1 where h: "sealed_handle p (cl_seg_id m) = (Ok h, p1)"
      "build_primitive_array (cc_unpack C) (sp_data_dir p1) (cl_dtype m) h (unat (cl_offset m)) (unat (cl_len m)) n
         = Ok (bc_array c)"
      "c = \<lparr>bc_name = cl_name m, bc_type = to_arrow (cl_dtype m), bc_null_count = 0, bc_array = bc_array c\<rparr>"
      and p1: "pool_inv p1" "\<And>l. pool_read p1 l = pool_read p l" "sp_seg_size p1 = sp_seg_size p"
      by (rule col_read_mapped [OF Cons.prems(1) c]) blast
    have "those (map (col_read C n p1) ms) = Some cs'"
      by (rule those_map_keep [OF col_read_keep cs(1)]) (simp add: p1)
    with Cons.IH [OF p1(1)] obtain p' where
      p': "read_columns C columns n p1 ms = (Ok (filter (\<lambda>c. columns = [] \<or> bc_name c \<in> set columns) cs'), p')"
        "pool_inv p'" "\<forall>l. pool_read p' l = pool_read p1 l" "sp_seg_size p' = sp_seg_size p1"
      by blast
    with True h(1,2) h(3) [symmetric] cs(2) name p1 show ?thesis
      by (simp add: selected_def)
  qed
qed

lemma get_columnar_reads:
  assumes inv: "col_inv C st" and get: "get_columnar_zero_copy C st tid columns = (r, st')"
  shows "col_inv C st' \<and> col_abs C st' = col_abs C st \<and>
    ((\<exists>e. r = Err (Heed e)) \<or>
     r = Ok (case col_abs C st tid of None \<Rightarrow> None | Some b \<Rightarrow> project columns b))"
proof (cases "\<exists>u v. hd_read_txn (cc_heed C) (cs_env st) = HOk u \<and>
    hd_get (cc_heed C) (cs_env st) COL_TABLE_DB tid = HOk (Some v)")
  case True
  then obtain v where txn: "hd_read_txn (cc_heed C) (cs_env st) = HOk ()"
    and v: "hd_get (cc_heed C) (cs_env st) COL_TABLE_DB tid = HOk (Some v)"
    by auto
  then have view: "heed_view (cc_heed C) (cs_env st) COL_TABLE_DB tid = Some v"
    by (simp add: heed_view_Some)
  with col_inv_meta [OF inv] obtain m where m: "cc_meta_from_slice C v = Some m" by blast
  then have tab: "col_tables C (cs_env st) tid = Some m" by (simp add: col_tables_def view)
  with col_inv_covered [OF inv] obtain cs where
    cs: "those (map (col_read C (tm_row_count m) (cs_pool st)) (tm_columns m)) = Some cs"
    by (fastforce simp: idx_covered_def table_read_def)
  obtain p' where p': "read_columns C columns (tm_row_count m) (cs_pool st) (tm_columns m) =
      (Ok (filter (\<lambda>c. columns = [] \<or> bc_name c \<in> set columns) cs), p')"
    "pool_inv p'" "\<forall>l. pool_read p' l = pool_read (cs_pool st) l" "sp_seg_size p' = sp_seg_size (cs_pool st)"
    using read_columns_correct [OF col_inv_pool [OF inv] cs] by blast
  have "col_abs C st tid = Some \<lparr>rb_num_rows = tm_row_count m, rb_columns = cs\<rparr>"
    by (simp add: col_abs_def idx_lookup_def tab table_read_def cs)
  then have "r = Ok (case col_abs C st tid of None \<Rightarrow> None | Some b \<Rightarrow> project columns b)"
    and st': "st' = st\<lparr>cs_pool := p'\<rparr>"
    using get by (auto simp: get_columnar_zero_copy_def txn v m p'(1) project_def Let_def)
  with col_pool_keeps [OF inv p'(2,4)] p'(3) show ?thesis by simp
next
  case False
  have "st' = st \<and> ((\<exists>e. r = Err (Heed e)) \<or> r = Ok None \<and> col_tables C (cs_env st) tid = None)"
    using False get
    by (cases "hd_read_txn (cc_heed C) (cs_env st)"; cases "hd_get (cc_heed C) (cs_env st) COL_TABLE_DB tid")
      (auto simp: get_columnar_zero_copy_def col_tables_def heed_view_def split: option.splits)
  with inv show ?thesis
    by (auto simp: col_abs_def idx_lookup_def)
qed

lemma col_open_inv:
  assumes ctx: "col_ctx_ok C" and empty: "heed_view (cc_heed C) env COL_TABLE_DB = Map.empty"
    and pool: "pool_inv (pool_open d n)" "sp_seg_size (pool_open d n) \<le> U32_MAX"
    and op: "col_open C env d n q = Ok st"
  shows "col_inv C st \<and> col_abs C st = Map.empty"
proof -
  have laws: "heed_laws (cc_heed C)" using ctx by (simp add: col_ctx_ok_def)
  obtain h1 h2 h3 where h: "hd_create (cc_heed C) env COL_TABLE_DB = HOk h1"
    "hd_create (cc_heed C) h1 COL_QUOTA_DB = HOk h2" "hd_commit (cc_heed C) h2 = HOk h3"
    and st: "st = \<lparr>cs_env = h3, cs_pool = pool_open d n, cs_quota_limit = q\<rparr>"
    using op by (auto simp: col_open_def)
  have "heed_view (cc_heed C) h3 COL_TABLE_DB = Map.empty"
    using empty by (simp add: heed_commit_view [OF laws h(3)] heed_create_view [OF laws h(2)]
        heed_create_view [OF laws h(1)])
  with pool show ?thesis
    by (simp add: st col_inv_def col_abs_def idx_covered_def idx_lookup_def col_tables_def fun_eq_iff)
qed

section \<open>An instance of the parameters\<close>

text \<open>A self-delimiting code of table descriptions and one byte per Boolean.\<close>

definition enc_nat :: "nat \<Rightarrow> bytes" where
  "enc_nat n = replicate n 1 @ [0]"

definition dec_nat :: "bytes \<Rightarrow> nat \<times> bytes" where
  "dec_nat bs = (length (takeWhile (\<lambda>b. b \<noteq> 0) bs), drop 1 (dropWhile (\<lambda>b. b \<noteq> 0) bs))"

fun dtype_code :: "col_type \<Rightarrow> u8" where
  "dtype_code Int32 = 0"
| "dtype_code Int64 = 1"
| "dtype_code Float32 = 2"
| "dtype_code Float64 = 3"
| "dtype_code Boolean = 4"

definition code_dtype :: "u8 \<Rightarrow> col_type" where
  "code_dtype b = (if b = 0 then Int32 else if b = 1 then Int64 else if b = 2 then Float32
     else if b = 3 then Float64 else Boolean)"

definition enc_col :: "column_meta \<Rightarrow> bytes" where
  "enc_col m = enc_nat (length (cl_name m)) @ cl_name m @ dtype_code (cl_dtype m) # binencode (col_loc m)"

definition dec_col :: "bytes \<Rightarrow> column_meta \<times> bytes" where
  "dec_col bs =
     (let (n, b1) = dec_nat bs; b2 = drop n b1
      in (\<lparr>cl_name = take n b1, cl_dtype = code_dtype (b2 ! 0), cl_seg_id = u32_from_le (slice b2 1 4),
           cl_offset = u32_from_le (slice b2 5 4), cl_len = u32_from_le (slice b2 9 4)\<rparr>, drop 13 b2))"

fun dec_cols :: "nat \<Rightarrow> bytes \<Rightarrow> column_meta list" where
  "dec_cols 0 bs = []"
| "dec_cols (Suc n) bs = (let (m, rest) = dec_col bs in m # dec_cols n rest)"

definition enc_table :: "table_meta \<Rightarrow> bytes" where
  "enc_table t = enc_nat (tm_row_count t) @ enc_nat (length (tm_columns t)) @ concat (map enc_col (tm_columns t))"

definition dec_table :: "bytes \<Rightarrow> table_meta option" where
  "dec_table bs =
     (let (n, b1) = dec_nat bs; (k, b2) = dec_nat b1
      in Some \<lparr>tm_row_count = n, tm_columns = dec_cols k b2\<rparr>)"

definition toy_col_ctx :: "mem_db col_ctx" where
  "toy_col_ctx = \<lparr>cc_heed = mem_heed, cc_meta_to_vec = enc_table, cc_meta_from_slice = dec_table,
     cc_pack = map (\<lambda>b. if b then 1 else 0), cc_unpack = (\<lambda>bs n. map (\<lambda>w. w \<noteq> 0) (take n bs))\<rparr>"

lemma dec_enc_nat [simp]: "dec_nat (enc_nat n @ bs) = (n, bs)"
proof -
  have "takeWhile (\<lambda>b. b \<noteq> 0) (replicate n (1 :: u8) @ 0 # bs) = replicate n 1"
    by (induction n) simp_all
  moreover have "dropWhile (\<lambda>b. b \<noteq> 0) (replicate n (1 :: u8) @ 0 # bs) = 0 # bs"
    by (induction n) simp_all
  ultimately show ?thesis by (simp add: dec_nat_def enc_nat_def)
qed

lemma code_dtype_code [simp]: "code_dtype (dtype_code t) = t"
  by (cases t) (simp_all add: code_dtype_def)

lemma dec_enc_col [simp]: "dec_col (enc_col m @ bs) = (m, bs)"
  by (cases m) (simp add: dec_col_def enc_col_def binencode_def col_loc_def slice_def)

lemma dec_enc_cols [simp]: "dec_cols (length ms) (concat (map enc_col ms)) = ms"
  by (induction ms) simp_all

lemma dec_enc_table: "dec_table (enc_table t) = Some t"
  by (simp add: dec_table_def enc_table_def)

lemma toy_col_ctx_ok: "col_ctx_ok toy_col_ctx"
  by (simp add: col_ctx_ok_def toy_col_ctx_def mem_heed_laws dec_enc_table o_def)

definition col_fresh :: "mem_db columnar_store" where
  "col_fresh = \<lparr>cs_env = [], cs_pool = pool_open fs_empty 16, cs_quota_limit = 0\<rparr>"

definition toy_batch :: record_batch where
  "toy_batch = \<lparr>rb_num_rows = 2, rb_columns =
     [\<lparr>bc_name = [97], bc_type = DtBoolean, bc_null_count = 0, bc_array = BooleanArray [True, False]\<rparr>,
      \<lparr>bc_name = [98], bc_type = DtInt64, bc_null_count = 0, bc_array = Int64Array [7, 9]\<rparr>]\<rparr>"

lemma col_fresh_open: "col_open toy_col_ctx [] fs_empty 16 0 = Ok col_fresh"
  by (simp add: col_open_def toy_col_ctx_def mem_heed_def col_fresh_def)

lemma col_fresh_inv: "col_inv toy_col_ctx col_fresh \<and> col_abs toy_col_ctx col_fresh = Map.empty"
proof (rule col_open_inv [OF toy_col_ctx_ok _ pool_inv_open_empty _ col_fresh_open])
  show "heed_view (cc_heed toy_col_ctx) [] COL_TABLE_DB = Map.empty"
    by (simp add: toy_col_ctx_def mem_heed_empty)
qed code_simp

definition col_one :: "mem_db columnar_store" where
  "col_one = snd (put_columnar toy_col_ctx free_lock col_fresh [1] toy_batch None)"

lemma col_one_put: "put_columnar toy_col_ctx free_lock col_fresh [1] toy_batch None = (Ok (), col_one)"
proof (rule prod_eqI)
  show "fst (put_columnar toy_col_ctx free_lock col_fresh [1] toy_batch None) = fst (Ok (), col_one)"
    unfolding fst_conv by code_simp
qed (simp add: col_one_def)

section \<open>Properties\<close>

lemma toy_batch_room: "col_room (cs_pool col_fresh) toy_batch"
  by code_simp

lemma put_columnar_cases:
  assumes "put_columnar C lk st tid b t = (r, st')"
  obtains (inner) "put_columnar_inner C st tid b = (r, st')" | (refused) "\<not> is_ok r" "st' = st"
proof (cases "col_acquire_write_lock lk t")
  case (Ok u)
  with assms inner show thesis by (simp add: put_columnar_def)
next
  case (Err e)
  with assms have "r = Err e" "st' = st" by (simp_all add: put_columnar_def)
  then show thesis by (intro refused) simp_all
next
  case Panic
  with assms have "r = Panic" "st' = st" by (simp_all add: put_columnar_def)
  then show thesis by (intro refused) simp_all
qed

text \<open>
  Columnar writes (C16).  Storing a record batch that Arrow admits (every column has the rows of the
  batch) refines the update of a map from table ids to batches: on success the table reads back as
  exactly the batch, whatever the segments its columns went to, and every other table reads as
  before; a write that fails for any reason leaves all tables as they were, also where the cursor was
  rewound over columns that were already appended.  The segment size has to fit \<open>u32\<close>.
\<close>

theorem put_columnar_refines:
  assumes "col_ctx_ok C" "col_inv C st" "col_room (cs_pool st) b"
    and put: "put_columnar C lk st tid b t = (r, st')"
  shows "col_inv C st' \<and> col_abs C st' = (if is_ok r then (col_abs C st)(tid \<mapsto> b) else col_abs C st)"
  using put
proof (cases rule: put_columnar_cases)
  case inner
  with put_columnar_inner_refines [OF assms(1-3)] show ?thesis by blast
qed (use assms(2) in simp)

theorem put_columnar_refines_witness:
  "col_inv toy_col_ctx col_one \<and> col_abs toy_col_ctx col_one = [[1] \<mapsto> toy_batch]"
  using put_columnar_refines [OF toy_col_ctx_ok conjunct1 [OF col_fresh_inv] toy_batch_room col_one_put]
  by (simp add: col_fresh_inv)

text \<open>
  Columnar reads (C32).  A read returns the projection of the stored batch to the requested columns
  (all of them for an empty request), \<open>None\<close> where the table is not there or no column is
  selected, or an error of \<open>heed\<close>; it never panics, and changes no table.
\<close>

theorem get_columnar_correct:
  assumes "col_inv C st" "get_columnar_zero_copy C st tid columns = (r, st')"
  shows "col_inv C st' \<and> col_abs C st' = col_abs C st \<and>
    ((\<exists>e. r = Err (Heed e)) \<or>
     r = Ok (case col_abs C st tid of None \<Rightarrow> None | Some b \<Rightarrow> project columns b))"
  by (rule get_columnar_reads [OF assms])

lemma col_one_inv: "col_inv toy_col_ctx col_one \<and> col_abs toy_col_ctx col_one = [[1] \<mapsto> toy_batch]"
proof -
  have "put_columnar_inner toy_col_ctx col_fresh [1] toy_batch = (Ok (), col_one)"
    using col_one_put by (rule put_columnar_cases) simp_all
  from put_columnar_inner_refines [OF toy_col_ctx_ok conjunct1 [OF col_fresh_inv] toy_batch_room this]
  show ?thesis by (simp add: col_fresh_inv)
qed

theorem get_columnar_correct_witness:
  "let (r, st') = get_columnar_zero_copy toy_col_ctx col_one [1] [[98]]
   in r = Ok (Some (toy_batch\<lparr>rb_columns := [rb_columns toy_batch ! 1]\<rparr>)) \<and>
      col_inv toy_col_ctx st' \<and> col_abs toy_col_ctx st' = [[1] \<mapsto> toy_batch]"
proof -
  obtain r st' where g: "get_columnar_zero_copy toy_col_ctx col_one [1] [[98]] = (r, st')"
    by (cases "get_columnar_zero_copy toy_col_ctx col_one [1] [[98]]")
  have "is_ok (fst (get_columnar_zero_copy toy_col_ctx col_one [1] [[98]]))" by code_simp
  with g have "\<not> (\<exists>e. r = Err (Heed e))" by auto
  with get_columnar_correct [OF conjunct1 [OF col_one_inv] g] show ?thesis
    by (auto simp: g col_one_inv project_def toy_batch_def)
qed

end
