(* ===== verification/Vec_Pool.thy ===== *)
theory Vec_Pool
  imports Segment
begin

text \<open>
  \<open>fs-core/src/vector/store.rs\<close>, first half: the append-only pool of vector segments with its
  cache of read-only mappings (\<open>HandleCache\<close>).  Every vector has the same dimension.  Unlike
  \<open>SegmentPool\<close> it always opens a new segment, keeps no cursor file, and its eviction stops at
  the first mapping that is in use.  \<open>held\<close> says of which cached mapping a reader holds a clone
  (\<open>Arc::strong_count > 1\<close>) and \<open>now\<close> is the monotonic clock in nanoseconds: both belong to the
  environment and are arguments.  A poisoned lock is a panic of another thread and is left out.

  The pool satisfies the interface \<open>append_store\<close> with vectors as payloads; both ways to read a
  locator give the vector that was appended.
\<close>

definition DEFAULT_VEC_SEGMENT_SIZE :: nat where
  "DEFAULT_VEC_SEGMENT_SIZE = 128 * 1024 * 1024"

definition VEC_SEALED_CACHE_CAP :: nat where
  "VEC_SEALED_CACHE_CAP = 64"

definition MIN_RECLAIM_SAFETY :: nat where
  "MIN_RECLAIM_SAFETY = 2000000000"

definition RECLAIM_SAFETY :: nat where
  "RECLAIM_SAFETY = MIN_RECLAIM_SAFETY"

section \<open>The cache of mappings\<close>

record handle_cache =
  hc_sealed :: "(u32 \<times> mmap_handle) list"
  hc_sealed_lru :: "u32 list"
  hc_sealed_time :: "(u32 \<times> nat) list"
  hc_active_read :: "mmap_handle option"

definition hc_new :: handle_cache where
  "hc_new = \<lparr>hc_sealed = [], hc_sealed_lru = [], hc_sealed_time = [], hc_active_read = None\<rparr>"

definition hc_touch :: "handle_cache \<Rightarrow> u32 \<Rightarrow> handle_cache" where
  "hc_touch hc seg =
     (if seg \<in> set (hc_sealed_lru hc)
      then hc\<lparr>hc_sealed_lru := remove1 seg (hc_sealed_lru hc) @ [seg]\<rparr> else hc)"

fun hc_evict_loop ::
  "(u32 \<Rightarrow> bool) \<Rightarrow> (u32 \<times> mmap_handle) list \<Rightarrow> u32 list \<Rightarrow> (u32 \<times> mmap_handle) list \<times> u32 list"
where
  "hc_evict_loop held sealed [] = (sealed, [])"
| "hc_evict_loop held sealed (c # rest) =
     (if length (c # rest) > VEC_SEALED_CACHE_CAP
      then (if evict_safe sealed held c
            then hc_evict_loop held (AList.delete c sealed) rest
            else (sealed, rest @ [c]))
      else (sealed, c # rest))"

definition hc_evict :: "(u32 \<Rightarrow> bool) \<Rightarrow> handle_cache \<Rightarrow> handle_cache" where
  "hc_evict held hc =
     (case hc_evict_loop held (hc_sealed hc) (hc_sealed_lru hc) of
        (s, l) \<Rightarrow> hc\<lparr>hc_sealed := s, hc_sealed_lru := l\<rparr>)"

definition hc_drop_sealed :: "handle_cache \<Rightarrow> u32 \<Rightarrow> handle_cache" where
  "hc_drop_sealed hc seg =
     hc\<lparr>hc_sealed := AList.delete seg (hc_sealed hc),
        hc_sealed_lru := remove1 seg (hc_sealed_lru hc),
        hc_sealed_time := AList.delete seg (hc_sealed_time hc)\<rparr>"

section \<open>The pool\<close>

record vec_segment_pool =
  vp_data_dir :: fs
  vp_seg_size :: nat
  vp_dim :: nat
  vp_active_id :: u32
  vp_active_ino :: nat
  vp_active_cursor :: nat
  vp_handles :: handle_cache

definition vec_segment_file :: "u32 \<Rightarrow> string" where
  "vec_segment_file i = seg_name ''vec_payload_'' i"

definition parse_vec_seg_id :: "string \<Rightarrow> u32 option" where
  "parse_vec_seg_id name = parse_seg_name ''vec_payload_'' name"

definition next_vec_seg_id :: "fs \<Rightarrow> u32" where
  "next_vec_seg_id d = next_seg_of ''vec_payload_'' d"

definition open_or_create_vec_segment :: "fs \<Rightarrow> string \<Rightarrow> nat \<Rightarrow> nat \<times> fs" where
  "open_or_create_vec_segment d name sz = open_or_create_sized d name sz"

definition vec_pool_open :: "fs \<Rightarrow> nat \<Rightarrow> nat \<Rightarrow> vec_segment_pool" where
  "vec_pool_open d seg_size dim =
     (let sz = (if seg_size = 0 then DEFAULT_VEC_SEGMENT_SIZE else seg_size);
          aid = next_vec_seg_id d;
          (ino, d') = open_or_create_vec_segment d (vec_segment_file aid) sz
      in \<lparr>vp_data_dir = d', vp_seg_size = sz, vp_dim = dim, vp_active_id = aid,
          vp_active_ino = ino, vp_active_cursor = 0, vp_handles = hc_new\<rparr>)"

definition byte_len :: "vec_segment_pool \<Rightarrow> nat" where
  "byte_len p = vp_dim p * 4"

definition vec_remaining :: "vec_segment_pool \<Rightarrow> nat" where
  "vec_remaining p = vp_seg_size p - vp_active_cursor p"

definition vec_disk_bytes :: "vec_segment_pool \<Rightarrow> nat" where
  "vec_disk_bytes p = mmap_disk_bytes (vp_data_dir p)"

definition vec_seal_and_rotate ::
  "(u32 \<Rightarrow> bool) \<Rightarrow> nat \<Rightarrow> vec_segment_pool \<Rightarrow> vec_segment_pool" where
  "vec_seal_and_rotate held now p =
     (let sealed_id = vp_active_id p;
          h = seal (from_parts (vp_data_dir p) (vp_active_ino p));
          hc = vp_handles p;
          hc1 = hc_evict (held(sealed_id := False))
                  (hc\<lparr>hc_sealed := AList.update sealed_id h (hc_sealed hc),
                      hc_sealed_lru := hc_sealed_lru hc @ [sealed_id],
                      hc_sealed_time := AList.update sealed_id now (hc_sealed_time hc)\<rparr>);
          new_id = sealed_id + 1;
          (ino, d') = open_or_create_vec_segment (vp_data_dir p) (vec_segment_file new_id) (vp_seg_size p)
      in p\<lparr>vp_handles := hc1\<lparr>hc_active_read := None\<rparr>, vp_data_dir := d', vp_active_id := new_id,
           vp_active_ino := ino, vp_active_cursor := 0\<rparr>)"

text \<open>
  \<open>copy_from_slice\<close> panics if the lengths differ, the slice of the mapping if it is out of range.
\<close>

definition vec_append ::
  "(u32 \<Rightarrow> bool) \<Rightarrow> nat \<Rightarrow> vec_segment_pool \<Rightarrow> f32 list \<Rightarrow> value_locator res \<times> vec_segment_pool" where
  "vec_append held now p vector =
     (let need = byte_len p;
          p1 = (if need > vec_remaining p then vec_seal_and_rotate held now p else p);
          cur = vp_active_cursor p1;
          bs = f32s_to_bytes vector;
          stop = cur + need;
          old = fs_data (vp_data_dir p1) (vp_active_ino p1)
      in if stop > length old \<or> length bs \<noteq> need then (Panic, p1)
         else (Ok \<lparr>vl_seg_id = vp_active_id p1, vl_offset = word_of_nat cur, vl_len = word_of_nat need\<rparr>,
               p1\<lparr>vp_data_dir := fs_put (vp_data_dir p1) (vp_active_ino p1) (splice old cur bs),
                  vp_active_cursor := stop\<rparr>))"

definition active_handle :: "vec_segment_pool \<Rightarrow> mmap_handle \<times> vec_segment_pool" where
  "active_handle p =
     (case hc_active_read (vp_handles p) of
        Some h \<Rightarrow> (h, p)
      | None \<Rightarrow>
          (let h = from_parts (vp_data_dir p) (vp_active_ino p)
           in (h, p\<lparr>vp_handles := (vp_handles p)\<lparr>hc_active_read := Some h\<rparr>\<rparr>)))"

text \<open>
  The fast path under the read lock finds a cached mapping, so the second look-up and its
  \<open>touch\<close> are for a mapping that another thread adds in between; one call alone never takes it.
\<close>

definition vec_sealed_handle ::
  "(u32 \<Rightarrow> bool) \<Rightarrow> vec_segment_pool \<Rightarrow> u32 \<Rightarrow> mmap_handle res \<times> vec_segment_pool" where
  "vec_sealed_handle held p seg =
     (case map_of (hc_sealed (vp_handles p)) seg of
        Some h \<Rightarrow> (Ok h, p)
      | None \<Rightarrow>
          (case fs_inode (vp_data_dir p) (vec_segment_file seg) of
             None \<Rightarrow> (Err (Corrupt ''sealed vec segment missing''), p)
           | Some i \<Rightarrow>
               (let h = seal (from_parts (vp_data_dir p) i);
                    hc = vp_handles p
                in (Ok h, p\<lparr>vp_handles := hc_evict (held(seg := True))
                     (hc\<lparr>hc_sealed := AList.update seg h (hc_sealed hc),
                         hc_sealed_lru := hc_sealed_lru hc @ [seg]\<rparr>)\<rparr>))))"

text \<open>\<open>bytemuck::cast_slice\<close> to \<open>f32\<close> panics on a misaligned or ragged slice; mappings start at a page.\<close>

definition cast_f32 :: "bytes \<Rightarrow> nat \<Rightarrow> nat \<Rightarrow> f32 list res" where
  "cast_f32 bs start stop =
     (if start > stop \<or> stop > length bs \<or> start mod 4 \<noteq> 0 \<or> (stop - start) mod 4 \<noteq> 0 then Panic
      else Ok (bytes_to_f32s (slice bs start (stop - start))))"

definition read_vec ::
  "(u32 \<Rightarrow> bool) \<Rightarrow> vec_segment_pool \<Rightarrow> value_locator \<Rightarrow> f32 list res \<times> vec_segment_pool" where
  "read_vec held p loc =
     (if vl_seg_id loc = vp_active_id p
      then (cast_f32 (fs_data (vp_data_dir p) (vp_active_ino p)) (unat (vl_offset loc))
              (unat (vl_offset loc) + byte_len p), p)
      else (case vec_sealed_handle held p (vl_seg_id loc) of
              (r, p1) \<Rightarrow>
                (res_bind r (\<lambda>h. cast_f32 (mmap_as_bytes (vp_data_dir p) h) (unat (vl_offset loc))
                   (unat (vl_offset loc + vl_len loc))), p1)))"

definition vec_slice ::
  "(u32 \<Rightarrow> bool) \<Rightarrow> vec_segment_pool \<Rightarrow> value_locator \<Rightarrow> zero_copy_vec res \<times> vec_segment_pool" where
  "vec_slice held p loc =
     (let n = unat (vl_len loc) div 4;
          off = unat (vl_offset loc)
      in if vl_seg_id loc = vp_active_id p
         then (case active_handle p of (h, p1) \<Rightarrow> (zero_copy_vec_new h off n, p1))
         else (case vec_sealed_handle held p (vl_seg_id loc) of
                 (r, p1) \<Rightarrow> (res_bind r (\<lambda>h. zero_copy_vec_new h off n), p1)))"

definition all_seg_ids :: "vec_segment_pool \<Rightarrow> u32 list" where
  "all_seg_ids p = map fst (hc_sealed (vp_handles p)) @ [vp_active_id p]"

definition reclaim_safe :: "(u32 \<Rightarrow> bool) \<Rightarrow> nat \<Rightarrow> vec_segment_pool \<Rightarrow> u32 \<Rightarrow> bool" where
  "reclaim_safe held now p seg =
     (case map_of (hc_sealed (vp_handles p)) seg of
        None \<Rightarrow> True
      | Some h \<Rightarrow>
          \<not> held seg \<or>
          (case map_of (hc_sealed_time (vp_handles p)) seg of
             None \<Rightarrow> True
           | Some t \<Rightarrow> now - t \<ge> RECLAIM_SAFETY))"

definition drop_sealed :: "vec_segment_pool \<Rightarrow> u32 \<Rightarrow> vec_segment_pool" where
  "drop_sealed p seg = p\<lparr>vp_handles := hc_drop_sealed (vp_handles p) seg\<rparr>"

text \<open>\<open>statvfs\<close> answers the free blocks and the block size, or fails.\<close>

definition ensure_disk_available :: "(u64 \<times> u64) option \<Rightarrow> u64 \<Rightarrow> unit res" where
  "ensure_disk_available statv needed =
     (case statv of
        None \<Rightarrow> Ok ()
      | Some (bavail, frsize) \<Rightarrow> if bavail * frsize < needed then Err Io else Ok ())"

section \<open>Invariant and reading by locator\<close>

definition vec_pool_inv :: "vec_segment_pool \<Rightarrow> bool" where
  "vec_pool_inv p \<longleftrightarrow>
     fs_ok (vp_data_dir p) \<and>
     fs_inode (vp_data_dir p) (vec_segment_file (vp_active_id p)) = Some (vp_active_ino p) \<and>
     vp_active_cursor p \<le> vp_seg_size p \<and> vp_active_cursor p mod 4 = 0 \<and>
     vp_seg_size p \<le> U32_MAX \<and>
     vp_seg_size p \<le> length (fs_data (vp_data_dir p) (vp_active_ino p)) \<and>
     (\<forall>s. fs_exists (vp_data_dir p) (vec_segment_file s) \<longrightarrow> s \<le> vp_active_id p) \<and>
     (\<forall>s h. map_of (hc_sealed (vp_handles p)) s = Some h \<longrightarrow>
        fs_inode (vp_data_dir p) (vec_segment_file s) = Some (mh_ino h) \<and>
        mh_len h = length (fs_data (vp_data_dir p) (mh_ino h))) \<and>
     (\<forall>h. hc_active_read (vp_handles p) = Some h \<longrightarrow>
        mh_ino h = vp_active_ino p \<and> mh_len h = length (fs_data (vp_data_dir p) (vp_active_ino p)))"

definition vec_room :: "vec_segment_pool \<Rightarrow> bool" where
  "vec_room p \<longleftrightarrow> vp_active_id p + 1 \<noteq> 0"

definition vec_read :: "vec_segment_pool \<Rightarrow> value_locator \<Rightarrow> f32 list option" where
  "vec_read p l =
     (case fs_inode (vp_data_dir p) (vec_segment_file (vl_seg_id l)) of
        None \<Rightarrow> None
      | Some i \<Rightarrow>
          (let hi = (if vl_seg_id l = vp_active_id p then vp_active_cursor p
                     else length (fs_data (vp_data_dir p) i))
           in if unat (vl_offset l) mod 4 = 0 \<and> unat (vl_len l) = byte_len p \<and>
                 unat (vl_offset l) + unat (vl_len l) \<le> min hi U32_MAX
              then Some (bytes_to_f32s (slice (fs_data (vp_data_dir p) i)
                     (unat (vl_offset l)) (unat (vl_len l))))
              else None))"

lemma vec_pool_invD:
  assumes "vec_pool_inv p"
  shows vec_inv_fs_ok: "fs_ok (vp_data_dir p)"
    and vec_inv_active: "fs_inode (vp_data_dir p) (vec_segment_file (vp_active_id p)) = Some (vp_active_ino p)"
    and vec_inv_cursor: "vp_active_cursor p \<le> vp_seg_size p" "vp_active_cursor p mod 4 = 0"
    and vec_inv_size: "vp_seg_size p \<le> U32_MAX"
      "vp_seg_size p \<le> length (fs_data (vp_data_dir p) (vp_active_ino p))"
    and vec_inv_top: "fs_inode (vp_data_dir p) (vec_segment_file s) = Some i \<Longrightarrow> s \<le> vp_active_id p"
    and vec_inv_cache: "map_of (hc_sealed (vp_handles p)) s = Some h \<Longrightarrow>
        fs_inode (vp_data_dir p) (vec_segment_file s) = Some (mh_ino h) \<and>
        mh_len h = length (fs_data (vp_data_dir p) (mh_ino h))"
    and vec_inv_active_read: "hc_active_read (vp_handles p) = Some h' \<Longrightarrow>
        mh_ino h' = vp_active_ino p \<and> mh_len h' = length (fs_data (vp_data_dir p) (vp_active_ino p))"
  using assms by (auto simp: vec_pool_inv_def fs_exists_def)

lemma vec_segment_file_inj [simp]: "vec_segment_file i = vec_segment_file j \<longleftrightarrow> i = j"
  by (simp add: vec_segment_file_def)

lemma byte_len_cong: "vp_dim p' = vp_dim p \<Longrightarrow> byte_len p' = byte_len p"
  by (simp add: byte_len_def)

lemma hc_evict_loop_sub:
  "map_of (fst (hc_evict_loop held s l)) c = Some h \<Longrightarrow> map_of s c = Some h"
  by (induction held s l rule: hc_evict_loop.induct) (auto split: if_splits)

lemma hc_evict_sub: "map_of (hc_sealed (hc_evict held hc)) c = Some h \<Longrightarrow> map_of (hc_sealed hc) c = Some h"
  using hc_evict_loop_sub [of held "hc_sealed hc" "hc_sealed_lru hc" c h]
  by (simp add: hc_evict_def split: prod.splits)

lemma hc_evict_frame [simp]:
  "hc_active_read (hc_evict held hc) = hc_active_read hc"
  "hc_sealed_time (hc_evict held hc) = hc_sealed_time hc"
  by (simp_all add: hc_evict_def split: prod.split)

text \<open>The invariant only asks the cache to hold mappings of segment files.\<close>

lemma vec_pool_inv_handles:
  assumes "vec_pool_inv p"
    and "\<And>s h. map_of (hc_sealed hc) s = Some h \<Longrightarrow>
        fs_inode (vp_data_dir p) (vec_segment_file s) = Some (mh_ino h) \<and>
        mh_len h = length (fs_data (vp_data_dir p) (mh_ino h))"
    and "\<And>h. hc_active_read hc = Some h \<Longrightarrow>
        mh_ino h = vp_active_ino p \<and> mh_len h = length (fs_data (vp_data_dir p) (vp_active_ino p))"
  shows "vec_pool_inv (p\<lparr>vp_handles := hc\<rparr>)"
  using assms by (auto simp: vec_pool_inv_def)

lemma vec_read_handles [simp]: "vec_read (p\<lparr>vp_handles := hc\<rparr>) l = vec_read p l"
  by (simp add: vec_read_def byte_len_def Let_def split: option.split)

section \<open>Rotation\<close>

lemma vec_rotate_eq:
  obtains i d' where
      "open_or_create_sized (vp_data_dir p) (vec_segment_file (vp_active_id p + 1)) (vp_seg_size p) = (i, d')"
    and "vp_data_dir (vec_seal_and_rotate held now p) = d'" "vp_active_ino (vec_seal_and_rotate held now p) = i"
    and "vp_active_id (vec_seal_and_rotate held now p) = vp_active_id p + 1"
    and "vp_active_cursor (vec_seal_and_rotate held now p) = 0"
    and "vp_seg_size (vec_seal_and_rotate held now p) = vp_seg_size p"
    and "vp_dim (vec_seal_and_rotate held now p) = vp_dim p"
    and "hc_active_read (vp_handles (vec_seal_and_rotate held now p)) = None"
    and "\<And>s h. map_of (hc_sealed (vp_handles (vec_seal_and_rotate held now p))) s = Some h \<Longrightarrow>
           ((map_of (hc_sealed (vp_handles p)))
              (vp_active_id p \<mapsto> seal (from_parts (vp_data_dir p) (vp_active_ino p)))) s = Some h"
proof (cases "open_or_create_sized (vp_data_dir p) (vec_segment_file (vp_active_id p + 1)) (vp_seg_size p)")
  case (Pair i d')
  show ?thesis
    by (rule that [OF Pair])
      (use Pair in \<open>auto simp: vec_seal_and_rotate_def open_or_create_vec_segment_def Let_def
          dest!: hc_evict_sub simp del: fun_upd_apply\<close>)
qed

lemma vec_rotate_fresh:
  assumes inv: "vec_pool_inv p" and room: "vec_room p"
  shows "fs_inode (vp_data_dir p) (vec_segment_file (vp_active_id p + 1)) = None"
    and "fs_inode (vp_data_dir p) (vec_segment_file s) = Some j \<Longrightarrow> s \<noteq> vp_active_id p + 1"
proof -
  have lt: "vp_active_id p < vp_active_id p + 1"
    using room by (simp add: vec_room_def word_less_succ)
  show ne: "s \<noteq> vp_active_id p + 1" if "fs_inode (vp_data_dir p) (vec_segment_file s) = Some j" for s j
    using vec_inv_top [OF inv that] lt by auto
  show "fs_inode (vp_data_dir p) (vec_segment_file (vp_active_id p + 1)) = None"
    using ne by (cases "fs_inode (vp_data_dir p) (vec_segment_file (vp_active_id p + 1))") auto
qed

lemma vec_rotate_keeps:
  assumes inv: "vec_pool_inv p" and room: "vec_room p"
  shows vec_pool_inv_rotate: "vec_pool_inv (vec_seal_and_rotate held now p)"
    and vec_rotated_length: "length (fs_data (vp_data_dir (vec_seal_and_rotate held now p))
          (vp_active_ino (vec_seal_and_rotate held now p))) = vp_seg_size p"
    and vec_read_rotate: "vec_read p l = Some b \<Longrightarrow> vec_read (vec_seal_and_rotate held now p) l = Some b"
proof (rule_tac [!] vec_rotate_eq [of p held now])
  let ?q = "vec_seal_and_rotate held now p"
  let ?new = "vec_segment_file (vp_active_id p + 1)"
  fix i d'
  assume oc: "open_or_create_sized (vp_data_dir p) ?new (vp_seg_size p) = (i, d')"
    and eq: "vp_data_dir ?q = d'" "vp_active_ino ?q = i" "vp_active_id ?q = vp_active_id p + 1"
      "vp_active_cursor ?q = 0" "vp_seg_size ?q = vp_seg_size p" "vp_dim ?q = vp_dim p"
      "hc_active_read (vp_handles ?q) = None"
    and cache: "\<And>s h. map_of (hc_sealed (vp_handles ?q)) s = Some h \<Longrightarrow>
           ((map_of (hc_sealed (vp_handles p)))
              (vp_active_id p \<mapsto> seal (from_parts (vp_data_dir p) (vp_active_ino p)))) s = Some h"
  note spec = open_or_create_sized_spec [OF vec_inv_fs_ok [OF inv] oc]
  note fresh = vec_rotate_fresh [OF inv room]
  have data: "fs_data d' j = fs_data (vp_data_dir p) j" "fs_inode d' (vec_segment_file s) = Some j"
    if "fs_inode (vp_data_dir p) (vec_segment_file s) = Some j" for s j
    using spec(5) [OF that] spec(6) [OF _ that] fresh(2) [OF that] by simp_all
  have top: "s \<le> vp_active_id p + 1" if ex: "fs_exists d' (vec_segment_file s)" for s
  proof (cases "s = vp_active_id p + 1")
    case False
    then obtain j where "fs_inode (vp_data_dir p) (vec_segment_file s) = Some j"
      using spec(4) [of "vec_segment_file s"] ex by (auto simp: fs_exists_def)
    from vec_inv_top [OF inv this] word_less_succ [of "vp_active_id p"] room show ?thesis
      by (simp add: vec_room_def)
  qed simp
  have mapped: "fs_inode d' (vec_segment_file s) = Some (mh_ino h) \<and> mh_len h = length (fs_data d' (mh_ino h))"
    if "map_of (hc_sealed (vp_handles ?q)) s = Some h" for s h
  proof -
    have "fs_inode (vp_data_dir p) (vec_segment_file s) = Some (mh_ino h) \<and>
        mh_len h = length (fs_data (vp_data_dir p) (mh_ino h))"
      using cache [OF that] vec_inv_active [OF inv] vec_inv_cache [OF inv]
      by (auto simp: seal_def from_parts_def split: if_splits)
    with data [of s "mh_ino h"] show ?thesis by simp
  qed
  show "vec_pool_inv ?q"
    unfolding vec_pool_inv_def eq using spec(1,2,3) top mapped vec_inv_size [OF inv] by simp
  show "length (fs_data (vp_data_dir ?q) (vp_active_ino ?q)) = vp_seg_size p"
    using open_or_create_sized_fresh [OF fresh(1) oc] by (simp add: eq)
  assume rd: "vec_read p l = Some b"
  obtain j where j: "fs_inode (vp_data_dir p) (vec_segment_file (vl_seg_id l)) = Some j"
    using rd by (auto simp: vec_read_def split: option.splits)
  have "vp_active_cursor p \<le> length (fs_data (vp_data_dir p) j)" if "vl_seg_id l = vp_active_id p"
    using that j vec_inv_active [OF inv] vec_inv_cursor(1) [OF inv] vec_inv_size(2) [OF inv] by simp
  with rd j fresh(2) [OF j] data [OF j]
  show "vec_read ?q l = Some b"
    by (auto simp: vec_read_def eq Let_def byte_len_def split: if_splits)
qed

section \<open>Appending\<close>

definition vec_target :: "(u32 \<Rightarrow> bool) \<Rightarrow> nat \<Rightarrow> vec_segment_pool \<Rightarrow> vec_segment_pool" where
  "vec_target held now p = (if byte_len p > vec_remaining p then vec_seal_and_rotate held now p else p)"

lemma vec_target_keeps:
  assumes "vec_pool_inv p" "vec_room p"
  shows "vec_pool_inv (vec_target held now p)"
    and "vec_read p l = Some b \<Longrightarrow> vec_read (vec_target held now p) l = Some b"
    and "vp_seg_size (vec_target held now p) = vp_seg_size p" "byte_len (vec_target held now p) = byte_len p"
  using assms
  by (auto simp: vec_target_def byte_len_def intro: vec_pool_inv_rotate vec_read_rotate vec_rotate_eq [of p held now])

lemma vec_target_fits:
  assumes inv: "vec_pool_inv p" and room: "vec_room p"
    and fit: "vp_active_cursor (vec_target held now p) + byte_len p
      \<le> length (fs_data (vp_data_dir (vec_target held now p)) (vp_active_ino (vec_target held now p)))"
  shows "vp_active_cursor (vec_target held now p) + byte_len p \<le> vp_seg_size p"
proof (cases "byte_len p > vec_remaining p")
  case True
  have "vp_active_cursor (vec_seal_and_rotate held now p) = 0" by (rule vec_rotate_eq [of p held now])
  with True fit vec_rotated_length [OF inv room, of held now] show ?thesis
    by (simp add: vec_target_def)
next
  case False
  with vec_inv_cursor(1) [OF inv] show ?thesis by (auto simp: vec_target_def vec_remaining_def)
qed

lemma vec_append_cases:
  assumes "vec_append held now p v = (r, p')"
  obtains
      (panicked) "r = Panic" "p' = vec_target held now p"
    | (written) l where "r = Ok l" "length v = vp_dim p"
        "vp_active_cursor (vec_target held now p) + byte_len p
           \<le> length (fs_data (vp_data_dir (vec_target held now p)) (vp_active_ino (vec_target held now p)))"
        "l = \<lparr>vl_seg_id = vp_active_id (vec_target held now p),
              vl_offset = word_of_nat (vp_active_cursor (vec_target held now p)),
              vl_len = word_of_nat (byte_len p)\<rparr>"
        "p' = (vec_target held now p)
           \<lparr>vp_data_dir := fs_put (vp_data_dir (vec_target held now p)) (vp_active_ino (vec_target held now p))
              (splice (fs_data (vp_data_dir (vec_target held now p)) (vp_active_ino (vec_target held now p)))
                 (vp_active_cursor (vec_target held now p)) (f32s_to_bytes v)),
            vp_active_cursor := vp_active_cursor (vec_target held now p) + byte_len p\<rparr>"
proof -
  let ?t = "vec_target held now p"
  let ?bad = "vp_active_cursor ?t + byte_len p > length (fs_data (vp_data_dir ?t) (vp_active_ino ?t))
    \<or> length (f32s_to_bytes v) \<noteq> byte_len p"
  note eq = assms [unfolded vec_append_def Let_def, folded vec_target_def]
  show ?thesis
  proof (cases ?bad)
    case True
    then show ?thesis using eq panicked by (simp only: if_True prod.inject)
  next
    case False
    then have "length v = vp_dim p" by (simp add: byte_len_def)
    from written [OF _ this _ refl] eq [unfolded if_not_P [OF False] prod.inject] False
    show ?thesis by (simp only: de_Morgan_disj not_less simp_thms)
  qed
qed

lemma vec_append_dim: "vec_append held now p v = (r, p') \<Longrightarrow> vp_dim p' = vp_dim p"
  by (erule vec_append_cases) (auto simp: vec_target_def intro: vec_rotate_eq [of p held now])

lemma vec_append_id:
  "vec_append held now p v = (r, p') \<Longrightarrow> vp_active_id p' = vp_active_id p \<or> vp_active_id p' = vp_active_id p + 1"
  by (erule vec_append_cases) (auto simp: vec_target_def intro: vec_rotate_eq [of p held now])

lemma vec_write_keeps:
  assumes inv: "vec_pool_inv p" and fit: "vp_active_cursor p + length bs \<le> vp_seg_size p"
    and four: "length bs mod 4 = 0"
    and p': "p' = p\<lparr>vp_data_dir := fs_put (vp_data_dir p) (vp_active_ino p)
              (splice (fs_data (vp_data_dir p) (vp_active_ino p)) (vp_active_cursor p) bs),
            vp_active_cursor := vp_active_cursor p + length bs\<rparr>"
  shows "vec_pool_inv p'"
    and "vec_read p l = Some b \<Longrightarrow> vec_read p' l = Some b"
proof -
  let ?i = "vp_active_ino p"
  have len: "vp_active_cursor p + length bs \<le> length (fs_data (vp_data_dir p) ?i)"
    using fit vec_inv_size(2) [OF inv] by simp
  have "(vp_active_cursor p + length bs) mod 4 = 0"
    using four vec_inv_cursor(2) [OF inv] by presburger
  then show "vec_pool_inv p'"
    using inv fit len by (auto simp: vec_pool_inv_def p' fs_exists_def)
  assume rd: "vec_read p l = Some b"
  then obtain j where j: "fs_inode (vp_data_dir p) (vec_segment_file (vl_seg_id l)) = Some j"
    by (auto simp: vec_read_def split: option.splits)
  show "vec_read p' l = Some b"
  proof (cases "vl_seg_id l = vp_active_id p")
    case True
    with j vec_inv_active [OF inv] have "j = ?i" by simp
    with True rd j len show ?thesis
      by (auto simp: vec_read_def p' slice_splice_before byte_len_def split: if_splits)
  next
    case False
    have "j \<noteq> ?i"
      using False j vec_inv_active [OF inv] fs_inode_inj [OF vec_inv_fs_ok [OF inv]]
      by (metis vec_segment_file_inj)
    with False rd j show ?thesis
      by (auto simp: vec_read_def p' byte_len_def split: if_splits)
  qed
qed

lemma vec_append_laws:
  assumes inv: "vec_pool_inv p" and room: "vec_room p" and app: "vec_append held now p v = (r, p')"
  shows vec_append_inv: "vec_pool_inv p'"
    and vec_append_keep: "vec_read p l0 = Some b \<Longrightarrow> vec_read p' l0 = Some b"
    and vec_append_read: "r = Ok l \<Longrightarrow> vec_read p' l = Some v"
proof -
  let ?t = "vec_target held now p"
  note t = vec_target_keeps [OF inv room, where held = held and now = now]
  have *: "vec_pool_inv p' \<and> (\<forall>l0 b. vec_read p l0 = Some b \<longrightarrow> vec_read p' l0 = Some b) \<and>
      (\<forall>l. r = Ok l \<longrightarrow> vec_read p' l = Some v)"
    using app
  proof (cases rule: vec_append_cases)
    case (written l)
    have lb: "byte_len p = length (f32s_to_bytes v)" using written(2) by (simp add: byte_len_def)
    have fit: "vp_active_cursor ?t + length (f32s_to_bytes v) \<le> vp_seg_size ?t"
      using vec_target_fits [OF inv room written(3)] t(3) lb by simp
    note w = vec_write_keeps [OF t(1) fit _ written(5) [unfolded lb]]
    have small: "vp_active_cursor ?t + 4 * length v \<le> U32_MAX"
      using fit vec_inv_size(1) [OF t(1)] by simp
    have "unat (word_of_nat (vp_dim p * 4) :: u32) = vp_dim p * 4"
      by (rule unat_u32_of_nat) (use small written(2) in simp)
    then have "vec_read p' l = Some v"
      using vec_inv_active [OF t(1)] vec_inv_cursor(2) [OF t(1)] written(2,3) t(4) small lb
        slice_splice_same [of "vp_active_cursor ?t" "fs_data (vp_data_dir ?t) (vp_active_ino ?t)" "f32s_to_bytes v"]
      by (simp add: vec_read_def written(4,5) unat_u32_of_nat byte_len_def mult.commute)
    with w t(2) written(1) show ?thesis by simp
  qed (use inv t in auto)
  show "vec_pool_inv p'" "vec_read p l0 = Some b \<Longrightarrow> vec_read p' l0 = Some b"
    "r = Ok l \<Longrightarrow> vec_read p' l = Some v"
    using * by blast+
qed

interpretation vseg: append_store vec_pool_inv "\<lambda>p v. vec_room p" "vec_append held now" vec_read
  for held now
  by unfold_locales (auto intro: vec_append_inv vec_append_keep vec_append_read)

section \<open>Reading\<close>

lemma vec_sealed_handle_keeps:
  assumes inv: "vec_pool_inv p" and sh: "vec_sealed_handle held p s = (r, p')"
  shows "vec_pool_inv p'" "\<exists>hc. p' = p\<lparr>vp_handles := hc\<rparr>"
proof -
  have self: "p = p\<lparr>vp_handles := vp_handles p\<rparr>" by simp
  have "vec_pool_inv p' \<and> (\<exists>hc. p' = p\<lparr>vp_handles := hc\<rparr>)"
  proof (cases "map_of (hc_sealed (vp_handles p)) s = None \<and> fs_inode (vp_data_dir p) (vec_segment_file s) \<noteq> None")
    case True
    then obtain i where i: "fs_inode (vp_data_dir p) (vec_segment_file s) = Some i" by auto
    let ?hc = "(vp_handles p)\<lparr>hc_sealed := AList.update s (seal (from_parts (vp_data_dir p) i)) (hc_sealed (vp_handles p)),
        hc_sealed_lru := hc_sealed_lru (vp_handles p) @ [s]\<rparr>"
    have p': "p' = p\<lparr>vp_handles := hc_evict (held(s := True)) ?hc\<rparr>"
      using True i sh by (auto simp: vec_sealed_handle_def Let_def)
    have "vec_pool_inv p'"
      unfolding p' by (rule vec_pool_inv_handles [OF inv])
        (use i vec_inv_cache [OF inv] vec_inv_active_read [OF inv]
          in \<open>auto simp: seal_def from_parts_def dest!: hc_evict_sub split: if_splits\<close>)
    with p' show ?thesis by blast
  next
    case False
    then have "p' = p" using sh by (auto simp: vec_sealed_handle_def split: option.splits)
    with inv self show ?thesis by metis
  qed
  then show "vec_pool_inv p'" "\<exists>hc. p' = p\<lparr>vp_handles := hc\<rparr>" by blast+
qed

lemma vec_sealed_handle_maps:
  assumes "vec_pool_inv p" "fs_inode (vp_data_dir p) (vec_segment_file s) = Some i"
  obtains h where "fst (vec_sealed_handle held p s) = Ok h" "mh_ino h = i"
    "mh_len h = length (fs_data (vp_data_dir p) i)"
proof (cases "map_of (hc_sealed (vp_handles p)) s")
  case (Some h)
  with vec_inv_cache [OF assms(1) Some] assms(2) show ?thesis
    by (intro that [of h]) (auto simp: vec_sealed_handle_def)
next
  case None
  with assms(2) show ?thesis
    by (intro that [of "seal (from_parts (vp_data_dir p) i)"])
      (auto simp: vec_sealed_handle_def Let_def seal_def from_parts_def)
qed

lemma active_handle_keeps:
  assumes inv: "vec_pool_inv p" and ah: "active_handle p = (h, p')"
  shows "vec_pool_inv p'" "\<exists>hc. p' = p\<lparr>vp_handles := hc\<rparr>"
    "mh_ino h = vp_active_ino p" "mh_len h = length (fs_data (vp_data_dir p) (vp_active_ino p))"
proof -
  have self: "p = p\<lparr>vp_handles := vp_handles p\<rparr>" by simp
  have "vec_pool_inv p' \<and> (\<exists>hc. p' = p\<lparr>vp_handles := hc\<rparr>) \<and> mh_ino h = vp_active_ino p \<and>
      mh_len h = length (fs_data (vp_data_dir p) (vp_active_ino p))"
  proof (cases "hc_active_read (vp_handles p)")
    case None
    then have p': "h = from_parts (vp_data_dir p) (vp_active_ino p)"
      "p' = p\<lparr>vp_handles := (vp_handles p)\<lparr>hc_active_read := Some h\<rparr>\<rparr>"
      using ah by (auto simp: active_handle_def Let_def)
    have "vec_pool_inv p'"
      unfolding p'(2) by (rule vec_pool_inv_handles [OF inv])
        (use vec_inv_cache [OF inv] in \<open>auto simp: p'(1) from_parts_def\<close>)
    with p' show ?thesis by (auto simp: from_parts_def)
  next
    case (Some h0)
    with ah have "h = h0" "p' = p" by (auto simp: active_handle_def)
    with inv self vec_inv_active_read [OF inv Some] show ?thesis by metis
  qed
  then show "vec_pool_inv p'" "\<exists>hc. p' = p\<lparr>vp_handles := hc\<rparr>"
    "mh_ino h = vp_active_ino p" "mh_len h = length (fs_data (vp_data_dir p) (vp_active_ino p))"
    by blast+
qed

text \<open>Neither way of reading changes anything but the cache, whatever its outcome.\<close>

lemma vec_slice_keeps:
  assumes inv: "vec_pool_inv p" and sl: "vec_slice held p l = (r, p')"
  shows "vec_pool_inv p'" "\<exists>hc. p' = p\<lparr>vp_handles := hc\<rparr>"
proof -
  have "p' = snd (active_handle p) \<or> p' = snd (vec_sealed_handle held p (vl_seg_id l))"
    using sl by (auto simp: vec_slice_def Let_def split: if_splits prod.splits)
  then show "vec_pool_inv p'" "\<exists>hc. p' = p\<lparr>vp_handles := hc\<rparr>"
    using active_handle_keeps(1,2) [OF inv] vec_sealed_handle_keeps [OF inv] by (metis prod.collapse)+
qed

lemma read_vec_keeps:
  assumes inv: "vec_pool_inv p" and rv: "read_vec held p l = (r, p')"
  shows "vec_pool_inv p'" "\<exists>hc. p' = p\<lparr>vp_handles := hc\<rparr>"
proof -
  have self: "p = p\<lparr>vp_handles := vp_handles p\<rparr>" by simp
  have "p' = p \<or> p' = snd (vec_sealed_handle held p (vl_seg_id l))"
    using rv by (auto simp: read_vec_def split: if_splits prod.splits)
  then show "vec_pool_inv p'" "\<exists>hc. p' = p\<lparr>vp_handles := hc\<rparr>"
    using inv self vec_sealed_handle_keeps [OF inv] by (metis prod.collapse)+
qed

lemma vec_read_region:
  assumes inv: "vec_pool_inv p" and rd: "vec_read p l = Some v"
  obtains i where "fs_inode (vp_data_dir p) (vec_segment_file (vl_seg_id l)) = Some i"
    "vl_seg_id l = vp_active_id p \<longrightarrow> i = vp_active_ino p"
    "unat (vl_offset l) mod 4 = 0" "unat (vl_len l) = byte_len p"
    "unat (vl_offset l) + unat (vl_len l) \<le> length (fs_data (vp_data_dir p) i)"
    "unat (vl_offset l) + unat (vl_len l) \<le> U32_MAX"
    "v = bytes_to_f32s (slice (fs_data (vp_data_dir p) i) (unat (vl_offset l)) (unat (vl_len l)))"
proof -
  obtain i where i: "fs_inode (vp_data_dir p) (vec_segment_file (vl_seg_id l)) = Some i"
    using rd by (auto simp: vec_read_def split: option.splits)
  have a: "i = vp_active_ino p" if "vl_seg_id l = vp_active_id p"
    using that i vec_inv_active [OF inv] by simp
  have "vp_active_cursor p \<le> length (fs_data (vp_data_dir p) i)" if "vl_seg_id l = vp_active_id p"
    using a [OF that] vec_inv_cursor(1) [OF inv] vec_inv_size(2) [OF inv] by simp
  with rd i a show ?thesis
    by (intro that [of i]) (auto simp: vec_read_def Let_def split: if_splits)
qed

lemma vec_slice_reads:
  assumes inv: "vec_pool_inv p" and rd: "vec_read p l = Some v"
  obtains z where "fst (vec_slice held p l) = Ok z" "vec_as_f32 (vp_data_dir p) z = v"
proof -
  obtain i where i: "fs_inode (vp_data_dir p) (vec_segment_file (vl_seg_id l)) = Some i"
    "vl_seg_id l = vp_active_id p \<longrightarrow> i = vp_active_ino p"
    and len: "unat (vl_len l) = byte_len p"
    and hi: "unat (vl_offset l) + unat (vl_len l) \<le> length (fs_data (vp_data_dir p) i)"
      "unat (vl_offset l) + unat (vl_len l) \<le> U32_MAX"
    and v: "v = bytes_to_f32s (slice (fs_data (vp_data_dir p) i) (unat (vl_offset l)) (unat (vl_len l)))"
    by (rule vec_read_region [OF inv rd])
  have n: "unat (vl_len l) div 4 * 4 = unat (vl_len l)" by (simp add: len byte_len_def)
  have view: "\<exists>z. zero_copy_vec_new h (unat (vl_offset l)) (unat (vl_len l) div 4) = Ok z \<and>
      vec_as_f32 (vp_data_dir p) z = v"
    if "mh_ino h = i" "mh_len h = length (fs_data (vp_data_dir p) i)" for h
    using that hi by (simp add: zero_copy_vec_new_Ok n vec_as_f32_def slice_mmap_as_bytes v)
  show ?thesis
  proof (cases "vl_seg_id l = vp_active_id p")
    case True
    obtain h p1 where h: "active_handle p = (h, p1)" by (cases "active_handle p")
    from active_handle_keeps(3,4) [OF inv h] view [of h] i(2) True h that show ?thesis
      by (auto simp: vec_slice_def Let_def)
  next
    case False
    obtain h where h: "fst (vec_sealed_handle held p (vl_seg_id l)) = Ok h" "mh_ino h = i"
      "mh_len h = length (fs_data (vp_data_dir p) i)"
      by (rule vec_sealed_handle_maps [OF inv i(1)])
    with view [of h] False that show ?thesis
      by (auto simp: vec_slice_def Let_def split_beta)
  qed
qed

lemma read_vec_reads:
  assumes inv: "vec_pool_inv p" and rd: "vec_read p l = Some v"
  shows "fst (read_vec held p l) = Ok v"
proof -
  obtain i where i: "fs_inode (vp_data_dir p) (vec_segment_file (vl_seg_id l)) = Some i"
    "vl_seg_id l = vp_active_id p \<longrightarrow> i = vp_active_ino p"
    and off: "unat (vl_offset l) mod 4 = 0" and len: "unat (vl_len l) = byte_len p"
    and hi: "unat (vl_offset l) + unat (vl_len l) \<le> length (fs_data (vp_data_dir p) i)"
      "unat (vl_offset l) + unat (vl_len l) \<le> U32_MAX"
    and v: "v = bytes_to_f32s (slice (fs_data (vp_data_dir p) i) (unat (vl_offset l)) (unat (vl_len l)))"
    by (rule vec_read_region [OF inv rd])
  have cast: "cast_f32 (fs_data (vp_data_dir p) i) (unat (vl_offset l)) (unat (vl_offset l) + unat (vl_len l)) = Ok v"
    using off len hi(1) by (simp add: cast_f32_def v byte_len_def)
  show ?thesis
  proof (cases "vl_seg_id l = vp_active_id p")
    case True
    with cast i(2) show ?thesis by (simp add: read_vec_def len)
  next
    case False
    obtain h where h: "fst (vec_sealed_handle held p (vl_seg_id l)) = Ok h" "mh_ino h = i"
      "mh_len h = length (fs_data (vp_data_dir p) i)"
      by (rule vec_sealed_handle_maps [OF inv i(1)])
    have "unat (vl_offset l + vl_len l) = unat (vl_offset l) + unat (vl_len l)"
      using hi(2) by (simp add: unat_word_ariths)
    with h cast False show ?thesis
      by (simp add: read_vec_def mmap_as_bytes_def split_beta)
  qed
qed

section \<open>Opening and reclaiming\<close>

lemma vec_pool_open_inv:
  assumes ok: "fs_ok d" and sz: "n \<le> U32_MAX"
    and ids: "next_vec_seg_id d = 0 \<Longrightarrow> \<forall>s. \<not> fs_exists d (vec_segment_file s)"
  shows "vec_pool_inv (vec_pool_open d n dim)"
proof -
  let ?sz = "if n = 0 then DEFAULT_VEC_SEGMENT_SIZE else n"
  let ?id = "next_vec_seg_id d"
  obtain i d' where oc: "open_or_create_sized d (vec_segment_file ?id) ?sz = (i, d')"
    by (cases "open_or_create_sized d (vec_segment_file ?id) ?sz")
  note spec = open_or_create_sized_spec [OF ok oc]
  have top: "s \<le> ?id" if ex: "fs_exists d' (vec_segment_file s)" for s
  proof (cases "s = ?id")
    case False
    then obtain j where j: "fs_inode d (vec_segment_file s) = Some j"
      using spec(4) [of "vec_segment_file s"] ex by (auto simp: fs_exists_def)
    then have "?id \<noteq> 0" using ids by (auto simp: fs_exists_def)
    with j next_seg_of_fresh [of d "''vec_payload_''" s j] show ?thesis
      by (simp add: next_vec_seg_id_def vec_segment_file_def)
  qed simp
  show ?thesis
    using oc spec(1,2,3) top sz
    by (simp add: vec_pool_open_def open_or_create_vec_segment_def vec_pool_inv_def Let_def hc_new_def
        DEFAULT_VEC_SEGMENT_SIZE_def)
qed

lemma vec_pool_open_read:
  assumes ok: "fs_ok d" and j: "fs_inode d (vec_segment_file (vl_seg_id l)) = Some j"
    and ids: "next_vec_seg_id d \<noteq> 0"
    and rd: "unat (vl_offset l) mod 4 = 0" "unat (vl_len l) = dim * 4"
      "unat (vl_offset l) + unat (vl_len l) \<le> min (length (fs_data d j)) U32_MAX"
  shows "vec_read (vec_pool_open d n dim) l =
     Some (bytes_to_f32s (slice (fs_data d j) (unat (vl_offset l)) (unat (vl_len l))))"
proof -
  let ?sz = "if n = 0 then DEFAULT_VEC_SEGMENT_SIZE else n"
  let ?id = "next_vec_seg_id d"
  obtain i d' where oc: "open_or_create_sized d (vec_segment_file ?id) ?sz = (i, d')"
    by (cases "open_or_create_sized d (vec_segment_file ?id) ?sz")
  note spec = open_or_create_sized_spec [OF ok oc]
  have ne: "vl_seg_id l \<noteq> ?id"
    using j ids next_seg_of_fresh [of d "''vec_payload_''" "vl_seg_id l" j]
    by (auto simp: next_vec_seg_id_def vec_segment_file_def)
  with spec(5) [OF j] spec(6) [OF _ j] rd oc show ?thesis
    by (simp add: vec_read_def vec_pool_open_def open_or_create_vec_segment_def Let_def byte_len_def)
qed

text \<open>Removing the file of a segment that is neither active nor referred to is invisible.\<close>

lemma vec_reclaim_keeps:
  assumes inv: "vec_pool_inv p" and ne: "s \<noteq> vp_active_id p"
    and q: "q = drop_sealed (p\<lparr>vp_data_dir := fs_remove (vp_data_dir p) (vec_segment_file s)\<rparr>) s"
  shows "vec_pool_inv q" and "vl_seg_id l \<noteq> s \<Longrightarrow> vec_read q l = vec_read p l"
proof -
  have data: "fs_data (fs_remove d n) = fs_data d" for d n by (simp add: fs_remove_def)
  show "vec_pool_inv q"
    using inv ne by (auto simp: vec_pool_inv_def q drop_sealed_def hc_drop_sealed_def fs_exists_def data)
  show "vec_read q l = vec_read p l" if "vl_seg_id l \<noteq> s"
    using that by (simp add: vec_read_def q drop_sealed_def byte_len_def data Let_def split: option.split)
qed

end
