(* ===== verification/F32.thy ===== *)
theory F32
  imports Prelude "HOL-Library.Product_Lexorder"
begin

text \<open>
  \<open>f32\<close> values as their 32 bits.  The comparisons are defined on the bits: \<open>total_key\<close> is the
  signed integer that \<open>f32::total_cmp\<close> compares, and \<open>f32_lt\<close> is \<open><\<close> of IEEE 754, false on a
  NaN and on two zeros.  The arithmetic is a record of operations, an argument of the
  definitions that compute distances: what is proved holds for every rounding.

  \<open>OrderDist\<close> (\<open>vector/nsw.rs\<close>) and \<open>std::cmp::Reverse\<close> are instances of \<open>linorder\<close>.
\<close>

definition f32_neg :: "f32 \<Rightarrow> bool" where
  "f32_neg x = bit x 31"

definition total_key :: "f32 \<Rightarrow> int" where
  "total_key x = sint (if f32_neg x then x XOR 0x7FFFFFFF else x)"

definition f32_nan :: "f32 \<Rightarrow> bool" where
  "f32_nan x = (x AND 0x7FFFFFFF > 0x7F800000)"

definition f32_zero :: "f32 \<Rightarrow> bool" where
  "f32_zero x = (x AND 0x7FFFFFFF = 0)"

definition f32_lt :: "f32 \<Rightarrow> f32 \<Rightarrow> bool" where
  "f32_lt a b = (\<not> f32_nan a \<and> \<not> f32_nan b \<and> \<not> (f32_zero a \<and> f32_zero b) \<and> total_key a < total_key b)"

definition f32_eq :: "f32 \<Rightarrow> f32 \<Rightarrow> bool" where
  "f32_eq a b = (\<not> f32_nan a \<and> \<not> f32_nan b \<and> (a = b \<or> (f32_zero a \<and> f32_zero b)))"

record f32_arith =
  f_add :: "f32 \<Rightarrow> f32 \<Rightarrow> f32"
  f_sub :: "f32 \<Rightarrow> f32 \<Rightarrow> f32"
  f_mul :: "f32 \<Rightarrow> f32 \<Rightarrow> f32"
  f_div :: "f32 \<Rightarrow> f32 \<Rightarrow> f32"
  f_sqrt :: "f32 \<Rightarrow> f32"

lemma total_key_inj: "total_key a = total_key b \<longleftrightarrow> a = b"
proof
  assume eq: "total_key a = total_key b"
  have flip: "bit (x XOR 0x7FFFFFFF) 31 = bit x 31" for x :: f32
    by (simp add: bit_xor_iff)
  from eq have "(if f32_neg a then a XOR 0x7FFFFFFF else a) = (if f32_neg b then b XOR 0x7FFFFFFF else b)"
    unfolding total_key_def by (rule signed_word_eqI)
  then have "a = b \<or> a XOR 0x7FFFFFFF = b XOR 0x7FFFFFFF"
    using flip [of a] flip [of b] by (auto simp: f32_neg_def split: if_splits)
  then show "a = b" by (simp add: word_xor_cancel_right)
qed simp

lemma f32_lt_irrefl: "\<not> f32_lt a a"
  by (simp add: f32_lt_def)

lemma f32_lt_total_key: "f32_lt a b \<Longrightarrow> total_key a < total_key b"
  by (simp add: f32_lt_def)

section \<open>OrderDist and Reverse\<close>

datatype order_dist = OrderDist f32

fun od_val :: "order_dist \<Rightarrow> f32" where
  "od_val (OrderDist d) = d"

lemma OrderDist_od_val [simp]: "OrderDist (od_val x) = x"
  by (cases x) simp

instantiation order_dist :: linorder
begin

definition less_eq_order_dist :: "order_dist \<Rightarrow> order_dist \<Rightarrow> bool" where
  "less_eq_order_dist x y = (total_key (od_val x) \<le> total_key (od_val y))"

definition less_order_dist :: "order_dist \<Rightarrow> order_dist \<Rightarrow> bool" where
  "less_order_dist x y = (total_key (od_val x) < total_key (od_val y))"

instance
proof
  fix x y z :: order_dist
  show "(x < y) = (x \<le> y \<and> \<not> y \<le> x)"
    by (auto simp: less_order_dist_def less_eq_order_dist_def)
  show "x \<le> x" by (simp add: less_eq_order_dist_def)
  show "x \<le> z" if "x \<le> y" "y \<le> z"
    using that by (simp add: less_eq_order_dist_def)
  show "x = y" if "x \<le> y" "y \<le> x"
    using that by (cases x; cases y) (simp add: less_eq_order_dist_def total_key_inj [symmetric])
  show "x \<le> y \<or> y \<le> x"
    by (auto simp: less_eq_order_dist_def)
qed

end

datatype 'a reverse = Reverse 'a

fun unreverse :: "'a reverse \<Rightarrow> 'a" where
  "unreverse (Reverse x) = x"

instantiation reverse :: (linorder) linorder
begin

definition less_eq_reverse :: "'a reverse \<Rightarrow> 'a reverse \<Rightarrow> bool" where
  "less_eq_reverse x y = (unreverse y \<le> unreverse x)"

definition less_reverse :: "'a reverse \<Rightarrow> 'a reverse \<Rightarrow> bool" where
  "less_reverse x y = (unreverse y < unreverse x)"

instance
proof
  fix x y z :: "'a reverse"
  show "(x < y) = (x \<le> y \<and> \<not> y \<le> x)"
    by (auto simp: less_reverse_def less_eq_reverse_def)
  show "x \<le> x" by (simp add: less_eq_reverse_def)
  show "x \<le> z" if "x \<le> y" "y \<le> z"
    using that by (simp add: less_eq_reverse_def)
  show "x = y" if "x \<le> y" "y \<le> x"
    using that by (cases x; cases y) (simp add: less_eq_reverse_def)
  show "x \<le> y \<or> y \<le> x"
    by (auto simp: less_eq_reverse_def)
qed

end

section \<open>BinaryHeap\<close>

text \<open>
  \<open>std::collections::BinaryHeap\<close>: a collection whose greatest element can be seen and removed.
  The elements are in a list; the order in which \<open>into_iter\<close> visits them is unspecified by the
  library, here it is the order of the list.
\<close>

definition heap_peek :: "'a :: linorder list \<Rightarrow> 'a option" where
  "heap_peek h = (case h of [] \<Rightarrow> None | x # xs \<Rightarrow> Some (fold max xs x))"

definition heap_pop :: "'a :: linorder list \<Rightarrow> ('a \<times> 'a list) option" where
  "heap_pop h = (case heap_peek h of None \<Rightarrow> None | Some m \<Rightarrow> Some (m, remove1 m h))"

definition heap_push :: "'a :: linorder \<Rightarrow> 'a list \<Rightarrow> 'a list" where
  "heap_push x h = x # h"

lemma heap_Nil [simp]: "heap_peek [] = None" "heap_pop [] = None"
  by (simp_all add: heap_peek_def heap_pop_def)

lemma heap_peek_None [simp]: "heap_peek h = None \<longleftrightarrow> h = []"
  by (simp add: heap_peek_def split: list.split)

lemma heap_peek_Some: "heap_peek h = Some m \<Longrightarrow> m \<in> set h \<and> (\<forall>x \<in> set h. x \<le> m)"
proof -
  have "fold max xs x \<in> insert x (set xs) \<and> (\<forall>y \<in> insert x (set xs). y \<le> fold max xs x)"
    for x :: 'a and xs
    by (induction xs arbitrary: x) (force simp: max_def split: if_splits)+
  then show "heap_peek h = Some m \<Longrightarrow> m \<in> set h \<and> (\<forall>x \<in> set h. x \<le> m)"
    by (auto simp: heap_peek_def split: list.splits)
qed

lemma heap_pop_None [simp]: "heap_pop h = None \<longleftrightarrow> h = []"
  by (cases h) (simp_all add: heap_pop_def heap_peek_def)

lemma heap_pop_Some:
  assumes "heap_pop h = Some (m, h')"
  shows "m \<in> set h" "\<forall>x \<in> set h. x \<le> m" "h' = remove1 m h" "length h = Suc (length h')"
proof -
  from assms have pk: "heap_peek h = Some m" and h': "h' = remove1 m h"
    by (auto simp: heap_pop_def split: option.splits)
  from heap_peek_Some [OF pk] show mem: "m \<in> set h" and "\<forall>x \<in> set h. x \<le> m" by blast+
  show "h' = remove1 m h" by (rule h')
  show "length h = Suc (length h')"
    using mem length_pos_if_in_set [OF mem] by (simp add: h' length_remove1)
qed

lemma set_heap_push [simp]: "set (heap_push x h) = insert x (set h)" "length (heap_push x h) = Suc (length h)"
  by (simp_all add: heap_push_def)

end
