(* ===== verification/Distance.thy ===== *)
theory Distance
  imports Store_Error F32
begin

text \<open>
  \<open>fs-core/src/vector/schema.rs\<close> and \<open>vector/simd.rs\<close>: the schema of an index and the distance
  kernels.  A NEON register is four lanes; \<open>vmlaq_f32\<close> multiplies and adds with two roundings.
  The arithmetic \<open>A\<close> is an argument.  The kernels index both slices with the indices of the
  first one; they are called on slices of equal length.
\<close>

section \<open>Schema\<close>

datatype metric_kind = Cosine | L2 | Dot

definition DEFAULT_EF_SEARCH :: nat where
  "DEFAULT_EF_SEARCH = 200"

record vector_schema =
  vs_dim :: nat
  vs_metric :: metric_kind
  vs_ef_search :: nat

definition default_ef_search :: nat where
  "default_ef_search = DEFAULT_EF_SEARCH"

definition schema_new :: "nat \<Rightarrow> metric_kind \<Rightarrow> vector_schema" where
  "schema_new dim metric = \<lparr>vs_dim = dim, vs_metric = metric, vs_ef_search = DEFAULT_EF_SEARCH\<rparr>"

definition with_ef_search :: "nat \<Rightarrow> metric_kind \<Rightarrow> nat \<Rightarrow> vector_schema" where
  "with_ef_search dim metric ef =
     \<lparr>vs_dim = dim, vs_metric = metric, vs_ef_search = (if ef = 0 then DEFAULT_EF_SEARCH else ef)\<rparr>"

definition validate_dim :: "vector_schema \<Rightarrow> f32 list \<Rightarrow> unit res" where
  "validate_dim s v =
     (if length v = vs_dim s then Ok () else Err (DimensionMismatch (vs_dim s) (length v)))"

section \<open>Registers\<close>

type_synonym f32x4 = "f32 \<times> f32 \<times> f32 \<times> f32"

definition vdupq :: "f32 \<Rightarrow> f32x4" where
  "vdupq x = (x, x, x, x)"

definition vld1q :: "f32 list \<Rightarrow> nat \<Rightarrow> f32x4" where
  "vld1q xs i = (xs ! i, xs ! (i + 1), xs ! (i + 2), xs ! (i + 3))"

fun lanes2 :: "(f32 \<Rightarrow> f32 \<Rightarrow> f32) \<Rightarrow> f32x4 \<Rightarrow> f32x4 \<Rightarrow> f32x4" where
  "lanes2 f (a0, a1, a2, a3) (b0, b1, b2, b3) = (f a0 b0, f a1 b1, f a2 b2, f a3 b3)"

definition vmlaq :: "f32_arith \<Rightarrow> f32x4 \<Rightarrow> f32x4 \<Rightarrow> f32x4 \<Rightarrow> f32x4" where
  "vmlaq A acc x y = lanes2 (f_add A) acc (lanes2 (f_mul A) x y)"

fun reduce4 :: "f32_arith \<Rightarrow> f32x4 \<Rightarrow> f32" where
  "reduce4 A (s0, s1, s2, s3) = f_add A (f_add A s0 s1) (f_add A s2 s3)"

section \<open>Dot product\<close>

function dot_neon_loop :: "f32_arith \<Rightarrow> f32 list \<Rightarrow> f32 list \<Rightarrow> f32x4 \<Rightarrow> nat \<Rightarrow> f32x4 \<times> nat" where
  "dot_neon_loop A a b acc i =
     (if i + 4 \<le> length a
      then dot_neon_loop A a b (lanes2 (f_add A) acc (lanes2 (f_mul A) (vld1q a i) (vld1q b i))) (i + 4)
      else (acc, i))"
  by pat_completeness auto
termination by (relation "measure (\<lambda>(A, a, b, acc, i). length a - i)") auto

function dot_tail :: "f32_arith \<Rightarrow> f32 list \<Rightarrow> f32 list \<Rightarrow> f32 \<Rightarrow> nat \<Rightarrow> f32" where
  "dot_tail A a b s i =
     (if i < length a then dot_tail A a b (f_add A s (f_mul A (a ! i) (b ! i))) (i + 1) else s)"
  by pat_completeness auto
termination by (relation "measure (\<lambda>(A, a, b, s, i). length a - i)") auto

definition dot_neon :: "f32_arith \<Rightarrow> f32 list \<Rightarrow> f32 list \<Rightarrow> f32" where
  "dot_neon A a b =
     (case dot_neon_loop A a b (vdupq 0) 0 of (acc, i) \<Rightarrow> dot_tail A a b (reduce4 A acc) i)"

function dot_scalar_loop ::
  "f32_arith \<Rightarrow> f32 list \<Rightarrow> f32 list \<Rightarrow> f32 \<Rightarrow> f32 \<Rightarrow> f32 \<Rightarrow> f32 \<Rightarrow> nat \<Rightarrow> f32x4 \<times> nat" where
  "dot_scalar_loop A a b s0 s1 s2 s3 i =
     (if i + 4 \<le> length a
      then dot_scalar_loop A a b
             (f_add A s0 (f_mul A (a ! i) (b ! i)))
             (f_add A s1 (f_mul A (a ! (i + 1)) (b ! (i + 1))))
             (f_add A s2 (f_mul A (a ! (i + 2)) (b ! (i + 2))))
             (f_add A s3 (f_mul A (a ! (i + 3)) (b ! (i + 3)))) (i + 4)
      else ((s0, s1, s2, s3), i))"
  by pat_completeness auto
termination by (relation "measure (\<lambda>(A, a, b, s0, s1, s2, s3, i). length a - i)") auto

definition dot_scalar :: "f32_arith \<Rightarrow> f32 list \<Rightarrow> f32 list \<Rightarrow> f32" where
  "dot_scalar A a b =
     (case dot_scalar_loop A a b 0 0 0 0 0 of
        ((s0, s1, s2, s3), i) \<Rightarrow> dot_tail A a b (f_add A (f_add A s0 s1) (f_add A s2 s3)) i)"

section \<open>Squared L2 distance\<close>

function l2_neon_loop :: "f32_arith \<Rightarrow> f32 list \<Rightarrow> f32 list \<Rightarrow> f32x4 \<Rightarrow> nat \<Rightarrow> f32x4 \<times> nat" where
  "l2_neon_loop A a b acc i =
     (if i + 4 \<le> length a
      then l2_neon_loop A a b
             (let d = lanes2 (f_sub A) (vld1q a i) (vld1q b i) in vmlaq A acc d d) (i + 4)
      else (acc, i))"
  by pat_completeness auto
termination by (relation "measure (\<lambda>(A, a, b, acc, i). length a - i)") auto

function l2_tail :: "f32_arith \<Rightarrow> f32 list \<Rightarrow> f32 list \<Rightarrow> f32 \<Rightarrow> nat \<Rightarrow> f32" where
  "l2_tail A a b s i =
     (if i < length a
      then (let d = f_sub A (a ! i) (b ! i) in l2_tail A a b (f_add A s (f_mul A d d)) (i + 1))
      else s)"
  by pat_completeness auto
termination by (relation "measure (\<lambda>(A, a, b, s, i). length a - i)") auto

definition l2_neon :: "f32_arith \<Rightarrow> f32 list \<Rightarrow> f32 list \<Rightarrow> f32" where
  "l2_neon A a b =
     (case l2_neon_loop A a b (vdupq 0) 0 of (acc, i) \<Rightarrow> l2_tail A a b (reduce4 A acc) i)"

function l2_scalar_loop ::
  "f32_arith \<Rightarrow> f32 list \<Rightarrow> f32 list \<Rightarrow> f32 \<Rightarrow> f32 \<Rightarrow> f32 \<Rightarrow> f32 \<Rightarrow> nat \<Rightarrow> f32x4 \<times> nat" where
  "l2_scalar_loop A a b s0 s1 s2 s3 i =
     (if i + 4 \<le> length a
      then (let d0 = f_sub A (a ! i) (b ! i);
                d1 = f_sub A (a ! (i + 1)) (b ! (i + 1));
                d2 = f_sub A (a ! (i + 2)) (b ! (i + 2));
                d3 = f_sub A (a ! (i + 3)) (b ! (i + 3))
            in l2_scalar_loop A a b (f_add A s0 (f_mul A d0 d0)) (f_add A s1 (f_mul A d1 d1))
                 (f_add A s2 (f_mul A d2 d2)) (f_add A s3 (f_mul A d3 d3)) (i + 4))
      else ((s0, s1, s2, s3), i))"
  by pat_completeness auto
termination by (relation "measure (\<lambda>(A, a, b, s0, s1, s2, s3, i). length a - i)") auto

definition l2_scalar :: "f32_arith \<Rightarrow> f32 list \<Rightarrow> f32 list \<Rightarrow> f32" where
  "l2_scalar A a b =
     (case l2_scalar_loop A a b 0 0 0 0 0 of
        ((s0, s1, s2, s3), i) \<Rightarrow> l2_tail A a b (f_add A (f_add A s0 s1) (f_add A s2 s3)) i)"

declare dot_neon_loop.simps [simp del] dot_tail.simps [simp del] dot_scalar_loop.simps [simp del]
  l2_neon_loop.simps [simp del] l2_tail.simps [simp del] l2_scalar_loop.simps [simp del]

section \<open>Dispatch\<close>

text \<open>\<open>neon\<close> says whether the target is \<open>aarch64\<close>.  \<open>0x3F800000\<close> is \<open>1.0\<close>.\<close>

definition dot :: "bool \<Rightarrow> f32_arith \<Rightarrow> f32 list \<Rightarrow> f32 list \<Rightarrow> f32" where
  "dot neon A a b = (if neon then dot_neon A a b else dot_scalar A a b)"

definition l2 :: "bool \<Rightarrow> f32_arith \<Rightarrow> f32 list \<Rightarrow> f32 list \<Rightarrow> f32" where
  "l2 neon A a b = (if neon then l2_neon A a b else l2_scalar A a b)"

definition cosine :: "bool \<Rightarrow> f32_arith \<Rightarrow> f32 list \<Rightarrow> f32 list \<Rightarrow> f32" where
  "cosine neon A a b =
     (let d = dot neon A a b;
          na = f_sqrt A (dot neon A a a);
          nb = f_sqrt A (dot neon A b b);
          denom = f_mul A na nb
      in if f32_eq denom 0 then 0x3F800000 else f_sub A 0x3F800000 (f_div A d denom))"

definition distance :: "bool \<Rightarrow> f32_arith \<Rightarrow> metric_kind \<Rightarrow> f32 list \<Rightarrow> f32 list \<Rightarrow> f32" where
  "distance neon A metric a b =
     (case metric of Dot \<Rightarrow> dot neon A a b | Cosine \<Rightarrow> cosine neon A a b | L2 \<Rightarrow> l2 neon A a b)"

section \<open>The kernels agree\<close>

lemma dot_loops:
  "dot_neon_loop A a b (s0, s1, s2, s3) i = dot_scalar_loop A a b s0 s1 s2 s3 i"
proof (induction A a b s0 s1 s2 s3 i rule: dot_scalar_loop.induct)
  case (1 A a b s0 s1 s2 s3 i)
  then show ?case
    by (subst dot_neon_loop.simps, subst dot_scalar_loop.simps) (simp add: vld1q_def)
qed

lemma l2_loops:
  "l2_neon_loop A a b (s0, s1, s2, s3) i = l2_scalar_loop A a b s0 s1 s2 s3 i"
proof (induction A a b s0 s1 s2 s3 i rule: l2_scalar_loop.induct)
  case (1 A a b s0 s1 s2 s3 i)
  then show ?case
    by (subst l2_neon_loop.simps, subst l2_scalar_loop.simps) (simp add: vld1q_def vmlaq_def Let_def)
qed

lemma dot_neon_eq_scalar: "dot_neon A a b = dot_scalar A a b"
  by (simp add: dot_neon_def dot_scalar_def vdupq_def dot_loops split: prod.split)

lemma l2_neon_eq_scalar: "l2_neon A a b = l2_scalar A a b"
  by (simp add: l2_neon_def l2_scalar_def vdupq_def l2_loops split: prod.split)

text \<open>
  The kernels are bit-equal (C25).  For every metric and every arithmetic, whatever its
  rounding, the NEON build and the scalar build compute the same bits.
\<close>

theorem distance_neon_eq_scalar: "distance True A metric a b = distance False A metric a b"
  by (cases metric)
    (simp_all add: distance_def dot_def l2_def cosine_def dot_neon_eq_scalar l2_neon_eq_scalar)

end
