(* ===== verification/Nsw.thy ===== *)
theory Nsw
  imports Store_Error F32 Distance "HOL-Library.Multiset"
begin

text \<open>
  \<open>fs-core/src/vector/nsw.rs\<close>: the in-memory single-layer proximity graph.  The \<open>HashMap\<close> of
  nodes is an association list with distinct keys; the order in which a \<open>HashMap\<close> is iterated
  is unspecified, here it is the order of the list.  The distance closure is a function on
  node ids.  \<open>expired n\<close> is the answer of the clock at the \<open>n\<close>-th pop; without a deadline it
  is constantly \<open>False\<close>.

  The lemmas show that the operations keep the graph well formed (no dangling edges, bounded
  degree, an entry point), that a search ends and returns distinct live nodes in the order
  of their distances, and that with a large enough \<open>ef\<close> it returns the true nearest
  neighbours among the reachable nodes.
\<close>

definition M :: nat where "M = 16"
definition EF_CONSTRUCTION :: nat where "EF_CONSTRUCTION = 200"

type_synonym node_id = u64

record node =
  nd_deleted :: bool
  nd_neighbors :: "node_id list"

definition node_new :: node where
  "node_new = \<lparr>nd_deleted = False, nd_neighbors = []\<rparr>"

record nsw_graph =
  ng_nodes :: "(node_id \<times> node) list"
  ng_entry_point :: "node_id option"

definition nsw_new :: nsw_graph where
  "nsw_new = \<lparr>ng_nodes = [], ng_entry_point = None\<rparr>"

definition nsw_len :: "nsw_graph \<Rightarrow> nat" where
  "nsw_len g = length (filter (\<lambda>(i, n). \<not> nd_deleted n) (ng_nodes g))"

definition all_ids :: "nsw_graph \<Rightarrow> node_id list" where
  "all_ids g = map fst (filter (\<lambda>(i, n). \<not> nd_deleted n) (ng_nodes g))"

definition all_deleted_ids :: "nsw_graph \<Rightarrow> node_id list" where
  "all_deleted_ids g = map fst (filter (\<lambda>(i, n). nd_deleted n) (ng_nodes g))"

definition nsw_is_empty :: "nsw_graph \<Rightarrow> bool" where
  "nsw_is_empty g = (nsw_len g = 0)"

definition is_deleted :: "nsw_graph \<Rightarrow> node_id \<Rightarrow> bool" where
  "is_deleted g i = (case map_of (ng_nodes g) i of None \<Rightarrow> True | Some n \<Rightarrow> nd_deleted n)"

section \<open>Search\<close>

type_synonym cand_heap = "(order_dist reverse \<times> node_id) list"
type_synonym result_heap = "(order_dist \<times> node_id) list"
type_synonym search_state = "cand_heap \<times> node_id list \<times> result_heap"

definition offer_result :: "nat \<Rightarrow> f32 \<Rightarrow> node_id \<Rightarrow> result_heap \<Rightarrow> result_heap" where
  "offer_result ef d nb results =
     (if length results < ef then heap_push (OrderDist d, nb) results
      else case heap_peek results of
             None \<Rightarrow> results
           | Some (OrderDist farthest, i) \<Rightarrow>
               if f32_lt d farthest
               then heap_push (OrderDist d, nb) (remove1 (OrderDist farthest, i) results)
               else results)"

definition visit_nb ::
  "nsw_graph \<Rightarrow> (node_id \<Rightarrow> f32) \<Rightarrow> nat \<Rightarrow> node_id \<Rightarrow> search_state \<Rightarrow> search_state" where
  "visit_nb g query_dist ef nb st =
     (case st of (candidates, visited, results) \<Rightarrow>
        if nb \<in> set visited then st
        else
          (let d = query_dist nb
           in (heap_push (Reverse (OrderDist d), nb) candidates, nb # visited,
               if is_deleted g nb then results else offer_result ef d nb results)))"

definition too_far :: "nat \<Rightarrow> f32 \<Rightarrow> result_heap \<Rightarrow> bool" where
  "too_far ef cd results =
     (length results \<ge> ef \<and>
      (case heap_peek results of None \<Rightarrow> False | Some (OrderDist farthest, i) \<Rightarrow> f32_lt farthest cd))"

lemma visit_nb_eq:
  "visit_nb g qd ef nb (cand, vis, res) =
     (if nb \<in> set vis then (cand, vis, res)
      else (heap_push (Reverse (OrderDist (qd nb)), nb) cand, nb # vis,
            if is_deleted g nb then res else offer_result ef (qd nb) nb res))"
  by (simp add: visit_nb_def Let_def)

text \<open>Every id that a search can push: the entry point and the targets of the edges.\<close>

definition edge_targets :: "nsw_graph \<Rightarrow> node_id set" where
  "edge_targets g = (\<Union>(i, n) \<in> set (ng_nodes g). set (nd_neighbors n))"

lemma finite_edge_targets [simp]: "finite (edge_targets g)"
  by (auto simp: edge_targets_def)

lemma map_of_edge_targets:
  "map_of (ng_nodes g) i = Some n \<Longrightarrow> set (nd_neighbors n) \<subseteq> edge_targets g"
  by (force simp: edge_targets_def dest: map_of_SomeD)

lemma visit_fold_measure:
  assumes "set nbs \<subseteq> U" "finite U"
    and "fold (visit_nb g qd ef) nbs (cand, vis, res) = (cand', vis', res')"
  shows "length cand' + card (U - set vis') = length cand + card (U - set vis)"
  using assms(1,3)
proof (induction nbs arbitrary: cand vis res)
  case (Cons nb nbs)
  show ?case
  proof (cases "nb \<in> set vis")
    case True
    with Cons show ?thesis by (simp add: visit_nb_eq)
  next
    case False
    let ?c = "heap_push (Reverse (OrderDist (qd nb)), nb) cand"
    let ?r = "if is_deleted g nb then res else offer_result ef (qd nb) nb res"
    have "fold (visit_nb g qd ef) nbs (?c, nb # vis, ?r) = (cand', vis', res')"
      using Cons.prems(2) False by (simp add: visit_nb_eq cong: if_cong)
    then have "length cand' + card (U - set vis') = length ?c + card (U - set (nb # vis))"
      using Cons.IH [of ?c "nb # vis" ?r] Cons.prems(1) by simp
    moreover have "card (U - set vis) = Suc (card (U - set (nb # vis)))"
    proof -
      have "U - set (nb # vis) = (U - set vis) - {nb}" by auto
      moreover have "nb \<in> U - set vis" using Cons.prems(1) False by simp
      ultimately show ?thesis
        using assms(2) by (metis card_Suc_Diff1 finite_Diff)
    qed
    ultimately show ?thesis by simp
  qed
qed simp

function search_loop ::
  "nsw_graph \<Rightarrow> (node_id \<Rightarrow> f32) \<Rightarrow> nat \<Rightarrow> (nat \<Rightarrow> bool) \<Rightarrow> nat \<Rightarrow> search_state
     \<Rightarrow> node_id list \<times> result_heap"
where
  "search_loop g query_dist ef expired pops (candidates, visited, results) =
     (case heap_pop candidates of
        None \<Rightarrow> (visited, results)
      | Some ((rd, cid), rest) \<Rightarrow>
          (if Suc pops mod 256 = 0 \<and> expired (Suc pops) then (visited, results)
           else if too_far ef (od_val (unreverse rd)) results then (visited, results)
           else case map_of (ng_nodes g) cid of
                  None \<Rightarrow> search_loop g query_dist ef expired (Suc pops) (rest, visited, results)
                | Some nd \<Rightarrow>
                    search_loop g query_dist ef expired (Suc pops)
                      (fold (visit_nb g query_dist ef) (nd_neighbors nd) (rest, visited, results))))"
  by pat_completeness auto
termination
proof (relation "measure (\<lambda>(g, qd, ef, ex, pops, cand, vis, res).
    length cand + card (edge_targets g - set vis))", goal_cases)
  case (2 g qd ef ex pops cand vis res p a rest rd cid)
  then show ?case by (auto dest: heap_pop_Some(4))
next
  case (3 g qd ef ex pops cand vis res p a rest rd cid nd)
  obtain c v r where f: "fold (visit_nb g qd ef) (nd_neighbors nd) (rest, vis, res) = (c, v, r)"
    by (metis prod_cases3)
  have "length c + card (edge_targets g - set v) = length rest + card (edge_targets g - set vis)"
    by (rule visit_fold_measure [OF map_of_edge_targets finite_edge_targets f]) (use 3 in simp)
  with 3 f show ?case by (auto dest: heap_pop_Some(4))
qed simp

declare search_loop.simps [simp del]

text \<open>The ids whose distance is evaluated, which are the visited ones, and the result heap.\<close>

definition search_run ::
  "nsw_graph \<Rightarrow> (node_id \<Rightarrow> f32) \<Rightarrow> nat \<Rightarrow> node_id \<Rightarrow> (nat \<Rightarrow> bool) \<Rightarrow> node_id list \<times> result_heap" where
  "search_run g query_dist ef entry expired =
     (let d0 = query_dist entry
      in search_loop g query_dist ef expired 0
           (heap_push (Reverse (OrderDist d0), entry) [], [entry],
            if is_deleted g entry then [] else heap_push (OrderDist d0, entry) []))"

definition search_layer ::
  "nsw_graph \<Rightarrow> (node_id \<Rightarrow> f32) \<Rightarrow> nat \<Rightarrow> node_id \<Rightarrow> (nat \<Rightarrow> bool) \<Rightarrow> (node_id \<times> f32) list" where
  "search_layer g query_dist ef entry expired =
     sort_key (\<lambda>(i, d). OrderDist d)
       (map (\<lambda>(d, i). (i, od_val d)) (snd (search_run g query_dist ef entry expired)))"

definition search_knn ::
  "nsw_graph \<Rightarrow> (node_id \<Rightarrow> f32) \<Rightarrow> nat \<Rightarrow> nat \<Rightarrow> (nat \<Rightarrow> bool) \<Rightarrow> (node_id \<times> f32) list" where
  "search_knn g query_dist top_k ef_search expired =
     (case ng_entry_point g of
        None \<Rightarrow> []
      | Some entry \<Rightarrow> take top_k (search_layer g query_dist (max ef_search top_k) entry expired))"

section \<open>Updates\<close>

definition link_back :: "node_id \<Rightarrow> node_id \<Rightarrow> (node_id \<times> node) list \<Rightarrow> (node_id \<times> node) list" where
  "link_back i nb nodes =
     (case map_of nodes nb of
        None \<Rightarrow> nodes
      | Some n \<Rightarrow>
          (let ns = nd_neighbors n @ [i]
           in AList.update nb (n\<lparr>nd_neighbors := (if length ns > M * 2 then take (M * 2) ns else ns)\<rparr>) nodes))"

definition nsw_insert :: "nsw_graph \<Rightarrow> node_id \<Rightarrow> (node_id \<Rightarrow> f32) \<Rightarrow> unit res \<times> nsw_graph" where
  "nsw_insert g i dist =
     (if map_of (ng_nodes g) i \<noteq> None then (Err (DuplicateVector i), g)
      else case ng_entry_point g of
             None \<Rightarrow> (Ok (), \<lparr>ng_nodes = AList.update i node_new (ng_nodes g), ng_entry_point = Some i\<rparr>)
           | Some entry \<Rightarrow>
               (let candidates = search_layer g dist EF_CONSTRUCTION entry (\<lambda>_. False);
                    neighbors = map fst (take M candidates);
                    nodes = fold (link_back i) neighbors (ng_nodes g)
                in (Ok (), g\<lparr>ng_nodes := AList.update i (node_new\<lparr>nd_neighbors := neighbors\<rparr>) nodes\<rparr>)))"

definition nsw_delete :: "nsw_graph \<Rightarrow> node_id \<Rightarrow> bool \<times> nsw_graph" where
  "nsw_delete g i =
     (case map_of (ng_nodes g) i of
        None \<Rightarrow> (False, g)
      | Some n \<Rightarrow> (\<not> nd_deleted n,
                   g\<lparr>ng_nodes := AList.update i (n\<lparr>nd_deleted := True\<rparr>) (ng_nodes g)\<rparr>))"

definition snapshot_nodes :: "nsw_graph \<Rightarrow> (node_id \<times> node_id list) list" where
  "snapshot_nodes g = map (\<lambda>(i, n). (i, nd_neighbors n)) (ng_nodes g)"

definition snapshot_nodes_with_deleted :: "nsw_graph \<Rightarrow> (node_id \<times> node_id list \<times> bool) list" where
  "snapshot_nodes_with_deleted g = map (\<lambda>(i, n). (i, nd_neighbors n, nd_deleted n)) (ng_nodes g)"

definition restore_node :: "nsw_graph \<Rightarrow> node_id \<Rightarrow> node_id list \<Rightarrow> bool \<Rightarrow> nsw_graph" where
  "restore_node g i ns del =
     g\<lparr>ng_nodes := AList.update i \<lparr>nd_deleted = del, nd_neighbors = ns\<rparr> (ng_nodes g)\<rparr>"

definition restore_entry_point :: "nsw_graph \<Rightarrow> node_id \<Rightarrow> nsw_graph" where
  "restore_entry_point g i =
     (if map_of (ng_nodes g) i \<noteq> None then g\<lparr>ng_entry_point := Some i\<rparr> else g)"

definition validate_edges :: "nsw_graph \<Rightarrow> unit res" where
  "validate_edges g =
     (if \<exists>(i, n) \<in> set (ng_nodes g). \<exists>nb \<in> set (nd_neighbors n). map_of (ng_nodes g) nb = None
      then Err (Corrupt ''dangling edge'')
      else if ng_nodes g = [] then Ok ()
      else case ng_entry_point g of
             None \<Rightarrow> Err (Corrupt ''non-empty graph has no entry point'')
           | Some ep \<Rightarrow> if is_deleted g ep then Err (Corrupt ''entry point is soft-deleted'') else Ok ())"

section \<open>What a search returns\<close>

definition res_ok :: "nsw_graph \<Rightarrow> (node_id \<Rightarrow> f32) \<Rightarrow> nat \<Rightarrow> node_id list \<Rightarrow> result_heap \<Rightarrow> bool" where
  "res_ok g qd ef vis res \<longleftrightarrow>
     (\<forall>(d, i) \<in> set res. d = OrderDist (qd i) \<and> i \<in> set vis \<and> \<not> is_deleted g i) \<and>
     distinct (map snd res) \<and> length res \<le> max 1 ef"

lemma offer_result_cases:
  obtains (add) "offer_result ef d nb res = (OrderDist d, nb) # res" "length res < ef"
    | (keep) "offer_result ef d nb res = res"
    | (swap) m where "offer_result ef d nb res = (OrderDist d, nb) # remove1 m res" "m \<in> set res"
proof (cases "length res < ef")
  case True
  with add show thesis by (simp add: offer_result_def heap_push_def)
next
  case False
  show thesis
  proof (cases "heap_peek res")
    case None
    with False keep show thesis by (simp add: offer_result_def)
  next
    case (Some m)
    obtain f i where m: "m = (OrderDist f, i)" by (metis OrderDist_od_val surj_pair)
    have "m \<in> set res" using heap_peek_Some [OF Some] by blast
    with False Some m keep swap [of m] show thesis
      by (cases "f32_lt d f") (simp_all add: offer_result_def heap_push_def)
  qed
qed

lemma distinct_map_remove1: "distinct (map f xs) \<Longrightarrow> distinct (map f (remove1 x xs))"
  by (auto simp: distinct_map inj_on_def)

lemma res_ok_offer:
  assumes ok: "res_ok g qd ef vis res" and new: "nb \<notin> set vis" "\<not> is_deleted g nb"
  shows "res_ok g qd ef (nb # vis) (offer_result ef (qd nb) nb res)"
proof (cases rule: offer_result_cases [where ef = ef and d = "qd nb" and nb = nb and res = res])
  case (swap m)
  have sub: "set (remove1 m res) \<subseteq> set res" by (rule set_remove1_subset)
  then have "nb \<notin> snd ` set (remove1 m res)"
    using ok new by (force simp: res_ok_def)
  moreover have "Suc (length (remove1 m res)) = length res"
    using length_pos_if_in_set [OF swap(2)] swap(2) by (simp add: length_remove1)
  ultimately show ?thesis
    using ok new swap(1) sub distinct_map_remove1 [of snd res m] by (auto simp: res_ok_def)
qed (use ok new in \<open>force simp: res_ok_def\<close>)+

lemma res_ok_mono: "res_ok g qd ef vis res \<Longrightarrow> set vis \<subseteq> set vis' \<Longrightarrow> res_ok g qd ef vis' res"
  by (fastforce simp: res_ok_def)

lemma res_ok_fold:
  "fold (visit_nb g qd ef) nbs (cand, vis, res) = (cand', vis', res') \<Longrightarrow>
     res_ok g qd ef vis res \<Longrightarrow> res_ok g qd ef vis' res'"
proof (induction nbs arbitrary: cand vis res)
  case (Cons nb nbs)
  show ?case
  proof (cases "nb \<in> set vis")
    case False
    have "res_ok g qd ef (nb # vis) (if is_deleted g nb then res else offer_result ef (qd nb) nb res)"
      using res_ok_offer [OF Cons.prems(2) False] res_ok_mono [OF Cons.prems(2), of "nb # vis"] by auto
    with Cons.IH Cons.prems(1) False show ?thesis by (simp add: visit_nb_eq)
  qed (use Cons in \<open>simp add: visit_nb_eq\<close>)
qed simp

text \<open>Proof rule for the search loop: an invariant of its state.\<close>

lemma search_loop_rule:
  assumes "I cand vis res"
    and stop: "\<And>cand vis res. I cand vis res \<Longrightarrow>
       (cand = [] \<or> (\<exists>n. ex n) \<or> (\<exists>rd cid rest. heap_pop cand = Some ((rd, cid), rest) \<and>
          too_far ef (od_val (unreverse rd)) res)) \<Longrightarrow> Q (vis, res)"
    and skip: "\<And>cand vis res rd cid rest. I cand vis res \<Longrightarrow> heap_pop cand = Some ((rd, cid), rest) \<Longrightarrow>
       map_of (ng_nodes g) cid = None \<Longrightarrow> I rest vis res"
    and expand: "\<And>cand vis res rd cid rest nd c v r. I cand vis res \<Longrightarrow>
       heap_pop cand = Some ((rd, cid), rest) \<Longrightarrow> map_of (ng_nodes g) cid = Some nd \<Longrightarrow>
       fold (visit_nb g qd ef) (nd_neighbors nd) (rest, vis, res) = (c, v, r) \<Longrightarrow> I c v r"
  shows "Q (search_loop g qd ef ex pops (cand, vis, res))"
  using assms
proof (induction g qd ef ex pops "(cand, vis, res)" arbitrary: cand vis res rule: search_loop.induct)
  case (1 g qd ef ex pops cand vis res)
  note stop = "1.prems"(2) and skip = "1.prems"(3) and expand = "1.prems"(4)
  note unf = search_loop.simps [of g qd ef ex pops cand vis res]
  show ?case
  proof (cases "heap_pop cand")
    case None
    with stop [OF "1.prems"(1)] show ?thesis by (subst unf) simp
  next
    case (Some p)
    obtain rd cid rest where p: "p = ((rd, cid), rest)" by (metis surj_pair)
    show ?thesis
    proof (cases "(Suc pops mod 256 = 0 \<and> ex (Suc pops)) \<or> too_far ef (od_val (unreverse rd)) res")
      case True
      with stop [OF "1.prems"(1)] Some p show ?thesis by (auto simp: unf)
    next
      case False
      then have guards: "\<not> (Suc pops mod 256 = 0 \<and> ex (Suc pops))"
        "\<not> too_far ef (od_val (unreverse rd)) res" by simp_all
      show ?thesis
      proof (cases "map_of (ng_nodes g) cid")
        case None
        have "Q (search_loop g qd ef ex (Suc pops) (rest, vis, res))"
          by (rule "1.hyps"(1) [OF Some p [symmetric] refl guards None
                skip [OF "1.prems"(1) Some [unfolded p] None] stop skip expand])
        with Some p guards None show ?thesis by (auto simp: unf)
      next
        case nd: (Some nd)
        obtain c v r where f: "fold (visit_nb g qd ef) (nd_neighbors nd) (rest, vis, res) = (c, v, r)"
          by (metis prod_cases3)
        have "Q (search_loop g qd ef ex (Suc pops) (c, v, r))"
          by (rule "1.hyps"(2) [OF Some p [symmetric] refl guards nd f
                expand [OF "1.prems"(1) Some [unfolded p] nd f] stop skip expand])
        with Some p guards nd f show ?thesis by (auto simp: unf)
      qed
    qed
  qed
qed

lemma search_loop_sound:
  assumes "res_ok g qd ef vis res"
  shows "case_prod (res_ok g qd ef) (search_loop g qd ef ex pops (cand, vis, res))"
  by (rule search_loop_rule [where I = "\<lambda>c v r. res_ok g qd ef v r"])
    (use assms res_ok_fold in auto)

lemma search_layer_sound:
  fixes g qd ef entry ex
  defines "out \<equiv> search_layer g qd ef entry ex"
  shows "sorted (map (\<lambda>(i, d). OrderDist d) out)" "distinct (map fst out)" "length out \<le> max 1 ef"
    "(i, d) \<in> set out \<Longrightarrow> d = qd i \<and> \<not> is_deleted g i"
proof -
  let ?r0 = "if is_deleted g entry then [] else heap_push (OrderDist (qd entry), entry) []"
  let ?res = "snd (search_run g qd ef entry ex)"
  have "res_ok g qd ef [entry] ?r0" by (auto simp: res_ok_def heap_push_def)
  from search_loop_sound [OF this] obtain vis' where ok: "res_ok g qd ef vis' ?res"
    by (auto simp: search_run_def Let_def split_beta)
  have out: "out = sort_key (\<lambda>(i, d). OrderDist d) (map (\<lambda>(d, i). (i, od_val d)) ?res)"
    by (simp add: out_def search_layer_def)
  show "sorted (map (\<lambda>(i, d). OrderDist d) out)" unfolding out by (rule sorted_sort_key)
  have "image_mset fst (mset (map (\<lambda>(d, i). (i, od_val d)) r)) = mset (map snd r)"
    for r :: result_heap
    by (induction r) auto
  then have "mset (map fst out) = mset (map snd ?res)"
    unfolding out mset_map mset_sort .
  then show "distinct (map fst out)"
    using ok mset_eq_imp_distinct_iff [of "map fst out" "map snd ?res"] by (simp add: res_ok_def)
  show "length out \<le> max 1 ef" using ok unfolding out by (simp add: res_ok_def)
  show "d = qd i \<and> \<not> is_deleted g i" if "(i, d) \<in> set out"
  proof -
    have "(OrderDist d, i) \<in> set ?res"
      using that unfolding out set_sort set_map by force
    with ok show ?thesis unfolding res_ok_def by fastforce
  qed
qed

lemma live_in_nodes: "\<not> is_deleted g i \<Longrightarrow> \<exists>n. map_of (ng_nodes g) i = Some n \<and> \<not> nd_deleted n"
  by (auto simp: is_deleted_def split: option.splits)

section \<open>An exhaustive search\<close>

definition nsw_edge :: "nsw_graph \<Rightarrow> node_id \<Rightarrow> node_id \<Rightarrow> bool" where
  "nsw_edge g a b \<longleftrightarrow> (\<exists>n. map_of (ng_nodes g) a = Some n \<and> b \<in> set (nd_neighbors n))"

definition live_ids :: "nsw_graph \<Rightarrow> node_id set" where
  "live_ids g = {i. \<not> is_deleted g i}"

lemma finite_live_ids [simp]: "finite (live_ids g)"
proof -
  have "live_ids g \<subseteq> fst ` set (ng_nodes g)"
    by (force simp: live_ids_def dest!: live_in_nodes dest: map_of_SomeD)
  then show ?thesis by (rule finite_subset) simp
qed

lemma res_ok_length: "res_ok g qd ef vis res \<Longrightarrow> length res \<le> card (live_ids g)"
proof -
  assume ok: "res_ok g qd ef vis res"
  have "length res = card (snd ` set res)"
    using ok distinct_card [of "map snd res"] by (simp add: res_ok_def)
  also have "\<dots> \<le> card (live_ids g)"
    using ok by (intro card_mono) (auto simp: res_ok_def live_ids_def)
  finally show ?thesis .
qed

lemma fold_visit_complete:
  assumes "card (live_ids g) < ef"
    and "fold (visit_nb g qd ef) nbs (cand, vis, res) = (cand', vis', res')"
    and "res_ok g qd ef vis res" "snd ` set res = set vis \<inter> live_ids g"
  shows "set vis' = set vis \<union> set nbs \<and> snd ` set cand' = snd ` set cand \<union> (set nbs - set vis) \<and>
    snd ` set res' = set vis' \<inter> live_ids g"
  using assms(2-4)
proof (induction nbs arbitrary: cand vis res)
  case (Cons nb nbs)
  show ?case
  proof (cases "nb \<in> set vis")
    case True
    with Cons.IH [of cand vis res] Cons.prems show ?thesis by (auto simp: visit_nb_eq)
  next
    case False
    let ?c = "heap_push (Reverse (OrderDist (qd nb)), nb) cand"
    let ?r = "if is_deleted g nb then res else offer_result ef (qd nb) nb res"
    have f: "fold (visit_nb g qd ef) nbs (?c, nb # vis, ?r) = (cand', vis', res')"
      using Cons.prems(1) False by (simp add: visit_nb_eq)
    have ok: "res_ok g qd ef (nb # vis) ?r"
      using res_ok_offer [OF Cons.prems(2) False] res_ok_mono [OF Cons.prems(2), of "nb # vis"] by auto
    have "length res < ef" using res_ok_length [OF Cons.prems(2)] assms(1) by simp
    then have "snd ` set ?r = set (nb # vis) \<inter> live_ids g"
      using Cons.prems(3) False by (auto simp: offer_result_def live_ids_def)
    from Cons.IH [OF f ok this] False show ?thesis by auto
  qed
qed simp

definition full_inv ::
  "nsw_graph \<Rightarrow> (node_id \<Rightarrow> f32) \<Rightarrow> nat \<Rightarrow> node_id \<Rightarrow> cand_heap \<Rightarrow> node_id list \<Rightarrow> result_heap \<Rightarrow> bool" where
  "full_inv g qd ef entry cand vis res \<longleftrightarrow>
     res_ok g qd ef vis res \<and> snd ` set res = set vis \<inter> live_ids g \<and> snd ` set cand \<subseteq> set vis \<and>
     (\<forall>a \<in> set vis. a \<notin> snd ` set cand \<longrightarrow> (\<forall>b. nsw_edge g a b \<longrightarrow> b \<in> set vis)) \<and>
     (\<forall>a \<in> set vis. (nsw_edge g)\<^sup>*\<^sup>* entry a) \<and> entry \<in> set vis"

lemma full_inv_pop:
  assumes "full_inv g qd ef entry cand vis res" "heap_pop cand = Some ((rd, cid), rest)"
  shows "cid \<in> set vis" "snd ` set rest \<subseteq> set vis" "snd ` set cand \<subseteq> insert cid (snd ` set rest)"
proof -
  note hp = heap_pop_Some [OF assms(2)]
  have "(rd, cid) \<in> set cand" by (rule hp(1))
  then show "cid \<in> set vis"
    using assms(1) unfolding full_inv_def by force
  have "set rest \<subseteq> set cand" unfolding hp(3) by (rule set_remove1_subset)
  with assms(1) show "snd ` set rest \<subseteq> set vis" unfolding full_inv_def by blast
  have "set cand \<subseteq> insert (rd, cid) (set rest)"
  proof
    fix x assume "x \<in> set cand"
    then show "x \<in> insert (rd, cid) (set rest)"
      unfolding hp(3) by (cases "x = (rd, cid)") simp_all
  qed
  from image_mono [OF this, of snd] show "snd ` set cand \<subseteq> insert cid (snd ` set rest)" by simp
qed

lemma full_inv_skip:
  assumes inv: "full_inv g qd ef entry cand vis res" and pop: "heap_pop cand = Some ((rd, cid), rest)"
    and none: "map_of (ng_nodes g) cid = None"
  shows "full_inv g qd ef entry rest vis res"
proof -
  note p = full_inv_pop [OF inv pop]
  have closed: "\<And>a b. a \<in> set vis \<Longrightarrow> a \<notin> snd ` set cand \<Longrightarrow> nsw_edge g a b \<Longrightarrow> b \<in> set vis"
    using inv unfolding full_inv_def by blast
  have "b \<in> set vis" if "a \<in> set vis" "a \<notin> snd ` set rest" "nsw_edge g a b" for a b
  proof (cases "a = cid")
    case True
    with that(3) none show ?thesis by (simp add: nsw_edge_def)
  next
    case False
    with that(2) p(3) have "a \<notin> snd ` set cand" by auto
    with closed that show ?thesis by blast
  qed
  moreover have "res_ok g qd ef vis res" "snd ` set res = set vis \<inter> live_ids g"
    "\<And>a. a \<in> set vis \<Longrightarrow> (nsw_edge g)\<^sup>*\<^sup>* entry a" "entry \<in> set vis"
    using inv unfolding full_inv_def by blast+
  ultimately show ?thesis
    unfolding full_inv_def using p(2) by blast
qed

lemma full_inv_expand:
  assumes small: "card (live_ids g) < ef"
    and inv: "full_inv g qd ef entry cand vis res" and pop: "heap_pop cand = Some ((rd, cid), rest)"
    and nd: "map_of (ng_nodes g) cid = Some nd"
    and f: "fold (visit_nb g qd ef) (nd_neighbors nd) (rest, vis, res) = (c, v, r)"
  shows "full_inv g qd ef entry c v r"
proof -
  note p = full_inv_pop [OF inv pop]
  have ok: "res_ok g qd ef vis res" "snd ` set res = set vis \<inter> live_ids g"
    and closed: "\<And>a b. a \<in> set vis \<Longrightarrow> a \<notin> snd ` set cand \<Longrightarrow> nsw_edge g a b \<Longrightarrow> b \<in> set vis"
    and reach: "\<And>a. a \<in> set vis \<Longrightarrow> (nsw_edge g)\<^sup>*\<^sup>* entry a"
    using inv unfolding full_inv_def by blast+
  have fc: "set v = set vis \<union> set (nd_neighbors nd)"
    "snd ` set c = snd ` set rest \<union> (set (nd_neighbors nd) - set vis)"
    "snd ` set r = set v \<inter> live_ids g"
    using fold_visit_complete [OF small f ok] by blast+
  have edges: "nsw_edge g cid b \<longleftrightarrow> b \<in> set (nd_neighbors nd)" for b
    using nd by (simp add: nsw_edge_def)
  have "b \<in> set v" if "a \<in> set v" "a \<notin> snd ` set c" "nsw_edge g a b" for a b
  proof (cases "a = cid")
    case True
    with that edges fc(1) show ?thesis by auto
  next
    case False
    with that fc p(3) have "a \<in> set vis" "a \<notin> snd ` set cand" by auto
    with closed that(3) fc(1) show ?thesis by blast
  qed
  moreover have "(nsw_edge g)\<^sup>*\<^sup>* entry a" if "a \<in> set v" for a
    using that fc(1) reach reach [OF p(1)] edges by (auto intro: rtranclp.rtrancl_into_rtrancl)
  moreover have "res_ok g qd ef v r" by (rule res_ok_fold [OF f ok(1)])
  moreover have "entry \<in> set v" using inv fc(1) unfolding full_inv_def by blast
  moreover have "snd ` set c \<subseteq> set v" using fc p(2) by auto
  ultimately show ?thesis
    unfolding full_inv_def using fc(3) by blast
qed

lemma full_inv_done:
  assumes "full_inv g qd ef entry [] vis res"
  shows "snd ` set res = {i. (nsw_edge g)\<^sup>*\<^sup>* entry i \<and> \<not> is_deleted g i}"
proof -
  have "i \<in> set vis" if "(nsw_edge g)\<^sup>*\<^sup>* entry i" for i
    using that
  proof (induction rule: rtranclp_induct)
    case (step y z)
    with assms show ?case unfolding full_inv_def by auto
  qed (use assms in \<open>simp add: full_inv_def\<close>)
  then have "set vis = {i. (nsw_edge g)\<^sup>*\<^sup>* entry i}"
    using assms unfolding full_inv_def by blast
  with assms show ?thesis by (auto simp: full_inv_def live_ids_def)
qed

lemma search_layer_complete:
  assumes small: "card (live_ids g) < ef"
  shows "fst ` set (search_layer g qd ef entry (\<lambda>_. False)) =
    {i. (nsw_edge g)\<^sup>*\<^sup>* entry i \<and> \<not> is_deleted g i}"
proof -
  let ?r0 = "if is_deleted g entry then [] else heap_push (OrderDist (qd entry), entry) []"
  let ?c0 = "heap_push (Reverse (OrderDist (qd entry)), entry) []"
  let ?res = "search_loop g qd ef (\<lambda>_. False) 0 (?c0, [entry], ?r0)"
  let ?Q = "\<lambda>(vis, res). snd ` set res = {i. (nsw_edge g)\<^sup>*\<^sup>* entry i \<and> \<not> is_deleted g i}"
  have init: "full_inv g qd ef entry ?c0 [entry] ?r0"
    by (auto simp: full_inv_def res_ok_def heap_push_def live_ids_def)
  have "?Q ?res"
  proof (rule search_loop_rule [where I = "full_inv g qd ef entry"])
    show "full_inv g qd ef entry ?c0 [entry] ?r0" by (rule init)
  next
    fix cand vis res
    assume inv: "full_inv g qd ef entry cand vis res"
      and stop: "cand = [] \<or> (\<exists>n. False) \<or> (\<exists>rd cid rest. heap_pop cand = Some ((rd, cid), rest) \<and>
          too_far ef (od_val (unreverse rd)) res)"
    have "length res < ef"
      using inv res_ok_length small unfolding full_inv_def by (meson le_less_trans)
    with stop have "cand = []" by (auto simp: too_far_def)
    with inv show "?Q (vis, res)"
      using full_inv_done by simp
  qed (rule full_inv_skip, assumption+, rule full_inv_expand [OF small], assumption+)
  then show ?thesis
    by (simp add: search_layer_def search_run_def Let_def image_image case_prod_unfold)
qed

lemma fold_visit_targets:
  "fold (visit_nb g qd ef) nbs (cand, vis, res) = (cand', vis', res') \<Longrightarrow>
     set vis' = set vis \<union> set nbs \<and> snd ` set cand' \<subseteq> snd ` set cand \<union> set nbs"
proof (induction nbs arbitrary: cand vis res)
  case (Cons nb nbs)
  show ?case
  proof (cases "nb \<in> set vis")
    case True
    then have "fold (visit_nb g qd ef) nbs (cand, vis, res) = (cand', vis', res')"
      using Cons.prems by (simp add: visit_nb_eq)
    from Cons.IH [OF this] True show ?thesis by auto
  next
    case False
    with Cons.prems have "fold (visit_nb g qd ef) nbs
        (heap_push (Reverse (OrderDist (qd nb)), nb) cand, nb # vis,
         if is_deleted g nb then res else offer_result ef (qd nb) nb res) = (cand', vis', res')"
      by (simp add: visit_nb_eq)
    from Cons.IH [OF this] show ?thesis by auto
  qed
qed simp

lemma search_run_reachable:
  assumes "search_run g qd ef entry ex = (vis, res)"
  shows "\<forall>a \<in> set vis. (nsw_edge g)\<^sup>*\<^sup>* entry a" "snd ` set res \<subseteq> set vis"
proof -
  let ?c0 = "heap_push (Reverse (OrderDist (qd entry)), entry) []"
  let ?r0 = "if is_deleted g entry then [] else heap_push (OrderDist (qd entry), entry) []"
  let ?I = "\<lambda>c v r. res_ok g qd ef v r \<and> snd ` set c \<subseteq> set v \<and> (\<forall>a \<in> set v. (nsw_edge g)\<^sup>*\<^sup>* entry a)"
  let ?Q = "\<lambda>(vis, res). (\<forall>a \<in> set vis. (nsw_edge g)\<^sup>*\<^sup>* entry a) \<and> snd ` set res \<subseteq> set vis"
  have "?Q (search_loop g qd ef ex 0 (?c0, [entry], ?r0))"
  proof (rule search_loop_rule [where I = ?I])
    show "?I ?c0 [entry] ?r0" by (simp add: res_ok_def heap_push_def)
  next
    fix cand :: cand_heap and vis res rd cid and rest :: cand_heap
    assume I: "?I cand vis res" and pop: "heap_pop cand = Some ((rd, cid), rest)"
    have "set rest \<subseteq> set cand"
      unfolding heap_pop_Some(3) [OF pop] by (rule set_remove1_subset)
    with I show "?I rest vis res" by blast
  next
    fix cand :: cand_heap and vis res rd cid and rest :: cand_heap and nd c v r
    assume I: "?I cand vis res" and pop: "heap_pop cand = Some ((rd, cid), rest)"
      and nd: "map_of (ng_nodes g) cid = Some nd"
      and f: "fold (visit_nb g qd ef) (nd_neighbors nd) (rest, vis, res) = (c, v, r)"
    have rest: "set rest \<subseteq> set cand"
      unfolding heap_pop_Some(3) [OF pop] by (rule set_remove1_subset)
    have "cid \<in> snd ` set cand" using heap_pop_Some(1) [OF pop] by force
    with I have "cid \<in> set vis" by blast
    with I have cid: "(nsw_edge g)\<^sup>*\<^sup>* entry cid" by blast
    have "(nsw_edge g)\<^sup>*\<^sup>* entry a" if "a \<in> set (nd_neighbors nd)" for a
      using cid nd that by (auto simp: nsw_edge_def intro: rtranclp.rtrancl_into_rtrancl)
    moreover have "set v = set vis \<union> set (nd_neighbors nd)"
      "snd ` set c \<subseteq> snd ` set rest \<union> set (nd_neighbors nd)"
      using fold_visit_targets [OF f] by blast+
    moreover have "snd ` set rest \<subseteq> set vis" using I rest by blast
    moreover have "res_ok g qd ef v r" using res_ok_fold [OF f] I by blast
    ultimately show "?I c v r" using I by (intro conjI) blast+
  qed (auto simp: res_ok_def)
  with assms show "\<forall>a \<in> set vis. (nsw_edge g)\<^sup>*\<^sup>* entry a" "snd ` set res \<subseteq> set vis"
    by (simp_all add: search_run_def Let_def)
qed

lemma search_layer_reachable:
  assumes "i \<in> fst ` set (search_layer g qd ef entry ex)"
  shows "(nsw_edge g)\<^sup>*\<^sup>* entry i"
proof -
  obtain vis res where run: "search_run g qd ef entry ex = (vis, res)" by (cases "search_run g qd ef entry ex")
  with assms have "i \<in> snd ` set res" by (force simp: search_layer_def)
  with search_run_reachable [OF run] show ?thesis by blast
qed

section \<open>Well-formed graphs\<close>

definition nsw_wf :: "nsw_graph \<Rightarrow> bool" where
  "nsw_wf g \<longleftrightarrow> distinct (map fst (ng_nodes g)) \<and>
     (\<forall>i n. map_of (ng_nodes g) i = Some n \<longrightarrow>
        length (nd_neighbors n) \<le> M * 2 \<and> (\<forall>nb \<in> set (nd_neighbors n). map_of (ng_nodes g) nb \<noteq> None)) \<and>
     (case ng_entry_point g of None \<Rightarrow> ng_nodes g = [] | Some e \<Rightarrow> map_of (ng_nodes g) e \<noteq> None)"

lemma nsw_wfD:
  assumes "nsw_wf g"
  shows nsw_wf_distinct: "distinct (map fst (ng_nodes g))"
    and nsw_wf_degree: "map_of (ng_nodes g) i = Some n \<Longrightarrow> length (nd_neighbors n) \<le> M * 2"
    and nsw_wf_target: "map_of (ng_nodes g) i = Some n \<Longrightarrow> nb \<in> set (nd_neighbors n) \<Longrightarrow>
      map_of (ng_nodes g) nb \<noteq> None"
    and nsw_wf_entry: "ng_entry_point g = Some e \<Longrightarrow> map_of (ng_nodes g) e \<noteq> None"
    and nsw_wf_no_entry: "ng_entry_point g = None \<Longrightarrow> ng_nodes g = []"
  using assms unfolding nsw_wf_def by (auto split: option.splits)

lemma nsw_wfI:
  assumes "distinct (map fst (ng_nodes g))"
    and "map_of (ng_nodes g) e \<noteq> None" "ng_entry_point g = Some e"
    and "\<And>i n. map_of (ng_nodes g) i = Some n \<Longrightarrow> length (nd_neighbors n) \<le> M * 2 \<and>
      (\<forall>nb \<in> set (nd_neighbors n). map_of (ng_nodes g) nb \<noteq> None)"
  shows "nsw_wf g"
  unfolding nsw_wf_def assms(3) option.case using assms(1,2,4) by blast

lemma link_back_map_of:
  "map_of (link_back i nb nodes) x =
     (if x = nb
      then map_option (\<lambda>n. n\<lparr>nd_neighbors := take (M * 2) (nd_neighbors n @ [i])\<rparr>) (map_of nodes nb)
      else map_of nodes x)"
  by (simp add: link_back_def Let_def split: option.split)

lemma link_back_distinct: "distinct (map fst nodes) \<Longrightarrow> distinct (map fst (link_back i nb nodes))"
  by (auto simp: link_back_def Let_def split: option.split)

lemma fold_link_back:
  fixes i nbs nodes
  defines "nodes' \<equiv> fold (link_back i) nbs nodes"
  shows "distinct (map fst nodes) \<Longrightarrow> distinct (map fst nodes')"
    "map_of nodes' x = None \<longleftrightarrow> map_of nodes x = None"
    "map_of nodes' x = Some n' \<Longrightarrow> \<exists>n. map_of nodes x = Some n \<and> nd_deleted n' = nd_deleted n \<and>
       set (nd_neighbors n') \<subseteq> insert i (set (nd_neighbors n)) \<and>
       length (nd_neighbors n') \<le> max (length (nd_neighbors n)) (M * 2) \<and>
       (x \<notin> set nbs \<or> length (nd_neighbors n) = M * 2 \<longrightarrow> n' = n)"
proof -
  have "distinct (map fst nodes) \<longrightarrow> distinct (map fst nodes')"
    unfolding nodes'_def by (induction nbs arbitrary: nodes) (simp_all add: link_back_distinct)
  then show "distinct (map fst nodes) \<Longrightarrow> distinct (map fst nodes')" by blast
  have "map_of nodes' x = None \<longleftrightarrow> map_of nodes x = None"
    unfolding nodes'_def by (induction nbs arbitrary: nodes) (simp_all add: link_back_map_of)
  then show "map_of nodes' x = None \<longleftrightarrow> map_of nodes x = None" .
  show "map_of nodes' x = Some n' \<Longrightarrow> \<exists>n. map_of nodes x = Some n \<and> nd_deleted n' = nd_deleted n \<and>
       set (nd_neighbors n') \<subseteq> insert i (set (nd_neighbors n)) \<and>
       length (nd_neighbors n') \<le> max (length (nd_neighbors n)) (M * 2) \<and>
       (x \<notin> set nbs \<or> length (nd_neighbors n) = M * 2 \<longrightarrow> n' = n)"
    unfolding nodes'_def
  proof (induction nbs arbitrary: nodes)
    case (Cons nb nbs)
    from Cons.IH [of "link_back i nb nodes"] Cons.prems obtain n where
      n: "map_of (link_back i nb nodes) x = Some n" "nd_deleted n' = nd_deleted n"
        "set (nd_neighbors n') \<subseteq> insert i (set (nd_neighbors n))"
        "length (nd_neighbors n') \<le> max (length (nd_neighbors n)) (M * 2)"
        "x \<notin> set nbs \<or> length (nd_neighbors n) = M * 2 \<longrightarrow> n' = n" by auto
    show ?case
    proof (cases "x = nb")
      case False
      with n show ?thesis by (auto simp: link_back_map_of)
    next
      case True
      with n(1) obtain n0 where n0: "map_of nodes x = Some n0"
        "n = n0\<lparr>nd_neighbors := take (M * 2) (nd_neighbors n0 @ [i])\<rparr>"
        by (auto simp: link_back_map_of)
      have "set (nd_neighbors n) \<subseteq> insert i (set (nd_neighbors n0))"
        using set_take_subset [of "M * 2" "nd_neighbors n0 @ [i]"] by (simp add: n0(2))
      moreover have "length (nd_neighbors n) \<le> M * 2" by (simp add: n0(2))
      moreover have "n = n0" if "length (nd_neighbors n0) = M * 2"
        using that by (simp add: n0(2))
      ultimately show ?thesis
        using n n0(1) True by (intro exI [of _ n0]) (auto simp: n0(2))
    qed
  qed auto
qed

text \<open>The graph after an insert that links: old nodes, and the new one.\<close>

lemma nsw_insert_linked:
  assumes "nsw_insert g i dist = (Ok (), g')" "ng_entry_point g = Some e"
  defines "nbs \<equiv> map fst (take M (search_layer g dist EF_CONSTRUCTION e (\<lambda>_. False)))"
  shows "map_of (ng_nodes g) i = None" "ng_entry_point g' = Some e"
    "ng_nodes g' = AList.update i (node_new\<lparr>nd_neighbors := nbs\<rparr>) (fold (link_back i) nbs (ng_nodes g))"
  using assms by (auto simp: nsw_insert_def Let_def split: if_splits)

lemma nsw_wf_insert:
  assumes wf: "nsw_wf g" and ins: "nsw_insert g i dist = (r, g')"
  shows "nsw_wf g'"
proof (cases "map_of (ng_nodes g) i")
  case (Some n)
  with ins wf show ?thesis by (simp add: nsw_insert_def)
next
  case new: None
  show ?thesis
  proof (cases "ng_entry_point g")
    case None
    with ins new wf show ?thesis
      by (auto simp: nsw_insert_def nsw_wf_def node_new_def split: if_splits)
  next
    case (Some e)
    let ?out = "search_layer g dist EF_CONSTRUCTION e (\<lambda>_. False)"
    let ?nbs = "map fst (take M ?out)"
    let ?nodes = "fold (link_back i) ?nbs (ng_nodes g)"
    have g': "g' = g\<lparr>ng_nodes := AList.update i (node_new\<lparr>nd_neighbors := ?nbs\<rparr>) ?nodes\<rparr>"
      using ins new Some by (simp add: nsw_insert_def Let_def)
    have nbs: "map_of (ng_nodes g) nb \<noteq> None" if "nb \<in> set ?nbs" for nb
    proof -
      from that obtain d where "(nb, d) \<in> set ?out" by (auto dest: in_set_takeD)
      from search_layer_sound(4) [OF this] live_in_nodes show ?thesis by blast
    qed
    have dom': "map_of (ng_nodes g') nb = None \<longleftrightarrow> nb \<noteq> i \<and> map_of (ng_nodes g) nb = None" for nb
      by (simp add: g' fold_link_back(2))
    have deg: "length (nd_neighbors n) \<le> M * 2 \<and> (\<forall>nb \<in> set (nd_neighbors n). map_of (ng_nodes g') nb \<noteq> None)"
      if "map_of (ng_nodes g') x = Some n" for x n
    proof (cases "x = i")
      case True
      with that have "nd_neighbors n = ?nbs" by (auto simp: g')
      with nbs dom' show ?thesis by (simp add: M_def)
    next
      case False
      with that have "map_of ?nodes x = Some n" by (simp add: g')
      from fold_link_back(3) [OF this] obtain n0 where n0: "map_of (ng_nodes g) x = Some n0"
        "set (nd_neighbors n) \<subseteq> insert i (set (nd_neighbors n0))"
        "length (nd_neighbors n) \<le> max (length (nd_neighbors n0)) (M * 2)" by blast
      moreover have "length (nd_neighbors n0) \<le> M * 2" "\<forall>nb \<in> set (nd_neighbors n0). map_of (ng_nodes g) nb \<noteq> None"
        using wf n0(1) unfolding nsw_wf_def by blast+
      ultimately show ?thesis using dom' by auto
    qed
    have "distinct (map fst (ng_nodes g'))"
      using wf by (auto simp: g' nsw_wf_def intro: fold_link_back(1))
    moreover have "map_of (ng_nodes g') e \<noteq> None"
      using nsw_wf_entry [OF wf Some] dom' [of e] by simp
    moreover have "ng_entry_point g' = Some e" by (simp add: g' Some)
    ultimately show ?thesis using deg by (intro nsw_wfI)
  qed
qed

lemma nsw_wf_delete:
  assumes "nsw_wf g" "nsw_delete g i = (b, g')"
  shows "nsw_wf g'"
  using assms
  by (auto simp: nsw_delete_def nsw_wf_def update_Some_unfold distinct_update split: option.splits if_splits)

text \<open>What an insert and a delete do to the set of nodes and to the soft deletions.\<close>

lemma nsw_insert_contents:
  assumes ins: "nsw_insert g i dist = (r, g')" and new: "map_of (ng_nodes g) i = None"
  shows "r = Ok ()" "map_of (ng_nodes g') x = None \<longleftrightarrow> x \<noteq> i \<and> map_of (ng_nodes g) x = None"
    "is_deleted g' x \<longleftrightarrow> x \<noteq> i \<and> is_deleted g x"
proof -
  show r: "r = Ok ()"
    using ins new by (auto simp: nsw_insert_def Let_def split: option.splits)
  have "(map_of (ng_nodes g') x = None \<longleftrightarrow> x \<noteq> i \<and> map_of (ng_nodes g) x = None) \<and>
    (is_deleted g' x \<longleftrightarrow> x \<noteq> i \<and> is_deleted g x)"
  proof (cases "ng_entry_point g")
    case None
    with ins new show ?thesis
      by (auto simp: nsw_insert_def is_deleted_def node_new_def split: if_splits)
  next
    case (Some e)
    note nodes' = nsw_insert_linked(3) [OF ins [unfolded r] Some]
    let ?nodes = "fold (link_back i)
      (map fst (take M (search_layer g dist EF_CONSTRUCTION e (\<lambda>_. False)))) (ng_nodes g)"
    have "(case map_of ?nodes x of None \<Rightarrow> True | Some n \<Rightarrow> nd_deleted n) = is_deleted g x"
      using fold_link_back(2) [of i _ "ng_nodes g" x] fold_link_back(3) [of i _ "ng_nodes g" x]
      by (cases "map_of ?nodes x") (fastforce simp: is_deleted_def)+
    then show ?thesis
      by (auto simp: is_deleted_def nodes' fold_link_back(2) node_new_def)
  qed
  then show "map_of (ng_nodes g') x = None \<longleftrightarrow> x \<noteq> i \<and> map_of (ng_nodes g) x = None"
    "is_deleted g' x \<longleftrightarrow> x \<noteq> i \<and> is_deleted g x" by blast+
qed

lemma nsw_delete_contents:
  assumes "nsw_delete g i = (b, g')"
  shows "b \<longleftrightarrow> \<not> is_deleted g i" "map_of (ng_nodes g') x = None \<longleftrightarrow> map_of (ng_nodes g) x = None"
    "is_deleted g' x \<longleftrightarrow> x = i \<or> is_deleted g x"
  using assms by (auto simp: nsw_delete_def is_deleted_def split: option.splits if_splits)

lemma flagged_ids_iff:
  assumes "nsw_wf g"
  shows "i \<in> set (map fst (filter (\<lambda>(i, n). P n) (ng_nodes g))) \<longleftrightarrow>
    (\<exists>n. map_of (ng_nodes g) i = Some n \<and> P n)"
  using map_of_eq_Some_iff [OF nsw_wf_distinct [OF assms]] by force

lemma all_deleted_ids_iff:
  "nsw_wf g \<Longrightarrow> i \<in> set (all_deleted_ids g) \<longleftrightarrow> map_of (ng_nodes g) i \<noteq> None \<and> is_deleted g i"
  unfolding all_deleted_ids_def is_deleted_def flagged_ids_iff
  by (cases "map_of (ng_nodes g) i") simp_all

lemma all_ids_iff: "nsw_wf g \<Longrightarrow> i \<in> set (all_ids g) \<longleftrightarrow> \<not> is_deleted g i"
  unfolding all_ids_def is_deleted_def flagged_ids_iff
  by (cases "map_of (ng_nodes g) i") simp_all

lemma nsw_wf_new: "nsw_wf nsw_new"
  by (simp add: nsw_wf_def nsw_new_def)

section \<open>Properties\<close>

inductive nsw_step :: "nsw_graph \<Rightarrow> nsw_graph \<Rightarrow> bool" where
  nsw_step_insert: "nsw_insert g i dist = (r, g') \<Longrightarrow> nsw_step g g'"
| nsw_step_delete: "nsw_delete g i = (b, g') \<Longrightarrow> nsw_step g g'"

text \<open>
  The graph stays well formed (C26).  After any sequence of inserts and soft deletes on a new
  graph, node ids are unique, no edge dangles, no node has more than 32 neighbours, and a
  non-empty graph has an entry point that is one of its nodes.
\<close>

theorem nsw_reachable_wf:
  assumes "nsw_step\<^sup>*\<^sup>* nsw_new g"
  shows "nsw_wf g"
  using assms
proof (induction rule: rtranclp_induct)
  case (step y z)
  from step.hyps(2) show ?case
    by cases (rule nsw_wf_insert [OF step.IH], assumption, rule nsw_wf_delete [OF step.IH], assumption)
qed (rule nsw_wf_new)

abbreviation nsw_one :: nsw_graph where
  "nsw_one \<equiv> snd (nsw_insert nsw_new 1 (\<lambda>_. 0))"

lemma nsw_one_wf: "nsw_wf nsw_one"
  by (rule nsw_wf_insert [OF nsw_wf_new surjective_pairing])

theorem nsw_reachable_wf_witness: "nsw_wf nsw_one"
  by (rule nsw_reachable_wf, rule r_into_rtranclp, rule nsw_step_insert, rule surjective_pairing)

text \<open>
  Every search result is sound.  Whatever the graph, the parameters and the deadline, the
  search returns at most \<open>top_k\<close> entries in ascending order of their distance
  (\<open>total_cmp\<close>), with distinct ids, each a node that is not deleted, with its true distance.
\<close>

theorem search_knn_sound:
  "sorted (map (\<lambda>(i, d). OrderDist d) (search_knn g qd k ef ex)) \<and>
   distinct (map fst (search_knn g qd k ef ex)) \<and> length (search_knn g qd k ef ex) \<le> k \<and>
   list_all (\<lambda>(i, d). d = qd i \<and> \<not> is_deleted g i) (search_knn g qd k ef ex)"
proof (cases "ng_entry_point g")
  case (Some e)
  let ?out = "search_layer g qd (max ef k) e ex"
  note s = search_layer_sound [where g = g and qd = qd and ef = "max ef k" and entry = e and ex = ex]
  have "sorted (map (\<lambda>(i, d). OrderDist d) (take k ?out))"
    using sorted_wrt_take [OF s(1)] by (simp add: take_map)
  moreover have "distinct (map fst (take k ?out))"
    using distinct_take [OF s(2)] by (simp add: take_map)
  moreover have "list_all (\<lambda>(i, d). d = qd i \<and> \<not> is_deleted g i) (take k ?out)"
    using s(4) by (fastforce simp: list_all_iff dest: in_set_takeD)
  ultimately show ?thesis using Some by (simp add: search_knn_def)
qed (simp add: search_knn_def)

lemma sorted_take_le:
  assumes "sorted (map f xs)" "x \<in> set (take k xs)" "y \<in> set xs" "y \<notin> set (take k xs)"
  shows "f x \<le> f y"
proof -
  have "y \<in> set (drop k xs)"
    using assms(3,4) by (metis Un_iff append_take_drop_id set_append)
  moreover have "sorted (map f (take k xs) @ map f (drop k xs))"
    using assms(1) by (metis append_take_drop_id map_append)
  ultimately show ?thesis
    using assms(2) unfolding sorted_append by auto
qed

text \<open>
  Exact nearest neighbours (C18).  When the candidate width is larger than the number of live
  nodes and there is no deadline, the search returns the exact answer over the live nodes
  that can be reached from the entry point: as many as exist up to \<open>top_k\<close>, each once and with its distance to the query, in
  ascending order, and none that is left out is closer than one that is returned.
\<close>

theorem search_knn_exact:
  assumes "card (live_ids g) < ef" "ng_entry_point g = Some e"
    and "R = {i. (nsw_edge g)\<^sup>*\<^sup>* e i \<and> \<not> is_deleted g i}"
    and "out = search_knn g qd k ef (\<lambda>_. False)"
  shows "fst ` set out \<subseteq> R \<and> length out = min k (card R) \<and> distinct (map fst out) \<and>
    sorted (map (\<lambda>(i, d). OrderDist d) out) \<and> (\<forall>(i, d) \<in> set out. d = qd i) \<and>
    (\<forall>(i, d) \<in> set out. \<forall>x \<in> R - fst ` set out. OrderDist d \<le> OrderDist (qd x))"
proof -
  let ?all = "search_layer g qd (max ef k) e (\<lambda>_. False)"
  have out: "out = take k ?all" using assms(2,4) by (simp add: search_knn_def)
  have ids: "fst ` set ?all = R"
    unfolding assms(3) by (rule search_layer_complete) (use assms(1) in simp)
  note s = search_layer_sound [where g = g and qd = qd and ef = "max ef k" and entry = e and ex = "\<lambda>_. False"]
  have "card R = length ?all"
    using distinct_card [OF s(2)] ids by simp
  then have len: "length out = min k (card R)" by (simp add: out min.commute)
  have "OrderDist d \<le> OrderDist (qd x)" if i: "(i, d) \<in> set out" and x: "x \<in> R - fst ` set out" for i d x
  proof -
    obtain dx where dx: "(x, dx) \<in> set ?all" using x ids by fastforce
    moreover have "(x, dx) \<notin> set (take k ?all)" using x unfolding out by force
    ultimately have "(\<lambda>(i, d). OrderDist d) (i, d) \<le> (\<lambda>(i, d). OrderDist d) (x, dx)"
      using i unfolding out by (intro sorted_take_le [OF s(1)])
    with s(4) [OF dx] show ?thesis by simp
  qed
  moreover have "fst ` set out \<subseteq> R"
    unfolding out ids [symmetric] by (auto dest: in_set_takeD)
  moreover have "distinct (map fst out)" "sorted (map (\<lambda>(i, d). OrderDist d) out)" "\<forall>(i, d) \<in> set out. d = qd i"
    using distinct_take [OF s(2)] sorted_wrt_take [OF s(1)] s(4) unfolding out
    by (auto simp: take_map dest!: in_set_takeD)
  ultimately show ?thesis using len by blast
qed

text \<open>Three vectors, of which the search has to return the two nearest.\<close>

definition nsw_three :: nsw_graph where
  "nsw_three = snd (nsw_insert (snd (nsw_insert nsw_one 2 (\<lambda>_. 1))) 3 (\<lambda>_. 1))"

lemma live_ids_card: "card (live_ids g) \<le> length (ng_nodes g)"
proof -
  have "live_ids g \<subseteq> fst ` set (ng_nodes g)" by (auto simp: live_ids_def image_iff dest!: live_in_nodes map_of_SomeD) (metis fst_conv)
  from card_mono [OF _ this] card_image_le [of "set (ng_nodes g)" fst] card_length [of "ng_nodes g"]
  show ?thesis by simp
qed

theorem search_knn_exact_witness:
  "let R = {i. (nsw_edge nsw_three)\<^sup>*\<^sup>* 1 i \<and> \<not> is_deleted nsw_three i};
       out = search_knn nsw_three (\<lambda>i. if i = 2 then 0 else if i = 1 then 1 else 5) 2 200 (\<lambda>_. False)
   in map fst out = [2, 1] \<and> fst ` set out \<subseteq> R \<and> length out = min 2 (card R) \<and>
    (\<forall>x \<in> R - fst ` set out. OrderDist 1 \<le> OrderDist (if x = 2 then 0 else if x = 1 then 1 else 5))"
proof -
  let ?qd = "\<lambda>i :: u64. if i = 2 then 0 else if i = 1 then 1 else 5 :: f32"
  have out: "search_knn nsw_three ?qd 2 200 (\<lambda>_. False) = [(2, 0), (1, 1)]" by code_simp
  have len: "length (ng_nodes nsw_three) = 3" by code_simp
  have "card (live_ids nsw_three) < 200" using live_ids_card [of nsw_three] len by linarith
  moreover have "ng_entry_point nsw_three = Some 1" by code_simp
  ultimately show ?thesis
    using search_knn_exact [OF _ _ refl refl, of nsw_three 200 1 ?qd 2] unfolding Let_def out by auto
qed

text \<open>
  Orphans.  If every neighbour that an insert selects already has 32 neighbours, or if
  none can be selected because all reachable nodes are deleted, the insert returns \<open>Ok\<close> and the
  new vector has no incoming edge: no later search on that graph returns it.
\<close>

theorem orphan_insert_unreachable:
  assumes wf: "nsw_wf g" and ins: "nsw_insert g i dist = (Ok (), g')" and ep: "ng_entry_point g = Some e"
    and full: "\<forall>nb \<in> fst ` set (take M (search_layer g dist EF_CONSTRUCTION e (\<lambda>_. False))).
      length (nd_neighbors (the (map_of (ng_nodes g) nb))) = M * 2"
  shows "i \<notin> fst ` set (search_knn g' qd k ef ex)"
proof
  let ?nbs = "map fst (take M (search_layer g dist EF_CONSTRUCTION e (\<lambda>_. False)))"
  note lk = nsw_insert_linked [OF ins ep]
  have nbs: "i \<notin> set ?nbs"
  proof
    assume "i \<in> set ?nbs"
    then obtain d where "(i, d) \<in> set (search_layer g dist EF_CONSTRUCTION e (\<lambda>_. False))"
      by (auto dest: in_set_takeD)
    from search_layer_sound(4) [OF this] live_in_nodes [of g i] lk(1) show False by auto
  qed
  have no_edge: "\<not> nsw_edge g' a i" for a
  proof
    assume "nsw_edge g' a i"
    then obtain n where n: "map_of (ng_nodes g') a = Some n" "i \<in> set (nd_neighbors n)"
      by (auto simp: nsw_edge_def)
    show False
    proof (cases "a = i")
      case True
      with n nbs lk(3) show False by (auto simp: node_new_def)
    next
      case False
      with n lk(3) have "map_of (fold (link_back i) ?nbs (ng_nodes g)) a = Some n" by simp
      from fold_link_back(3) [OF this] obtain n0 where n0: "map_of (ng_nodes g) a = Some n0"
        "a \<notin> set ?nbs \<or> length (nd_neighbors n0) = M * 2 \<longrightarrow> n = n0" by blast
      with full have "n = n0" by force
      with nsw_wf_target [OF wf n0(1)] n(2) lk(1) show False by blast
    qed
  qed
  assume "i \<in> fst ` set (search_knn g' qd k ef ex)"
  then have "i \<in> fst ` set (search_layer g' qd (max ef k) e ex)"
    using lk(2) by (auto simp: search_knn_def dest: in_set_takeD)
  then have "(nsw_edge g')\<^sup>*\<^sup>* e i" by (rule search_layer_reachable)
  then have "e = i" using no_edge by (metis rtranclp.cases)
  with nsw_wf_entry [OF wf ep] lk(1) show False by simp
qed

theorem orphan_insert_unreachable_witness:
  "let g = snd (nsw_delete nsw_one 1); g' = snd (nsw_insert g 2 (\<lambda>_. 0))
   in fst (nsw_insert g 2 (\<lambda>_. 0)) = Ok () \<and> 2 \<notin> fst ` set (search_knn g' (\<lambda>_. 0) 10 200 (\<lambda>_. False))"
proof -
  let ?g = "snd (nsw_delete nsw_one 1)"
  have wf: "nsw_wf ?g" by (rule nsw_wf_delete [OF nsw_one_wf surjective_pairing])
  have ok: "fst (nsw_insert ?g 2 (\<lambda>_. 0)) = Ok ()" by code_simp
  have ins: "nsw_insert ?g 2 (\<lambda>_. 0) = (Ok (), snd (nsw_insert ?g 2 (\<lambda>_. 0)))"
    by (rule prod_eqI) (simp_all only: ok fst_conv snd_conv)
  have ep: "ng_entry_point ?g = Some 1" by code_simp
  have none: "search_layer ?g (\<lambda>_. 0) EF_CONSTRUCTION 1 (\<lambda>_. False) = []" by code_simp
  show ?thesis
    using ok orphan_insert_unreachable [OF wf ins ep] unfolding Let_def none by simp
qed

lemma nsw_no_dangling:
  assumes "nsw_wf g"
  shows "\<not> (\<exists>(i, n) \<in> set (ng_nodes g). \<exists>nb \<in> set (nd_neighbors n). map_of (ng_nodes g) nb = None)"
proof
  assume "\<exists>(i, n) \<in> set (ng_nodes g). \<exists>nb \<in> set (nd_neighbors n). map_of (ng_nodes g) nb = None"
  then obtain i n nb where n: "(i, n) \<in> set (ng_nodes g)" "nb \<in> set (nd_neighbors n)"
    "map_of (ng_nodes g) nb = None" by blast
  from n(1) nsw_wf_distinct [OF assms] have "map_of (ng_nodes g) i = Some n" by simp
  from nsw_wf_target [OF assms this n(2)] n(3) show False by contradiction
qed

text \<open>
  Deleting the entry point.  The validation that a snapshot runs after loading accepts a
  well-formed graph exactly if it is empty or its entry point is live; after a soft delete of
  the entry point it reports corruption.
\<close>

theorem validate_edges_wf:
  assumes "nsw_wf g"
  shows "(validate_edges g = Ok () \<longleftrightarrow>
      ng_nodes g = [] \<or> (\<exists>e. ng_entry_point g = Some e \<and> \<not> is_deleted g e)) \<and>
    (\<forall>e. ng_entry_point g = Some e \<longrightarrow>
      validate_edges (snd (nsw_delete g e)) = Err (Corrupt ''entry point is soft-deleted''))"
proof (intro conjI allI impI)
  show "validate_edges g = Ok () \<longleftrightarrow>
      ng_nodes g = [] \<or> (\<exists>e. ng_entry_point g = Some e \<and> \<not> is_deleted g e)"
    unfolding validate_edges_def if_not_P [OF nsw_no_dangling [OF assms]]
    by (auto split: option.split)
  fix e
  assume ep: "ng_entry_point g = Some e"
  let ?g = "snd (nsw_delete g e)"
  have wf: "nsw_wf ?g" by (rule nsw_wf_delete [OF assms surjective_pairing])
  obtain n where "map_of (ng_nodes g) e = Some n" using nsw_wf_entry [OF assms ep] by auto
  then have "ng_entry_point ?g = Some e" "ng_nodes ?g \<noteq> []" "is_deleted ?g e"
    using ep by (auto simp: nsw_delete_def is_deleted_def)
  then show "validate_edges ?g = Err (Corrupt ''entry point is soft-deleted'')"
    unfolding validate_edges_def if_not_P [OF nsw_no_dangling [OF wf]] by simp
qed

theorem validate_edges_wf_witness:
  "validate_edges (snd (nsw_delete nsw_one 1)) = Err (Corrupt ''entry point is soft-deleted'')"
proof -
  have "ng_entry_point nsw_one = Some 1" by code_simp
  with validate_edges_wf [OF nsw_one_wf] show ?thesis by blast
qed

end
