(* ===== verification/Snapshot.thy ===== *)
theory Snapshot
  imports Nsw Fs
begin

text \<open>
  \<open>fs-core/src/vector/snapshot.rs\<close>: the graph as a byte string (compressed sparse rows with a
  CRC-32 over the body), its atomic replacement on disk, and the checked load.  The source
  fills a zeroed buffer region by region; the regions are contiguous and in order, so the
  buffer is their concatenation.  Counts are \<open>u32\<close>; graphs are smaller than that.
\<close>

definition MAGIC :: u32 where "MAGIC = 0xF5C504"
definition SNAPSHOT_FILE :: string where "SNAPSHOT_FILE = ''graph_snapshot.mmap''"
definition SNAPSHOT_TMP :: string where "SNAPSHOT_TMP = ''graph_snapshot.mmap.tmp''"

section \<open>CRC-32\<close>

definition crc32_bit :: "u32 \<Rightarrow> u32" where
  "crc32_bit crc = (if crc AND 1 \<noteq> 0 then drop_bit 1 crc XOR 0xEDB88320 else drop_bit 1 crc)"

definition crc32_byte :: "u32 \<Rightarrow> u8 \<Rightarrow> u32" where
  "crc32_byte crc b = (crc32_bit ^^ 8) (crc XOR ucast b)"

definition crc32_update :: "u32 \<Rightarrow> bytes \<Rightarrow> u32" where
  "crc32_update crc data = foldl crc32_byte crc data"

definition crc32_finalize :: "u32 \<Rightarrow> u32" where
  "crc32_finalize crc = NOT crc"

section \<open>Serialization\<close>

type_synonym csr_node = "node_id \<times> node_id list \<times> bool"

fun csr_offsets :: "u32 \<Rightarrow> csr_node list \<Rightarrow> u32 list" where
  "csr_offsets acc [] = [acc]"
| "csr_offsets acc ((i, nbs, del) # nodes) =
     acc # csr_offsets (acc + word_of_nat (length nbs)) nodes"

definition csr_ids :: "csr_node list \<Rightarrow> bytes" where
  "csr_ids nodes = concat (map (\<lambda>(i, nbs, del). u64_to_le i) nodes)"

definition csr_edges :: "csr_node list \<Rightarrow> bytes" where
  "csr_edges nodes = concat (map (\<lambda>(i, nbs, del). concat (map u64_to_le nbs)) nodes)"

definition csr_flags :: "csr_node list \<Rightarrow> bytes" where
  "csr_flags nodes = map (\<lambda>(i, nbs, del). if del then 1 else 0) nodes"

definition csr_body :: "csr_node list \<Rightarrow> bytes" where
  "csr_body nodes =
     csr_ids nodes @ concat (map u32_to_le (csr_offsets 0 nodes)) @ csr_edges nodes @ csr_flags nodes"

definition csr_edge_count :: "csr_node list \<Rightarrow> u32" where
  "csr_edge_count nodes = sum_list (map (\<lambda>(i, nbs, del). word_of_nat (length nbs)) nodes)"

definition serialize :: "nsw_graph \<Rightarrow> bytes" where
  "serialize g =
     (let nodes = snapshot_nodes_with_deleted g;
          entry = (case ng_entry_point g of None \<Rightarrow> 0 | Some e \<Rightarrow> e);
          body = csr_body nodes;
          crc = crc32_finalize (crc32_update 0xFFFFFFFF body)
      in u32_to_le MAGIC @ u32_to_le (word_of_nat (length nodes)) @ u32_to_le (csr_edge_count nodes) @
         u64_to_le entry @ u32_to_le crc @ [0, 0, 0, 0] @ body)"

definition persist :: "fs \<Rightarrow> bytes \<Rightarrow> fs" where
  "persist d bytes = atomic_write d SNAPSHOT_TMP SNAPSHOT_FILE bytes"

section \<open>Loading\<close>

definition read_u32_at :: "bytes \<Rightarrow> nat \<Rightarrow> nat" where
  "read_u32_at bs off = unat (u32_from_le (slice bs off 4))"

definition read_u64_at :: "bytes \<Rightarrow> nat \<Rightarrow> u64" where
  "read_u64_at bs off = u64_from_le (slice bs off 8)"

text \<open>One turn of the loop over the nodes; the arguments are the region offsets.\<close>

definition load_node :: "bytes \<Rightarrow> nat \<Rightarrow> nat \<Rightarrow> nat \<Rightarrow> nat \<Rightarrow> nat \<Rightarrow> nat \<Rightarrow> csr_node res" where
  "load_node bs ids_off offsets_off edges_off flags_off edge_count i =
     (let lo = read_u32_at bs (offsets_off + i * 4);
          hi = read_u32_at bs (offsets_off + (i + 1) * 4)
      in if hi < lo \<or> hi > edge_count then Err (Corrupt ''node edge range invalid'')
         else Ok (read_u64_at bs (ids_off + i * 8),
                  map (\<lambda>j. read_u64_at bs (edges_off + j * 8)) [lo ..< hi],
                  bs ! (flags_off + i) \<noteq> 0))"

fun load_nodes :: "(nat \<Rightarrow> csr_node res) \<Rightarrow> nat list \<Rightarrow> nsw_graph \<Rightarrow> nsw_graph res" where
  "load_nodes rd [] g = Ok g"
| "load_nodes rd (i # is) g =
     res_bind (rd i) (\<lambda>(nid, nbs, del). load_nodes rd is (restore_node g nid nbs del))"

definition load_bytes :: "bytes \<Rightarrow> nsw_graph option res" where
  "load_bytes bs =
     (if length bs < 28 then Err (Corrupt ''graph snapshot too small'')
      else if u32_from_le (slice bs 0 4) \<noteq> MAGIC then Err (Corrupt ''graph snapshot magic mismatch'')
      else
        let node_count = read_u32_at bs 4;
            edge_count = read_u32_at bs 8;
            entry_point = read_u64_at bs 12;
            stored_crc = u32_from_le (slice bs 20 4);
            ids_off = 28;
            offsets_off = ids_off + node_count * 8;
            edges_off = offsets_off + (node_count + 1) * 4;
            flags_off = edges_off + edge_count * 8;
            total = flags_off + node_count
        in if length bs < total then Err (Corrupt ''graph snapshot truncated'')
           else if crc32_finalize (crc32_update 0xFFFFFFFF (slice bs ids_off (total - ids_off))) \<noteq> stored_crc
           then Err (Corrupt ''graph snapshot crc mismatch'')
           else if node_count = 0 then Ok (Some nsw_new)
           else res_bind
             (load_nodes (load_node bs ids_off offsets_off edges_off flags_off edge_count)
                [0 ..< node_count] nsw_new)
             (\<lambda>g. let g' = restore_entry_point g entry_point
                  in res_bind (validate_edges g') (\<lambda>u. Ok (Some g'))))"

definition snapshot_load :: "fs \<Rightarrow> nsw_graph option res" where
  "snapshot_load d =
     (case fs_read d SNAPSHOT_FILE of None \<Rightarrow> Ok None | Some bs \<Rightarrow> load_bytes bs)"

section \<open>Slices of concatenated regions\<close>

lemma slice_append_right: "slice (xs @ ys) (length xs + j) n = slice ys j n"
  by (simp add: slice_def)

lemma slice_chunk:
  "\<forall>x \<in> set xss. length x = k \<Longrightarrow> i < length xss \<Longrightarrow> slice (concat xss) (i * k) k = xss ! i"
proof (induction xss arbitrary: i)
  case (Cons x xss)
  show ?case
  proof (cases i)
    case 0
    with Cons.prems show ?thesis by (simp add: slice_def)
  next
    case (Suc j)
    then have "slice (concat (x # xss)) (i * k) k = slice (x @ concat xss) (length x + j * k) k"
      using Cons.prems by simp
    also have "\<dots> = slice (concat xss) (j * k) k" by (rule slice_append_right)
    finally show ?thesis using Cons.IH [of j] Cons.prems Suc by simp
  qed
qed simp

lemma length_concat_chunks: "\<forall>x \<in> set xss. length x = k \<Longrightarrow> length (concat xss) = length xss * k"
  by (induction xss) auto

lemma slice_append_chunk:
  assumes "\<forall>x \<in> set xss. length x = k" "i < length xss" "off = length pre + i * k"
  shows "slice (pre @ concat xss @ post) off k = xss ! i"
proof -
  have "i * k + k \<le> length (concat xss)"
    unfolding length_concat_chunks [OF assms(1)]
    using assms(2) by (metis Suc_leI add.commute mult_Suc mult_le_mono1)
  with slice_chunk [OF assms(1,2)] show ?thesis
    unfolding assms(3) slice_append_right by (simp add: slice_append_left)
qed

lemma map_nth_segment:
  "map (\<lambda>j. (pre @ xs @ post) ! j) [length pre ..< length pre + length xs] = xs"
  by (rule nth_equalityI) (auto simp: nth_append)

lemma concat_map_concat_chunks:
  "concat (map (\<lambda>x. concat (map f (h x))) xs) = concat (map f (concat (map h xs)))"
  by (induction xs) auto

section \<open>The body\<close>

lemma length_csr [simp]:
  "length (csr_ids nodes) = length nodes * 8" "length (csr_offsets acc nodes) = Suc (length nodes)"
  "length (csr_flags nodes) = length nodes"
  "length (csr_edges nodes) = length (concat (map (fst \<circ> snd) nodes)) * 8"
proof -
  show "length (csr_ids nodes) = length nodes * 8"
    by (induction nodes) (auto simp: csr_ids_def)
  show "length (csr_offsets acc nodes) = Suc (length nodes)"
    by (induction acc nodes rule: csr_offsets.induct) auto
  show "length (csr_flags nodes) = length nodes" by (simp add: csr_flags_def)
  have "length (concat (map u64_to_le xs)) = length xs * 8" for xs
    by (induction xs) auto
  then show "length (csr_edges nodes) = length (concat (map (fst \<circ> snd) nodes)) * 8"
    by (induction nodes) (auto simp: csr_edges_def algebra_simps)
qed

definition edge_prefix :: "csr_node list \<Rightarrow> nat \<Rightarrow> nat" where
  "edge_prefix nodes i = length (concat (map (fst \<circ> snd) (take i nodes)))"

lemma csr_offsets_nth:
  "i \<le> length nodes \<Longrightarrow> csr_offsets acc nodes ! i = acc + word_of_nat (edge_prefix nodes i)"
proof (induction acc nodes arbitrary: i rule: csr_offsets.induct)
  case (2 acc j nbs del nodes)
  then show ?case by (cases i) (auto simp: edge_prefix_def algebra_simps)
qed (simp add: edge_prefix_def)

lemma csr_edge_count_eq: "csr_edge_count nodes = word_of_nat (length (concat (map (fst \<circ> snd) nodes)))"
  by (induction nodes) (auto simp: csr_edge_count_def)

lemma edge_prefix_le: "edge_prefix nodes i \<le> length (concat (map (fst \<circ> snd) nodes))"
proof -
  have "concat (map (fst \<circ> snd) nodes) =
      concat (map (fst \<circ> snd) (take i nodes)) @ concat (map (fst \<circ> snd) (drop i nodes))"
    by (metis append_take_drop_id concat_append map_append)
  then show ?thesis by (simp add: edge_prefix_def)
qed

lemma csr_edges_flat: "csr_edges nodes = concat (map u64_to_le (concat (map (fst \<circ> snd) nodes)))"
  unfolding csr_edges_def concat_map_concat_chunks [symmetric]
  by (simp add: case_prod_unfold comp_def)

lemma csr_node_split:
  assumes "i < length nodes"
  shows "concat (map (fst \<circ> snd) nodes) = concat (map (fst \<circ> snd) (take i nodes)) @
      fst (snd (nodes ! i)) @ concat (map (fst \<circ> snd) (drop (Suc i) nodes))"
    "edge_prefix nodes (Suc i) = edge_prefix nodes i + length (fst (snd (nodes ! i)))"
proof -
  have nodes: "nodes = take i nodes @ nodes ! i # drop (Suc i) nodes"
    using assms by (rule id_take_nth_drop)
  show "concat (map (fst \<circ> snd) nodes) = concat (map (fst \<circ> snd) (take i nodes)) @
      fst (snd (nodes ! i)) @ concat (map (fst \<circ> snd) (drop (Suc i) nodes))"
    by (subst nodes) simp
  show "edge_prefix nodes (Suc i) = edge_prefix nodes i + length (fst (snd (nodes ! i)))"
    using assms by (simp add: edge_prefix_def take_Suc_conv_app_nth)
qed

text \<open>Reading one node back from a buffer that holds a body after a header.\<close>

lemma load_node_body:
  fixes hdr :: bytes and nodes :: "csr_node list"
  assumes hdr: "length hdr = 28" and i: "i < length nodes"
    and fit: "length (concat (map (fst \<circ> snd) nodes)) \<le> U32_MAX"
  defines "n \<equiv> length nodes" and "m \<equiv> length (concat (map (fst \<circ> snd) nodes))"
  shows "load_node (hdr @ csr_body nodes) 28 (28 + n * 8) (28 + n * 8 + (n + 1) * 4)
      (28 + n * 8 + (n + 1) * 4 + m * 8) m i = Ok (nodes ! i)"
proof -
  let ?ids = "map (\<lambda>(i, nbs, del). u64_to_le i) nodes"
  let ?offs = "map u32_to_le (csr_offsets 0 nodes)"
  let ?E = "concat (map (fst \<circ> snd) nodes)"
  let ?edges = "map u64_to_le ?E"
  let ?bs = "hdr @ csr_body nodes"
  let ?lo = "edge_prefix nodes i" and ?hi = "edge_prefix nodes (Suc i)"
  have lens: "length (concat ?ids) = n * 8" "length (concat ?offs) = (n + 1) * 4"
    "length (concat ?edges) = m * 8"
    using length_csr(1) [of nodes] length_csr(4) [of nodes]
    by (simp_all add: csr_ids_def csr_edges_flat n_def m_def length_concat_chunks [where k = 4])
  have bs: "?bs = hdr @ concat ?ids @ (concat ?offs @ concat ?edges @ csr_flags nodes)"
    "?bs = (hdr @ concat ?ids) @ concat ?offs @ (concat ?edges @ csr_flags nodes)"
    "?bs = (hdr @ concat ?ids @ concat ?offs) @ concat ?edges @ csr_flags nodes"
    "?bs = (hdr @ concat ?ids @ concat ?offs @ concat ?edges) @ csr_flags nodes"
    by (simp_all add: csr_body_def csr_ids_def csr_edges_flat)
  have "slice ?bs (28 + i * 8) 8 = ?ids ! i"
    by (subst bs(1), rule slice_append_chunk) (use i hdr in auto)
  then have nid: "read_u64_at ?bs (28 + i * 8) = fst (nodes ! i)"
    using i by (simp add: read_u64_at_def case_prod_unfold)
  have off: "read_u32_at ?bs (28 + n * 8 + k * 4) = edge_prefix nodes k" if "k \<le> n" for k
  proof -
    have "slice ?bs (28 + n * 8 + k * 4) 4 = ?offs ! k"
      by (subst bs(2), rule slice_append_chunk) (use that hdr lens in \<open>auto simp: n_def\<close>)
    moreover have "?offs ! k = u32_to_le (word_of_nat (edge_prefix nodes k))"
      using that by (simp add: csr_offsets_nth n_def del: of_nat_Suc)
    moreover have "edge_prefix nodes k \<le> U32_MAX"
      using edge_prefix_le [of nodes k] fit by linarith
    ultimately show ?thesis by (simp add: read_u32_at_def unat_u32_of_nat)
  qed
  have edge: "read_u64_at ?bs (28 + n * 8 + (n + 1) * 4 + j * 8) = ?E ! j" if "j < m" for j
  proof -
    have "slice ?bs (28 + n * 8 + (n + 1) * 4 + j * 8) 8 = ?edges ! j"
      by (subst bs(3), rule slice_append_chunk) (use that hdr lens in \<open>auto simp: m_def\<close>)
    with that show ?thesis by (simp add: read_u64_at_def m_def)
  qed
  note split = csr_node_split [OF i]
  have hi: "?hi \<le> m" unfolding m_def by (rule edge_prefix_le)
  have "map (\<lambda>j. read_u64_at ?bs (28 + n * 8 + (n + 1) * 4 + j * 8)) [?lo ..< ?hi] = map ((!) ?E) [?lo ..< ?hi]"
    using hi edge by (intro map_cong) auto
  also have "\<dots> = fst (snd (nodes ! i))"
    unfolding split using map_nth_segment [of "concat (map (fst \<circ> snd) (take i nodes))"]
    by (simp add: edge_prefix_def)
  finally have nbs: "map (\<lambda>j. read_u64_at ?bs (28 + n * 8 + (n + 1) * 4 + j * 8)) [?lo ..< ?hi]
      = fst (snd (nodes ! i))" .
  have "?bs ! (28 + n * 8 + (n + 1) * 4 + m * 8 + i) = csr_flags nodes ! i"
  proof -
    have len: "length (hdr @ concat ?ids @ concat ?offs @ concat ?edges) =
        28 + n * 8 + (n + 1) * 4 + m * 8"
      using hdr lens by simp
    show ?thesis
      unfolding len [symmetric] bs(4) by (rule nth_append_length_plus)
  qed
  then have flag: "(?bs ! (28 + n * 8 + (n + 1) * 4 + m * 8 + i) \<noteq> 0) = snd (snd (nodes ! i))"
    using i by (simp add: csr_flags_def case_prod_unfold)
  have lo: "read_u32_at ?bs (28 + n * 8 + i * 4) = ?lo" "read_u32_at ?bs (28 + n * 8 + (i + 1) * 4) = ?hi"
    using off [of i] off [of "i + 1"] i by (simp_all add: n_def)
  show ?thesis
    unfolding load_node_def Let_def lo nid nbs flag using hi split(2) by simp
qed

lemma update_fresh: "k \<notin> fst ` set al \<Longrightarrow> AList.update k v al = al @ [(k, v)]"
  by (induction al) auto

definition csr_restore :: "csr_node \<Rightarrow> node_id \<times> node" where
  "csr_restore x = (fst x, \<lparr>nd_deleted = snd (snd x), nd_neighbors = fst (snd x)\<rparr>)"

lemma load_nodes_all:
  assumes "\<And>i. i < length nodes \<Longrightarrow> rd i = Ok (nodes ! i)" "distinct (map fst nodes)"
    and "k \<le> length nodes" "ng_nodes g = map csr_restore (take k nodes)" "ng_entry_point g = None"
  shows "load_nodes rd [k ..< length nodes] g =
    Ok \<lparr>ng_nodes = map csr_restore nodes, ng_entry_point = None\<rparr>"
  using assms(3-5)
proof (induction "length nodes - k" arbitrary: k g)
  case 0
  then show ?case by (cases g) simp
next
  case (Suc d)
  then have k: "k < length nodes" by simp
  obtain nid nbs del where nk: "nodes ! k = (nid, nbs, del)" by (metis prod_cases3)
  have "distinct (map fst (take (Suc k) nodes))"
    using distinct_take [OF assms(2), of "Suc k"] by (simp add: take_map)
  then have "nid \<notin> fst ` set (take k nodes)"
    using k nk by (simp add: take_Suc_conv_app_nth)
  then have fresh: "nid \<notin> fst ` set (ng_nodes g)"
    using Suc.prems(2) by (force simp: csr_restore_def)
  let ?g = "restore_node g nid nbs del"
  have "ng_nodes ?g = map csr_restore (take (Suc k) nodes)"
    using Suc.prems(2) k nk update_fresh [OF fresh]
    by (simp add: restore_node_def take_Suc_conv_app_nth csr_restore_def)
  moreover have "ng_entry_point ?g = None" using Suc.prems(3) by (simp add: restore_node_def)
  ultimately have "load_nodes rd [Suc k ..< length nodes] ?g =
      Ok \<lparr>ng_nodes = map csr_restore nodes, ng_entry_point = None\<rparr>"
    using Suc.hyps k by simp
  with k nk assms(1) [OF k] show ?case by (simp add: upt_conv_Cons)
qed

lemma csr_restore_snapshot: "map csr_restore (snapshot_nodes_with_deleted g) = ng_nodes g"
  by (simp add: snapshot_nodes_with_deleted_def csr_restore_def comp_def case_prod_unfold)
    (rule map_idI, simp add: prod_eq_iff)

lemma map_fst_snapshot: "map fst (snapshot_nodes_with_deleted g) = map fst (ng_nodes g)"
  by (simp add: snapshot_nodes_with_deleted_def comp_def case_prod_unfold)

definition snapshot_fits :: "nsw_graph \<Rightarrow> bool" where
  "snapshot_fits g \<longleftrightarrow> length (ng_nodes g) \<le> U32_MAX \<and>
     length (concat (map (fst \<circ> snd) (snapshot_nodes_with_deleted g))) \<le> U32_MAX"

definition snapshot_header :: "nsw_graph \<Rightarrow> bytes" where
  "snapshot_header g =
     (let nodes = snapshot_nodes_with_deleted g in
      u32_to_le MAGIC @ u32_to_le (word_of_nat (length nodes)) @ u32_to_le (csr_edge_count nodes) @
      u64_to_le (case ng_entry_point g of None \<Rightarrow> 0 | Some e \<Rightarrow> e) @
      u32_to_le (crc32_finalize (crc32_update 0xFFFFFFFF (csr_body nodes))) @ [0, 0, 0, 0])"

lemma serialize_eq: "serialize g = snapshot_header g @ csr_body (snapshot_nodes_with_deleted g)"
  by (simp add: serialize_def snapshot_header_def Let_def)

lemma header_fields:
  assumes "snapshot_fits g"
  defines "nodes \<equiv> snapshot_nodes_with_deleted g"
  shows "length (snapshot_header g) = 28"
    "slice (snapshot_header g @ body) 0 4 = u32_to_le MAGIC"
    "read_u32_at (snapshot_header g @ body) 4 = length nodes"
    "read_u32_at (snapshot_header g @ body) 8 = length (concat (map (fst \<circ> snd) nodes))"
    "read_u64_at (snapshot_header g @ body) 12 = (case ng_entry_point g of None \<Rightarrow> 0 | Some e \<Rightarrow> e)"
    "slice (snapshot_header g @ body) 20 4 =
       u32_to_le (crc32_finalize (crc32_update 0xFFFFFFFF (csr_body nodes)))"
proof -
  have "length nodes \<le> U32_MAX" "length (concat (map (fst \<circ> snd) nodes)) \<le> U32_MAX"
    using assms(1) by (simp_all add: snapshot_fits_def nodes_def snapshot_nodes_with_deleted_def)
  then have u: "unat (word_of_nat (length nodes) :: u32) = length nodes"
    "unat (csr_edge_count nodes) = length (concat (map (fst \<circ> snd) nodes))"
    by (simp_all only: unat_u32_of_nat csr_edge_count_eq)
  show "length (snapshot_header g) = 28" by (simp add: snapshot_header_def Let_def)
  show "slice (snapshot_header g @ body) 0 4 = u32_to_le MAGIC"
    "slice (snapshot_header g @ body) 20 4 =
       u32_to_le (crc32_finalize (crc32_update 0xFFFFFFFF (csr_body nodes)))"
    by (simp_all add: snapshot_header_def slice_def Let_def nodes_def)
  show "read_u32_at (snapshot_header g @ body) 4 = length nodes"
    "read_u32_at (snapshot_header g @ body) 8 = length (concat (map (fst \<circ> snd) nodes))"
    using u by (simp_all add: read_u32_at_def snapshot_header_def slice_def Let_def nodes_def)
  show "read_u64_at (snapshot_header g @ body) 12 = (case ng_entry_point g of None \<Rightarrow> 0 | Some e \<Rightarrow> e)"
    by (simp add: read_u64_at_def snapshot_header_def slice_def Let_def)
qed

lemma length_csr_body:
  "length (csr_body nodes) =
     length nodes * 8 + (length nodes + 1) * 4 + length (concat (map (fst \<circ> snd) nodes)) * 8 + length nodes"
  by (simp add: csr_body_def length_concat_chunks [where k = 4])

text \<open>
  What \<open>load\<close> makes of a buffer with the header of \<open>g\<close> and a body of the right length: the
  checks before the checksum pass.
\<close>

lemma load_bytes_header:
  assumes fits: "snapshot_fits g" and len: "length body = length (csr_body (snapshot_nodes_with_deleted g))"
  defines "nodes \<equiv> snapshot_nodes_with_deleted g"
  defines "n \<equiv> length nodes" and "m \<equiv> length (concat (map (fst \<circ> snd) nodes))"
  defines "bs \<equiv> snapshot_header g @ body"
  shows "load_bytes bs =
    (if crc32_update 0xFFFFFFFF body \<noteq> crc32_update 0xFFFFFFFF (csr_body nodes)
     then Err (Corrupt ''graph snapshot crc mismatch'')
     else if n = 0 then Ok (Some nsw_new)
     else res_bind
       (load_nodes (load_node bs 28 (28 + n * 8) (28 + n * 8 + (n + 1) * 4)
          (28 + n * 8 + (n + 1) * 4 + m * 8) m) [0 ..< n] nsw_new)
       (\<lambda>g'. let g'' = restore_entry_point g' (case ng_entry_point g of None \<Rightarrow> 0 | Some e \<Rightarrow> e)
            in res_bind (validate_edges g'') (\<lambda>u. Ok (Some g''))))"
proof -
  note h1 = header_fields(1) [OF fits]
  note h = header_fields(2-6) [OF fits, where body = body, folded nodes_def n_def m_def bs_def]
  have total: "length body = n * 8 + (n + 1) * 4 + m * 8 + n"
    using len by (simp only: length_csr_body n_def m_def nodes_def)
  then have bs: "length bs = 28 + n * 8 + (n + 1) * 4 + m * 8 + n" "length bs \<ge> 28"
    using h1 by (simp_all add: bs_def)
  have body: "slice bs 28 (28 + n * 8 + (n + 1) * 4 + m * 8 + n - 28) = body"
    using slice_append_right [of "snapshot_header g" body 0 "length body"] h1 total
    by (simp add: bs_def slice_def)
  have crc: "crc32_finalize a = crc32_finalize b \<longleftrightarrow> a = b" for a b
    by (metis bit.double_compl crc32_finalize_def)
  show ?thesis
    unfolding load_bytes_def Let_def h(2) h(3) [folded m_def] h(4) body
    using bs h(1,5) by (simp add: crc Let_def)
qed

section \<open>The checksum\<close>

lemma crc32_bit_top: "bit (crc32_bit c) 31 \<longleftrightarrow> bit c 0"
proof -
  have "\<not> bit (drop_bit 1 c) 31" by (auto simp: bit_drop_bit_eq dest: bit_imp_le_length)
  moreover have "bit (0xEDB88320 :: u32) 31" by simp
  moreover have "c AND 1 \<noteq> 0 \<longleftrightarrow> bit c 0" by (simp add: and_one_eq odd_iff_mod_2_eq_one bit_0)
  ultimately show ?thesis by (simp add: crc32_bit_def bit_xor_iff del: One_nat_def)
qed

lemma inj_crc32_bit: "inj crc32_bit"
proof (rule injI, rule bit_word_eqI)
  fix a b :: u32 and n
  assume eq: "crc32_bit a = crc32_bit b" and n: "n < LENGTH(32)"
  have low: "bit a 0 = bit b 0" using eq by (metis crc32_bit_top)
  have "c AND 1 \<noteq> 0 \<longleftrightarrow> bit c 0" for c :: u32
    by (simp add: and_one_eq odd_iff_mod_2_eq_one bit_0)
  with eq low have "drop_bit 1 a = drop_bit 1 b"
    unfolding crc32_bit_def by (auto simp: word_xor_cancel_right split: if_splits)
  then have "bit (drop_bit 1 a) k = bit (drop_bit 1 b) k" for k by simp
  with low show "bit a n = bit b n"
    by (cases n) (simp_all add: bit_drop_bit_eq)
qed

lemma inj_crc32_bits: "inj (crc32_bit ^^ k)"
  by (rule inj_fn [OF inj_crc32_bit])

lemma crc32_byte_inj_crc: "crc32_byte c b = crc32_byte c' b \<longleftrightarrow> c = c'"
proof
  assume "crc32_byte c b = crc32_byte c' b"
  then have "c XOR ucast b = c' XOR ucast b"
    unfolding crc32_byte_def by (rule injD [OF inj_crc32_bits])
  then show "c = c'" by (simp only: word_xor_cancel_right)
qed simp

lemma crc32_byte_inj_byte: "crc32_byte c b = crc32_byte c b' \<longleftrightarrow> b = b'"
proof
  assume "crc32_byte c b = crc32_byte c b'"
  then have "c XOR ucast b = c XOR ucast b'"
    unfolding crc32_byte_def by (rule injD [OF inj_crc32_bits])
  then have "(ucast b :: u32) = ucast b'" by (simp only: word_xor_cancel_left)
  then have "unat (ucast b :: u32) = unat (ucast b' :: u32)" by simp
  then have "unat b = unat b'"
    using unat_u8_less [of b] unat_u8_less [of b']
    by (simp add: unsigned_ucast_eq take_bit_nat_eq_self)
  then show "b = b'" by (simp only: word_unat_eq_iff)
qed simp

lemma crc32_update_inj: "crc32_update c data = crc32_update c' data \<longleftrightarrow> c = c'"
  by (induction data arbitrary: c c') (simp_all add: crc32_update_def crc32_byte_inj_crc)

lemma crc32_detects_byte:
  assumes "i < length data" "data ! i \<noteq> b"
  shows "crc32_update c (data[i := b]) \<noteq> crc32_update c data"
proof -
  have d: "data = take i data @ data ! i # drop (Suc i) data" "data[i := b] = take i data @ b # drop (Suc i) data"
    using assms(1) by (simp_all add: id_take_nth_drop upd_conv_take_nth_drop)
  have split: "crc32_update c (xs @ y # ys) = crc32_update (crc32_byte (crc32_update c xs) y) ys" for xs y ys
    by (simp add: crc32_update_def)
  show ?thesis
    using assms(2) unfolding d(2) by (subst (2) d(1)) (simp add: split crc32_update_inj crc32_byte_inj_byte)
qed

section \<open>Round trip\<close>

lemma load_serialize:
  assumes wf: "nsw_wf g" and fits: "snapshot_fits g"
  shows "load_bytes (serialize g) =
    (if ng_nodes g = [] \<or> (\<exists>e. ng_entry_point g = Some e \<and> \<not> is_deleted g e) then Ok (Some g)
     else Err (Corrupt ''entry point is soft-deleted''))"
proof -
  let ?nodes = "snapshot_nodes_with_deleted g"
  let ?n = "length ?nodes" and ?m = "length (concat (map (fst \<circ> snd) ?nodes))"
  let ?rd = "load_node (serialize g) 28 (28 + ?n * 8) (28 + ?n * 8 + (?n + 1) * 4)
      (28 + ?n * 8 + (?n + 1) * 4 + ?m * 8) ?m"
  note lb = load_bytes_header [OF fits refl, folded serialize_eq]
  have n: "?n = length (ng_nodes g)" by (simp add: snapshot_nodes_with_deleted_def)
  show ?thesis
  proof (cases "ng_nodes g = []")
    case True
    then have "ng_entry_point g = None"
      using nsw_wf_entry [OF wf] by (cases "ng_entry_point g") auto
    with True have "g = nsw_new" by (simp add: nsw_new_def)
    with True n lb show ?thesis by simp
  next
    case False
    then obtain e where e: "ng_entry_point g = Some e"
      using nsw_wf_no_entry [OF wf] by (cases "ng_entry_point g") auto
    have "load_nodes ?rd [0 ..< ?n] nsw_new = Ok \<lparr>ng_nodes = map csr_restore ?nodes, ng_entry_point = None\<rparr>"
    proof (rule load_nodes_all)
      show "?rd i = Ok (?nodes ! i)" if "i < length ?nodes" for i
        unfolding serialize_eq
        by (rule load_node_body [OF header_fields(1) [OF fits] that])
          (use fits in \<open>simp add: snapshot_fits_def\<close>)
      show "distinct (map fst ?nodes)"
        using nsw_wf_distinct [OF wf] by (simp add: map_fst_snapshot)
    qed (simp_all add: nsw_new_def)
    then have ln: "load_nodes ?rd [0 ..< ?n] nsw_new = Ok \<lparr>ng_nodes = ng_nodes g, ng_entry_point = None\<rparr>"
      by (simp only: csr_restore_snapshot)
    have re: "restore_entry_point \<lparr>ng_nodes = ng_nodes g, ng_entry_point = None\<rparr> e = g"
      using nsw_wf_entry [OF wf e] e by (simp add: restore_entry_point_def)
    have ve: "validate_edges g = (if is_deleted g e then Err (Corrupt ''entry point is soft-deleted'') else Ok ())"
      unfolding validate_edges_def if_not_P [OF nsw_no_dangling [OF wf]] using False e by simp
    have "?n \<noteq> 0" using False n by simp
    then show ?thesis
      unfolding lb ln e option.case res_bind.simps Let_def re ve using False by simp
  qed
qed

section \<open>Properties\<close>

text \<open>
  Snapshots (C27).  Persisting a well-formed graph and loading it gives the same graph back,
  nodes, edges, deletion marks and entry point, unless its entry point is soft-deleted:
  then the load reports corruption.
\<close>

theorem snapshot_roundtrip:
  assumes "nsw_wf g" "snapshot_fits g"
  shows "snapshot_load (persist d (serialize g)) =
    (if ng_nodes g = [] \<or> (\<exists>e. ng_entry_point g = Some e \<and> \<not> is_deleted g e) then Ok (Some g)
     else Err (Corrupt ''entry point is soft-deleted''))"
  by (simp add: snapshot_load_def persist_def atomic_write_read load_serialize [OF assms])

lemma nsw_one_fits: "snapshot_fits nsw_one" "snapshot_fits (snd (nsw_delete nsw_one 1))"
  by code_simp+

theorem snapshot_roundtrip_witness:
  "snapshot_load (persist fs_empty (serialize nsw_one)) = Ok (Some nsw_one) \<and>
   snapshot_load (persist fs_empty (serialize (snd (nsw_delete nsw_one 1)))) =
     Err (Corrupt ''entry point is soft-deleted'')"
proof -
  have live: "ng_entry_point nsw_one = Some 1" "\<not> is_deleted nsw_one 1"
    and del: "ng_nodes (snd (nsw_delete nsw_one 1)) \<noteq> []"
      "ng_entry_point (snd (nsw_delete nsw_one 1)) = Some 1" "is_deleted (snd (nsw_delete nsw_one 1)) 1"
    by code_simp+
  have "nsw_wf (snd (nsw_delete nsw_one 1))"
    by (rule nsw_wf_delete [OF nsw_one_wf surjective_pairing])
  then show ?thesis
    using snapshot_roundtrip [OF nsw_one_wf nsw_one_fits(1), of fs_empty]
      snapshot_roundtrip [OF _ nsw_one_fits(2), of fs_empty] live del by auto
qed

text \<open>
  Crashes while a snapshot is replaced.  In every state that a crash inside \<open>persist\<close> can
  leave, loading gives what it gave before or what it gives after the complete \<open>persist\<close>.
\<close>

theorem persist_crash_atomic:
  assumes "fs_ok d" "d' \<in> set (atomic_write_states d SNAPSHOT_TMP SNAPSHOT_FILE (serialize g))"
  shows "snapshot_load d' = snapshot_load d \<or> snapshot_load d' = snapshot_load (persist d (serialize g))"
proof -
  have "SNAPSHOT_TMP \<noteq> SNAPSHOT_FILE" by (simp add: SNAPSHOT_TMP_def SNAPSHOT_FILE_def)
  from atomic_write_crash_states [OF assms(1) this assms(2)] show ?thesis
    by (auto simp: snapshot_load_def persist_def atomic_write_read)
qed

theorem persist_crash_atomic_witness:
  "snapshot_load (fs_write fs_empty SNAPSHOT_TMP [4, 197]) = snapshot_load fs_empty \<or>
   snapshot_load (fs_write fs_empty SNAPSHOT_TMP [4, 197]) =
     snapshot_load (persist fs_empty (serialize nsw_one))"
proof (rule persist_crash_atomic [OF fs_ok_empty])
  have "take 2 (u32_to_le MAGIC) = [4, 197]" by code_simp
  then have "take 2 (serialize nsw_one) = [4, 197]" by (simp add: serialize_def Let_def)
  moreover have "2 < Suc (length (serialize nsw_one))"
    using header_fields(1) [OF nsw_one_fits(1)] by (simp add: serialize_eq)
  ultimately show "fs_write fs_empty SNAPSHOT_TMP [4, 197] \<in>
      set (atomic_write_states fs_empty SNAPSHOT_TMP SNAPSHOT_FILE (serialize nsw_one))"
    by (auto simp: atomic_write_states_def simp del: upt_Suc intro!: image_eqI [of _ _ 2])
qed

text \<open>
  Corruption of the body (C28).  Changing any single byte of the ids, offsets, edges or flags
  of a snapshot to any other value is detected: the load fails with a checksum mismatch.
\<close>

theorem snapshot_corruption_detected:
  assumes "snapshot_fits g" "28 \<le> i" "i < length (serialize g)" "serialize g ! i \<noteq> b"
  shows "load_bytes ((serialize g)[i := b]) = Err (Corrupt ''graph snapshot crc mismatch'')"
proof -
  let ?body = "csr_body (snapshot_nodes_with_deleted g)"
  note h = header_fields(1) [OF assms(1)]
  have i: "i - 28 < length ?body" "?body ! (i - 28) \<noteq> b"
    using assms(2-4) h by (simp_all add: serialize_eq nth_append)
  have "(serialize g)[i := b] = snapshot_header g @ ?body[i - 28 := b]"
    using assms(2) h by (simp add: serialize_eq list_update_append)
  with load_bytes_header [OF assms(1), of "?body[i - 28 := b]"] crc32_detects_byte [OF i]
  show ?thesis by simp
qed

theorem snapshot_corruption_detected_witness:
  "load_bytes ((serialize nsw_one)[30 := 9]) = Err (Corrupt ''graph snapshot crc mismatch'')"
proof (rule snapshot_corruption_detected [OF nsw_one_fits(1)])
  let ?body = "csr_body (snapshot_nodes_with_deleted nsw_one)"
  have "length ?body = 17" "?body ! 2 = 0" by code_simp+
  then show "30 < length (serialize nsw_one)" "serialize nsw_one ! 30 \<noteq> 9"
    using header_fields(1) [OF nsw_one_fits(1)] by (simp_all add: serialize_eq nth_append)
qed simp

end
