(* ===== verification/Vec_Index.thy ===== *)
theory Vec_Index
  imports Vec_Pool Snapshot Heed
begin

text \<open>
  \<open>fs-core/src/vector/store.rs\<close>, second half, and \<open>fs-core/src/compact.rs\<close>: the vector index of
  one namespace.  A vector is stored in the pool, its locator in the \<open>heed\<close> database
  \<open>vec_locators\<close> and in a cache in memory, its node in the graph.  The schema is in the unnamed
  database (\<open>''''\<close> here).  \<open>heed\<close>, \<open>serde_json\<close>, the arithmetic, the iteration order of a
  \<open>HashMap\<close>, the clock, the reference counts and \<open>statvfs\<close> are arguments.

  A distance closure reads through the caches of the index.  What it reads does not depend on
  them, so the model evaluates the closure in the state in which the traversal starts and leaves
  out the entries that the traversal adds to the caches.  The vectors of the graph have the
  dimension of the schema, so the kernels get slices of equal length.
\<close>

definition VEC_LOCATOR_DB :: string where "VEC_LOCATOR_DB = ''vec_locators''"
definition SCHEMA_KEY :: bytes where "SCHEMA_KEY = [115, 99, 104, 101, 109, 97]"
definition F32_INFINITY :: f32 where "F32_INFINITY = 0x7F800000"

record vec_serde =
  vj_loc_to_vec :: "value_locator \<Rightarrow> bytes"
  vj_loc_from_slice :: "bytes \<Rightarrow> value_locator option"
  vj_schema_to_vec :: "vector_schema \<Rightarrow> bytes"
  vj_schema_from_slice :: "bytes \<Rightarrow> vector_schema option"

record 'h vec_ctx =
  vc_heed :: "'h heed"
  vc_serde :: vec_serde
  vc_neon :: bool
  vc_arith :: f32_arith
  vc_order :: "(u64 \<times> f32 list) list \<Rightarrow> (u64 \<times> f32 list) list"

record 'h vector_index =
  vi_schema :: vector_schema
  vi_env :: 'h
  vi_pool :: vec_segment_pool
  vi_graph :: nsw_graph
  vi_locators :: "(u64 \<times> value_locator) list"
  vi_read_error :: bool

section \<open>Locators\<close>

fun load_entries :: "vec_serde \<Rightarrow> (bytes \<times> bytes) list \<Rightarrow> (u64 \<times> value_locator) list
    \<Rightarrow> (u64 \<times> value_locator) list res" where
  "load_entries J [] cache = Ok cache"
| "load_entries J ((key, val) # rest) cache =
     (if length key < 8 then Panic
      else case vj_loc_from_slice J val of
             None \<Rightarrow> Err SerdeJson
           | Some loc \<Rightarrow> load_entries J rest (AList.update (u64_from_le (take 8 key)) loc cache))"

definition load_locator_cache :: "'h vec_ctx \<Rightarrow> 'h \<Rightarrow> (u64 \<times> value_locator) list res" where
  "load_locator_cache C h =
     res_bind (heed_res (hd_read_txn (vc_heed C) h)) (\<lambda>u.
     res_bind (heed_res (hd_iter (vc_heed C) h VEC_LOCATOR_DB)) (\<lambda>kvs.
       load_entries (vc_serde C) kvs []))"

definition get_locator :: "'h vec_ctx \<Rightarrow> 'h \<Rightarrow> u64 \<Rightarrow> value_locator option res" where
  "get_locator C h i =
     res_bind (heed_res (hd_get (vc_heed C) h VEC_LOCATOR_DB (u64_to_le i))) (\<lambda>v.
       case v of
         None \<Rightarrow> Ok None
       | Some bs \<Rightarrow> (case vj_loc_from_slice (vc_serde C) bs of
                       None \<Rightarrow> Err SerdeJson | Some l \<Rightarrow> Ok (Some l)))"

text \<open>The cache gets the locator before the transaction commits.\<close>

definition put_locator ::
  "'h vec_ctx \<Rightarrow> 'h \<Rightarrow> (u64 \<times> value_locator) list \<Rightarrow> u64 \<Rightarrow> value_locator
     \<Rightarrow> 'h res \<times> (u64 \<times> value_locator) list" where
  "put_locator C h cache i loc =
     (case hd_put (vc_heed C) h VEC_LOCATOR_DB (u64_to_le i) (vj_loc_to_vec (vc_serde C) loc) of
        HErr e \<Rightarrow> (Err (Heed e), cache)
      | HOk h' \<Rightarrow> (Ok h', AList.update i loc cache))"

section \<open>Reading a vector and the distance closures\<close>

definition index_vec_slice ::
  "'h vec_ctx \<Rightarrow> (u32 \<Rightarrow> bool) \<Rightarrow> 'h vector_index \<Rightarrow> u64 \<Rightarrow> zero_copy_vec res \<times> 'h vector_index" where
  "index_vec_slice C held idx i =
     (case map_of (vi_locators idx) i of
        Some loc \<Rightarrow>
          (case vec_slice held (vi_pool idx) loc of (r, p) \<Rightarrow> (r, idx\<lparr>vi_pool := p\<rparr>))
      | None \<Rightarrow>
          (case res_bind (heed_res (hd_read_txn (vc_heed C) (vi_env idx))) (\<lambda>u. get_locator C (vi_env idx) i) of
             Err e \<Rightarrow> (Err e, idx)
           | Panic \<Rightarrow> (Panic, idx)
           | Ok None \<Rightarrow> (Err NotFound, idx)
           | Ok (Some loc) \<Rightarrow>
               (case vec_slice held (vi_pool idx) loc of
                  (r, p) \<Rightarrow> (r, idx\<lparr>vi_locators := AList.update i loc (vi_locators idx), vi_pool := p\<rparr>))))"

definition read_fails :: "'h vec_ctx \<Rightarrow> (u32 \<Rightarrow> bool) \<Rightarrow> 'h vector_index \<Rightarrow> u64 \<Rightarrow> bool" where
  "read_fails C held idx i \<longleftrightarrow> \<not> is_ok (fst (index_vec_slice C held idx i))"

definition make_query_dist ::
  "'h vec_ctx \<Rightarrow> (u32 \<Rightarrow> bool) \<Rightarrow> 'h vector_index \<Rightarrow> f32 list \<Rightarrow> u64 \<Rightarrow> f32" where
  "make_query_dist C held idx query i =
     (case fst (index_vec_slice C held idx i) of
        Ok z \<Rightarrow> distance (vc_neon C) (vc_arith C) (vs_metric (vi_schema idx)) query
                  (vec_as_f32 (vp_data_dir (vi_pool idx)) z)
      | _ \<Rightarrow> F32_INFINITY)"

section \<open>Inserting\<close>

definition index_insert ::
  "'h vec_ctx \<Rightarrow> (u32 \<Rightarrow> bool) \<Rightarrow> nat \<Rightarrow> 'h vector_index \<Rightarrow> u64 \<Rightarrow> f32 list
     \<Rightarrow> unit res \<times> 'h vector_index" where
  "index_insert C held now idx i vector =
     (case res_bind (validate_dim (vi_schema idx) vector) (\<lambda>u.
           res_bind (heed_res (hd_write_txn (vc_heed C) (vi_env idx))) (\<lambda>u. get_locator C (vi_env idx) i)) of
        Err e \<Rightarrow> (Err e, idx)
      | Panic \<Rightarrow> (Panic, idx)
      | Ok (Some l) \<Rightarrow> (Err (DuplicateVector i), idx)
      | Ok None \<Rightarrow>
          (case vec_append held now (vi_pool idx) vector of
             (Err e, p) \<Rightarrow> (Err e, idx\<lparr>vi_pool := p\<rparr>)
           | (Panic, p) \<Rightarrow> (Panic, idx\<lparr>vi_pool := p\<rparr>)
           | (Ok loc, p) \<Rightarrow>
               (case put_locator C (vi_env idx) (vi_locators idx) i loc of
                  (Err e, cache) \<Rightarrow> (Err e, idx\<lparr>vi_pool := p, vi_locators := cache\<rparr>)
                | (Panic, cache) \<Rightarrow> (Panic, idx\<lparr>vi_pool := p, vi_locators := cache\<rparr>)
                | (Ok h1, cache) \<Rightarrow>
                    (case hd_commit (vc_heed C) h1 of
                       HErr e \<Rightarrow> (Err (Heed e), idx\<lparr>vi_pool := p, vi_locators := cache\<rparr>)
                     | HOk h2 \<Rightarrow>
                         (let idx1 = idx\<lparr>vi_env := h2, vi_pool := p, vi_locators := cache\<rparr>
                          in case nsw_insert (vi_graph idx1) i (make_query_dist C held idx1 vector) of
                               (r, g) \<Rightarrow> (r, idx1\<lparr>vi_graph := g\<rparr>))))))"

fun batch_validate :: "vector_schema \<Rightarrow> (u64 \<times> f32 list) list \<Rightarrow> unit res" where
  "batch_validate s [] = Ok ()"
| "batch_validate s ((i, v) # items) = res_bind (validate_dim s v) (\<lambda>u. batch_validate s items)"

fun batch_unique :: "'h vec_ctx \<Rightarrow> 'h \<Rightarrow> (u64 \<times> f32 list) list \<Rightarrow> unit res" where
  "batch_unique C h [] = Ok ()"
| "batch_unique C h ((i, v) # items) =
     res_bind (get_locator C h i) (\<lambda>l.
       case l of Some x \<Rightarrow> Err (DuplicateVector i) | None \<Rightarrow> batch_unique C h items)"

fun batch_store ::
  "'h vec_ctx \<Rightarrow> (u32 \<Rightarrow> bool) \<Rightarrow> nat \<Rightarrow> 'h \<Rightarrow> vec_segment_pool \<Rightarrow> (u64 \<times> value_locator) list
     \<Rightarrow> (u64 \<times> f32 list) list \<Rightarrow> 'h res \<times> vec_segment_pool \<times> (u64 \<times> value_locator) list"
where
  "batch_store C held now h p cache [] = (Ok h, p, cache)"
| "batch_store C held now h p cache ((i, v) # items) =
     (case vec_append held now p v of
        (Err e, p1) \<Rightarrow> (Err e, p1, cache)
      | (Panic, p1) \<Rightarrow> (Panic, p1, cache)
      | (Ok loc, p1) \<Rightarrow>
          (case put_locator C h cache i loc of
             (Ok h1, cache1) \<Rightarrow> batch_store C held now h1 p1 cache1 items
           | (r, cache1) \<Rightarrow> (r, p1, cache1)))"

fun batch_link ::
  "'h vec_ctx \<Rightarrow> (u32 \<Rightarrow> bool) \<Rightarrow> 'h vector_index \<Rightarrow> (u64 \<times> f32 list) list \<Rightarrow> unit res \<times> 'h vector_index"
where
  "batch_link C held idx [] = (Ok (), idx)"
| "batch_link C held idx ((i, v) # items) =
     (case nsw_insert (vi_graph idx) i (make_query_dist C held idx v) of
        (Ok u, g) \<Rightarrow> batch_link C held (idx\<lparr>vi_graph := g\<rparr>) items
      | (r, g) \<Rightarrow> (r, idx\<lparr>vi_graph := g\<rparr>))"

definition index_insert_batch ::
  "'h vec_ctx \<Rightarrow> (u32 \<Rightarrow> bool) \<Rightarrow> nat \<Rightarrow> 'h vector_index \<Rightarrow> (u64 \<times> f32 list) list
     \<Rightarrow> unit res \<times> 'h vector_index" where
  "index_insert_batch C held now idx items =
     (case res_bind (batch_validate (vi_schema idx) items) (\<lambda>u.
           res_bind (heed_res (hd_write_txn (vc_heed C) (vi_env idx))) (\<lambda>u. batch_unique C (vi_env idx) items)) of
        Err e \<Rightarrow> (Err e, idx)
      | Panic \<Rightarrow> (Panic, idx)
      | Ok u \<Rightarrow>
          (case batch_store C held now (vi_env idx) (vi_pool idx) (vi_locators idx) items of
             (Err e, p, cache) \<Rightarrow> (Err e, idx\<lparr>vi_pool := p, vi_locators := cache\<rparr>)
           | (Panic, p, cache) \<Rightarrow> (Panic, idx\<lparr>vi_pool := p, vi_locators := cache\<rparr>)
           | (Ok h1, p, cache) \<Rightarrow>
               (case hd_commit (vc_heed C) h1 of
                  HErr e \<Rightarrow> (Err (Heed e), idx\<lparr>vi_pool := p, vi_locators := cache\<rparr>)
                | HOk h2 \<Rightarrow>
                    batch_link C held (idx\<lparr>vi_env := h2, vi_pool := p, vi_locators := cache\<rparr>) items)))"

section \<open>Searching, deleting and reading\<close>

definition index_search_knn ::
  "'h vec_ctx \<Rightarrow> (u32 \<Rightarrow> bool) \<Rightarrow> (nat \<Rightarrow> bool) \<Rightarrow> 'h vector_index \<Rightarrow> f32 list \<Rightarrow> nat
     \<Rightarrow> (u64 \<times> f32) list res \<times> 'h vector_index" where
  "index_search_knn C held expired idx query top_k =
     (case validate_dim (vi_schema idx) query of
        Err e \<Rightarrow> (Err e, idx)
      | Panic \<Rightarrow> (Panic, idx)
      | Ok u \<Rightarrow>
          (let qd = make_query_dist C held idx query;
               ef = vs_ef_search (vi_schema idx);
               found = search_knn (vi_graph idx) qd top_k ef expired;
               evaluated = (case ng_entry_point (vi_graph idx) of
                              None \<Rightarrow> []
                            | Some e \<Rightarrow> fst (search_run (vi_graph idx) qd (max ef top_k) e expired));
               bad = list_ex (read_fails C held idx) evaluated
           in (if bad then Err (Corrupt ''vector segment read failed during knn'') else Ok found,
               idx\<lparr>vi_read_error := bad\<rparr>)))"

definition index_delete :: "'h vector_index \<Rightarrow> u64 \<Rightarrow> bool \<times> 'h vector_index" where
  "index_delete idx i =
     (case nsw_delete (vi_graph idx) i of (removed, g) \<Rightarrow> (removed, idx\<lparr>vi_graph := g\<rparr>))"

definition vec_index_len :: "'h vector_index \<Rightarrow> nat" where
  "vec_index_len idx = nsw_len (vi_graph idx)"

definition index_is_empty :: "'h vector_index \<Rightarrow> bool" where
  "index_is_empty idx = (vec_index_len idx = 0)"

definition get_vector ::
  "'h vec_ctx \<Rightarrow> (u32 \<Rightarrow> bool) \<Rightarrow> 'h vector_index \<Rightarrow> u64 \<Rightarrow> f32 list option res \<times> 'h vector_index" where
  "get_vector C held idx i =
     (if is_deleted (vi_graph idx) i then (Ok None, idx)
      else case index_vec_slice C held idx i of
             (r, idx1) \<Rightarrow>
               (res_bind r (\<lambda>z. Ok (Some (vec_as_f32 (vp_data_dir (vi_pool idx1)) z))), idx1))"

definition list_vector_ids :: "'h vector_index \<Rightarrow> u64 list" where
  "list_vector_ids idx = all_ids (vi_graph idx)"

definition index_disk_bytes :: "'h vector_index \<Rightarrow> nat" where
  "index_disk_bytes idx = vec_disk_bytes (vi_pool idx)"

definition index_checkpoint :: "'h vector_index \<Rightarrow> 'h vector_index" where
  "index_checkpoint idx =
     idx\<lparr>vi_pool := (vi_pool idx)\<lparr>vp_data_dir := persist (vp_data_dir (vi_pool idx)) (serialize (vi_graph idx))\<rparr>\<rparr>"

section \<open>Rebuilding the graph\<close>

text \<open>The scan of the database that reads back every vector whose id is not skipped.\<close>

fun scan_live ::
  "vec_serde \<Rightarrow> (u32 \<Rightarrow> bool) \<Rightarrow> (u64 \<Rightarrow> bool) \<Rightarrow> vec_segment_pool \<Rightarrow> (bytes \<times> bytes) list
     \<Rightarrow> (u64 \<times> f32 list) list res \<times> vec_segment_pool"
where
  "scan_live J held skip p [] = (Ok [], p)"
| "scan_live J held skip p ((key, val) # rest) =
     (if length key < 8 then (Panic, p)
      else let i = u64_from_le (take 8 key) in
           if skip i then scan_live J held skip p rest
           else case vj_loc_from_slice J val of
                  None \<Rightarrow> (Err SerdeJson, p)
                | Some loc \<Rightarrow>
                    (case read_vec held p loc of
                       (Ok v, p1) \<Rightarrow>
                         (case scan_live J held skip p1 rest of
                            (r, p2) \<Rightarrow> (res_bind r (\<lambda>live. Ok ((i, v) # live)), p2))
                     | (Err e, p1) \<Rightarrow> (Err e, p1)
                     | (Panic, p1) \<Rightarrow> (Panic, p1)))"

definition live_map_of :: "(u64 \<times> f32 list) list \<Rightarrow> (u64 \<times> f32 list) list" where
  "live_map_of live = foldl (\<lambda>m (i, v). AList.update i v m) [] live"

definition live_dist :: "'h vec_ctx \<Rightarrow> metric_kind \<Rightarrow> (u64 \<times> f32 list) list \<Rightarrow> f32 list \<Rightarrow> u64 \<Rightarrow> f32" where
  "live_dist C metric live_map vec nid =
     (case map_of live_map nid of
        Some v \<Rightarrow> distance (vc_neon C) (vc_arith C) metric vec v
      | None \<Rightarrow> F32_INFINITY)"

fun build_graph ::
  "(f32 list \<Rightarrow> u64 \<Rightarrow> f32) \<Rightarrow> (u64 \<times> f32 list) list \<Rightarrow> nsw_graph \<Rightarrow> nsw_graph res" where
  "build_graph dist [] g = Ok g"
| "build_graph dist ((i, v) # rest) g =
     (case nsw_insert g i (dist v) of
        (Ok u, g1) \<Rightarrow> build_graph dist rest g1
      | (Err e, g1) \<Rightarrow> Err e
      | (Panic, g1) \<Rightarrow> Panic)"

definition graph_of_live :: "'h vec_ctx \<Rightarrow> metric_kind \<Rightarrow> (u64 \<times> f32 list) list \<Rightarrow> nsw_graph res" where
  "graph_of_live C metric live =
     (let m = live_map_of live in build_graph (live_dist C metric m) (vc_order C m) nsw_new)"

definition rebuild_graph_from_data ::
  "'h vec_ctx \<Rightarrow> (u32 \<Rightarrow> bool) \<Rightarrow> 'h vector_index \<Rightarrow> unit res \<times> 'h vector_index" where
  "rebuild_graph_from_data C held idx =
     (case res_bind (heed_res (hd_read_txn (vc_heed C) (vi_env idx)))
             (\<lambda>u. heed_res (hd_iter (vc_heed C) (vi_env idx) VEC_LOCATOR_DB)) of
        Err e \<Rightarrow> (Err e, idx)
      | Panic \<Rightarrow> (Panic, idx)
      | Ok kvs \<Rightarrow>
          (case scan_live (vc_serde C) held (\<lambda>_. False) (vi_pool idx) kvs of
             (r, p) \<Rightarrow>
               (case res_bind r (graph_of_live C (vs_metric (vi_schema idx))) of
                  Ok g \<Rightarrow> (Ok (), idx\<lparr>vi_pool := p, vi_graph := g\<rparr>)
                | Err e \<Rightarrow> (Err e, idx\<lparr>vi_pool := p\<rparr>)
                | Panic \<Rightarrow> (Panic, idx\<lparr>vi_pool := p\<rparr>))))"

section \<open>Opening\<close>

definition index_open ::
  "'h vec_ctx \<Rightarrow> 'h \<Rightarrow> fs \<Rightarrow> vector_schema \<Rightarrow> nat \<Rightarrow> 'h vector_index res" where
  "index_open C env data_dir schema seg_size =
     res_bind (heed_res (hd_write_txn (vc_heed C) env)) (\<lambda>u.
     res_bind (heed_res (hd_create (vc_heed C) env VEC_LOCATOR_DB)) (\<lambda>h1.
     res_bind (heed_res (hd_create (vc_heed C) h1 '''')) (\<lambda>h2.
     res_bind (heed_res (hd_put (vc_heed C) h2 '''' SCHEMA_KEY (vj_schema_to_vec (vc_serde C) schema))) (\<lambda>h3.
     res_bind (heed_res (hd_commit (vc_heed C) h3)) (\<lambda>h4.
       (let pool = vec_pool_open data_dir seg_size (vs_dim schema)
        in res_bind (snapshot_load (vp_data_dir pool)) (\<lambda>snap.
           res_bind (load_locator_cache C h4) (\<lambda>locators.
             Ok \<lparr>vi_schema = schema, vi_env = h4, vi_pool = pool,
                 vi_graph = (case snap of Some g \<Rightarrow> g | None \<Rightarrow> nsw_new),
                 vi_locators = locators, vi_read_error = False\<rparr>))))))))"

definition read_schema :: "'h vec_ctx \<Rightarrow> 'h \<Rightarrow> vector_schema res" where
  "read_schema C env =
     res_bind (heed_res (hd_read_txn (vc_heed C) env)) (\<lambda>u.
     res_bind (heed_res (hd_open (vc_heed C) env '''')) (\<lambda>found.
       if \<not> found then Err (Corrupt ''schema db missing'')
       else res_bind (heed_res (hd_get (vc_heed C) env '''' SCHEMA_KEY)) (\<lambda>v.
         case v of
           None \<Rightarrow> Err (Corrupt ''vector schema not persisted'')
         | Some bs \<Rightarrow> (case vj_schema_from_slice (vc_serde C) bs of
                         None \<Rightarrow> Err SerdeJson | Some s \<Rightarrow> Ok s))))"

text \<open>A snapshot that cannot be loaded counts as none.\<close>

definition snapshot_graph :: "fs \<Rightarrow> nsw_graph" where
  "snapshot_graph d = (case snapshot_load d of Ok (Some g) \<Rightarrow> g | _ \<Rightarrow> nsw_new)"

definition index_reopen ::
  "'h vec_ctx \<Rightarrow> (u32 \<Rightarrow> bool) \<Rightarrow> 'h \<Rightarrow> fs \<Rightarrow> nat \<Rightarrow> 'h vector_index res" where
  "index_reopen C held env data_dir seg_size =
     res_bind (read_schema C env) (\<lambda>schema.
     res_bind (heed_res (hd_write_txn (vc_heed C) env)) (\<lambda>u.
     res_bind (heed_res (hd_create (vc_heed C) env VEC_LOCATOR_DB)) (\<lambda>h1.
     res_bind (heed_res (hd_commit (vc_heed C) h1)) (\<lambda>h2.
       (let pool = vec_pool_open data_dir seg_size (vs_dim schema);
            graph = snapshot_graph (vp_data_dir pool)
        in res_bind (load_locator_cache C h2) (\<lambda>locators.
             let idx = \<lparr>vi_schema = schema, vi_env = h2, vi_pool = pool, vi_graph = graph,
                        vi_locators = locators, vi_read_error = False\<rparr>
             in if nsw_len graph < length locators
                then (case rebuild_graph_from_data C held idx of
                        (Ok u, idx1) \<Rightarrow> Ok idx1 | (Err e, idx1) \<Rightarrow> Err e | (Panic, idx1) \<Rightarrow> Panic)
                else Ok idx))))))"

section \<open>Compaction\<close>

fun append_all ::
  "(u32 \<Rightarrow> bool) \<Rightarrow> nat \<Rightarrow> vec_segment_pool \<Rightarrow> (u64 \<times> f32 list) list
     \<Rightarrow> (u64 \<times> value_locator) list res \<times> vec_segment_pool"
where
  "append_all held now p [] = (Ok [], p)"
| "append_all held now p ((i, v) # live) =
     (case vec_append held now p v of
        (Ok loc, p1) \<Rightarrow>
          (case append_all held now p1 live of
             (r, p2) \<Rightarrow> (res_bind r (\<lambda>locs. Ok ((i, loc) # locs)), p2))
      | (Err e, p1) \<Rightarrow> (Err e, p1)
      | (Panic, p1) \<Rightarrow> (Panic, p1))"

fun delete_keys :: "('h, 'm) heed_scheme \<Rightarrow> 'h \<Rightarrow> bytes list \<Rightarrow> 'h res" where
  "delete_keys H h [] = Ok h"
| "delete_keys H h (k # ks) =
     res_bind (heed_res (hd_del H h VEC_LOCATOR_DB k)) (\<lambda>(b, h1). delete_keys H h1 ks)"

fun put_locators ::
  "'h vec_ctx \<Rightarrow> 'h \<Rightarrow> (u64 \<times> value_locator) list \<Rightarrow> (u64 \<times> value_locator) list
     \<Rightarrow> 'h res \<times> (u64 \<times> value_locator) list"
where
  "put_locators C h cache [] = (Ok h, cache)"
| "put_locators C h cache ((i, loc) # locs) =
     (case put_locator C h cache i loc of
        (Ok h1, cache1) \<Rightarrow> put_locators C h1 cache1 locs
      | (r, cache1) \<Rightarrow> (r, cache1))"

text \<open>Step 5: one transaction replaces all locators.\<close>

definition switch_locators ::
  "'h vec_ctx \<Rightarrow> 'h \<Rightarrow> (u64 \<times> value_locator) list \<Rightarrow> (u64 \<times> value_locator) list
     \<Rightarrow> 'h res \<times> (u64 \<times> value_locator) list" where
  "switch_locators C h cache new_locs =
     (case res_bind (heed_res (hd_write_txn (vc_heed C) h)) (\<lambda>u.
           res_bind (heed_res (hd_iter (vc_heed C) h VEC_LOCATOR_DB)) (\<lambda>kvs.
             delete_keys (vc_heed C) h (map fst kvs))) of
        Err e \<Rightarrow> (Err e, cache)
      | Panic \<Rightarrow> (Panic, cache)
      | Ok h1 \<Rightarrow>
          (case put_locators C h1 cache new_locs of
             (r, cache1) \<Rightarrow> (res_bind r (\<lambda>h2. heed_res (hd_commit (vc_heed C) h2)), cache1)))"

definition compact_scan ::
  "'h vec_ctx \<Rightarrow> (u32 \<Rightarrow> bool) \<Rightarrow> (u64 \<times> u64) option \<Rightarrow> 'h vector_index
     \<Rightarrow> (u64 \<times> f32 list) list res \<times> vec_segment_pool" where
  "compact_scan C held statv idx =
     (case res_bind (ensure_disk_available statv (word_of_nat (vec_disk_bytes (vi_pool idx)))) (\<lambda>u.
           res_bind (heed_res (hd_read_txn (vc_heed C) (vi_env idx)))
             (\<lambda>u. heed_res (hd_iter (vc_heed C) (vi_env idx) VEC_LOCATOR_DB))) of
        Err e \<Rightarrow> (Err e, vi_pool idx)
      | Panic \<Rightarrow> (Panic, vi_pool idx)
      | Ok kvs \<Rightarrow>
          scan_live (vc_serde C) held (\<lambda>i. i \<in> set (all_deleted_ids (vi_graph idx))) (vi_pool idx) kvs)"

text \<open>Steps 3 and 4: the live vectors are appended again and a new graph is built.\<close>

definition compact_rewrite ::
  "'h vec_ctx \<Rightarrow> (u32 \<Rightarrow> bool) \<Rightarrow> nat \<Rightarrow> metric_kind \<Rightarrow> vec_segment_pool \<Rightarrow> (u64 \<times> f32 list) list
     \<Rightarrow> ((u64 \<times> value_locator) list \<times> nsw_graph) res \<times> vec_segment_pool" where
  "compact_rewrite C held now metric p live =
     (case append_all held now p live of
        (r, p1) \<Rightarrow>
          (res_bind r (\<lambda>new_locs. res_bind (graph_of_live C metric live) (\<lambda>g. Ok (new_locs, g))), p1))"

definition index_compact ::
  "'h vec_ctx \<Rightarrow> (u32 \<Rightarrow> bool) \<Rightarrow> nat \<Rightarrow> (u64 \<times> u64) option \<Rightarrow> 'h vector_index
     \<Rightarrow> (u32 list \<times> nat) res \<times> 'h vector_index" where
  "index_compact C held now statv idx =
     (let old_seg_ids = all_seg_ids (vi_pool idx)
      in case compact_scan C held statv idx of
           (Err e, p) \<Rightarrow> (Err e, idx\<lparr>vi_pool := p\<rparr>)
         | (Panic, p) \<Rightarrow> (Panic, idx\<lparr>vi_pool := p\<rparr>)
         | (Ok live, p) \<Rightarrow>
             (case compact_rewrite C held now (vs_metric (vi_schema idx)) p live of
                (Err e, p1) \<Rightarrow> (Err e, idx\<lparr>vi_pool := p1\<rparr>)
              | (Panic, p1) \<Rightarrow> (Panic, idx\<lparr>vi_pool := p1\<rparr>)
              | (Ok (new_locs, g), p1) \<Rightarrow>
                  (case switch_locators C (vi_env idx) (vi_locators idx) new_locs of
                     (Err e, cache) \<Rightarrow> (Err e, idx\<lparr>vi_pool := p1, vi_locators := cache\<rparr>)
                   | (Panic, cache) \<Rightarrow> (Panic, idx\<lparr>vi_pool := p1, vi_locators := cache\<rparr>)
                   | (Ok h, cache) \<Rightarrow>
                       (Ok (old_seg_ids, length live),
                        idx\<lparr>vi_env := h, vi_graph := g,
                            vi_locators := foldl (\<lambda>c (i, l). AList.update i l c) [] new_locs,
                            vi_pool := p1\<lparr>vp_data_dir := persist (vp_data_dir p1) (serialize g)\<rparr>\<rparr>))))"

fun reclaim_loop ::
  "(u32 \<Rightarrow> bool) \<Rightarrow> nat \<Rightarrow> vec_segment_pool \<Rightarrow> nat \<Rightarrow> u32 list \<Rightarrow> nat \<times> vec_segment_pool"
where
  "reclaim_loop held now p n [] = (n, p)"
| "reclaim_loop held now p n (sid # sids) =
     (if \<not> reclaim_safe held now p sid then reclaim_loop held now p n sids
      else let found = fs_exists (vp_data_dir p) (vec_segment_file sid);
               p1 = (if found then p\<lparr>vp_data_dir := fs_remove (vp_data_dir p) (vec_segment_file sid)\<rparr> else p)
           in reclaim_loop held now (drop_sealed p1 sid) (if found then Suc n else n) sids)"

definition reclaim_segments ::
  "(u32 \<Rightarrow> bool) \<Rightarrow> nat \<Rightarrow> 'h vector_index \<Rightarrow> u32 list \<Rightarrow> nat \<times> 'h vector_index" where
  "reclaim_segments held now idx seg_ids =
     (case reclaim_loop held now (vi_pool idx) 0 seg_ids of (n, p) \<Rightarrow> (n, idx\<lparr>vi_pool := p\<rparr>))"

record compact_result =
  cr_live_vectors :: nat
  cr_reclaimable_segs :: "u32 list"

definition run_compact ::
  "'h vec_ctx \<Rightarrow> (u32 \<Rightarrow> bool) \<Rightarrow> nat \<Rightarrow> (u64 \<times> u64) option \<Rightarrow> 'h vector_index
     \<Rightarrow> compact_result res \<times> 'h vector_index" where
  "run_compact C held now statv idx =
     (case index_compact C held now statv idx of
        (r, idx1) \<Rightarrow>
          (res_bind r (\<lambda>(segs, live). Ok \<lparr>cr_live_vectors = live, cr_reclaimable_segs = segs\<rparr>), idx1))"

definition reclaim :: "(u32 \<Rightarrow> bool) \<Rightarrow> nat \<Rightarrow> 'h vector_index \<Rightarrow> u32 list \<Rightarrow> nat \<times> 'h vector_index" where
  "reclaim held now idx seg_ids = reclaim_segments held now idx seg_ids"

section \<open>Abstraction and invariant\<close>

text \<open>
  What the arguments that stand for other code promise: the laws of \<open>heed\<close>, the round trip of
  \<open>serde_json\<close>, and that iterating over a map visits each of its entries once.
\<close>

definition vec_serde_law :: "vec_serde \<Rightarrow> bool" where
  "vec_serde_law J \<longleftrightarrow> (\<forall>l. vj_loc_from_slice J (vj_loc_to_vec J l) = Some l) \<and>
     (\<forall>s. vj_schema_from_slice J (vj_schema_to_vec J s) = Some s)"

definition vec_ctx_ok :: "'h vec_ctx \<Rightarrow> bool" where
  "vec_ctx_ok C \<longleftrightarrow> heed_laws (vc_heed C) \<and> vec_serde_law (vc_serde C) \<and>
     (\<forall>m. mset (vc_order C m) = mset m)"

lemma vec_ctx_okD:
  assumes "vec_ctx_ok C"
  shows ctx_heed: "heed_laws (vc_heed C)"
    and ctx_loc: "vj_loc_from_slice (vc_serde C) (vj_loc_to_vec (vc_serde C) l) = Some l"
    and ctx_schema: "vj_schema_from_slice (vc_serde C) (vj_schema_to_vec (vc_serde C) s) = Some s"
    and ctx_order: "mset (vc_order C m) = mset m"
  using assms by (auto simp: vec_ctx_ok_def vec_serde_law_def)

abbreviation loc_view :: "'h vec_ctx \<Rightarrow> 'h \<Rightarrow> bytes \<rightharpoonup> bytes" where
  "loc_view C h \<equiv> heed_view (vc_heed C) h VEC_LOCATOR_DB"

definition loc_index :: "'h vec_ctx \<Rightarrow> 'h \<Rightarrow> u64 \<rightharpoonup> value_locator" where
  "loc_index C h i = Option.bind (loc_view C h (u64_to_le i)) (vj_loc_from_slice (vc_serde C))"

definition db_ok :: "'h vec_ctx \<Rightarrow> 'h \<Rightarrow> bool" where
  "db_ok C h \<longleftrightarrow> (\<forall>k v. loc_view C h k = Some v \<longrightarrow> length k = 8 \<and> vj_loc_from_slice (vc_serde C) v \<noteq> None)"

text \<open>All vectors on disk, and the live ones among them, which the index answers for.\<close>

definition stored_vectors :: "'h vec_ctx \<Rightarrow> 'h vector_index \<Rightarrow> u64 \<rightharpoonup> f32 list" where
  "stored_vectors C idx = idx_lookup vec_read (vi_pool idx) (loc_index C (vi_env idx))"

definition index_abs :: "'h vec_ctx \<Rightarrow> 'h vector_index \<Rightarrow> u64 \<rightharpoonup> f32 list" where
  "index_abs C idx i = (if is_deleted (vi_graph idx) i then None else stored_vectors C idx i)"

definition index_inv :: "'h vec_ctx \<Rightarrow> 'h vector_index \<Rightarrow> bool" where
  "index_inv C idx \<longleftrightarrow>
     vec_pool_inv (vi_pool idx) \<and> vp_dim (vi_pool idx) = vs_dim (vi_schema idx) \<and>
     nsw_wf (vi_graph idx) \<and> db_ok C (vi_env idx) \<and>
     idx_covered vec_read (vi_pool idx) (loc_index C (vi_env idx)) \<and>
     loc_index C (vi_env idx) \<subseteq>\<^sub>m map_of (vi_locators idx) \<and>
     (\<forall>i. map_of (ng_nodes (vi_graph idx)) i = None \<longleftrightarrow> loc_index C (vi_env idx) i = None)"

lemma index_invD:
  assumes "index_inv C idx"
  shows index_inv_pool: "vec_pool_inv (vi_pool idx)"
    and index_inv_dim: "vp_dim (vi_pool idx) = vs_dim (vi_schema idx)"
    and index_inv_graph: "nsw_wf (vi_graph idx)"
    and index_inv_db: "db_ok C (vi_env idx)"
    and index_inv_covered: "idx_covered vec_read (vi_pool idx) (loc_index C (vi_env idx))"
    and index_inv_cache: "loc_index C (vi_env idx) i = Some l \<Longrightarrow> map_of (vi_locators idx) i = Some l"
    and index_inv_nodes: "map_of (ng_nodes (vi_graph idx)) i = None \<longleftrightarrow> loc_index C (vi_env idx) i = None"
  using assms by (auto simp: index_inv_def map_le_def dom_def)

lemma index_invI:
  assumes "vec_pool_inv (vi_pool idx)" "vp_dim (vi_pool idx) = vs_dim (vi_schema idx)"
    "nsw_wf (vi_graph idx)" "db_ok C (vi_env idx)"
    "idx_covered vec_read (vi_pool idx) (loc_index C (vi_env idx))"
    "\<And>i l. loc_index C (vi_env idx) i = Some l \<Longrightarrow> map_of (vi_locators idx) i = Some l"
    "\<And>i. map_of (ng_nodes (vi_graph idx)) i = None \<longleftrightarrow> loc_index C (vi_env idx) i = None"
  shows "index_inv C idx"
proof -
  have "loc_index C (vi_env idx) \<subseteq>\<^sub>m map_of (vi_locators idx)"
    using assms(6) by (auto simp: map_le_def dom_def)
  with assms(1-5,7) show ?thesis by (simp add: index_inv_def)
qed

section \<open>Locators in the database\<close>

lemma u64_to_le_inj [simp]: "u64_to_le i = u64_to_le j \<longleftrightarrow> i = j"
  by (metis u64_from_to_le)

lemma get_locator_Ok:
  assumes "get_locator C h i = Ok x"
  shows "x = loc_index C h i"
proof -
  obtain v where "hd_get (vc_heed C) h VEC_LOCATOR_DB (u64_to_le i) = HOk v"
    using assms by (auto simp: get_locator_def)
  with assms show ?thesis
    by (cases v) (auto simp: get_locator_def loc_index_def heed_view_def split: option.splits)
qed

lemma loc_index_cong: "loc_view C h' = loc_view C h \<Longrightarrow> loc_index C h' = loc_index C h"
  by (simp add: loc_index_def fun_eq_iff)

lemma db_ok_cong: "loc_view C h' = loc_view C h \<Longrightarrow> db_ok C h' = db_ok C h"
  by (simp add: db_ok_def)

lemma loc_view_put:
  assumes "vec_ctx_ok C" "loc_view C h' = (loc_view C h)(u64_to_le i \<mapsto> vj_loc_to_vec (vc_serde C) l)"
  shows "loc_index C h' = (loc_index C h)(i \<mapsto> l)" "db_ok C h \<Longrightarrow> db_ok C h'"
  using ctx_loc [OF assms(1)] by (auto simp: assms(2) loc_index_def db_ok_def fun_eq_iff)

lemma put_locator_Ok:
  assumes ctx: "vec_ctx_ok C" and put: "put_locator C h cache i l = (Ok h', cache')"
  shows "loc_index C h' = (loc_index C h)(i \<mapsto> l)" "db_ok C h \<Longrightarrow> db_ok C h'"
    "cache' = AList.update i l cache"
proof -
  have p: "hd_put (vc_heed C) h VEC_LOCATOR_DB (u64_to_le i) (vj_loc_to_vec (vc_serde C) l) = HOk h'"
    "cache' = AList.update i l cache"
    using put by (auto simp: put_locator_def split: hres.splits)
  show "loc_index C h' = (loc_index C h)(i \<mapsto> l)" "db_ok C h \<Longrightarrow> db_ok C h'"
    using loc_view_put [OF ctx, of h' h i l] heed_put_view [OF ctx_heed [OF ctx] p(1)] by auto
  show "cache' = AList.update i l cache" by (rule p(2))
qed

lemma put_locator_not_Ok: "put_locator C h cache i l = (r, cache') \<Longrightarrow> \<not> is_ok r \<Longrightarrow> cache' = cache"
  by (auto simp: put_locator_def split: hres.splits)

lemma commit_locators:
  assumes "vec_ctx_ok C" "hd_commit (vc_heed C) h = HOk h'"
  shows "loc_index C h' = loc_index C h" "db_ok C h' = db_ok C h"
  by (rule loc_index_cong db_ok_cong, rule heed_commit_view [OF ctx_heed [OF assms(1)] assms(2)])+

section \<open>Reading\<close>

lemma index_reads:
  assumes inv: "index_inv C idx" and v: "stored_vectors C idx i = Some v"
  obtains z where "fst (index_vec_slice C held idx i) = Ok z"
    "vec_as_f32 (vp_data_dir (vi_pool idx)) z = v"
proof -
  obtain l where l: "loc_index C (vi_env idx) i = Some l" "vec_read (vi_pool idx) l = Some v"
    using v by (auto simp: stored_vectors_def idx_lookup_def split: option.splits)
  obtain z where z: "fst (vec_slice held (vi_pool idx) l) = Ok z" "vec_as_f32 (vp_data_dir (vi_pool idx)) z = v"
    by (rule vec_slice_reads [OF index_inv_pool [OF inv] l(2)])
  from that [of z] z index_inv_cache [OF inv l(1)] show ?thesis
    by (simp add: index_vec_slice_def split_beta)
qed

lemma stored_iff:
  assumes "index_inv C idx"
  shows "stored_vectors C idx i = None \<longleftrightarrow> map_of (ng_nodes (vi_graph idx)) i = None"
  unfolding stored_vectors_def index_inv_nodes [OF assms]
  using idx_lookup_dom [OF index_inv_covered [OF assms]] by (metis domIff)

lemma query_dist_stored:
  assumes "index_inv C idx" "stored_vectors C idx i = Some v"
  shows "make_query_dist C held idx q i =
    distance (vc_neon C) (vc_arith C) (vs_metric (vi_schema idx)) q v"
  by (rule index_reads [OF assms, of held]) (simp add: make_query_dist_def)

text \<open>Looking up a vector that the index knows changes nothing but the cache of mappings.\<close>

lemma index_vec_slice_keeps:
  assumes inv: "index_inv C idx" and v: "stored_vectors C idx i \<noteq> None"
    and sl: "index_vec_slice C held idx i = (r, idx')"
  obtains hc where "idx' = idx\<lparr>vi_pool := (vi_pool idx)\<lparr>vp_handles := hc\<rparr>\<rparr>" "index_inv C idx'"
    "stored_vectors C idx' = stored_vectors C idx"
proof -
  obtain l where l: "map_of (vi_locators idx) i = Some l"
    using v index_inv_cache [OF inv] by (auto simp: stored_vectors_def idx_lookup_def split: option.splits)
  obtain p where p: "vec_slice held (vi_pool idx) l = (r, p)" "idx' = idx\<lparr>vi_pool := p\<rparr>"
    using sl l by (auto simp: index_vec_slice_def split: prod.splits)
  obtain hc where hc: "p = (vi_pool idx)\<lparr>vp_handles := hc\<rparr>" "vec_pool_inv p"
    using vec_slice_keeps [OF index_inv_pool [OF inv] p(1)] by blast
  have rd: "vec_read p = vec_read (vi_pool idx)" by (simp add: hc(1) fun_eq_iff)
  have "index_inv C idx'"
    using inv hc rd by (auto simp: index_inv_def p(2) idx_covered_def)
  moreover have "stored_vectors C idx' = stored_vectors C idx"
    by (simp add: stored_vectors_def idx_lookup_def p(2) rd cong: option.case_cong)
  ultimately show ?thesis using that hc(1) p(2) by blast
qed

section \<open>Inserting keeps the invariant\<close>

lemma index_insert_cases:
  assumes "index_insert C held now idx i v = (r, idx')"
  obtains
      (rejected) "\<not> is_ok r" "idx' = idx"
    | (failed) ra p cache where "\<not> is_ok r" "length v = vs_dim (vi_schema idx)"
        "loc_index C (vi_env idx) i = None" "vec_append held now (vi_pool idx) v = (ra, p)"
        "idx' = idx\<lparr>vi_pool := p, vi_locators := cache\<rparr>"
        "cache = vi_locators idx \<or> (\<exists>l. cache = AList.update i l (vi_locators idx))"
    | (linked) l p h1 h2 cache g where "length v = vs_dim (vi_schema idx)"
        "loc_index C (vi_env idx) i = None"
        "vec_append held now (vi_pool idx) v = (Ok l, p)"
        "put_locator C (vi_env idx) (vi_locators idx) i l = (Ok h1, cache)"
        "hd_commit (vc_heed C) h1 = HOk h2"
        "nsw_insert (vi_graph idx) i
           (make_query_dist C held (idx\<lparr>vi_env := h2, vi_pool := p, vi_locators := cache\<rparr>) v) = (r, g)"
        "idx' = idx\<lparr>vi_env := h2, vi_pool := p, vi_locators := cache, vi_graph := g\<rparr>"
proof (cases "res_bind (validate_dim (vi_schema idx) v) (\<lambda>u.
    res_bind (heed_res (hd_write_txn (vc_heed C) (vi_env idx))) (\<lambda>u. get_locator C (vi_env idx) i))")
  case (Ok x)
  then have x: "length v = vs_dim (vi_schema idx)" "x = loc_index C (vi_env idx) i"
    by (auto simp: validate_dim_def split: if_splits intro: get_locator_Ok)
  note eq = assms [unfolded index_insert_def Ok res.case]
  show ?thesis
  proof (cases x)
    case (Some l)
    with eq rejected show ?thesis by auto
  next
    case None
    note x' = x(1) x(2) [unfolded None, symmetric]
    obtain ra p where app: "vec_append held now (vi_pool idx) v = (ra, p)"
      by (cases "vec_append held now (vi_pool idx) v")
    show ?thesis
    proof (cases ra)
      case (Ok l)
      obtain rp cache where put: "put_locator C (vi_env idx) (vi_locators idx) i l = (rp, cache)"
        by (cases "put_locator C (vi_env idx) (vi_locators idx) i l")
      have cache: "cache = vi_locators idx \<or> (\<exists>l. cache = AList.update i l (vi_locators idx))"
        using put by (auto simp: put_locator_def split: hres.splits)
      have bad: ?thesis if "\<not> is_ok r" "idx' = idx\<lparr>vi_pool := p, vi_locators := cache\<rparr>"
        by (rule failed [OF that(1) x' app that(2) cache])
      show ?thesis
      proof (cases rp)
        case h1: (Ok h1)
        show ?thesis
        proof (cases "hd_commit (vc_heed C) h1")
          case (HOk h2)
          let ?idx1 = "idx\<lparr>vi_env := h2, vi_pool := p, vi_locators := cache\<rparr>"
          obtain rg g where ins: "nsw_insert (vi_graph idx) i (make_query_dist C held ?idx1 v) = (rg, g)"
            by (cases "nsw_insert (vi_graph idx) i (make_query_dist C held ?idx1 v)")
          have "r = rg" "idx' = ?idx1\<lparr>vi_graph := g\<rparr>"
            using eq None app Ok put h1 HOk ins by (simp_all add: Let_def)
          with linked [OF x' app [unfolded Ok] put [unfolded h1] HOk] ins show ?thesis by simp
        qed (use bad eq None app Ok put h1 in auto)
      qed (use bad eq None app Ok put in auto)
    qed (use eq None app failed [OF _ x' app, where cache = "vi_locators idx"] in auto)
  qed
next
  case (Err e)
  from assms [unfolded index_insert_def Err res.case] rejected show ?thesis by auto
next
  case Panic
  from assms [unfolded index_insert_def Panic res.case] rejected show ?thesis by auto
qed

lemma index_insert_keeps:
  assumes ctx: "vec_ctx_ok C" and inv: "index_inv C idx" and room: "vec_room (vi_pool idx)"
    and ins: "index_insert C held now idx i v = (r, idx')"
  shows "index_inv C idx'"
    and "\<not> is_ok r \<Longrightarrow> index_abs C idx' = index_abs C idx"
    and "is_ok r \<Longrightarrow> index_abs C idx' = (index_abs C idx)(i \<mapsto> v) \<and> stored_vectors C idx i = None"
    and "stored_vectors C idx' = (if is_ok r then (stored_vectors C idx)(i \<mapsto> v) else stored_vectors C idx)"
proof -
  note pool = index_inv_pool [OF inv]
  have "index_inv C idx' \<and> (if is_ok r then index_abs C idx' = (index_abs C idx)(i \<mapsto> v) \<and> stored_vectors C idx i = None
      else index_abs C idx' = index_abs C idx) \<and>
      stored_vectors C idx' = (if is_ok r then (stored_vectors C idx)(i \<mapsto> v) else stored_vectors C idx)"
    using ins
  proof (cases rule: index_insert_cases)
    case rejected
    with inv show ?thesis by simp
  next
    case (failed ra p cache)
    note laws = vec_append_laws [OF pool room failed(4)]
    have dim: "vp_dim p = vp_dim (vi_pool idx)" by (rule vec_append_dim [OF failed(4)])
    have "stored_vectors C idx' = stored_vectors C idx"
      using vseg.lookup_keep [OF pool room failed(4) index_inv_covered [OF inv]]
      by (simp add: stored_vectors_def failed(5))
    moreover have "index_inv C idx'"
    proof (rule index_invI)
      show "idx_covered vec_read (vi_pool idx') (loc_index C (vi_env idx'))"
        using vseg.covered_keep [OF pool room failed(4) index_inv_covered [OF inv]] by (simp add: failed(5))
      show "map_of (vi_locators idx') j = Some l" if "loc_index C (vi_env idx') j = Some l" for j l
        using that failed(3,5,6) index_inv_cache [OF inv, of j l] by (auto simp: failed(5))
    qed (use inv laws(1) dim in \<open>auto simp: failed(5) index_invD\<close>)
    ultimately show ?thesis
      using failed(1) by (simp add: index_abs_def fun_eq_iff failed(5))
  next
    case (linked l p h1 h2 cache g)
    note laws = vec_append_laws [OF pool room linked(3)]
    have dim: "vp_dim p = vp_dim (vi_pool idx)" by (rule vec_append_dim [OF linked(3)])
    note put = put_locator_Ok [OF ctx linked(4)]
    have idx2: "loc_index C h2 = (loc_index C (vi_env idx))(i \<mapsto> l)" "db_ok C h2"
      using commit_locators [OF ctx linked(5)] put(1,2) index_inv_db [OF inv] by simp_all
    have new: "map_of (ng_nodes (vi_graph idx)) i = None"
      using linked(2) index_inv_nodes [OF inv] by simp
    note g = nsw_insert_contents [OF linked(6) new]
    have stored: "stored_vectors C idx' = (stored_vectors C idx)(i \<mapsto> v)"
      using vseg.lookup_update [OF pool room linked(3) index_inv_covered [OF inv]]
      by (simp add: stored_vectors_def linked(7) idx2)
    moreover have "index_inv C idx'"
    proof (rule index_invI)
      show "idx_covered vec_read (vi_pool idx') (loc_index C (vi_env idx'))"
        using vseg.covered_update [OF pool room linked(3) index_inv_covered [OF inv]]
        by (simp add: linked(7) idx2)
      show "map_of (vi_locators idx') j = Some l'" if "loc_index C (vi_env idx') j = Some l'" for j l'
        using that index_inv_cache [OF inv, of j l'] by (auto simp: linked(7) idx2 put(3) split: if_splits)
      show "map_of (ng_nodes (vi_graph idx')) j = None \<longleftrightarrow> loc_index C (vi_env idx') j = None" for j
        using index_inv_nodes [OF inv, of j] g(2) by (simp add: linked(7) idx2)
      show "nsw_wf (vi_graph idx')"
        using nsw_wf_insert [OF index_inv_graph [OF inv] linked(6)] by (simp add: linked(7))
    qed (use inv laws(1) dim idx2 in \<open>auto simp: linked(7) index_invD\<close>)
    moreover have "stored_vectors C idx i = None"
      using stored_iff [OF inv] new by blast
    ultimately show ?thesis
      using g by (auto simp: index_abs_def fun_eq_iff linked(7))
  qed
  then show "index_inv C idx'" "\<not> is_ok r \<Longrightarrow> index_abs C idx' = index_abs C idx"
    "is_ok r \<Longrightarrow> index_abs C idx' = (index_abs C idx)(i \<mapsto> v) \<and> stored_vectors C idx i = None"
    "stored_vectors C idx' = (if is_ok r then (stored_vectors C idx)(i \<mapsto> v) else stored_vectors C idx)"
    by (auto split: if_splits)
qed

text \<open>An insertion is refused as a duplicate only where a vector is stored, live or not.\<close>

lemma index_insert_duplicate:
  assumes inv: "index_inv C idx" and ins: "index_insert C held now idx i v = (Err (DuplicateVector j), idx')"
  shows "stored_vectors C idx i \<noteq> None" "idx' = idx"
proof -
  let ?g = "res_bind (validate_dim (vi_schema idx) v) (\<lambda>u.
      res_bind (heed_res (hd_write_txn (vc_heed C) (vi_env idx))) (\<lambda>u. get_locator C (vi_env idx) i))"
  have nodup: "\<exists>x. ?g = Ok x"
  proof (cases ?g)
    case (Err e)
    with ins have "?g = Err (DuplicateVector j)" by (simp add: index_insert_def)
    then show ?thesis
      by (cases "hd_write_txn (vc_heed C) (vi_env idx)"; cases "hd_get (vc_heed C) (vi_env idx) VEC_LOCATOR_DB (u64_to_le i)")
        (auto simp: get_locator_def validate_dim_def split: if_splits option.splits)
  qed (use ins in \<open>auto simp: index_insert_def\<close>)
  then obtain x where x: "?g = Ok x" by blast
  then have li: "x = loc_index C (vi_env idx) i" by (auto intro: get_locator_Ok)
  have "x \<noteq> None"
  proof
    assume None: "x = None"
    then have "map_of (ng_nodes (vi_graph idx)) i = None"
      using li index_inv_nodes [OF inv] by simp
    with ins x None show False
      by (auto simp: index_insert_def vec_append_def put_locator_def nsw_insert_def Let_def
          split: res.splits prod.splits if_splits hres.splits option.splits)
  qed
  with ins x show "idx' = idx" by (auto simp: index_insert_def)
  show "stored_vectors C idx i \<noteq> None"
    using \<open>x \<noteq> None\<close> li idx_lookup_dom [OF index_inv_covered [OF inv]]
    unfolding stored_vectors_def by (metis domIff)
qed

section \<open>Rebuilding the graph\<close>

lemma map_of_foldl_update: "map_of (foldl (\<lambda>c (i, l). AList.update i l c) c ls) = map_of c ++ map_of (rev ls)"
  by (induction ls arbitrary: c) auto

lemma map_of_foldl_update_empty:
  "distinct (map fst ls) \<Longrightarrow> map_of (foldl (\<lambda>c (i, l). AList.update i l c) [] ls) = map_of ls"
  using map_of_inject_set [of "rev ls" ls] by (simp add: map_of_foldl_update rev_map [symmetric])

lemma distinct_foldl_update:
  "distinct (map fst c) \<Longrightarrow> distinct (map fst (foldl (\<lambda>c (i, l). AList.update i l c) c ls))"
  by (induction ls arbitrary: c) auto

lemma live_map_of:
  "distinct (map fst (live_map_of live))"
  "distinct (map fst live) \<Longrightarrow> map_of (live_map_of live) = map_of live"
  by (auto simp: live_map_of_def map_of_foldl_update_empty intro: distinct_foldl_update)

lemma build_graph_ok:
  assumes "nsw_wf g" "distinct (map fst items)" "\<And>i. i \<in> fst ` set items \<Longrightarrow> map_of (ng_nodes g) i = None"
  obtains g' where "build_graph dist items g = Ok g'" "nsw_wf g'"
    "\<And>x. map_of (ng_nodes g') x = None \<longleftrightarrow> map_of (ng_nodes g) x = None \<and> x \<notin> fst ` set items"
    "\<And>x. is_deleted g' x \<longleftrightarrow> is_deleted g x \<and> x \<notin> fst ` set items"
  using assms
proof (induction items arbitrary: g thesis)
  case (Cons iv items)
  obtain i v where iv: "iv = (i, v)" by (cases iv)
  obtain r g1 where ins: "nsw_insert g i (dist v) = (r, g1)" by (cases "nsw_insert g i (dist v)")
  have new: "map_of (ng_nodes g) i = None" using Cons.prems(4) iv by simp
  note c = nsw_insert_contents [OF ins new]
  have "map_of (ng_nodes g1) j = None" if "j \<in> fst ` set items" for j
    using that Cons.prems(3) iv c(2) [of j] Cons.prems(4) [of j] by auto
  from Cons.IH [OF _ nsw_wf_insert [OF Cons.prems(2) ins] _ this] Cons.prems(3)
  obtain g' where "build_graph dist items g1 = Ok g'" "nsw_wf g'"
    "\<And>x. map_of (ng_nodes g') x = None \<longleftrightarrow> map_of (ng_nodes g1) x = None \<and> x \<notin> fst ` set items"
    "\<And>x. is_deleted g' x \<longleftrightarrow> is_deleted g1 x \<and> x \<notin> fst ` set items"
    by auto
  with Cons.prems(1) [of g'] show ?case using iv ins c by auto
qed auto

lemma graph_of_live_ok:
  assumes ctx: "vec_ctx_ok C" and d: "distinct (map fst live)"
  obtains g where "graph_of_live C metric live = Ok g" "nsw_wf g"
    "\<And>x. map_of (ng_nodes g) x = None \<longleftrightarrow> map_of live x = None"
    "\<And>x. is_deleted g x \<longleftrightarrow> map_of live x = None"
proof -
  let ?m = "live_map_of live"
  note ord = ctx_order [OF ctx, of ?m]
  have dm: "distinct (map fst (vc_order C ?m))"
    using live_map_of(1) [of live] ord by (metis mset_eq_imp_distinct_iff mset_map)
  have ids: "x \<in> fst ` set (vc_order C ?m) \<longleftrightarrow> map_of live x \<noteq> None" for x
    using ord live_map_of(2) [OF d] by (metis map_of_eq_None_iff set_mset_mset)
  obtain g where "build_graph (live_dist C metric ?m) (vc_order C ?m) nsw_new = Ok g" "nsw_wf g"
    "\<And>x. map_of (ng_nodes g) x = None \<longleftrightarrow> map_of (ng_nodes nsw_new) x = None \<and> x \<notin> fst ` set (vc_order C ?m)"
    "\<And>x. is_deleted g x \<longleftrightarrow> is_deleted nsw_new x \<and> x \<notin> fst ` set (vc_order C ?m)"
    by (rule build_graph_ok [OF nsw_wf_new dm]) (auto simp: nsw_new_def)
  with that [of g] ids show ?thesis
    by (simp add: graph_of_live_def Let_def nsw_new_def is_deleted_def)
qed

section \<open>Scanning the database\<close>

lemma scan_live_ok:
  assumes "vec_pool_inv p"
    and "\<forall>k v. (k, v) \<in> set kvs \<longrightarrow> length k = 8 \<and>
      (\<exists>l w. vj_loc_from_slice J v = Some l \<and> vec_read p l = Some w)"
  obtains hc where "scan_live J held skip p kvs =
      (Ok (map (\<lambda>(k, v). (u64_from_le k, the (vec_read p (the (vj_loc_from_slice J v)))))
             (filter (\<lambda>(k, v). \<not> skip (u64_from_le k)) kvs)), p\<lparr>vp_handles := hc\<rparr>)"
    "vec_pool_inv (p\<lparr>vp_handles := hc\<rparr>)"
  using assms
proof (induction kvs arbitrary: p thesis)
  case Nil
  then show ?case by (simp add: Nil.prems(1) [of "vp_handles p"])
next
  case (Cons kv kvs)
  obtain k v where kv: "kv = (k, v)" by (cases kv)
  obtain l w where k: "length k = 8" and l: "vj_loc_from_slice J v = Some l" "vec_read p l = Some w"
    using Cons.prems(3) [rule_format, of k v] kv by auto
  show ?case
  proof (cases "skip (u64_from_le k)")
    case True
    obtain hc where "scan_live J held skip p kvs =
        (Ok (map (\<lambda>(k, v). (u64_from_le k, the (vec_read p (the (vj_loc_from_slice J v)))))
               (filter (\<lambda>(k, v). \<not> skip (u64_from_le k)) kvs)), p\<lparr>vp_handles := hc\<rparr>)"
      "vec_pool_inv (p\<lparr>vp_handles := hc\<rparr>)"
      by (rule Cons.IH [OF _ Cons.prems(2)]) (use Cons.prems(3) in auto)
    with True k kv Cons.prems(1) [of hc] show ?thesis by simp
  next
    case False
    obtain p1 where rv: "read_vec held p l = (Ok w, p1)"
      using read_vec_reads [OF Cons.prems(2) l(2), of held] by (cases "read_vec held p l") auto
    obtain hc1 where p1: "p1 = p\<lparr>vp_handles := hc1\<rparr>" "vec_pool_inv p1"
      using read_vec_keeps [OF Cons.prems(2) rv] by blast
    obtain hc where "scan_live J held skip p1 kvs =
        (Ok (map (\<lambda>(k, v). (u64_from_le k, the (vec_read p1 (the (vj_loc_from_slice J v)))))
               (filter (\<lambda>(k, v). \<not> skip (u64_from_le k)) kvs)), p1\<lparr>vp_handles := hc\<rparr>)"
      "vec_pool_inv (p1\<lparr>vp_handles := hc\<rparr>)"
      by (rule Cons.IH [OF _ p1(2)]) (use Cons.prems(3) in \<open>auto simp: p1(1)\<close>)
    with False k kv l rv Cons.prems(1) [of hc] show ?thesis
      by (simp add: p1(1) Let_def)
  qed
qed

lemma map_of_decoded:
  assumes "\<forall>k v. (k, v) \<in> set kvs \<longrightarrow> length k = 8"
  shows "map_of (map (\<lambda>(k, v). (u64_from_le k, f v)) (filter (\<lambda>(k, v). P (u64_from_le k)) kvs)) i =
    (if P i then map_option f (map_of kvs (u64_to_le i)) else None)"
  using assms
proof (induction kvs)
  case (Cons kv kvs)
  obtain k v where kv: "kv = (k, v)" by (cases kv)
  have "length k = 8" using Cons.prems kv by simp
  then have "u64_from_le k = i \<longleftrightarrow> u64_to_le i = k"
    using u64_to_from_le by auto
  moreover have "\<forall>k v. (k, v) \<in> set kvs \<longrightarrow> length k = 8" using Cons.prems by auto
  note Cons.IH [OF this]
  ultimately show ?case using kv by auto
qed simp

lemma distinct_decoded:
  assumes "\<forall>k v. (k, v) \<in> set kvs \<longrightarrow> length k = 8" "distinct (map fst kvs)"
  shows "distinct (map fst (map (\<lambda>(k, v). (u64_from_le k, f v)) (filter (\<lambda>(k, v). P (u64_from_le k)) kvs)))"
  using assms
proof (induction kvs)
  case (Cons kv kvs)
  obtain k v where kv: "kv = (k, v)" by (cases kv)
  have "length k = 8" using Cons.prems(1) kv by simp
  moreover have "k' = k" if "(k', v') \<in> set kvs" "u64_from_le k' = u64_from_le k" for k' v'
    using that Cons.prems(1) \<open>length k = 8\<close> by (metis list.set_intros(2) u64_to_from_le)
  ultimately have "u64_from_le k \<notin> fst ` set (map (\<lambda>(k, v). (u64_from_le k, f v))
      (filter (\<lambda>(k, v). P (u64_from_le k)) kvs))"
    using Cons.prems(2) kv by (force simp: image_iff)
  moreover have "\<forall>k v. (k, v) \<in> set kvs \<longrightarrow> length k = 8" using Cons.prems by auto
  note Cons.IH [OF this]
  ultimately show ?case using kv Cons.prems(2) by auto
qed simp

lemma scan_store:
  assumes ctx: "vec_ctx_ok C" and pool: "vec_pool_inv (vi_pool idx)" and db: "db_ok C (vi_env idx)"
    and cov: "idx_covered vec_read (vi_pool idx) (loc_index C (vi_env idx))"
    and iter: "hd_iter (vc_heed C) (vi_env idx) VEC_LOCATOR_DB = HOk kvs"
  obtains live hc where "scan_live (vc_serde C) held skip (vi_pool idx) kvs =
      (Ok live, (vi_pool idx)\<lparr>vp_handles := hc\<rparr>)" "vec_pool_inv ((vi_pool idx)\<lparr>vp_handles := hc\<rparr>)"
    "distinct (map fst live)" "\<And>i. map_of live i = (if skip i then None else stored_vectors C idx i)"
proof -
  have it: "distinct (map fst kvs)" "map_of kvs = loc_view C (vi_env idx)"
    using heed_iter_view [OF ctx_heed [OF ctx] iter] by blast+
  let ?dec = "\<lambda>v. the (vec_read (vi_pool idx) (the (vj_loc_from_slice (vc_serde C) v)))"
  have good: "length k = 8 \<and> (\<exists>l w. vj_loc_from_slice (vc_serde C) v = Some l \<and>
      vec_read (vi_pool idx) l = Some w)" if "(k, v) \<in> set kvs" for k v
  proof -
    have kv: "loc_view C (vi_env idx) k = Some v" using that it by (metis map_of_is_SomeI)
    with db obtain l where l: "length k = 8" "vj_loc_from_slice (vc_serde C) v = Some l"
      by (auto simp: db_ok_def)
    then have "loc_index C (vi_env idx) (u64_from_le k) = Some l"
      using kv by (simp add: loc_index_def u64_to_from_le)
    with cov l show ?thesis by (auto simp: idx_covered_def)
  qed
  let ?live = "map (\<lambda>(k, v). (u64_from_le k, ?dec v)) (filter (\<lambda>(k, v). \<not> skip (u64_from_le k)) kvs)"
  obtain hc where sc: "scan_live (vc_serde C) held skip (vi_pool idx) kvs =
      (Ok ?live, (vi_pool idx)\<lparr>vp_handles := hc\<rparr>)" "vec_pool_inv ((vi_pool idx)\<lparr>vp_handles := hc\<rparr>)"
    by (rule scan_live_ok [OF pool, of kvs "vc_serde C" held skip]) (use good in blast)+
  have "map_option ?dec (loc_view C (vi_env idx) (u64_to_le i)) = stored_vectors C idx i" for i
  proof (cases "loc_view C (vi_env idx) (u64_to_le i)")
    case (Some v)
    then have "(u64_to_le i, v) \<in> set kvs" using it by (metis map_of_SomeD)
    with good [OF this] Some show ?thesis
      by (auto simp: stored_vectors_def idx_lookup_def loc_index_def)
  qed (simp add: stored_vectors_def idx_lookup_def loc_index_def)
  then have "map_of ?live i = (if skip i then None else stored_vectors C idx i)" for i
    using good map_of_decoded [of kvs ?dec "\<lambda>i. \<not> skip i" i] it(2) by auto
  moreover have "distinct (map fst ?live)"
    using good it(1) by (intro distinct_decoded) blast+
  ultimately show ?thesis using that sc by blast
qed

lemmas scan_index = scan_store [OF _ index_inv_pool index_inv_db index_inv_covered]

section \<open>Compaction\<close>

text \<open>Segment ids left for \<open>n\<close> appends.\<close>

definition vec_room_for :: "vec_segment_pool \<Rightarrow> nat \<Rightarrow> bool" where
  "vec_room_for p n \<longleftrightarrow> unat (vp_active_id p) + n < U32_MAX"

lemma vec_room_for_room: "vec_room_for p n \<Longrightarrow> vec_room p"
proof -
  assume "vec_room_for p n"
  then have "unat (vp_active_id p + 1) = unat (vp_active_id p) + 1"
    by (simp add: vec_room_for_def unat_word_ariths)
  then show ?thesis by (auto simp: vec_room_def)
qed

lemma vec_room_for_append:
  assumes "vec_room_for p (Suc n)" "vec_append held now p v = (r, p')"
  shows "vec_room_for p' n"
  using vec_append_id [OF assms(2)] assms(1) by (auto simp: vec_room_for_def unat_word_ariths)

lemma append_all_ok:
  assumes "vec_pool_inv p" "vec_room_for p (length live)" "append_all held now p live = (Ok locs, p')"
  shows "vec_pool_inv p' \<and> vp_dim p' = vp_dim p \<and> map fst locs = map fst live \<and>
    (\<forall>l w. vec_read p l = Some w \<longrightarrow> vec_read p' l = Some w) \<and>
    idx_covered vec_read p' (map_of locs) \<and> idx_lookup vec_read p' (map_of locs) = map_of live"
  using assms
proof (induction live arbitrary: p locs)
  case Nil
  then show ?case by (auto simp: idx_lookup_def idx_covered_def)
next
  case (Cons iv live)
  obtain i v where iv: "iv = (i, v)" by (cases iv)
  obtain loc p1 where app: "vec_append held now p v = (Ok loc, p1)"
    using Cons.prems(3) iv by (auto split: prod.splits res.splits)
  obtain locs1 where rest: "append_all held now p1 live = (Ok locs1, p')" "locs = (i, loc) # locs1"
    using Cons.prems(3) iv app by (auto split: prod.splits)
  note room = vec_room_for_room [OF Cons.prems(2)]
  note laws = vec_append_laws [OF Cons.prems(1) room app]
  have "vec_room_for p1 (length live)"
    using vec_room_for_append [OF _ app] Cons.prems(2) by simp
  note IH = Cons.IH [OF laws(1) this rest(1)]
  have "vec_read p' loc = Some v" using IH laws(3) by blast
  with IH show ?case
    using laws(2) vec_append_dim [OF app]
    by (auto simp: rest(2) iv idx_lookup_def idx_covered_def fun_eq_iff)
qed

lemma delete_keys_view:
  assumes "heed_laws H" "delete_keys H h ks = Ok h'"
  shows "heed_view H h' VEC_LOCATOR_DB k = (if k \<in> set ks then None else heed_view H h VEC_LOCATOR_DB k)"
  using assms(2)
proof (induction ks arbitrary: h)
  case (Cons x ks)
  then obtain b h1 where d: "hd_del H h VEC_LOCATOR_DB x = HOk (b, h1)" "delete_keys H h1 ks = Ok h'" by auto
  from Cons.IH [OF d(2)] heed_del_view [OF assms(1) d(1)] show ?case by simp
qed simp

lemma put_locators_Ok:
  assumes ctx: "vec_ctx_ok C" and "put_locators C h cache locs = (Ok h', cache')"
  shows "loc_index C h' = loc_index C h ++ map_of (rev locs)" "db_ok C h \<Longrightarrow> db_ok C h'"
proof -
  have "loc_index C h' = loc_index C h ++ map_of (rev locs) \<and> (db_ok C h \<longrightarrow> db_ok C h')"
    using assms(2)
  proof (induction locs arbitrary: h cache)
    case (Cons il locs)
    obtain i l where il: "il = (i, l)" by (cases il)
    obtain h1 cache1 where p: "put_locator C h cache i l = (Ok h1, cache1)"
      "put_locators C h1 cache1 locs = (Ok h', cache')"
      using Cons.prems il by (auto split: prod.splits res.splits)
    have "loc_index C h1 = loc_index C h ++ [i \<mapsto> l]"
      unfolding put_locator_Ok(1) [OF ctx p(1)] by simp
    with Cons.IH [OF p(2)] put_locator_Ok(2) [OF ctx p(1)] show ?case
      by (simp only: il rev.simps map_of_append map_of.simps prod.sel map_add_assoc simp_thms) simp
  qed simp
  then show "loc_index C h' = loc_index C h ++ map_of (rev locs)" "db_ok C h \<Longrightarrow> db_ok C h'" by blast+
qed

lemma switch_locators_Ok:
  assumes ctx: "vec_ctx_ok C" and sw: "switch_locators C h cache locs = (Ok h', cache')"
    and d: "distinct (map fst locs)"
  shows "loc_index C h' = map_of locs" "db_ok C h'"
proof -
  obtain kvs h1 where k: "hd_iter (vc_heed C) h VEC_LOCATOR_DB = HOk kvs"
    "delete_keys (vc_heed C) h (map fst kvs) = Ok h1"
    and sw1: "(case put_locators C h1 cache locs of
        (r, cache1) \<Rightarrow> (res_bind r (\<lambda>h2. heed_res (hd_commit (vc_heed C) h2)), cache1)) = (Ok h', cache')"
    using sw unfolding switch_locators_def
    by (cases "hd_write_txn (vc_heed C) h"; cases "hd_iter (vc_heed C) h VEC_LOCATOR_DB")
      (auto split: res.splits)
  obtain h2 where p: "put_locators C h1 cache locs = (Ok h2, cache')" "hd_commit (vc_heed C) h2 = HOk h'"
    using sw1 by (auto split: prod.splits)
  have "loc_view C h1 x = None" for x
    using delete_keys_view [OF ctx_heed [OF ctx] k(2), of x] heed_iter_view [OF ctx_heed [OF ctx] k(1)]
    by (metis map_of_eq_None_iff set_map)
  then have empty: "loc_index C h1 = Map.empty" "db_ok C h1"
    by (simp_all add: loc_index_def db_ok_def fun_eq_iff)
  have "map_of (rev locs) = map_of locs"
    using map_of_inject_set [of "rev locs" locs] d by (simp add: rev_map [symmetric])
  then show "loc_index C h' = map_of locs" "db_ok C h'"
    using put_locators_Ok [OF ctx p(1)] commit_locators [OF ctx p(2)] empty by simp_all
qed

lemma vec_pool_persist:
  assumes inv: "vec_pool_inv p" and q: "q = p\<lparr>vp_data_dir := persist (vp_data_dir p) bs\<rparr>"
  shows "vec_pool_inv q" "vec_read q = vec_read p"
proof -
  have ne: "vec_segment_file s \<noteq> SNAPSHOT_TMP" "vec_segment_file s \<noteq> SNAPSHOT_FILE" for s
    by (simp_all add: vec_segment_file_def seg_name_def SNAPSHOT_TMP_def SNAPSHOT_FILE_def)
  have ino: "fs_inode (vp_data_dir q) (vec_segment_file s) = fs_inode (vp_data_dir p) (vec_segment_file s)" for s
    using ne by (simp add: q persist_def fs_inode_atomic_write_other)
  have data: "fs_data (vp_data_dir q) j = fs_data (vp_data_dir p) j"
    if "fs_inode (vp_data_dir p) (vec_segment_file s) = Some j" for s j
    using fs_data_atomic_write_other [OF vec_inv_fs_ok [OF inv] ne(1) that] by (simp add: q persist_def)
  note act = data [OF vec_inv_active [OF inv]]
  have mapped: "fs_inode (vp_data_dir q) (vec_segment_file s) = Some (mh_ino h) \<and>
      mh_len h = length (fs_data (vp_data_dir q) (mh_ino h))"
    if "map_of (hc_sealed (vp_handles p)) s = Some h" for s h
    using vec_inv_cache [OF inv that] data [of s "mh_ino h"] ino [of s] by simp
  have "vp_active_id q = vp_active_id p" "vp_active_ino q = vp_active_ino p" "vp_seg_size q = vp_seg_size p"
    "vp_active_cursor q = vp_active_cursor p" "vp_handles q = vp_handles p" "fs_ok (vp_data_dir q)"
    using vec_inv_fs_ok [OF inv] by (simp_all add: q persist_def)
  then show "vec_pool_inv q"
    using inv ino act mapped by (simp add: vec_pool_inv_def fs_exists_def)
  show "vec_read q = vec_read p"
  proof
    fix l
    have *: "vp_active_id q = vp_active_id p" "vp_active_cursor q = vp_active_cursor p" "byte_len q = byte_len p"
      by (simp_all add: q byte_len_def)
    show "vec_read q l = vec_read p l"
    proof (cases "fs_inode (vp_data_dir p) (vec_segment_file (vl_seg_id l))")
      case (Some j)
      from data [OF Some] Some show ?thesis unfolding vec_read_def ino * by simp
    qed (simp add: vec_read_def ino)
  qed
qed

lemma index_compact_Ok:
  assumes "index_compact C held now statv idx = (Ok (segs, n), idx')"
  obtains kvs live p p1 locs g h cache where
    "hd_iter (vc_heed C) (vi_env idx) VEC_LOCATOR_DB = HOk kvs"
    "scan_live (vc_serde C) held (\<lambda>i. i \<in> set (all_deleted_ids (vi_graph idx))) (vi_pool idx) kvs = (Ok live, p)"
    "append_all held now p live = (Ok locs, p1)"
    "graph_of_live C (vs_metric (vi_schema idx)) live = Ok g"
    "switch_locators C (vi_env idx) (vi_locators idx) locs = (Ok h, cache)"
    "segs = all_seg_ids (vi_pool idx)" "n = length live"
    "idx' = idx\<lparr>vi_env := h, vi_graph := g,
        vi_locators := foldl (\<lambda>c (i, l). AList.update i l c) [] locs,
        vi_pool := p1\<lparr>vp_data_dir := persist (vp_data_dir p1) (serialize g)\<rparr>\<rparr>"
proof -
  obtain live p where sc: "compact_scan C held statv idx = (Ok live, p)"
    using assms by (auto simp: index_compact_def Let_def split: prod.splits res.splits)
  note e1 = assms [unfolded index_compact_def Let_def sc prod.case res.case]
  obtain locs g p1 where rw: "compact_rewrite C held now (vs_metric (vi_schema idx)) p live = (Ok (locs, g), p1)"
    using e1 by (auto split: prod.splits res.splits)
  note e2 = e1 [unfolded rw prod.case res.case]
  obtain h cache where sw: "switch_locators C (vi_env idx) (vi_locators idx) locs = (Ok h, cache)"
    using e2 by (auto split: prod.splits res.splits)
  note e3 = e2 [unfolded sw prod.case res.case]
  obtain kvs where kvs: "hd_iter (vc_heed C) (vi_env idx) VEC_LOCATOR_DB = HOk kvs"
    "scan_live (vc_serde C) held (\<lambda>i. i \<in> set (all_deleted_ids (vi_graph idx))) (vi_pool idx) kvs = (Ok live, p)"
    using sc unfolding compact_scan_def by (auto split: res.splits)
  have rw': "append_all held now p live = (Ok locs, p1)"
    "graph_of_live C (vs_metric (vi_schema idx)) live = Ok g"
    using rw by (auto simp: compact_rewrite_def split: prod.splits)
  show ?thesis by (rule that [OF kvs rw' sw]) (use e3 in auto)
qed

lemma index_compact_keeps:
  assumes ctx: "vec_ctx_ok C" and inv: "index_inv C idx"
    and room: "vec_room_for (vi_pool idx) (card (dom (index_abs C idx)))"
    and comp: "index_compact C held now statv idx = (Ok (segs, n), idx')"
  shows "index_inv C idx'" "index_abs C idx' = index_abs C idx" "stored_vectors C idx' = index_abs C idx"
    "n = card (dom (index_abs C idx))" "segs = all_seg_ids (vi_pool idx)"
proof -
  obtain kvs live p p1 locs g h cache where
    kvs: "hd_iter (vc_heed C) (vi_env idx) VEC_LOCATOR_DB = HOk kvs"
    and sc: "scan_live (vc_serde C) held (\<lambda>i. i \<in> set (all_deleted_ids (vi_graph idx))) (vi_pool idx) kvs = (Ok live, p)"
    and app: "append_all held now p live = (Ok locs, p1)"
    and gr: "graph_of_live C (vs_metric (vi_schema idx)) live = Ok g"
    and sw: "switch_locators C (vi_env idx) (vi_locators idx) locs = (Ok h, cache)"
    and n: "segs = all_seg_ids (vi_pool idx)" "n = length live"
    and idx': "idx' = idx\<lparr>vi_env := h, vi_graph := g,
        vi_locators := foldl (\<lambda>c (i, l). AList.update i l c) [] locs,
        vi_pool := p1\<lparr>vp_data_dir := persist (vp_data_dir p1) (serialize g)\<rparr>\<rparr>"
    by (rule index_compact_Ok [OF comp])
  obtain hc where p: "p = (vi_pool idx)\<lparr>vp_handles := hc\<rparr>" "vec_pool_inv p"
    and live: "distinct (map fst live)"
      "\<And>i. map_of live i = (if i \<in> set (all_deleted_ids (vi_graph idx)) then None else stored_vectors C idx i)"
  proof (rule scan_index [OF ctx inv inv inv kvs, of held "\<lambda>i. i \<in> set (all_deleted_ids (vi_graph idx))"], goal_cases)
    case (1 live' hc)
    with sc have "live' = live" "p = (vi_pool idx)\<lparr>vp_handles := hc\<rparr>" by simp_all
    with 1 show ?case by (intro 1(1)) simp_all
  qed
  have abs: "map_of live = index_abs C idx"
    using stored_iff [OF inv] by (auto simp: fun_eq_iff live(2) index_abs_def
        all_deleted_ids_iff [OF index_inv_graph [OF inv]] is_deleted_def split: option.splits)
  have len: "length live = card (dom (index_abs C idx))"
    using distinct_card [OF live(1)] by (simp add: abs [symmetric] dom_map_of_conv_image_fst)
  have "vec_room_for p (length live)" using room by (simp add: p(1) vec_room_for_def len)
  note a = append_all_ok [OF p(2) this app]
  have g: "nsw_wf g" "map_of (ng_nodes g) x = None \<longleftrightarrow> map_of live x = None"
    "is_deleted g x \<longleftrightarrow> map_of live x = None" for x
    by (rule graph_of_live_ok [OF ctx live(1), of "vs_metric (vi_schema idx)"], use gr in simp)+
  have d: "distinct (map fst locs)" using a live(1) by metis
  note sw' = switch_locators_Ok [OF ctx sw d]
  note per = vec_pool_persist [OF conjunct1 [OF a] refl, of "serialize g"]
  have rd: "idx_lookup vec_read (vi_pool idx') (map_of locs) = map_of live"
    "idx_covered vec_read (vi_pool idx') (map_of locs)"
    using a by (simp_all add: idx' idx_lookup_def idx_covered_def per(2) cong: option.case_cong)
  show st: "stored_vectors C idx' = index_abs C idx"
    using rd(1) by (simp add: stored_vectors_def abs [symmetric] sw' idx')
  have "vi_graph idx' = g" by (simp add: idx')
  then show "index_abs C idx' = index_abs C idx"
    using g(3) abs by (simp add: index_abs_def [of C idx'] st fun_eq_iff)
  have dom: "loc_index C (vi_env idx') x = None \<longleftrightarrow> map_of live x = None" for x
    using idx_lookup_dom [OF rd(2)] rd(1) by (simp add: idx' sw') (metis domIff)
  show "index_inv C idx'"
  proof (rule index_invI)
    show "map_of (vi_locators idx') i = Some l" if "loc_index C (vi_env idx') i = Some l" for i l
      using that map_of_foldl_update_empty [OF d] by (simp add: idx' sw')
    show "map_of (ng_nodes (vi_graph idx')) i = None \<longleftrightarrow> loc_index C (vi_env idx') i = None" for i
      using dom [of i] g(2) [of i] by (simp add: idx')
    show "vp_dim (vi_pool idx') = vs_dim (vi_schema idx')"
      using a index_inv_dim [OF inv] by (simp add: idx' p(1))
  qed (use per(1) g(1) sw'(2) rd(2) in \<open>simp_all add: idx' sw'(1)\<close>)
  show "n = card (dom (index_abs C idx))" "segs = all_seg_ids (vi_pool idx)"
    using n len by simp_all
qed

section \<open>Opening\<close>

lemma iter_empty:
  assumes "heed_laws H" "heed_view H h db = Map.empty" "hd_iter H h db = HOk kvs"
  shows "kvs = []"
proof (cases kvs)
  case (Cons kv kvs')
  obtain k v where "kv = (k, v)" by (cases kv)
  with Cons have "map_of kvs k \<noteq> None" by simp
  with heed_iter_view [OF assms(1,3)] assms(2) show ?thesis by simp
qed simp

lemma index_open_fresh:
  assumes ctx: "vec_ctx_ok C" and env: "loc_view C env = Map.empty"
    and d: "fs_ok d" "n \<le> U32_MAX" "next_vec_seg_id d = 0 \<Longrightarrow> \<forall>s. \<not> fs_exists d (vec_segment_file s)"
    and op: "index_open C env d schema n = Ok idx"
    and snap: "snapshot_load (vp_data_dir (vi_pool idx)) = Ok None"
  shows "index_inv C idx" "index_abs C idx = Map.empty"
proof -
  obtain h1 h2 h3 h4 snp locs where
    h: "hd_create (vc_heed C) env VEC_LOCATOR_DB = HOk h1" "hd_create (vc_heed C) h1 '''' = HOk h2"
      "hd_put (vc_heed C) h2 '''' SCHEMA_KEY (vj_schema_to_vec (vc_serde C) schema) = HOk h3"
      "hd_commit (vc_heed C) h3 = HOk h4"
    and l: "load_locator_cache C h4 = Ok locs"
    and snp: "snapshot_load (vp_data_dir (vec_pool_open d n (vs_dim schema))) = Ok snp"
    and idx: "idx = \<lparr>vi_schema = schema, vi_env = h4, vi_pool = vec_pool_open d n (vs_dim schema),
      vi_graph = (case snp of Some g \<Rightarrow> g | None \<Rightarrow> nsw_new), vi_locators = locs, vi_read_error = False\<rparr>"
    using op by (auto simp: index_open_def Let_def)
  have g: "vi_graph idx = nsw_new" using snap snp by (simp add: idx)
  note H = ctx_heed [OF ctx]
  have "VEC_LOCATOR_DB \<noteq> ''''" by (simp add: VEC_LOCATOR_DB_def)
  then have v: "loc_view C h4 = Map.empty"
    using heed_create_view [OF H h(1)] heed_create_view [OF H h(2)] heed_put_view [OF H h(3)]
      heed_commit_view [OF H h(4)] env by simp
  then have li: "loc_index C h4 = Map.empty" "db_ok C h4"
    by (simp_all add: loc_index_def db_ok_def fun_eq_iff)
  have locs: "locs = []"
    using l iter_empty [OF H v] by (auto simp: load_locator_cache_def)
  show "index_inv C idx"
    using vec_pool_open_inv [OF d] li nsw_wf_new
    by (intro index_invI) (simp_all add: idx g [unfolded idx, simplified] locs idx_covered_def nsw_new_def
        vec_pool_open_def Let_def split_beta)
  show "index_abs C idx = Map.empty"
    by (simp add: fun_eq_iff index_abs_def stored_vectors_def idx_lookup_def idx li)
qed

section \<open>A concrete context\<close>

definition toy_serde :: vec_serde where
  "toy_serde =
     \<lparr>vj_loc_to_vec = (\<lambda>l. u32_to_le (vl_seg_id l) @ u32_to_le (vl_offset l) @ u32_to_le (vl_len l)),
      vj_loc_from_slice = (\<lambda>bs. if length bs \<noteq> 12 then None
        else Some \<lparr>vl_seg_id = u32_from_le (slice bs 0 4), vl_offset = u32_from_le (slice bs 4 4),
                   vl_len = u32_from_le (slice bs 8 4)\<rparr>),
      vj_schema_to_vec = (\<lambda>s. (case vs_metric s of Cosine \<Rightarrow> 0 | L2 \<Rightarrow> 1 | Dot \<Rightarrow> 2) #
        replicate (vs_dim s) 1 @ 0 # replicate (vs_ef_search s) 1),
      vj_schema_from_slice = (\<lambda>bs. case bs of [] \<Rightarrow> None | m # r \<Rightarrow>
        Some \<lparr>vs_dim = length (takeWhile (\<lambda>b. b = 1) r),
              vs_metric = (if m = 0 then Cosine else if m = 1 then L2 else Dot),
              vs_ef_search = length (List.tl (dropWhile (\<lambda>b. b = 1) r))\<rparr>)\<rparr>"

definition toy_ctx :: "mem_db vec_ctx" where
  "toy_ctx = \<lparr>vc_heed = mem_heed, vc_serde = toy_serde, vc_neon = True,
     vc_arith = \<lparr>f_add = (+), f_sub = (-), f_mul = (*), f_div = (\<lambda>x y. x), f_sqrt = (\<lambda>x. x)\<rparr>,
     vc_order = (\<lambda>m. m)\<rparr>"

lemma toy_ctx_ok: "vec_ctx_ok toy_ctx"
proof -
  have "takeWhile (\<lambda>b. b = 1) (replicate n 1 @ 0 # r) = replicate n (1 :: u8)"
    "dropWhile (\<lambda>b. b = 1) (replicate n 1 @ 0 # r) = 0 # r" for n r
    by (induction n) auto
  then have "vec_serde_law toy_serde"
    by (auto simp: vec_serde_law_def toy_serde_def slice_def split: metric_kind.split)
  then show ?thesis by (simp add: vec_ctx_ok_def toy_ctx_def mem_heed_laws)
qed

definition toy_index :: "mem_db vector_index" where
  "toy_index = (case index_open toy_ctx [] fs_empty (schema_new 1 L2) 8 of Ok idx \<Rightarrow> idx)"

abbreviation no_reader :: "u32 \<Rightarrow> bool" where
  "no_reader \<equiv> \<lambda>_. False"

lemma toy_index_open: "index_open toy_ctx [] fs_empty (schema_new 1 L2) 8 = Ok toy_index"
proof -
  have "is_ok (index_open toy_ctx [] fs_empty (schema_new 1 L2) 8)" by code_simp
  then show ?thesis by (auto simp: is_ok_iff toy_index_def)
qed

lemma toy_index_inv: "index_inv toy_ctx toy_index" "index_abs toy_ctx toy_index = Map.empty"
proof -
  have *: "loc_view toy_ctx [] = Map.empty" by (simp add: toy_ctx_def mem_heed_empty)
  have s: "snapshot_load (vp_data_dir (vi_pool toy_index)) = Ok None"
    by code_simp
  note fresh = index_open_fresh [OF toy_ctx_ok * fs_ok_empty _ _ toy_index_open s]
  show "index_inv toy_ctx toy_index" "index_abs toy_ctx toy_index = Map.empty"
    by (rule fresh; simp add: fs_exists_def fs_inode_def fs_empty_def)+
qed

section \<open>Deleting, searching and reclaiming\<close>

lemma index_get_vector:
  assumes inv: "index_inv C idx" and get: "get_vector C held idx i = (r, idx')"
  shows "r = Ok (index_abs C idx i)" "index_inv C idx'" "index_abs C idx' = index_abs C idx"
proof -
  have "r = Ok (index_abs C idx i) \<and> index_inv C idx' \<and> index_abs C idx' = index_abs C idx"
  proof (cases "is_deleted (vi_graph idx) i")
    case True
    with get inv show ?thesis by (simp add: get_vector_def index_abs_def)
  next
    case False
    then obtain n where "map_of (ng_nodes (vi_graph idx)) i = Some n" using live_in_nodes by blast
    then obtain v where v: "stored_vectors C idx i = Some v" using stored_iff [OF inv, of i] by auto
    obtain z where z: "fst (index_vec_slice C held idx i) = Ok z" "vec_as_f32 (vp_data_dir (vi_pool idx)) z = v"
      by (rule index_reads [OF inv v])
    obtain idx1 where sl: "index_vec_slice C held idx i = (Ok z, idx1)"
      using z(1) by (cases "index_vec_slice C held idx i") simp
    obtain hc where k: "idx1 = idx\<lparr>vi_pool := (vi_pool idx)\<lparr>vp_handles := hc\<rparr>\<rparr>" "index_inv C idx1"
      "stored_vectors C idx1 = stored_vectors C idx"
      by (rule index_vec_slice_keeps [OF inv _ sl]) (use v in simp)
    have "r = Ok (Some v)" "idx' = idx1" using get False sl z(2) by (auto simp: get_vector_def k(1))
    with k v False show ?thesis by (auto simp: index_abs_def fun_eq_iff)
  qed
  then show "r = Ok (index_abs C idx i)" "index_inv C idx'" "index_abs C idx' = index_abs C idx" by blast+
qed

lemma index_delete_keeps:
  assumes inv: "index_inv C idx" and del: "index_delete idx i = (b, idx')"
  shows "b \<longleftrightarrow> index_abs C idx i \<noteq> None" "index_inv C idx'" "index_abs C idx' = (index_abs C idx)(i := None)"
proof -
  obtain g where g: "nsw_delete (vi_graph idx) i = (b, g)" "idx' = idx\<lparr>vi_graph := g\<rparr>"
    using del by (auto simp: index_delete_def split: prod.splits)
  note c = nsw_delete_contents [OF g(1)]
  show "b \<longleftrightarrow> index_abs C idx i \<noteq> None"
    using c(1) stored_iff [OF inv, of i] live_in_nodes [of "vi_graph idx" i] by (auto simp: index_abs_def)
  show "index_inv C idx'"
    using inv c(2) nsw_wf_delete [OF index_inv_graph [OF inv] g(1)] by (auto simp: index_inv_def g(2))
  show "index_abs C idx' = (index_abs C idx)(i := None)"
    using c(3) by (auto simp: index_abs_def stored_vectors_def g(2) fun_eq_iff)
qed

lemma reachable_node:
  assumes "nsw_wf g" "map_of (ng_nodes g) e \<noteq> None" "(nsw_edge g)\<^sup>*\<^sup>* e i"
  shows "map_of (ng_nodes g) i \<noteq> None"
  using assms(3)
proof (induction rule: rtranclp_induct)
  case (step j k)
  then obtain n where "map_of (ng_nodes g) j = Some n" "k \<in> set (nd_neighbors n)"
    by (auto simp: nsw_edge_def split: option.splits)
  then show ?case using nsw_wf_target [OF assms(1)] by blast
qed (use assms in simp)

text \<open>No read fails during a search: every node that the search reaches has a readable vector.\<close>

lemma search_reads_ok:
  assumes inv: "index_inv C idx" and e: "ng_entry_point (vi_graph idx) = Some e"
    and run: "search_run (vi_graph idx) qd ef e ex = (vis, res)"
  shows "\<not> list_ex (read_fails C held idx) vis"
proof -
  have "\<not> read_fails C held idx i" if "i \<in> set vis" for i
  proof -
    have "(nsw_edge (vi_graph idx))\<^sup>*\<^sup>* e i" using search_run_reachable(1) [OF run] that by blast
    from reachable_node [OF index_inv_graph [OF inv] nsw_wf_entry [OF index_inv_graph [OF inv] e] this]
    obtain v where "stored_vectors C idx i = Some v" using stored_iff [OF inv, of i] by auto
    from index_reads [OF inv this, of held] show ?thesis by (metis is_ok.simps(1) read_fails_def)
  qed
  then show ?thesis by (simp add: list_ex_iff)
qed

lemma reclaim_loop_exists:
  "fs_exists (vp_data_dir (snd (reclaim_loop held now p n sids))) name \<Longrightarrow> fs_exists (vp_data_dir p) name"
proof (induction sids arbitrary: p n)
  case (Cons s sids)
  have sub: "fs_exists (vp_data_dir (drop_sealed (p\<lparr>vp_data_dir := fs_remove (vp_data_dir p) f\<rparr>) s)) name
      \<Longrightarrow> fs_exists (vp_data_dir p) name"
    "vp_data_dir (drop_sealed p s) = vp_data_dir p" for f
    by (auto simp: drop_sealed_def fs_exists_def split: if_splits)
  show ?case
    using Cons.prems by (auto simp: Let_def sub(2) split: if_splits dest!: Cons.IH sub(1))
qed simp

lemma reclaim_loop_removes:
  "sid \<in> set sids \<Longrightarrow> \<not> held sid \<Longrightarrow>
     \<not> fs_exists (vp_data_dir (snd (reclaim_loop held now p n sids))) (vec_segment_file sid)"
proof (induction held now p n sids rule: reclaim_loop.induct)
  case (2 held now p n s sids)
  show ?case
  proof (cases "sid = s")
    case True
    then have safe: "reclaim_safe held now p s"
      using "2.prems" by (simp add: reclaim_safe_def split: option.split)
    let ?found = "fs_exists (vp_data_dir p) (vec_segment_file s)"
    let ?p1 = "drop_sealed (if ?found then p\<lparr>vp_data_dir := fs_remove (vp_data_dir p) (vec_segment_file s)\<rparr> else p) s"
    have "\<not> fs_exists (vp_data_dir ?p1) (vec_segment_file s)"
      by (simp add: drop_sealed_def fs_exists_def)
    then have "\<not> fs_exists (vp_data_dir (snd (reclaim_loop held now ?p1 (if ?found then Suc n else n) sids)))
        (vec_segment_file s)"
      using reclaim_loop_exists by blast
    with safe True show ?thesis by (simp add: Let_def)
  next
    case False
    with 2 show ?thesis by (auto simp: Let_def)
  qed
qed simp

lemma append_all_segs:
  assumes "vec_room_for p (length live)" "append_all held now p live = (Ok locs, p')"
  shows "unat (vp_active_id p) \<le> unat (vp_active_id p')"
    "vp_active_id p' = vp_active_id p \<Longrightarrow> (i, l) \<in> set locs \<Longrightarrow> vl_seg_id l = vp_active_id p"
proof -
  have "unat (vp_active_id p) \<le> unat (vp_active_id p') \<and>
    (vp_active_id p' = vp_active_id p \<longrightarrow> (\<forall>(i, l) \<in> set locs. vl_seg_id l = vp_active_id p))"
    using assms
  proof (induction live arbitrary: p locs)
    case (Cons iv live)
    obtain i v where iv: "iv = (i, v)" by (cases iv)
    obtain loc p1 where app: "vec_append held now p v = (Ok loc, p1)"
      using Cons.prems(2) iv by (auto split: prod.splits res.splits)
    obtain locs1 where rest: "append_all held now p1 live = (Ok locs1, p')" "locs = (i, loc) # locs1"
      using Cons.prems(2) iv app by (auto split: prod.splits)
    have room: "vec_room_for p1 (length live)"
      using vec_room_for_append [OF _ app] Cons.prems(1) by simp
    note IH = Cons.IH [OF room rest(1)]
    have le: "unat (vp_active_id p) \<le> unat (vp_active_id p1)"
      using vec_append_id [OF app] Cons.prems(1) by (auto simp: vec_room_for_def unat_word_ariths)
    have seg: "vl_seg_id loc = vp_active_id p1"
      using app by (rule vec_append_cases) auto
    have "vp_active_id p1 = vp_active_id p" if "vp_active_id p' = vp_active_id p"
      using that IH le by (simp add: word_unat_eq_iff)
    with IH le seg show ?case by (auto simp: rest(2))
  qed simp
  then show "unat (vp_active_id p) \<le> unat (vp_active_id p')"
    "vp_active_id p' = vp_active_id p \<Longrightarrow> (i, l) \<in> set locs \<Longrightarrow> vl_seg_id l = vp_active_id p" by blast+
qed

section \<open>Properties\<close>

abbreviation toy_one :: "mem_db vector_index" where
  "toy_one \<equiv> snd (index_insert toy_ctx no_reader 0 toy_index 1 [5])"

lemma toy_one_insert: "index_insert toy_ctx no_reader 0 toy_index 1 [5] = (Ok (), toy_one)"
proof -
  have "fst (index_insert toy_ctx no_reader 0 toy_index 1 [5]) = Ok ()" by code_simp
  then show ?thesis by (metis prod.collapse)
qed

lemma toy_room: "vec_room (vi_pool toy_index)"
  by code_simp

lemma toy_one_inv: "index_inv toy_ctx toy_one" "index_abs toy_ctx toy_one = [1 \<mapsto> [5]]"
  using index_insert_keeps [OF toy_ctx_ok toy_index_inv(1) toy_room toy_one_insert] toy_index_inv(2)
  by simp_all

text \<open>
  Inserting a vector (C11).  Whatever the outcome, the index keeps its invariant; the map from
  ids to live vectors gains exactly the new vector if the insert succeeds and stays as it was if
  it fails.  A vector of the wrong dimension and an id that is already stored, even a soft
  deleted one, are never accepted.
\<close>

theorem index_insert_refines:
  assumes "vec_ctx_ok C" "index_inv C idx" "vec_room (vi_pool idx)"
    and "index_insert C held now idx i v = (r, idx')"
  shows "index_inv C idx' \<and>
    index_abs C idx' = (if is_ok r then (index_abs C idx)(i \<mapsto> v) else index_abs C idx) \<and>
    (length v \<noteq> vs_dim (vi_schema idx) \<longrightarrow> r = Err (DimensionMismatch (vs_dim (vi_schema idx)) (length v))) \<and>
    (stored_vectors C idx i \<noteq> None \<longrightarrow> \<not> is_ok r)"
proof -
  note k = index_insert_keeps [OF assms]
  have "r = Err (DimensionMismatch (vs_dim (vi_schema idx)) (length v))"
    if "length v \<noteq> vs_dim (vi_schema idx)"
    using that assms(4) by (auto simp: index_insert_def validate_dim_def)
  with k show ?thesis by auto
qed

theorem index_insert_refines_witness:
  "index_inv toy_ctx toy_one \<and> index_abs toy_ctx toy_one = [1 \<mapsto> [5]]"
  using index_insert_refines [OF toy_ctx_ok toy_index_inv(1) toy_room toy_one_insert] toy_index_inv(2)
  by simp

text \<open>
  Reading and deleting a vector.  \<open>get_vector\<close> returns exactly the live vector of the id,
  or \<open>None\<close>, and changes nothing visible; \<open>delete\<close> reports whether the id was live and removes it
  from the map.
\<close>

theorem get_vector_delete_correct:
  assumes "index_inv C idx"
  shows "fst (get_vector C held idx i) = Ok (index_abs C idx i) \<and>
    index_inv C (snd (get_vector C held idx i)) \<and>
    index_abs C (snd (get_vector C held idx i)) = index_abs C idx \<and>
    (fst (index_delete idx i) \<longleftrightarrow> index_abs C idx i \<noteq> None) \<and>
    index_inv C (snd (index_delete idx i)) \<and>
    index_abs C (snd (index_delete idx i)) = (index_abs C idx)(i := None)"
  using index_get_vector [OF assms, of held i] index_delete_keeps [OF assms, of i]
  by (metis prod.collapse)

theorem get_vector_delete_correct_witness:
  "fst (get_vector toy_ctx no_reader toy_one 1) = Ok (Some [5]) \<and>
   index_abs toy_ctx (snd (index_delete toy_one 1)) = Map.empty"
  using get_vector_delete_correct [OF toy_one_inv(1), of no_reader 1] toy_one_inv(2) by simp

text \<open>
  Searching (C29).  A query of the right dimension never fails with a read error.  The answer has
  at most \<open>k\<close> entries, no id twice, in ascending order of distance; every entry is a live vector
  with its distance to the query under the metric of the schema.  This holds for every deadline.
\<close>

theorem index_search_correct:
  assumes inv: "index_inv C idx" and dim: "length q = vs_dim (vi_schema idx)"
    and se: "index_search_knn C held expired idx q k = (r, idx')"
  shows "\<exists>out. r = Ok out \<and> length out \<le> k \<and> distinct (map fst out) \<and>
    sorted (map (\<lambda>(i, d). OrderDist d) out) \<and>
    list_all (\<lambda>(i, d). \<exists>v. index_abs C idx i = Some v \<and>
      d = distance (vc_neon C) (vc_arith C) (vs_metric (vi_schema idx)) q v) out"
proof (cases "ng_entry_point (vi_graph idx)")
  case None
  with dim se have "r = Ok []" by (simp add: index_search_knn_def validate_dim_def search_knn_def Let_def)
  then show ?thesis by simp
next
  case (Some e)
  let ?qd = "make_query_dist C held idx q"
  let ?ef = "max (vs_ef_search (vi_schema idx)) k"
  let ?all = "search_layer (vi_graph idx) ?qd ?ef e expired"
  obtain vis res where run: "search_run (vi_graph idx) ?qd ?ef e expired = (vis, res)"
    by (cases "search_run (vi_graph idx) ?qd ?ef e expired")
  have r: "r = Ok (take k ?all)"
    using dim se Some run search_reads_ok [OF inv Some run, of held]
    by (simp add: index_search_knn_def validate_dim_def search_knn_def Let_def)
  note s = search_layer_sound [where g = "vi_graph idx" and qd = ?qd and ef = ?ef and entry = e and ex = expired]
  have "\<exists>v. index_abs C idx i = Some v \<and>
      d = distance (vc_neon C) (vc_arith C) (vs_metric (vi_schema idx)) q v" if "(i, d) \<in> set ?all" for i d
  proof -
    have live: "d = ?qd i" "\<not> is_deleted (vi_graph idx) i" using s(4) [OF that] by blast+
    then obtain v where v: "stored_vectors C idx i = Some v"
      using stored_iff [OF inv, of i] live_in_nodes [of "vi_graph idx" i] by auto
    with live query_dist_stored [OF inv v, of held q] show ?thesis by (simp add: index_abs_def)
  qed
  then have "list_all (\<lambda>(i, d). \<exists>v. index_abs C idx i = Some v \<and>
      d = distance (vc_neon C) (vc_arith C) (vs_metric (vi_schema idx)) q v) (take k ?all)"
    by (auto simp: list_all_iff dest: in_set_takeD)
  moreover have "distinct (map fst (take k ?all))" "sorted (map (\<lambda>(i, d). OrderDist d) (take k ?all))"
    using s(1,2) by (simp_all add: take_map [symmetric] sorted_wrt_take)
  ultimately show ?thesis using r by simp
qed

theorem index_search_correct_witness:
  "\<exists>out. fst (index_search_knn toy_ctx no_reader (\<lambda>_. False) toy_one [7] 3) = Ok out \<and> length out \<le> 3 \<and>
    distinct (map fst out) \<and> sorted (map (\<lambda>(i, d). OrderDist d) out) \<and>
    list_all (\<lambda>(i, d). \<exists>v. index_abs toy_ctx toy_one i = Some v \<and>
      d = distance True (vc_arith toy_ctx) L2 [7] v) out"
proof -
  have *: "vs_metric (vi_schema toy_one) = L2" "vc_neon toy_ctx = True" by code_simp+
  have "length [7 :: f32] = vs_dim (vi_schema toy_one)" by code_simp
  from index_search_correct [OF toy_one_inv(1) this surjective_pairing, unfolded *]
  show ?thesis .
qed

lemma toy_room_for: "vec_room_for (vi_pool toy_one) (card (dom (index_abs toy_ctx toy_one)))"
  unfolding toy_one_inv(2) by (simp add: vec_room_for_def) code_simp

abbreviation toy_live :: "(u64 \<times> f32 list) list" where
  "toy_live \<equiv> [(1, [5])]"

abbreviation toy_compacted :: "mem_db vector_index" where
  "toy_compacted \<equiv> snd (index_compact toy_ctx no_reader 0 None toy_one)"

lemma index_compact_stages:
  assumes "compact_scan C held statv idx = (Ok live, p)"
    and "compact_rewrite C held now (vs_metric (vi_schema idx)) p live = (Ok (locs, g), p1)"
    and "switch_locators C (vi_env idx) (vi_locators idx) locs = (Ok h, cache)"
  shows "fst (index_compact C held now statv idx) = Ok (all_seg_ids (vi_pool idx), length live)"
    and "vp_active_id (vi_pool (snd (index_compact C held now statv idx))) = vp_active_id p1"
  using assms by (simp_all add: index_compact_def)

text \<open>The three stages are evaluated one by one; the snapshot is not.\<close>

lemma toy_compact:
  "index_compact toy_ctx no_reader 0 None toy_one = (Ok ([0], 1), toy_compacted)"
  "vp_active_id (vi_pool toy_compacted) = vp_active_id (vi_pool toy_one)"
proof -
  define scan where "scan = compact_scan toy_ctx no_reader None toy_one"
  define rw where "rw = compact_rewrite toy_ctx no_reader 0 (vs_metric (vi_schema toy_one)) (snd scan) toy_live"
  define locs where "locs = fst (case fst rw of Ok x \<Rightarrow> x)"
  define sw where "sw = switch_locators toy_ctx (vi_env toy_one) (vi_locators toy_one) locs"
  have "fst scan = Ok toy_live" unfolding scan_def by code_simp
  then have s: "compact_scan toy_ctx no_reader None toy_one = (Ok toy_live, snd scan)"
    by (simp add: scan_def prod_eq_iff)
  have "is_ok (fst rw)" unfolding rw_def scan_def by code_simp
  then obtain g where r: "compact_rewrite toy_ctx no_reader 0 (vs_metric (vi_schema toy_one)) (snd scan) toy_live =
      (Ok (locs, g), snd rw)"
    unfolding rw_def [symmetric] locs_def by (auto simp: is_ok_iff prod_eq_iff)
  have "is_ok (fst sw)" unfolding sw_def locs_def rw_def scan_def by code_simp
  then obtain h where w: "switch_locators toy_ctx (vi_env toy_one) (vi_locators toy_one) locs = (Ok h, snd sw)"
    unfolding sw_def [symmetric] by (auto simp: is_ok_iff prod_eq_iff)
  note st = index_compact_stages [OF s r w]
  have "all_seg_ids (vi_pool toy_one) = [0]" by code_simp
  with st(1) show "index_compact toy_ctx no_reader 0 None toy_one = (Ok ([0], 1), toy_compacted)"
    by (simp add: prod_eq_iff)
  have "vp_active_id (snd rw) = vp_active_id (vi_pool toy_one)" unfolding rw_def scan_def by code_simp
  with st(2) show "vp_active_id (vi_pool toy_compacted) = vp_active_id (vi_pool toy_one)" by simp
qed

text \<open>
  Compaction (C30).  A compaction that succeeds keeps exactly the live vectors: every id answers
  the same vector as before, every soft-deleted vector is gone from the index, and the reported
  count is the number of live vectors.
\<close>

theorem index_compact_preserves:
  assumes "vec_ctx_ok C" "index_inv C idx"
    and "vec_room_for (vi_pool idx) (card (dom (index_abs C idx)))"
    and "index_compact C held now statv idx = (Ok (segs, n), idx')"
  shows "index_inv C idx' \<and> index_abs C idx' = index_abs C idx \<and>
    stored_vectors C idx' = index_abs C idx \<and> n = card (dom (index_abs C idx))"
  using index_compact_keeps [OF assms] by blast

theorem index_compact_preserves_witness:
  "index_inv toy_ctx toy_compacted \<and> index_abs toy_ctx toy_compacted = [1 \<mapsto> [5]]"
  using index_compact_preserves [OF toy_ctx_ok toy_one_inv(1) toy_room_for toy_compact(1)] toy_one_inv(2)
  by simp

text \<open>
  Reclaiming after a compaction.  The compaction appends the live vectors to the active
  segment and reports that segment as reclaimable.  If they fit without a rotation, reclaiming
  the reported segments removes the file of every live vector, although the database still
  points into it.
\<close>

theorem reclaim_after_compact_loses:
  assumes ctx: "vec_ctx_ok C" and inv: "index_inv C idx"
    and room: "vec_room_for (vi_pool idx) (card (dom (index_abs C idx)))"
    and comp: "index_compact C held now statv idx = (Ok (segs, n), idx')"
    and same: "vp_active_id (vi_pool idx') = vp_active_id (vi_pool idx)"
    and free: "\<not> held' (vp_active_id (vi_pool idx))"
    and rec: "reclaim_segments held' now' idx' segs = (m, idx'')"
    and live: "index_abs C idx i = Some v"
  shows "\<exists>l. loc_index C (vi_env idx'') i = Some l \<and>
    \<not> fs_exists (vp_data_dir (vi_pool idx'')) (vec_segment_file (vl_seg_id l))"
proof -
  note k = index_compact_keeps [OF ctx inv room comp]
  obtain kvs lv p p1 locs g h cache where
    kvs: "hd_iter (vc_heed C) (vi_env idx) VEC_LOCATOR_DB = HOk kvs"
    and sc: "scan_live (vc_serde C) held (\<lambda>i. i \<in> set (all_deleted_ids (vi_graph idx))) (vi_pool idx) kvs = (Ok lv, p)"
    and app: "append_all held now p lv = (Ok locs, p1)"
    and sw: "switch_locators C (vi_env idx) (vi_locators idx) locs = (Ok h, cache)"
    and n: "n = length lv"
    and idx': "idx' = idx\<lparr>vi_env := h, vi_graph := g,
        vi_locators := foldl (\<lambda>c (i, l). AList.update i l c) [] locs,
        vi_pool := p1\<lparr>vp_data_dir := persist (vp_data_dir p1) (serialize g)\<rparr>\<rparr>"
    by (rule index_compact_Ok [OF comp])
  have p: "vp_active_id p = vp_active_id (vi_pool idx)" "vec_pool_inv p" "distinct (map fst lv)"
    by (rule scan_index [OF ctx inv inv inv kvs, of held "\<lambda>i. i \<in> set (all_deleted_ids (vi_graph idx))"], use sc in simp)+
  have rf: "vec_room_for p (length lv)" using room k(4) n p(1) by (simp add: vec_room_for_def)
  have "distinct (map fst locs)" using append_all_ok [OF p(2) rf app] p(3) by metis
  from switch_locators_Ok(1) [OF ctx sw this] have li: "loc_index C (vi_env idx') = map_of locs" by (simp add: idx')
  have "stored_vectors C idx' i = Some v" using k(3) live by simp
  then obtain l where l: "map_of locs i = Some l"
    by (auto simp: stored_vectors_def idx_lookup_def li split: option.splits)
  have "vp_active_id p1 = vp_active_id p" using same p(1) by (simp add: idx')
  from append_all_segs(2) [OF rf app this map_of_SomeD [OF l]] p(1)
  have seg: "vl_seg_id l = vp_active_id (vi_pool idx)" by simp
  then have "vl_seg_id l \<in> set segs" using k(5) by (simp add: all_seg_ids_def)
  then have gone: "\<not> fs_exists (vp_data_dir (snd (reclaim_loop held' now' (vi_pool idx') 0 segs)))
      (vec_segment_file (vl_seg_id l))"
    by (rule reclaim_loop_removes) (use free seg in simp)
  have "idx'' = idx'\<lparr>vi_pool := snd (reclaim_loop held' now' (vi_pool idx') 0 segs)\<rparr>"
    using rec by (auto simp: reclaim_segments_def split: prod.splits)
  with gone l li show ?thesis by simp
qed

theorem reclaim_after_compact_loses_witness:
  "\<exists>l. loc_index toy_ctx (vi_env (snd (reclaim_segments no_reader 0 toy_compacted [0]))) 1 = Some l \<and>
    \<not> fs_exists (vp_data_dir (vi_pool (snd (reclaim_segments no_reader 0 toy_compacted [0]))))
        (vec_segment_file (vl_seg_id l))"
proof (rule reclaim_after_compact_loses [OF toy_ctx_ok toy_one_inv(1) toy_room_for toy_compact(1) _ _ surjective_pairing])
  show "vp_active_id (vi_pool toy_compacted) = vp_active_id (vi_pool toy_one)" by (rule toy_compact(2))
  show "index_abs toy_ctx toy_one 1 = Some [5]" by (simp add: toy_one_inv(2))
qed simp

section \<open>Reopening\<close>

lemma load_entries_ok:
  assumes "\<forall>k v. (k, v) \<in> set kvs \<longrightarrow> length k = 8 \<and> vj_loc_from_slice J v \<noteq> None"
  shows "load_entries J kvs c = Ok (foldl (\<lambda>c (i, l). AList.update i l c) c
    (map (\<lambda>(k, v). (u64_from_le k, the (vj_loc_from_slice J v))) kvs))"
  using assms
proof (induction kvs arbitrary: c)
  case (Cons kv kvs)
  obtain k v where kv: "kv = (k, v)" by (cases kv)
  have "length k = 8 \<and> vj_loc_from_slice J v \<noteq> None" using Cons.prems kv by auto
  moreover have "\<forall>k v. (k, v) \<in> set kvs \<longrightarrow> length k = 8 \<and> vj_loc_from_slice J v \<noteq> None"
    using Cons.prems by auto
  note Cons.IH [OF this]
  ultimately show ?case by (auto simp: kv)
qed simp

lemma load_locator_cache_ok:
  assumes ctx: "vec_ctx_ok C" and db: "db_ok C h" and l: "load_locator_cache C h = Ok locs"
  shows "map_of locs = loc_index C h" "distinct (map fst locs)"
proof -
  obtain kvs where kvs: "hd_iter (vc_heed C) h VEC_LOCATOR_DB = HOk kvs"
    "load_entries (vc_serde C) kvs [] = Ok locs"
    using l by (auto simp: load_locator_cache_def)
  have it: "distinct (map fst kvs)" "map_of kvs = loc_view C h"
    using heed_iter_view [OF ctx_heed [OF ctx] kvs(1)] by blast+
  have good: "\<forall>k v. (k, v) \<in> set kvs \<longrightarrow> length k = 8 \<and> vj_loc_from_slice (vc_serde C) v \<noteq> None"
    using it db by (metis db_ok_def map_of_is_SomeI)
  let ?dec = "\<lambda>v. the (vj_loc_from_slice (vc_serde C) v)"
  let ?ls = "map (\<lambda>(k, v). (u64_from_le k, ?dec v)) kvs"
  have locs: "locs = foldl (\<lambda>c (i, l). AList.update i l c) [] ?ls"
    using load_entries_ok [OF good] kvs(2) by simp
  have flt: "filter (\<lambda>(k, v). True) kvs = kvs" by (simp add: case_prod_beta)
  have d: "distinct (map fst ?ls)"
    using distinct_decoded [of kvs ?dec "\<lambda>_. True"] good it(1) by (simp add: flt)
  have "map_of ?ls i = loc_index C h i" for i
  proof -
    have "map_of ?ls i = map_option ?dec (loc_view C h (u64_to_le i))"
      using map_of_decoded [of kvs ?dec "\<lambda>_. True" i] good it(2) by (simp add: flt)
    also have "\<dots> = loc_index C h i"
      using db by (cases "loc_view C h (u64_to_le i)") (auto simp: loc_index_def db_ok_def)
    finally show ?thesis .
  qed
  then show "map_of locs = loc_index C h"
    unfolding locs map_of_foldl_update_empty [OF d] by blast
  show "distinct (map fst locs)" unfolding locs by (rule distinct_foldl_update) simp
qed

lemma snapshot_load_pool_open:
  assumes "fs_ok d"
  shows "snapshot_load (vp_data_dir (vec_pool_open d n dim)) = snapshot_load d"
proof -
  let ?sz = "if n = 0 then DEFAULT_VEC_SEGMENT_SIZE else n"
  let ?f = "vec_segment_file (next_vec_seg_id d)"
  obtain i d' where oc: "open_or_create_sized d ?f ?sz = (i, d')" by (cases "open_or_create_sized d ?f ?sz")
  note spec = open_or_create_sized_spec [OF assms oc]
  have "SNAPSHOT_FILE \<noteq> ?f" by (simp add: vec_segment_file_def seg_name_def SNAPSHOT_FILE_def)
  then have "fs_read d' SNAPSHOT_FILE = fs_read d SNAPSHOT_FILE"
    using spec(4) [of SNAPSHOT_FILE] spec(6) [of SNAPSHOT_FILE]
    by (cases "fs_inode d SNAPSHOT_FILE") (simp_all add: fs_read_def)
  with oc show ?thesis
    by (simp add: snapshot_load_def vec_pool_open_def open_or_create_vec_segment_def Let_def)
qed

text \<open>A pool that is opened on the directory of another one reads the same vectors.\<close>

lemma vec_reopen_reads:
  assumes inv: "vec_pool_inv p" and ids: "next_vec_seg_id (vp_data_dir p) \<noteq> 0"
    and rd: "vec_read p l = Some v"
  shows "vec_read (vec_pool_open (vp_data_dir p) n (vp_dim p)) l = Some v"
proof -
  obtain i where i: "fs_inode (vp_data_dir p) (vec_segment_file (vl_seg_id l)) = Some i"
    "unat (vl_offset l) mod 4 = 0" "unat (vl_len l) = byte_len p"
    "unat (vl_offset l) + unat (vl_len l) \<le> length (fs_data (vp_data_dir p) i)"
    "unat (vl_offset l) + unat (vl_len l) \<le> U32_MAX"
    "v = bytes_to_f32s (slice (fs_data (vp_data_dir p) i) (unat (vl_offset l)) (unat (vl_len l)))"
    by (rule vec_read_region [OF inv rd])
  show ?thesis
    unfolding i(6) by (rule vec_pool_open_read [OF vec_inv_fs_ok [OF inv] i(1) ids])
      (use i in \<open>simp_all add: byte_len_def\<close>)
qed

lemma index_reopen_rebuilds:
  assumes ctx: "vec_ctx_ok C" and inv: "index_inv C idx" and ids: "next_vec_seg_id (vp_data_dir (vi_pool idx)) \<noteq> 0"
    and n: "n \<le> U32_MAX"
    and sch: "heed_view (vc_heed C) (vi_env idx) '''' SCHEMA_KEY = Some (vj_schema_to_vec (vc_serde C) (vi_schema idx))"
    and stale: "nsw_len (snapshot_graph (vp_data_dir (vi_pool idx))) < card (dom (stored_vectors C idx))"
    and op: "index_reopen C held (vi_env idx) (vp_data_dir (vi_pool idx)) n = Ok idx'"
  shows "index_inv C idx'" "index_abs C idx' = stored_vectors C idx" "vi_schema idx' = vi_schema idx"
    "stored_vectors C idx' = stored_vectors C idx" "vp_active_id (vi_pool idx') = next_vec_seg_id (vp_data_dir (vi_pool idx))"
proof -
  let ?d = "vp_data_dir (vi_pool idx)"
  let ?pool = "vec_pool_open ?d n (vs_dim (vi_schema idx))"
  note pinv = index_inv_pool [OF inv] and H = ctx_heed [OF ctx]
  have "read_schema C (vi_env idx) = Ok s \<Longrightarrow> s = vi_schema idx" for s
    using sch ctx_schema [OF ctx] by (auto simp: read_schema_def heed_view_Some split: if_splits option.splits)
  then obtain h1 h2 locs where
    h: "hd_create (vc_heed C) (vi_env idx) VEC_LOCATOR_DB = HOk h1" "hd_commit (vc_heed C) h1 = HOk h2"
    and l: "load_locator_cache C h2 = Ok locs"
    and idx': "(let idx0 = \<lparr>vi_schema = vi_schema idx, vi_env = h2, vi_pool = ?pool, vi_graph = snapshot_graph ?d,
          vi_locators = locs, vi_read_error = False\<rparr>
        in if nsw_len (snapshot_graph ?d) < length locs
           then (case rebuild_graph_from_data C held idx0 of
                   (Ok u, idx1) \<Rightarrow> Ok idx1 | (Err e, idx1) \<Rightarrow> Err e | (Panic, idx1) \<Rightarrow> Panic)
           else Ok idx0) = Ok idx'"
    using op snapshot_load_pool_open [OF vec_inv_fs_ok [OF pinv], of n "vs_dim (vi_schema idx)"]
    by (auto simp: index_reopen_def Let_def snapshot_graph_def cong: if_cong res.case_cong)
  let ?idx0 = "\<lparr>vi_schema = vi_schema idx, vi_env = h2, vi_pool = ?pool, vi_graph = snapshot_graph ?d,
      vi_locators = locs, vi_read_error = False\<rparr>"
  have view: "loc_view C h2 = loc_view C (vi_env idx)"
    using heed_create_view [OF H h(1)] heed_commit_view [OF H h(2)] by simp
  have li: "loc_index C h2 = loc_index C (vi_env idx)" by (rule loc_index_cong [OF view])
  have db: "db_ok C h2" using index_inv_db [OF inv] db_ok_cong [OF view] by simp
  note lc = load_locator_cache_ok [OF ctx db l]
  have rd: "vec_read ?pool loc = vec_read (vi_pool idx) loc" if loc: "loc_index C h2 i = Some loc" for i loc
  proof -
    obtain v where v: "vec_read (vi_pool idx) loc = Some v"
      using loc [unfolded li] index_inv_covered [OF inv] by (auto simp: idx_covered_def)
    from vec_reopen_reads [OF pinv ids v, of n] v index_inv_dim [OF inv] show ?thesis by simp
  qed
  have cov: "idx_covered vec_read ?pool (loc_index C h2)"
    using rd li index_inv_covered [OF inv] by (auto simp: idx_covered_def)
  have st0: "stored_vectors C ?idx0 = stored_vectors C idx"
    using rd by (auto simp: stored_vectors_def idx_lookup_def li fun_eq_iff split: option.splits)
  have "card (dom (stored_vectors C idx)) = length locs"
    using idx_lookup_dom [OF index_inv_covered [OF inv]] distinct_card [OF lc(2)]
    by (simp add: stored_vectors_def li [symmetric] lc(1) [symmetric] dom_map_of_conv_image_fst)
  with stale idx' obtain u where rb: "rebuild_graph_from_data C held ?idx0 = (Ok u, idx')"
    by (auto simp: Let_def split: prod.splits res.splits)
  obtain kvs where kvs: "hd_iter (vc_heed C) h2 VEC_LOCATOR_DB = HOk kvs"
    using rb by (auto simp: rebuild_graph_from_data_def split: res.splits)
  have p0: "vec_pool_inv ?pool" by (rule vec_pool_open_inv [OF vec_inv_fs_ok [OF pinv] n]) (use ids in simp)
  obtain live hc where sc: "scan_live (vc_serde C) held (\<lambda>_. False) ?pool kvs = (Ok live, ?pool\<lparr>vp_handles := hc\<rparr>)"
    "vec_pool_inv (?pool\<lparr>vp_handles := hc\<rparr>)" "distinct (map fst live)"
    and live: "map_of live i = stored_vectors C idx i" for i
    by (rule scan_store [OF ctx, of ?idx0 kvs held "\<lambda>_. False"]) (use p0 db cov kvs st0 in simp_all)
  obtain g where g: "graph_of_live C (vs_metric (vi_schema idx)) live = Ok g" "nsw_wf g"
    "\<forall>x. map_of (ng_nodes g) x = None \<longleftrightarrow> map_of live x = None" "\<forall>x. is_deleted g x \<longleftrightarrow> map_of live x = None"
    by (rule graph_of_live_ok [OF ctx sc(3), of "vs_metric (vi_schema idx)"]) blast
  have eq: "idx' = ?idx0\<lparr>vi_pool := ?pool\<lparr>vp_handles := hc\<rparr>, vi_graph := g\<rparr>"
    using rb kvs sc(1) g(1) by (auto simp: rebuild_graph_from_data_def split: res.splits)
  have st: "stored_vectors C idx' = stored_vectors C idx"
    using st0 by (simp add: eq stored_vectors_def idx_lookup_def cong: option.case_cong)
  have dim: "vp_dim ?pool = vs_dim (vi_schema idx)" by (simp add: vec_pool_open_def Let_def split_beta)
  have "vi_graph idx' = g" by (simp add: eq)
  then show "index_abs C idx' = stored_vectors C idx"
    using g(4) live by (auto simp: index_abs_def st fun_eq_iff)
  show "index_inv C idx'"
  proof (rule index_invI)
    show "map_of (ng_nodes (vi_graph idx')) i = None \<longleftrightarrow> loc_index C (vi_env idx') i = None" for i
      using g(3) live idx_lookup_dom [OF index_inv_covered [OF inv]]
      by (simp add: eq li stored_vectors_def) (metis domIff)
  qed (use sc(2) g(2) db cov lc li dim in \<open>simp_all add: eq idx_covered_def\<close>)
  show "vi_schema idx' = vi_schema idx" by (simp add: eq)
  show "stored_vectors C idx' = stored_vectors C idx" by (rule st)
  show "vp_active_id (vi_pool idx') = next_vec_seg_id ?d" by (simp add: eq vec_pool_open_def Let_def split_beta)
qed

text \<open>
  Reopening after a crash (C31).  If the snapshot on disk is missing, damaged or has fewer live
  nodes than there are locators, reopening rebuilds the graph: every stored vector is live
  again with its contents.  That includes the vectors that had been soft deleted.
\<close>

theorem index_reopen_recovers:
  assumes "vec_ctx_ok C" "index_inv C idx" "next_vec_seg_id (vp_data_dir (vi_pool idx)) \<noteq> 0" "n \<le> U32_MAX"
    and "heed_view (vc_heed C) (vi_env idx) '''' SCHEMA_KEY = Some (vj_schema_to_vec (vc_serde C) (vi_schema idx))"
    and "nsw_len (snapshot_graph (vp_data_dir (vi_pool idx))) < card (dom (stored_vectors C idx))"
    and "index_reopen C held (vi_env idx) (vp_data_dir (vi_pool idx)) n = Ok idx'"
  shows "index_inv C idx' \<and> index_abs C idx' = stored_vectors C idx \<and> vi_schema idx' = vi_schema idx"
  using index_reopen_rebuilds [OF assms] by blast

abbreviation toy_deleted :: "mem_db vector_index" where
  "toy_deleted \<equiv> snd (index_delete toy_one 1)"

theorem index_reopen_recovers_witness:
  "\<exists>idx'. index_reopen toy_ctx no_reader (vi_env toy_deleted) (vp_data_dir (vi_pool toy_deleted)) 8 = Ok idx' \<and>
    index_abs toy_ctx toy_deleted 1 = None \<and> index_abs toy_ctx idx' 1 = Some [5]"
proof -
  have inv: "index_inv toy_ctx toy_deleted" "index_abs toy_ctx toy_deleted = Map.empty"
    using index_delete_keeps(2,3) [OF toy_one_inv(1) surjective_pairing, of 1] toy_one_inv(2) by simp_all
  have st: "stored_vectors toy_ctx toy_deleted = stored_vectors toy_ctx toy_one"
    by (simp add: stored_vectors_def index_delete_def split_beta)
  have one: "stored_vectors toy_ctx toy_one 1 = Some [5]"
    using toy_one_inv(2) by (metis fun_upd_same index_abs_def option.distinct(1))
  have "nsw_len (snapshot_graph (vp_data_dir (vi_pool toy_deleted))) = 0" by code_simp
  moreover have "finite (dom (stored_vectors toy_ctx toy_one))"
  proof (rule finite_subset)
    show "dom (stored_vectors toy_ctx toy_one) \<subseteq> dom (map_of (ng_nodes (vi_graph toy_one)))"
      using stored_iff [OF toy_one_inv(1)] by (auto simp: dom_def)
  qed (rule finite_dom_map_of)
  ultimately have lt: "nsw_len (snapshot_graph (vp_data_dir (vi_pool toy_deleted))) <
      card (dom (stored_vectors toy_ctx toy_deleted))"
    using one by (auto simp: st card_gt_0_iff)
  have "is_ok (index_reopen toy_ctx no_reader (vi_env toy_deleted) (vp_data_dir (vi_pool toy_deleted)) 8)"
    by code_simp
  then obtain idx' where op: "index_reopen toy_ctx no_reader (vi_env toy_deleted)
      (vp_data_dir (vi_pool toy_deleted)) 8 = Ok idx'" by (auto simp: is_ok_iff)
  have "next_vec_seg_id (vp_data_dir (vi_pool toy_deleted)) \<noteq> 0" by code_simp
  moreover have "heed_view (vc_heed toy_ctx) (vi_env toy_deleted) '''' SCHEMA_KEY =
      Some (vj_schema_to_vec (vc_serde toy_ctx) (vi_schema toy_deleted))" by code_simp
  ultimately have "index_abs toy_ctx idx' = stored_vectors toy_ctx toy_deleted"
    using index_reopen_recovers [OF toy_ctx_ok inv(1) _ _ _ lt op] by simp
  with op inv(2) one st show ?thesis by simp
qed

end
