(* ===== verification/Store_Trait.thy ===== *)
theory Store_Trait
  imports Store_Error
begin

text \<open>
  The KV part of the trait \<open>FusionStoreEngine\<close> (\<open>engine.rs\<close>) as a contract.  A call is a put, a read or a delete; \<open>kv_exec\<close>
  runs a list of calls, each in surroundings of its own (locks of other processes, a timeout).  The replies of a run have to be
  those of a map in which the calls that fail have no effect: \<open>kv_explains\<close>.

  \<open>kv_trait\<close> has the laws of one call; what they give for runs is proved there once.  \<open>kv_router\<close> adds a router over
  several stores; that the routed stores satisfy the contract again is a \<open>sublocale\<close>.
\<close>

datatype kv_call = PutCall bytes bytes | GetCall bytes | DeleteCall bytes

datatype kv_reply = PutReply "unit res" | GetReply "bytes option res" | DeleteReply "bool res"

type_synonym ('c, 's) put_fn = "'c \<Rightarrow> 's \<Rightarrow> bytes \<Rightarrow> bytes \<Rightarrow> unit res \<times> 's"
type_synonym 's get_fn = "'s \<Rightarrow> bytes \<Rightarrow> bytes option res \<times> 's"
type_synonym ('c, 's) delete_fn = "'c \<Rightarrow> 's \<Rightarrow> bytes \<Rightarrow> bool res \<times> 's"

fun kv_call1 ::
  "('c, 's) put_fn \<Rightarrow> 's get_fn \<Rightarrow> ('c, 's) delete_fn \<Rightarrow> 'c \<Rightarrow> 's \<Rightarrow> kv_call \<Rightarrow> kv_reply \<times> 's" where
  "kv_call1 put get del c s (PutCall k v) = (case put c s k v of (r, s') \<Rightarrow> (PutReply r, s'))"
| "kv_call1 put get del c s (GetCall k) = (case get s k of (r, s') \<Rightarrow> (GetReply r, s'))"
| "kv_call1 put get del c s (DeleteCall k) = (case del c s k of (r, s') \<Rightarrow> (DeleteReply r, s'))"

fun kv_exec ::
  "('c, 's) put_fn \<Rightarrow> 's get_fn \<Rightarrow> ('c, 's) delete_fn \<Rightarrow> 's \<Rightarrow> ('c \<times> kv_call) list \<Rightarrow> kv_reply list \<times> 's" where
  "kv_exec put get del s [] = ([], s)"
| "kv_exec put get del s ((c, call) # calls) =
     (case kv_call1 put get del c s call of
        (r, s1) \<Rightarrow> (case kv_exec put get del s1 calls of (rs, s2) \<Rightarrow> (r # rs, s2)))"

text \<open>The map after a call, and whether the reply is one the map allows.\<close>

fun kv_after :: "(bytes \<rightharpoonup> bytes) \<Rightarrow> kv_call \<Rightarrow> kv_reply \<Rightarrow> bytes \<rightharpoonup> bytes" where
  "kv_after m (PutCall k v) (PutReply (Ok u)) = m(k \<mapsto> v)"
| "kv_after m (DeleteCall k) (DeleteReply (Ok b)) = m(k := None)"
| "kv_after m _ _ = m"

fun kv_allowed :: "(bytes \<rightharpoonup> bytes) \<Rightarrow> kv_call \<Rightarrow> kv_reply \<Rightarrow> bool" where
  "kv_allowed m (PutCall k v) (PutReply r) = True"
| "kv_allowed m (GetCall k) (GetReply r) = (case r of Ok x \<Rightarrow> x = m k | _ \<Rightarrow> True)"
| "kv_allowed m (DeleteCall k) (DeleteReply r) = (case r of Ok b \<Rightarrow> b = (m k \<noteq> None) | _ \<Rightarrow> True)"
| "kv_allowed m _ _ = False"

fun kv_explains :: "(bytes \<rightharpoonup> bytes) \<Rightarrow> kv_call list \<Rightarrow> kv_reply list \<Rightarrow> bool" where
  "kv_explains m [] [] = True"
| "kv_explains m (call # calls) (r # rs) = (kv_allowed m call r \<and> kv_explains (kv_after m call r) calls rs)"
| "kv_explains m _ _ = False"

fun kv_final :: "(bytes \<rightharpoonup> bytes) \<Rightarrow> kv_call list \<Rightarrow> kv_reply list \<Rightarrow> bytes \<rightharpoonup> bytes" where
  "kv_final m (call # calls) (r # rs) = kv_final (kv_after m call r) calls rs"
| "kv_final m _ _ = m"

fun is_put :: "kv_call \<Rightarrow> bool" where
  "is_put (PutCall k v) = True"
| "is_put _ = False"

fun touches :: "bytes \<Rightarrow> kv_call \<Rightarrow> bool" where
  "touches k (PutCall k' v) = (k' = k)"
| "touches k (DeleteCall k') = (k' = k)"
| "touches k (GetCall k') = False"

lemma kv_after_other: "\<not> touches k call \<Longrightarrow> kv_after m call r k = m k"
  by (cases "(m, call, r)" rule: kv_after.cases) auto

text \<open>What a map says about a key stays until a call that writes it.\<close>

lemma kv_final_other: "\<not> list_ex (touches k) calls \<Longrightarrow> kv_final m calls rs k = m k"
  by (induction m calls rs rule: kv_final.induct) (simp_all add: kv_after_other)

lemma kv_final_append:
  "length calls = length rs \<Longrightarrow> kv_final m (calls @ calls') (rs @ rs') = kv_final (kv_final m calls rs) calls' rs'"
  by (induction calls rs arbitrary: m rule: list_induct2) simp_all

lemma kv_exec_length: "length (fst (kv_exec put get del s calls)) = length calls"
  by (induction calls arbitrary: s) (auto simp: split_beta)

lemma kv_exec_append:
  "kv_exec put get del s (calls @ calls') =
     (case kv_exec put get del s calls of
        (rs, s1) \<Rightarrow> (case kv_exec put get del s1 calls' of (rs', s2) \<Rightarrow> (rs @ rs', s2)))"
  by (induction calls arbitrary: s) (auto simp: split_beta)

section \<open>The contract\<close>

text \<open>\<open>room s n\<close>: the store can take \<open>n\<close> more puts.\<close>

locale kv_trait =
  fixes ok :: "'s \<Rightarrow> bool"
    and room :: "'s \<Rightarrow> nat \<Rightarrow> bool"
    and abs :: "'s \<Rightarrow> bytes \<rightharpoonup> bytes"
    and put :: "('c, 's) put_fn"
    and get :: "'s get_fn"
    and del :: "('c, 's) delete_fn"
  assumes room_mono: "room s (Suc n) \<Longrightarrow> room s n"
    and put_law: "ok s \<Longrightarrow> room s (Suc n) \<Longrightarrow> put c s k v = (r, s') \<Longrightarrow>
      ok s' \<and> room s' n \<and> abs s' = (if is_ok r then (abs s)(k \<mapsto> v) else abs s)"
    and get_law: "ok s \<Longrightarrow> get s k = (r', s') \<Longrightarrow>
      ok s' \<and> (room s n \<longrightarrow> room s' n) \<and> abs s' = abs s \<and> (\<forall>x. r' = Ok x \<longrightarrow> x = abs s k)"
    and del_law: "ok s \<Longrightarrow> del c s k = (r'', s') \<Longrightarrow>
      ok s' \<and> (room s n \<longrightarrow> room s' n) \<and> abs s' = (if is_ok r'' then (abs s)(k := None) else abs s) \<and>
      (\<forall>b. r'' = Ok b \<longrightarrow> b = (abs s k \<noteq> None))"
begin

lemma call_law:
  assumes "ok s" "room s (n + (if is_put call then 1 else 0))" "kv_call1 put get del c s call = (r, s')"
  shows "ok s' \<and> room s' n \<and> kv_allowed (abs s) call r \<and> abs s' = kv_after (abs s) call r"
proof (cases call)
  case (PutCall k v)
  obtain r0 where p: "put c s k v = (r0, s')" and r: "r = PutReply r0" using assms(3) by (auto simp: PutCall split: prod.splits)
  from put_law [OF assms(1) _ p, of n] assms(2) show ?thesis by (cases r0) (simp_all add: PutCall r)
next
  case (GetCall k)
  obtain r0 where p: "get s k = (r0, s')" and r: "r = GetReply r0" using assms(3) by (auto simp: GetCall split: prod.splits)
  from get_law [OF assms(1) p, of n] assms(2) show ?thesis by (cases r0) (simp_all add: GetCall r)
next
  case (DeleteCall k)
  obtain r0 where p: "del c s k = (r0, s')" and r: "r = DeleteReply r0" using assms(3) by (auto simp: DeleteCall split: prod.splits)
  from del_law [OF assms(1) p, of n] assms(2) show ?thesis by (cases r0) (simp_all add: DeleteCall r)
qed

lemma exec_law:
  assumes "ok s" "room s (n + length (filter (\<lambda>(c, call). is_put call) calls))" "kv_exec put get del s calls = (rs, s')"
  shows "ok s' \<and> room s' n \<and> kv_explains (abs s) (map snd calls) rs \<and> abs s' = kv_final (abs s) (map snd calls) rs"
  using assms
proof (induction calls arbitrary: s rs)
  case (Cons x calls)
  obtain c call where x: "x = (c, call)" by (cases x)
  obtain r s1 where c1: "kv_call1 put get del c s call = (r, s1)" by (cases "kv_call1 put get del c s call")
  obtain rs1 where rest: "kv_exec put get del s1 calls = (rs1, s')" "rs = r # rs1"
    using Cons.prems(3) by (auto simp: x c1 split: prod.splits)
  let ?n = "n + length (filter (\<lambda>(c, call). is_put call) calls)"
  have "room s (?n + (if is_put call then 1 else 0))" using Cons.prems(2) by (simp add: x split: if_splits)
  note one = call_law [OF Cons.prems(1) this c1]
  with Cons.IH [OF _ _ rest(1)] show ?case by (simp add: x rest(2))
qed simp

text \<open>A successful put is what every later read of the key returns until a call that writes it.\<close>

lemma read_your_writes:
  assumes "ok s" "room s (Suc (length (filter (\<lambda>(c, call). is_put call) calls)))"
    and "put c s k v = (Ok (), s1)" "\<not> list_ex (touches k) (map snd calls)"
    and "kv_exec put get del s1 calls = (rs, s2)" "get s2 k = (Ok x, s3)"
  shows "x = Some v"
proof -
  note p = put_law [OF assms(1,2,3)]
  then have "ok s2 \<and> abs s2 = kv_final (abs s1) (map snd calls) rs" using exec_law [of s1 0 calls rs s2] assms(5) by simp
  with get_law [of s2 k "Ok x" s3] assms(4,6) p show ?thesis by (simp add: kv_final_other)
qed

end

section \<open>Routing\<close>

definition at_shard :: "nat \<Rightarrow> ('e \<Rightarrow> 'a res \<times> 'e) \<Rightarrow> 'e list \<Rightarrow> 'a res \<times> 'e list" where
  "at_shard i f es = (if i < length es then (case f (es ! i) of (r, e) \<Rightarrow> (r, es[i := e])) else (Panic, es))"

locale kv_router = kv_trait ok room abs put get del
  for ok :: "'e \<Rightarrow> bool" and room abs and put :: "('c, 'e) put_fn" and get del +
  fixes route :: "bytes \<Rightarrow> nat" and n :: nat
  assumes in_range: "route k < n"
begin

definition all_ok :: "'e list \<Rightarrow> bool" where
  "all_ok es \<longleftrightarrow> length es = n \<and> list_all ok es"

definition all_room :: "'e list \<Rightarrow> nat \<Rightarrow> bool" where
  "all_room es m \<longleftrightarrow> list_all (\<lambda>e. room e m) es"

definition routed_abs :: "'e list \<Rightarrow> bytes \<rightharpoonup> bytes" where
  "routed_abs es k = abs (es ! route k) k"

lemma at_route:
  assumes "all_ok es" "at_shard (route k) f es = (r, es')"
  obtains e where "ok (es ! route k)" "f (es ! route k) = (r, e)" "es' = es[route k := e]" "route k < length es"
  using assms in_range [of k] by (auto simp: at_shard_def all_ok_def list_all_length split: prod.splits)

lemma routed_update:
  assumes "all_ok es" "ok e" "abs e = (abs (es ! route k))(k := x)"
  shows "all_ok (es[route k := e])" "routed_abs (es[route k := e]) = (routed_abs es)(k := x)"
  using assms in_range
  by (auto simp: all_ok_def list_all_length nth_list_update routed_abs_def fun_eq_iff)

end

sublocale kv_router \<subseteq> shards: kv_trait all_ok all_room routed_abs
  "\<lambda>c es k v. at_shard (route k) (\<lambda>e. put c e k v) es" "\<lambda>es k. at_shard (route k) (\<lambda>e. get e k) es"
  "\<lambda>c es k. at_shard (route k) (\<lambda>e. del c e k) es"
proof
  fix es m
  assume "all_room es (Suc m)"
  then show "all_room es m" using room_mono by (auto simp: all_room_def list_all_iff)
next
  fix es m c k v r es'
  assume a: "all_ok es" "all_room es (Suc m)" "at_shard (route k) (\<lambda>e. put c e k v) es = (r, es')"
  obtain e where e: "ok (es ! route k)" "put c (es ! route k) k v = (r, e)" "es' = es[route k := e]" "route k < length es"
    by (rule at_route [OF a(1,3)])
  from a(2) e(4) have "room (es ! route k) (Suc m)" by (simp add: all_room_def list_all_length)
  note p = put_law [OF e(1) this e(2)]
  have "all_room es m" using a(2) room_mono by (auto simp: all_room_def list_all_iff)
  then have "all_room es' m" using p e(4) by (auto simp: all_room_def list_all_length e(3) nth_list_update)
  moreover have "abs e = (abs (es ! route k))(k := if is_ok r then Some v else abs (es ! route k) k)"
    using p by (auto simp: fun_eq_iff)
  from routed_update [OF a(1) _ this] p have "all_ok es'"
    "routed_abs es' = (if is_ok r then (routed_abs es)(k \<mapsto> v) else routed_abs es)"
    by (auto simp: e(3) fun_eq_iff routed_abs_def)
  ultimately show "all_ok es' \<and> all_room es' m \<and> routed_abs es' = (if is_ok r then (routed_abs es)(k \<mapsto> v) else routed_abs es)"
    by blast
next
  fix es m k r es'
  assume a: "all_ok es" "at_shard (route k) (\<lambda>e. get e k) es = (r, es')"
  obtain e where e: "ok (es ! route k)" "get (es ! route k) k = (r, e)" "es' = es[route k := e]" "route k < length es"
    by (rule at_route [OF a])
  have p: "ok e" "abs e = (abs (es ! route k))(k := abs (es ! route k) k)" "\<forall>x. r = Ok x \<longrightarrow> x = routed_abs es k"
    using get_law [OF e(1,2), of 0] by (simp_all add: routed_abs_def)
  have "all_room es m \<longrightarrow> all_room es' m"
    using get_law [OF e(1,2), of m] e(4) by (auto simp: all_room_def list_all_length e(3) nth_list_update)
  with routed_update [OF a(1) p(1,2)] p(3)
  show "all_ok es' \<and> (all_room es m \<longrightarrow> all_room es' m) \<and> routed_abs es' = routed_abs es \<and> (\<forall>x. r = Ok x \<longrightarrow> x = routed_abs es k)"
    by (auto simp: e(3) fun_eq_iff routed_abs_def)
next
  fix es m c k r es'
  assume a: "all_ok es" "at_shard (route k) (\<lambda>e. del c e k) es = (r, es')"
  obtain e where e: "ok (es ! route k)" "del c (es ! route k) k = (r, e)" "es' = es[route k := e]" "route k < length es"
    by (rule at_route [OF a])
  note d = del_law [OF e(1,2)]
  have p: "ok e" "abs e = (abs (es ! route k))(k := if is_ok r then None else abs (es ! route k) k)"
    "\<forall>b. r = Ok b \<longrightarrow> b = (routed_abs es k \<noteq> None)"
    using d by (auto simp: routed_abs_def fun_eq_iff)
  have "all_room es m \<longrightarrow> all_room es' m"
    using d [of m] e(4) by (auto simp: all_room_def list_all_length e(3) nth_list_update)
  with routed_update [OF a(1) p(1,2)] p(3)
  show "all_ok es' \<and> (all_room es m \<longrightarrow> all_room es' m) \<and>
      routed_abs es' = (if is_ok r then (routed_abs es)(k := None) else routed_abs es) \<and>
      (\<forall>b. r = Ok b \<longrightarrow> b = (routed_abs es k \<noteq> None))"
    by (auto simp: e(3) fun_eq_iff routed_abs_def)
qed

context kv_router
begin

lemma routed_trait:
  "kv_trait all_ok all_room routed_abs (\<lambda>c es k v. at_shard (route k) (\<lambda>e. put c e k v) es)
     (\<lambda>es k. at_shard (route k) (\<lambda>e. get e k) es) (\<lambda>c es k. at_shard (route k) (\<lambda>e. del c e k) es)"
  by unfold_locales

end

end
