(* ===== verification/Engine.thy ===== *)
theory Engine
  imports Recover Columnar Vec_Index Store_Trait
begin

text \<open>
  \<open>fs-core/src/engine_impl.rs\<close>: the engine, which holds the KV store, the vector index, the
  columnar store and the write-ahead log of one namespace.  Every write is appended to the log
  first and then applied; opening replays what the log has above the checkpoint marker.

  The state is one record.  The mutexes around its parts are never poisoned here (a panic ends
  the run), so \<open>ensure_vec\<close> and \<open>ensure_col\<close> fail with \<open>NotFound\<close> only.  \<open>eng_ctx\<close> holds the
  libraries the engine calls (\<open>heed\<close>, \<open>serde_json\<close>, Arrow's IPC streams), \<open>eng_run\<close> what
  the surroundings of one call decide: the locks, the readers of segments, the clock.  \<open>home\<close> is
  what the directories hold.
\<close>

section \<open>State\<close>

text \<open>
  \<open>ec_ipc_write\<close> writes one batch as a stream (\<open>None\<close>: an \<open>ArrowError\<close>); \<open>ec_ipc_open\<close> opens a
  stream, whose items are batches or errors; \<open>ec_env_again\<close> is what opening an environment gives
  that this process has open already.
\<close>

record 'h eng_ctx =
  ec_heed :: "'h heed"
  ec_vec :: "'h vec_ctx"
  ec_col :: "'h col_ctx"
  ec_marker_to_vec :: "checkpoint_marker \<Rightarrow> bytes"
  ec_marker_from_slice :: marker_decoder
  ec_ipc_write :: "record_batch \<Rightarrow> bytes option"
  ec_ipc_open :: "bytes \<Rightarrow> record_batch option list option"
  ec_env_again :: "unit hres"

record eng_run =
  er_kv_lock :: flock
  er_col_lock :: flock
  er_held :: "u32 \<Rightarrow> bool"
  er_now :: nat
  er_expired :: "nat \<Rightarrow> bool"

record 'h home =
  hm_kv_env :: 'h
  hm_kv_dir :: fs
  hm_vec_meta :: bool
  hm_vec_env :: 'h
  hm_vec_dir :: fs
  hm_col_env :: 'h
  hm_col_dir :: fs
  hm_wal_dir :: fs

record 'h engine =
  en_kv :: "'h kv_store"
  en_vec :: "'h vector_index option"
  en_col :: "'h columnar_store option"
  en_wal :: wal
  en_home :: "'h home"
  en_quota_limit :: u64

text \<open>What is on disk while the engine is open: the parts that are not open are as found.\<close>

definition engine_home :: "'h engine \<Rightarrow> 'h home" where
  "engine_home e =
     (let h = (en_home e)\<lparr>hm_kv_env := ks_env (en_kv e), hm_kv_dir := sp_data_dir (ks_pool (en_kv e)),
                hm_wal_dir := wl_dir (en_wal e)\<rparr>;
          h1 = (case en_vec e of
                  None \<Rightarrow> h
                | Some idx \<Rightarrow> h\<lparr>hm_vec_meta := True, hm_vec_env := vi_env idx,
                                hm_vec_dir := vp_data_dir (vi_pool idx)\<rparr>)
      in (case en_col e of
            None \<Rightarrow> h1
          | Some st \<Rightarrow> h1\<lparr>hm_col_env := cs_env st, hm_col_dir := sp_data_dir (cs_pool st)\<rparr>))"

section \<open>IPC\<close>

definition encode_ipc :: "('h, 'm) eng_ctx_scheme \<Rightarrow> record_batch \<Rightarrow> bytes res" where
  "encode_ipc C batch = (case ec_ipc_write C batch of None \<Rightarrow> Err Arrow | Some buf \<Rightarrow> Ok buf)"

definition decode_ipc :: "('h, 'm) eng_ctx_scheme \<Rightarrow> bytes \<Rightarrow> record_batch res" where
  "decode_ipc C ipc =
     (case ec_ipc_open C ipc of
        None \<Rightarrow> Err Arrow
      | Some [] \<Rightarrow> Err (Corrupt ''empty IPC stream'')
      | Some (None # rest) \<Rightarrow> Err Arrow
      | Some (Some batch # rest) \<Rightarrow> Ok batch)"

section \<open>Recovery\<close>

definition ensure_vec :: "'h engine \<Rightarrow> 'h vector_index res" where
  "ensure_vec e = (case en_vec e of None \<Rightarrow> Err NotFound | Some idx \<Rightarrow> Ok idx)"

definition ensure_col :: "'h engine \<Rightarrow> 'h columnar_store res" where
  "ensure_col e = (case en_col e of None \<Rightarrow> Err NotFound | Some st \<Rightarrow> Ok st)"

fun skip_duplicate :: "unit res \<Rightarrow> unit res" where
  "skip_duplicate (Err (DuplicateVector i)) = Ok ()"
| "skip_duplicate r = r"

fun replay_op :: "'h eng_ctx \<Rightarrow> eng_run \<Rightarrow> 'h engine \<Rightarrow> wal_op \<Rightarrow> unit res \<times> 'h engine" where
  "replay_op C R e (PutKv key value) =
     (case put_kv (ec_heed C) (er_kv_lock R) (en_kv e) key value None of
        (r, kv) \<Rightarrow> (r, e\<lparr>en_kv := kv\<rparr>))"
| "replay_op C R e (DeleteKv key) =
     (case delete_kv (ec_heed C) (er_kv_lock R) (en_kv e) key None of
        (r, kv) \<Rightarrow> (res_bind r (\<lambda>b. Ok ()), e\<lparr>en_kv := kv\<rparr>))"
| "replay_op C R e (InsertVector i vector) =
     (case en_vec e of
        None \<Rightarrow> (Err NotFound, e)
      | Some idx \<Rightarrow>
          (case index_insert (ec_vec C) (er_held R) (er_now R) idx i vector of
             (r, idx') \<Rightarrow> (skip_duplicate r, e\<lparr>en_vec := Some idx'\<rparr>)))"
| "replay_op C R e (DeleteVector i) =
     (case en_vec e of
        None \<Rightarrow> (Err NotFound, e)
      | Some idx \<Rightarrow> (case index_delete idx i of (b, idx') \<Rightarrow> (Ok (), e\<lparr>en_vec := Some idx'\<rparr>)))"
| "replay_op C R e (PutColumnar table_id ipc) =
     (case decode_ipc C ipc of
        Err x \<Rightarrow> (Err x, e)
      | Panic \<Rightarrow> (Panic, e)
      | Ok batch \<Rightarrow>
          (case en_col e of
             None \<Rightarrow> (Err NotFound, e)
           | Some st \<Rightarrow>
               (case put_columnar (ec_col C) (er_col_lock R) st table_id batch None of
                  (r, st') \<Rightarrow> (r, e\<lparr>en_col := Some st'\<rparr>))))"

text \<open>The loop: the highest number replayed, or the error of the first entry that fails.\<close>

fun replay_entries ::
  "'h eng_ctx \<Rightarrow> eng_run \<Rightarrow> 'h engine \<Rightarrow> u64 \<Rightarrow> wal_entry list \<Rightarrow> u64 res \<times> 'h engine" where
  "replay_entries C R e m [] = (Ok m, e)"
| "replay_entries C R e m (x # xs) =
     (case replay_op C R e (we_op x) of
        (Err err, e') \<Rightarrow> (Err err, e')
      | (Panic, e') \<Rightarrow> (Panic, e')
      | (Ok u, e') \<Rightarrow> replay_entries C R e' (max m (we_seq x)) xs)"

definition recover_inner :: "'h eng_ctx \<Rightarrow> eng_run \<Rightarrow> 'h engine \<Rightarrow> unit res \<times> 'h engine" where
  "recover_inner C R e =
     (case pending_recover_plan (ec_marker_from_slice C) (en_wal e) of
        Err x \<Rightarrow> (Err x, e)
      | Panic \<Rightarrow> (Panic, e)
      | Ok plan \<Rightarrow>
          (if rp_entries plan = [] then (Ok (), e)
           else
             (case replay_entries C R e (rp_applied_seq plan) (rp_entries plan) of
                (Err x, e') \<Rightarrow> (Err x, e')
              | (Panic, e') \<Rightarrow> (Panic, e')
              | (Ok m, e') \<Rightarrow>
                  (case truncate_to (en_wal e') m of (r, w) \<Rightarrow> (r, e'\<lparr>en_wal := w\<rparr>)))))"

definition engine_open ::
  "'h eng_ctx \<Rightarrow> eng_run \<Rightarrow> 'h home \<Rightarrow> vector_schema option \<Rightarrow> u64 \<Rightarrow> 'h engine res" where
  "engine_open C R hm schema quota_limit =
     res_bind (kv_open (ec_heed C) (hm_kv_env hm) (hm_kv_dir hm) 0 quota_limit) (\<lambda>kv.
     res_bind (case schema of
                 Some s \<Rightarrow> res_bind (index_open (ec_vec C) (hm_vec_env hm) (hm_vec_dir hm) s 0) (\<lambda>idx. Ok (Some idx))
               | None \<Rightarrow>
                   if hm_vec_meta hm
                   then res_bind (index_reopen (ec_vec C) (er_held R) (hm_vec_env hm) (hm_vec_dir hm) 0)
                          (\<lambda>idx. Ok (Some idx))
                   else Ok None) (\<lambda>vec_idx.
     res_bind (wal_open (hm_wal_dir hm)) (\<lambda>w.
       (case recover_inner C R \<lparr>en_kv = kv, en_vec = vec_idx, en_col = None, en_wal = w, en_home = hm,
                                en_quota_limit = quota_limit\<rparr> of
          (Ok u, e) \<Rightarrow> Ok e
        | (Err x, e) \<Rightarrow> Err x
        | (Panic, e) \<Rightarrow> Panic))))"

definition open_kv_only :: "'h eng_ctx \<Rightarrow> eng_run \<Rightarrow> 'h home \<Rightarrow> u64 \<Rightarrow> 'h engine res" where
  "open_kv_only C R hm quota_limit = engine_open C R hm None quota_limit"

definition engine_plan :: "('h, 'm) eng_ctx_scheme \<Rightarrow> 'h engine \<Rightarrow> recover_plan res" where
  "engine_plan C e = pending_recover_plan (ec_marker_from_slice C) (en_wal e)"

definition engine_disk_bytes :: "'h engine \<Rightarrow> nat" where
  "engine_disk_bytes e =
     kv_disk_bytes (en_kv e) + (case en_vec e of None \<Rightarrow> 0 | Some idx \<Rightarrow> index_disk_bytes idx) +
     (case en_col e of None \<Rightarrow> 0 | Some st \<Rightarrow> col_disk_bytes st)"

section \<open>Operations\<close>

definition engine_put_kv ::
  "'h eng_ctx \<Rightarrow> eng_run \<Rightarrow> 'h engine \<Rightarrow> bytes \<Rightarrow> bytes \<Rightarrow> nat option \<Rightarrow> unit res \<times> 'h engine" where
  "engine_put_kv C R e key value timeout =
     (case wal_append (en_wal e) (PutKv key value) of
        (Err x, w) \<Rightarrow> (Err x, e\<lparr>en_wal := w\<rparr>)
      | (Panic, w) \<Rightarrow> (Panic, e\<lparr>en_wal := w\<rparr>)
      | (Ok sq, w) \<Rightarrow>
          (case put_kv (ec_heed C) (er_kv_lock R) (en_kv e) key value timeout of
             (r, kv) \<Rightarrow> (r, e\<lparr>en_wal := w, en_kv := kv\<rparr>)))"

definition engine_get_kv ::
  "'h eng_ctx \<Rightarrow> 'h engine \<Rightarrow> bytes \<Rightarrow> zero_copy_buffer option res \<times> 'h engine" where
  "engine_get_kv C e key =
     (case get_kv_zero_copy (ec_heed C) (en_kv e) key of (r, kv) \<Rightarrow> (r, e\<lparr>en_kv := kv\<rparr>))"

definition engine_delete_kv ::
  "'h eng_ctx \<Rightarrow> eng_run \<Rightarrow> 'h engine \<Rightarrow> bytes \<Rightarrow> nat option \<Rightarrow> bool res \<times> 'h engine" where
  "engine_delete_kv C R e key timeout =
     (case wal_append (en_wal e) (DeleteKv key) of
        (Err x, w) \<Rightarrow> (Err x, e\<lparr>en_wal := w\<rparr>)
      | (Panic, w) \<Rightarrow> (Panic, e\<lparr>en_wal := w\<rparr>)
      | (Ok sq, w) \<Rightarrow>
          (case delete_kv (ec_heed C) (er_kv_lock R) (en_kv e) key timeout of
             (r, kv) \<Rightarrow> (r, e\<lparr>en_wal := w, en_kv := kv\<rparr>)))"

definition create_vector_index ::
  "'h eng_ctx \<Rightarrow> 'h engine \<Rightarrow> vector_schema \<Rightarrow> unit res \<times> 'h engine" where
  "create_vector_index C e schema =
     (case res_bind (case en_vec e of None \<Rightarrow> Ok () | Some idx \<Rightarrow> heed_res (ec_env_again C)) (\<lambda>u.
           index_open (ec_vec C) (hm_vec_env (engine_home e)) (hm_vec_dir (engine_home e)) schema 0) of
        Ok idx \<Rightarrow> (Ok (), e\<lparr>en_vec := Some idx\<rparr>)
      | Err x \<Rightarrow> (Err x, e)
      | Panic \<Rightarrow> (Panic, e))"

definition open_vector_index :: "'h engine \<Rightarrow> vector_schema res" where
  "open_vector_index e = res_bind (ensure_vec e) (\<lambda>idx. Ok (vi_schema idx))"

definition insert_vector ::
  "'h eng_ctx \<Rightarrow> eng_run \<Rightarrow> 'h engine \<Rightarrow> u64 \<Rightarrow> f32 list \<Rightarrow> unit res \<times> 'h engine" where
  "insert_vector C R e i vector =
     (case wal_append (en_wal e) (InsertVector i vector) of
        (Err x, w) \<Rightarrow> (Err x, e\<lparr>en_wal := w\<rparr>)
      | (Panic, w) \<Rightarrow> (Panic, e\<lparr>en_wal := w\<rparr>)
      | (Ok sq, w) \<Rightarrow>
          (case en_vec e of
             None \<Rightarrow> (Err NotFound, e\<lparr>en_wal := w\<rparr>)
           | Some idx \<Rightarrow>
               (case index_insert (ec_vec C) (er_held R) (er_now R) idx i vector of
                  (r, idx') \<Rightarrow> (r, e\<lparr>en_wal := w, en_vec := Some idx'\<rparr>))))"

definition insert_vector_batch ::
  "'h eng_ctx \<Rightarrow> eng_run \<Rightarrow> 'h engine \<Rightarrow> (u64 \<times> f32 list) list \<Rightarrow> unit res \<times> 'h engine" where
  "insert_vector_batch C R e items =
     (case append_batch (en_wal e) (map (\<lambda>(i, v). InsertVector i v) items) of
        (Err x, w) \<Rightarrow> (Err x, e\<lparr>en_wal := w\<rparr>)
      | (Panic, w) \<Rightarrow> (Panic, e\<lparr>en_wal := w\<rparr>)
      | (Ok sq, w) \<Rightarrow>
          (case en_vec e of
             None \<Rightarrow> (Err NotFound, e\<lparr>en_wal := w\<rparr>)
           | Some idx \<Rightarrow>
               (case index_insert_batch (ec_vec C) (er_held R) (er_now R) idx items of
                  (r, idx') \<Rightarrow> (r, e\<lparr>en_wal := w, en_vec := Some idx'\<rparr>))))"

definition engine_search_knn ::
  "'h eng_ctx \<Rightarrow> eng_run \<Rightarrow> 'h engine \<Rightarrow> f32 list \<Rightarrow> nat \<Rightarrow> (u64 \<times> f32) list res \<times> 'h engine" where
  "engine_search_knn C R e query_vector top_k =
     (case en_vec e of
        None \<Rightarrow> (Err NotFound, e)
      | Some idx \<Rightarrow>
          (case index_search_knn (ec_vec C) (er_held R) (er_expired R) idx query_vector top_k of
             (r, idx') \<Rightarrow> (r, e\<lparr>en_vec := Some idx'\<rparr>)))"

definition delete_vector :: "'h engine \<Rightarrow> u64 \<Rightarrow> bool res \<times> 'h engine" where
  "delete_vector e i =
     (case wal_append (en_wal e) (DeleteVector i) of
        (Err x, w) \<Rightarrow> (Err x, e\<lparr>en_wal := w\<rparr>)
      | (Panic, w) \<Rightarrow> (Panic, e\<lparr>en_wal := w\<rparr>)
      | (Ok sq, w) \<Rightarrow>
          (case en_vec e of
             None \<Rightarrow> (Err NotFound, e\<lparr>en_wal := w\<rparr>)
           | Some idx \<Rightarrow>
               (case index_delete idx i of (b, idx') \<Rightarrow> (Ok b, e\<lparr>en_wal := w, en_vec := Some idx'\<rparr>))))"

definition engine_get_vector ::
  "'h eng_ctx \<Rightarrow> eng_run \<Rightarrow> 'h engine \<Rightarrow> u64 \<Rightarrow> f32 list option res \<times> 'h engine" where
  "engine_get_vector C R e i =
     (case en_vec e of
        None \<Rightarrow> (Err NotFound, e)
      | Some idx \<Rightarrow>
          (case get_vector (ec_vec C) (er_held R) idx i of (r, idx') \<Rightarrow> (r, e\<lparr>en_vec := Some idx'\<rparr>)))"

definition engine_list_vector_ids :: "'h engine \<Rightarrow> u64 list res" where
  "engine_list_vector_ids e = res_bind (ensure_vec e) (\<lambda>idx. Ok (list_vector_ids idx))"

text \<open>The columnar store is opened by the first write.\<close>

definition engine_put_columnar ::
  "'h eng_ctx \<Rightarrow> eng_run \<Rightarrow> 'h engine \<Rightarrow> bytes \<Rightarrow> record_batch \<Rightarrow> nat option \<Rightarrow> unit res \<times> 'h engine" where
  "engine_put_columnar C R e table_id batch timeout =
     (case encode_ipc C batch of
        Err x \<Rightarrow> (Err x, e)
      | Panic \<Rightarrow> (Panic, e)
      | Ok ipc \<Rightarrow>
          (case wal_append (en_wal e) (PutColumnar table_id ipc) of
             (Err x, w) \<Rightarrow> (Err x, e\<lparr>en_wal := w\<rparr>)
           | (Panic, w) \<Rightarrow> (Panic, e\<lparr>en_wal := w\<rparr>)
           | (Ok sq, w) \<Rightarrow>
               (case (case en_col e of
                        Some st \<Rightarrow> Ok st
                      | None \<Rightarrow> col_open (ec_col C) (hm_col_env (en_home e)) (hm_col_dir (en_home e)) 0
                                  (en_quota_limit e)) of
                  Err x \<Rightarrow> (Err x, e\<lparr>en_wal := w\<rparr>)
                | Panic \<Rightarrow> (Panic, e\<lparr>en_wal := w\<rparr>)
                | Ok st \<Rightarrow>
                    (case put_columnar (ec_col C) (er_col_lock R) st table_id batch timeout of
                       (r, st') \<Rightarrow> (r, e\<lparr>en_wal := w, en_col := Some st'\<rparr>)))))"

definition engine_get_columnar ::
  "'h eng_ctx \<Rightarrow> 'h engine \<Rightarrow> bytes \<Rightarrow> bytes list \<Rightarrow> record_batch option res \<times> 'h engine" where
  "engine_get_columnar C e table_id columns =
     (case en_col e of
        None \<Rightarrow> (Err NotFound, e)
      | Some st \<Rightarrow>
          (case get_columnar_zero_copy (ec_col C) st table_id columns of
             (r, st') \<Rightarrow> (r, e\<lparr>en_col := Some st'\<rparr>)))"

definition checkpoint_name :: "u64 \<Rightarrow> string" where
  "checkpoint_name applied = ''nsw_checkpoint_'' @ dec (unat applied) @ ''.mmap''"

definition engine_checkpoint :: "('h, 'm) eng_ctx_scheme \<Rightarrow> 'h engine \<Rightarrow> unit res \<times> 'h engine" where
  "engine_checkpoint C e =
     (let applied = saturating_sub_u64 (wl_next_seq (en_wal e)) 1;
          e1 = e\<lparr>en_kv := kv_flush (en_kv e), en_col := map_option col_flush (en_col e),
                 en_vec := map_option index_checkpoint (en_vec e)\<rparr>;
          marker = \<lparr>cm_applied_seq = applied, cm_checkpoint_seq = applied,
                    cm_graph_snapshot = Some (checkpoint_name applied)\<rparr>
      in (case truncate_to (write_marker (ec_marker_to_vec C) (en_wal e1) marker) applied of
            (r, w) \<Rightarrow> (r, e1\<lparr>en_wal := w\<rparr>)))"

definition engine_recover :: "'h eng_ctx \<Rightarrow> eng_run \<Rightarrow> 'h engine \<Rightarrow> unit res \<times> 'h engine" where
  "engine_recover C R e = recover_inner C R e"

definition engine_close :: "('h, 'm) eng_ctx_scheme \<Rightarrow> 'h engine \<Rightarrow> unit res \<times> 'h engine" where
  "engine_close C e = engine_checkpoint C e"

section \<open>Abstract state\<close>

text \<open>
  The engine promises a KV map, a map of vectors with the ids that are taken (a soft-deleted
  id stays taken) and a map of tables.  \<open>apply_op\<close> is the effect of one logged operation.
\<close>

record eng_abs =
  ea_kv :: "bytes \<rightharpoonup> bytes"
  ea_taken :: "u64 \<rightharpoonup> f32 list"
  ea_live :: "u64 \<rightharpoonup> f32 list"
  ea_tables :: "bytes \<rightharpoonup> record_batch"

definition abs_of :: "'h eng_ctx \<Rightarrow> 'h engine \<Rightarrow> eng_abs" where
  "abs_of C e =
     \<lparr>ea_kv = kv_abs (ec_heed C) (en_kv e),
      ea_taken = (case en_vec e of None \<Rightarrow> Map.empty | Some idx \<Rightarrow> stored_vectors (ec_vec C) idx),
      ea_live = (case en_vec e of None \<Rightarrow> Map.empty | Some idx \<Rightarrow> index_abs (ec_vec C) idx),
      ea_tables = (case en_col e of None \<Rightarrow> Map.empty | Some st \<Rightarrow> col_abs (ec_col C) st)\<rparr>"

fun apply_op :: "('h, 'm) eng_ctx_scheme \<Rightarrow> eng_abs \<Rightarrow> wal_op \<Rightarrow> eng_abs" where
  "apply_op C a (PutKv k v) = a\<lparr>ea_kv := (ea_kv a)(k \<mapsto> v)\<rparr>"
| "apply_op C a (DeleteKv k) = a\<lparr>ea_kv := (ea_kv a)(k := None)\<rparr>"
| "apply_op C a (InsertVector i v) =
     (if ea_taken a i = None
      then a\<lparr>ea_taken := (ea_taken a)(i \<mapsto> v), ea_live := (ea_live a)(i \<mapsto> v)\<rparr> else a)"
| "apply_op C a (DeleteVector i) = a\<lparr>ea_live := (ea_live a)(i := None)\<rparr>"
| "apply_op C a (PutColumnar t ipc) =
     (case decode_ipc C ipc of Ok b \<Rightarrow> a\<lparr>ea_tables := (ea_tables a)(t \<mapsto> b)\<rparr> | _ \<Rightarrow> a)"

definition eng_ctx_ok :: "'h eng_ctx \<Rightarrow> bool" where
  "eng_ctx_ok C \<longleftrightarrow> heed_laws (ec_heed C) \<and> vec_ctx_ok (ec_vec C) \<and> col_ctx_ok (ec_col C) \<and>
     serde_marker_law (ec_marker_to_vec C) (ec_marker_from_slice C) \<and>
     (\<forall>ipc b. decode_ipc C ipc = Ok b \<longrightarrow> batch_ok b)"

definition eng_inv :: "'h eng_ctx \<Rightarrow> 'h engine \<Rightarrow> bool" where
  "eng_inv C e \<longleftrightarrow> kv_inv (ec_heed C) (en_kv e) \<and> (case en_vec e of None \<Rightarrow> True | Some idx \<Rightarrow> index_inv (ec_vec C) idx) \<and>
     (case en_col e of None \<Rightarrow> True | Some st \<Rightarrow> col_inv (ec_col C) st)"

text \<open>How many segments an operation may seal, and that all pools have that many ids left.\<close>

fun op_weight :: "('h, 'm) eng_ctx_scheme \<Rightarrow> wal_op \<Rightarrow> nat" where
  "op_weight C (PutColumnar t ipc) =
     (case decode_ipc C ipc of Ok b \<Rightarrow> 2 * length (rb_columns b) | _ \<Rightarrow> 0)"
| "op_weight C _ = 1"

definition eng_room :: "'h engine \<Rightarrow> nat \<Rightarrow> bool" where
  "eng_room e n \<longleftrightarrow> room_for (ks_pool (en_kv e)) n \<and>
     (case en_vec e of None \<Rightarrow> True | Some idx \<Rightarrow> vec_room_for (vi_pool idx) n) \<and>
     (case en_col e of None \<Rightarrow> True | Some st \<Rightarrow> room_for (cs_pool st) n)"

lemma eng_ctx_okD:
  assumes "eng_ctx_ok C"
  shows eng_heed: "heed_laws (ec_heed C)" and eng_vec: "vec_ctx_ok (ec_vec C)"
    and eng_col: "col_ctx_ok (ec_col C)"
    and eng_serde: "serde_marker_law (ec_marker_to_vec C) (ec_marker_from_slice C)"
    and eng_batch: "decode_ipc C ipc = Ok b \<Longrightarrow> batch_ok b"
  using assms by (auto simp: eng_ctx_ok_def)

section \<open>Segment ids an operation uses\<close>

lemma room_for_mono: "room_for p n \<Longrightarrow> m \<le> n \<Longrightarrow> room_for p m"
  by (simp add: room_for_def)

lemma vec_room_for_mono: "vec_room_for p n \<Longrightarrow> m \<le> n \<Longrightarrow> vec_room_for p m"
  by (simp add: vec_room_for_def)

lemma eng_room_mono: "eng_room e n \<Longrightarrow> m \<le> n \<Longrightarrow> eng_room e m"
  by (cases "en_vec e"; cases "en_col e") (auto simp: eng_room_def intro: room_for_mono vec_room_for_mono)

lemma pool_later_rewind_room:
  "pool_later p p' k \<Longrightarrow> room_for p (k + n) \<Longrightarrow> room_for (snd (rewind_active_to p' seg off)) n"
  using room_for_later [of p k n p'] by (auto simp: rewind_active_to_def room_for_def)

lemma put_kv_room:
  assumes laws: "heed_laws H" and room: "room_for (ks_pool st) (Suc n)" and put: "put_kv H lk st k v t = (r, st')"
  shows "room_for (ks_pool st') n"
proof -
  have later: "room_for p n \<and> room_for (snd (rewind_active_to p seg off)) n"
    if "pool_append (ks_pool st) v = (ra, p)" for ra p seg off
  proof -
    have "room_for (ks_pool st) 1" "room_for (ks_pool st) (1 + n)" using room by (simp_all add: room_for_def)
    with pool_later_append [OF _ that] pool_later_rewind_room [of "ks_pool st" p 1 n] room_for_later [of "ks_pool st" 1 n p]
    show ?thesis by simp
  qed
  from put show ?thesis
  proof (cases rule: put_kv_cases)
    case locked
    from laws locked show ?thesis
      by (cases rule: put_kv_inner_cases) (use room later in \<open>auto intro: room_for_mono\<close>)
  qed (use room in \<open>auto intro: room_for_mono\<close>)
qed

lemma delete_kv_pool:
  assumes "heed_laws H" "kv_inv H st" "delete_kv H lk st k t = (r, st')"
  shows "ks_pool st' = ks_pool st"
  using assms(3)
proof (cases rule: delete_kv_cases)
  case locked
  from assms(1,2) locked show ?thesis by (cases rule: delete_kv_inner_cases) auto
qed simp

lemma index_insert_room:
  assumes "vec_room_for (vi_pool idx) (Suc n)" "index_insert C held now idx i v = (r, idx')"
  shows "vec_room_for (vi_pool idx') n"
  using assms(2)
  by (cases rule: index_insert_cases)
    (use assms(1) in \<open>auto intro: vec_room_for_append vec_room_for_mono\<close>)

lemma put_columnar_room:
  assumes ctx: "col_ctx_ok C" and inv: "col_inv C st" and b: "batch_ok b"
    and room: "room_for (cs_pool st) (2 * length (rb_columns b) + n)"
    and put: "put_columnar C lk st tid b t = (r, st')"
  shows "room_for (cs_pool st') n"
proof -
  have cr: "col_room (cs_pool st) b" using b room by (simp add: col_room_def room_for_def)
  note later = append_table_later [OF ctx col_inv_pool [OF inv] cr]
  from put show ?thesis
  proof (cases rule: put_columnar_cases)
    case inner
    from ctx inner show ?thesis
      by (cases rule: put_columnar_inner_cases)
        (use room later room_for_later pool_later_rewind_room in
          \<open>auto simp: col_rewound_def intro: room_for_mono\<close>)
  qed (use room in \<open>auto intro: room_for_mono\<close>)
qed

section \<open>Replaying\<close>

lemma put_kv_keeps:
  assumes "heed_laws H" "kv_inv H st" "room_for (ks_pool st) (Suc n)" "put_kv H lk st k v t = (r, st')"
  shows "kv_inv H st'" "kv_abs H st' = (if is_ok r then (kv_abs H st)(k \<mapsto> v) else kv_abs H st)"
proof -
  have room: "pool_room (ks_pool st)" by (rule room_for_room(1) [OF assms(3)]) simp
  have "kv_inv H st' \<and> kv_abs H st' = (if is_ok r then (kv_abs H st)(k \<mapsto> v) else kv_abs H st)"
    using assms(4)
  proof (cases rule: put_kv_cases)
    case locked
    from put_kv_inner_refines [OF assms(1,2) room locked] show ?thesis by (auto simp: is_ok_iff)
  qed (use assms(2) in simp)
  then show "kv_inv H st'" "kv_abs H st' = (if is_ok r then (kv_abs H st)(k \<mapsto> v) else kv_abs H st)"
    by blast+
qed

lemma delete_kv_keeps:
  assumes "heed_laws H" "kv_inv H st" "delete_kv H lk st k t = (r, st')"
  shows "kv_inv H st'" "kv_abs H st' = (if is_ok r then (kv_abs H st)(k := None) else kv_abs H st)"
proof -
  have "kv_inv H st' \<and> kv_abs H st' = (if is_ok r then (kv_abs H st)(k := None) else kv_abs H st)"
    using assms(3)
  proof (cases rule: delete_kv_cases)
    case locked
    from delete_kv_inner_refines [OF assms(1,2) locked] show ?thesis by (cases r) auto
  qed (use assms(2) in simp)
  then show "kv_inv H st'" "kv_abs H st' = (if is_ok r then (kv_abs H st)(k := None) else kv_abs H st)"
    by blast+
qed

lemma skip_duplicate_Ok: "is_ok (skip_duplicate r) \<longleftrightarrow> is_ok r \<or> (\<exists>j. r = Err (DuplicateVector j))"
  by (cases r rule: skip_duplicate.cases) auto

lemma index_delete_stored: "index_delete idx i = (b, idx') \<Longrightarrow> stored_vectors C idx' = stored_vectors C idx \<and> vi_pool idx' = vi_pool idx"
  by (auto simp: index_delete_def stored_vectors_def split: prod.splits)

text \<open>
  One operation: on success it has its abstract effect, on failure none, and the invariants stay.
\<close>

definition replayed :: "'h eng_ctx \<Rightarrow> 'h engine \<Rightarrow> wal_op \<Rightarrow> bool \<Rightarrow> 'h engine \<Rightarrow> nat \<Rightarrow> bool" where
  "replayed C e op ok e' n \<longleftrightarrow> eng_inv C e' \<and> eng_room e' n \<and> en_wal e' = en_wal e \<and>
     abs_of C e' = (if ok then apply_op C (abs_of C e) op else abs_of C e)"

lemma replay_put_kv:
  assumes ctx: "eng_ctx_ok C" and inv: "eng_inv C e" and room: "eng_room e (Suc n)"
    and rep: "replay_op C R e (PutKv k v) = (r, e')"
  shows "replayed C e (PutKv k v) (is_ok r) e' n"
proof -
  obtain kv where put: "put_kv (ec_heed C) (er_kv_lock R) (en_kv e) k v None = (r, kv)"
    and e': "e' = e\<lparr>en_kv := kv\<rparr>"
    using rep by (auto split: prod.splits)
  have r: "room_for (ks_pool (en_kv e)) (Suc n)" and i: "kv_inv (ec_heed C) (en_kv e)"
    using room inv by (simp_all add: eng_room_def eng_inv_def)
  have "eng_room e n" by (rule eng_room_mono [OF room]) simp
  with put_kv_keeps [OF eng_heed [OF ctx] i r put] put_kv_room [OF eng_heed [OF ctx] r put] inv
  show ?thesis by (simp add: replayed_def eng_inv_def eng_room_def e' abs_of_def)
qed

lemma replay_delete_kv:
  assumes ctx: "eng_ctx_ok C" and inv: "eng_inv C e" and room: "eng_room e (Suc n)"
    and rep: "replay_op C R e (DeleteKv k) = (r, e')"
  shows "replayed C e (DeleteKv k) (is_ok r) e' n"
proof -
  obtain kv rd where del: "delete_kv (ec_heed C) (er_kv_lock R) (en_kv e) k None = (rd, kv)"
    and e': "e' = e\<lparr>en_kv := kv\<rparr>" and r: "r = res_bind rd (\<lambda>b. Ok ())"
    using rep by (auto split: prod.splits)
  have ok: "is_ok r \<longleftrightarrow> is_ok rd" using r by (cases rd) auto
  have i: "kv_inv (ec_heed C) (en_kv e)" using inv by (simp add: eng_inv_def)
  have "eng_room e n" by (rule eng_room_mono [OF room]) simp
  with delete_kv_keeps [OF eng_heed [OF ctx] i del] delete_kv_pool [OF eng_heed [OF ctx] i del] inv ok
  show ?thesis by (simp add: replayed_def eng_inv_def eng_room_def e' abs_of_def)
qed

lemma replay_insert_vector:
  assumes ctx: "eng_ctx_ok C" and inv: "eng_inv C e" and room: "eng_room e (Suc n)"
    and rep: "replay_op C R e (InsertVector i v) = (r, e')"
  shows "replayed C e (InsertVector i v) (is_ok r) e' n"
proof (cases "en_vec e")
  case None
  with rep inv eng_room_mono [OF room, of n] show ?thesis by (auto simp: replayed_def)
next
  case (Some idx)
  obtain ri idx' where ins: "index_insert (ec_vec C) (er_held R) (er_now R) idx i v = (ri, idx')"
    and e': "e' = e\<lparr>en_vec := Some idx'\<rparr>" and r: "r = skip_duplicate ri"
    using rep Some by (auto split: prod.splits)
  have iv: "index_inv (ec_vec C) idx" and rv: "vec_room_for (vi_pool idx) (Suc n)"
    using inv room by (simp_all add: eng_inv_def eng_room_def Some)
  note k = index_insert_keeps [OF eng_vec [OF ctx] iv vec_room_for_room [OF rv] ins]
  have "abs_of C e' = (if is_ok r then apply_op C (abs_of C e) (InsertVector i v) else abs_of C e)"
  proof (cases "\<exists>j. ri = Err (DuplicateVector j)")
    case True
    then obtain j where j: "ri = Err (DuplicateVector j)" by blast
    from index_insert_duplicate [OF iv ins [unfolded j]] j r show ?thesis
      by (auto simp: abs_of_def e' Some)
  next
    case False
    then have "is_ok r \<longleftrightarrow> is_ok ri" by (simp add: r skip_duplicate_Ok)
    with k(2,3,4) show ?thesis by (auto simp: abs_of_def e' Some)
  qed
  with k(1) index_insert_room [OF rv ins] inv eng_room_mono [OF room, of n] show ?thesis
    by (simp add: replayed_def eng_inv_def eng_room_def e')
qed

lemma replay_delete_vector:
  assumes inv: "eng_inv C e" and room: "eng_room e (Suc n)"
    and rep: "replay_op C R e (DeleteVector i) = (r, e')"
  shows "replayed C e (DeleteVector i) (is_ok r) e' n"
proof (cases "en_vec e")
  case None
  with rep inv eng_room_mono [OF room, of n] show ?thesis by (auto simp: replayed_def)
next
  case (Some idx)
  obtain b idx' where del: "index_delete idx i = (b, idx')" and e': "e' = e\<lparr>en_vec := Some idx'\<rparr>"
    and r: "r = Ok ()"
    using rep Some by (auto split: prod.splits)
  have iv: "index_inv (ec_vec C) idx" using inv by (simp add: eng_inv_def Some)
  from index_delete_keeps(2,3) [OF iv del] index_delete_stored [OF del] inv eng_room_mono [OF room, of n] Some
  show ?thesis by (simp add: replayed_def eng_inv_def eng_room_def e' abs_of_def r)
qed

lemma replay_put_columnar:
  assumes ctx: "eng_ctx_ok C" and inv: "eng_inv C e"
    and room: "eng_room e (op_weight C (PutColumnar t ipc) + n)"
    and rep: "replay_op C R e (PutColumnar t ipc) = (r, e')"
  shows "replayed C e (PutColumnar t ipc) (is_ok r) e' n"
proof (cases "\<exists>b st. decode_ipc C ipc = Ok b \<and> en_col e = Some st")
  case False
  then have "\<not> is_ok r \<and> e' = e" using rep by (auto split: res.splits option.splits)
  with inv eng_room_mono [OF room, of n] show ?thesis by (simp add: replayed_def)
next
  case True
  then obtain b st where b: "decode_ipc C ipc = Ok b" and st: "en_col e = Some st" by blast
  obtain st' where put: "put_columnar (ec_col C) (er_col_lock R) st t b None = (r, st')"
    and e': "e' = e\<lparr>en_col := Some st'\<rparr>"
    using rep b st by (auto split: prod.splits)
  have ic: "col_inv (ec_col C) st" and rc: "room_for (cs_pool st) (2 * length (rb_columns b) + n)"
    using inv room by (simp_all add: eng_inv_def eng_room_def st b)
  have cr: "col_room (cs_pool st) b"
    using eng_batch [OF ctx b] rc by (simp add: col_room_def room_for_def)
  have "col_inv (ec_col C) st' \<and>
      col_abs (ec_col C) st' = (if is_ok r then (col_abs (ec_col C) st)(t \<mapsto> b) else col_abs (ec_col C) st)"
    using put
  proof (cases rule: put_columnar_cases)
    case inner
    from put_columnar_inner_refines [OF eng_col [OF ctx] ic cr inner] show ?thesis .
  qed (use ic in simp)
  with put_columnar_room [OF eng_col [OF ctx] ic eng_batch [OF ctx b] rc put] inv eng_room_mono [OF room, of n] st
  show ?thesis by (simp add: replayed_def eng_inv_def eng_room_def e' abs_of_def b)
qed

lemma replay_op_correct:
  assumes "eng_ctx_ok C" "eng_inv C e" "eng_room e (op_weight C op + n)" "replay_op C R e op = (r, e')"
  shows "replayed C e op (is_ok r) e' n"
proof (cases op)
  case (PutColumnar t ipc)
  with assms replay_put_columnar show ?thesis by blast
qed (use assms replay_put_kv replay_delete_kv replay_insert_vector replay_delete_vector in auto)

definition ops_weight :: "('h, 'm) eng_ctx_scheme \<Rightarrow> wal_entry list \<Rightarrow> nat" where
  "ops_weight C es = sum_list (map (\<lambda>x. op_weight C (we_op x)) es)"

abbreviation apply_ops :: "('h, 'm) eng_ctx_scheme \<Rightarrow> eng_abs \<Rightarrow> wal_op list \<Rightarrow> eng_abs" where
  "apply_ops C \<equiv> foldl (apply_op C)"

abbreviation plan_ops :: "recover_plan \<Rightarrow> wal_op list" where
  "plan_ops plan \<equiv> map we_op (rp_entries plan)"

lemma replay_entries_correct:
  assumes "eng_ctx_ok C" "eng_inv C e" "eng_room e (ops_weight C es)" "replay_entries C R e m es = (r, e')"
  shows "eng_inv C e' \<and> en_wal e' = en_wal e \<and>
    (\<exists>k. abs_of C e' = apply_ops C (abs_of C e) (map we_op (take k es)) \<and> (is_ok r \<longrightarrow> k = length es)) \<and>
    (\<forall>m'. r = Ok m' \<longrightarrow> m \<le> m' \<and> (\<forall>x \<in> set es. we_seq x \<le> m'))"
  using assms(2-)
proof (induction es arbitrary: e m)
  case Nil
  then show ?case by auto
next
  case (Cons x xs)
  obtain ro e1 where op: "replay_op C R e (we_op x) = (ro, e1)"
    by (cases "replay_op C R e (we_op x)")
  have one: "replayed C e (we_op x) (is_ok ro) e1 (ops_weight C xs)"
    by (rule replay_op_correct [OF assms(1) Cons.prems(1) _ op]) (use Cons.prems(2) in \<open>simp add: ops_weight_def\<close>)
  show ?case
  proof (cases ro)
    case (Ok u)
    with Cons.prems(3) op have rest: "replay_entries C R e1 (max m (we_seq x)) xs = (r, e')" by simp
    have "eng_inv C e1" "eng_room e1 (ops_weight C xs)" using one by (simp_all add: replayed_def)
    from Cons.IH [OF this rest] obtain k where
      IH: "eng_inv C e'" "en_wal e' = en_wal e1"
        "abs_of C e' = apply_ops C (abs_of C e1) (map we_op (take k xs))" "is_ok r \<longrightarrow> k = length xs"
        "\<forall>m'. r = Ok m' \<longrightarrow> max m (we_seq x) \<le> m' \<and> (\<forall>y \<in> set xs. we_seq y \<le> m')"
      by blast
    moreover have "abs_of C e1 = apply_op C (abs_of C e) (we_op x)" "en_wal e1 = en_wal e"
      using one Ok by (simp_all add: replayed_def)
    ultimately show ?thesis
      by (intro conjI exI [of _ "Suc k"]) auto
  next
    case (Err x2)
    with Cons.prems(3) op one show ?thesis by (auto simp: replayed_def intro: exI [of _ 0])
  next
    case Panic
    with Cons.prems(3) op one show ?thesis by (auto simp: replayed_def intro: exI [of _ 0])
  qed
qed

lemma engine_plan_Ok:
  assumes "engine_plan C e = Ok plan"
  obtains m es where "read_marker (ec_marker_from_slice C) (en_wal e) = Ok m" "read_all (en_wal e) = Ok es"
    "rp_entries plan = filter (\<lambda>x. we_seq x > marker_applied m) es" "rp_applied_seq plan = marker_applied m"
  using assms by (auto simp: engine_plan_def pending_recover_plan_def)

text \<open>The marker does not change when the log is cut.\<close>

lemma truncate_to_marker:
  assumes "truncate_to w applied = (Ok (), w')" "read_all w = Ok es" "fs_ok (wl_dir w)"
  shows "read_marker rd w' = read_marker rd w" "fs_ok (wl_dir w')"
    "read_all w' = Ok (filter (\<lambda>e. we_seq e > applied) es)"
proof -
  from truncate_to_reads [OF assms(2), of applied] assms(1)
  have w': "w' = w \<or> (\<exists>bs. w' = w\<lparr>wl_dir := fs_write (wl_dir w) WAL_LOG bs\<rparr>)"
    and rd: "read_all w' = Ok (filter (\<lambda>e. we_seq e > applied) es)"
    by auto
  from w' assms(3) show "read_marker rd w' = read_marker rd w" "fs_ok (wl_dir w')"
    by (auto simp: read_marker_def fs_read_write_other)
  show "read_all w' = Ok (filter (\<lambda>e. we_seq e > applied) es)" by (rule rd)
qed

lemma recover_inner_cases:
  assumes "recover_inner C R e = (r, e')" "engine_plan C e = Ok plan"
  obtains
      (nothing) "rp_entries plan = []" "r = Ok ()" "e' = e"
    | (failed) rr where "replay_entries C R e (rp_applied_seq plan) (rp_entries plan) = (rr, e')" "\<not> is_ok rr" "\<not> is_ok r"
    | (finished) m e1 w where "replay_entries C R e (rp_applied_seq plan) (rp_entries plan) = (Ok m, e1)"
        "truncate_to (en_wal e1) m = (r, w)" "e' = e1\<lparr>en_wal := w\<rparr>"
proof (cases "rp_entries plan = []")
  case True
  with assms have "r = Ok ()" "e' = e" by (simp_all add: recover_inner_def engine_plan_def)
  with True show thesis by (rule nothing)
next
  case False
  obtain rr e1 where rp: "replay_entries C R e (rp_applied_seq plan) (rp_entries plan) = (rr, e1)"
    by (cases "replay_entries C R e (rp_applied_seq plan) (rp_entries plan)")
  show thesis
  proof (cases rr)
    case (Ok m)
    obtain rt w where tr: "truncate_to (en_wal e1) m = (rt, w)" by (cases "truncate_to (en_wal e1) m")
    with assms False rp Ok have "r = rt" "e' = e1\<lparr>en_wal := w\<rparr>"
      by (auto simp: recover_inner_def engine_plan_def)
    with rp Ok tr show thesis using finished by simp
  next
    case (Err x)
    with assms False rp have "e' = e1" "r = Err x" by (auto simp: recover_inner_def engine_plan_def)
    with rp Err show thesis using failed by simp
  next
    case Panic
    with assms False rp have "e' = e1" "r = Panic" by (auto simp: recover_inner_def engine_plan_def)
    with rp Panic show thesis using failed by simp
  qed
qed

lemma recover_inner_correct:
  assumes ctx: "eng_ctx_ok C" and inv: "eng_inv C e" and ok: "fs_ok (wl_dir (en_wal e))"
    and plan: "engine_plan C e = Ok plan" and room: "eng_room e (ops_weight C (rp_entries plan))"
    and rec: "recover_inner C R e = (r, e')"
  shows "eng_inv C e'"
    and "is_ok r \<Longrightarrow> abs_of C e' = apply_ops C (abs_of C e) (plan_ops plan)"
    and "is_ok r \<Longrightarrow> \<exists>plan'. engine_plan C e' = Ok plan' \<and> rp_entries plan' = []"
    and "\<not> is_ok r \<Longrightarrow> en_wal e' = en_wal e \<and> (\<exists>k. abs_of C e' = apply_ops C (abs_of C e) (take k (plan_ops plan)))"
proof -
  obtain m es where p: "read_marker (ec_marker_from_slice C) (en_wal e) = Ok m" "read_all (en_wal e) = Ok es"
    "rp_entries plan = filter (\<lambda>x. we_seq x > marker_applied m) es" "rp_applied_seq plan = marker_applied m"
    by (rule engine_plan_Ok [OF plan])
  have "eng_inv C e' \<and> (is_ok r \<longrightarrow> abs_of C e' = apply_ops C (abs_of C e) (plan_ops plan) \<and>
      (\<exists>plan'. engine_plan C e' = Ok plan' \<and> rp_entries plan' = [])) \<and>
    (\<not> is_ok r \<longrightarrow> en_wal e' = en_wal e \<and> (\<exists>k. abs_of C e' = apply_ops C (abs_of C e) (take k (plan_ops plan))))"
    using rec plan
  proof (cases rule: recover_inner_cases)
    case nothing
    with inv plan show ?thesis by auto
  next
    case (failed rr)
    from replay_entries_correct [OF ctx inv room failed(1)] failed(2,3) show ?thesis
      by (auto simp: take_map)
  next
    case (finished mx e1 w)
    note rp = replay_entries_correct [OF ctx inv room finished(1)]
    have e1: "en_wal e1 = en_wal e" using rp by blast
    have r: "r = Ok ()" using finished(2) truncate_to_reads [OF p(2), of mx] by (auto simp: e1)
    note tm = truncate_to_marker [OF finished(2) [unfolded e1 r] p(2) ok]
    have "we_seq x \<le> mx" if "x \<in> set es" for x
      using rp that p(3,4) by (cases "we_seq x > marker_applied m") auto
    then have "read_all w = Ok []"
      unfolding tm(3) by (auto simp: filter_empty_conv not_less)
    then have "\<exists>plan'. engine_plan C e' = Ok plan' \<and> rp_entries plan' = []"
      by (simp add: engine_plan_def pending_recover_plan_def finished(3) tm(1) p(1))
    moreover have "abs_of C e' = abs_of C e1" "eng_inv C e' = eng_inv C e1"
      by (simp_all add: finished(3) abs_of_def eng_inv_def)
    ultimately show ?thesis using rp r by auto
  qed
  then show "eng_inv C e'"
    "is_ok r \<Longrightarrow> abs_of C e' = apply_ops C (abs_of C e) (plan_ops plan)"
    "is_ok r \<Longrightarrow> \<exists>plan'. engine_plan C e' = Ok plan' \<and> rp_entries plan' = []"
    "\<not> is_ok r \<Longrightarrow> en_wal e' = en_wal e \<and> (\<exists>k. abs_of C e' = apply_ops C (abs_of C e) (take k (plan_ops plan)))"
    by blast+
qed

text \<open>Recovery fails only if a replayed operation does: the log that was read can be cut.\<close>

lemma recover_inner_ok:
  assumes ctx: "eng_ctx_ok C" and inv: "eng_inv C e" and plan: "engine_plan C e = Ok plan"
    and room: "eng_room e (ops_weight C (rp_entries plan))"
    and ok: "is_ok (fst (replay_entries C R e (rp_applied_seq plan) (rp_entries plan)))"
  shows "recover_inner C R e = (Ok (), snd (recover_inner C R e))"
proof -
  obtain r e' where rec: "recover_inner C R e = (r, e')" by (cases "recover_inner C R e")
  then have "r = Ok ()"
    using plan
  proof (cases rule: recover_inner_cases)
    case (finished m e1 w)
    have "en_wal e1 = en_wal e" using replay_entries_correct [OF ctx inv room finished(1)] by blast
    moreover obtain es where "read_all (en_wal e) = Ok es" by (rule engine_plan_Ok [OF plan])
    ultimately show ?thesis using finished(2) truncate_to_reads [of "en_wal e" es m] by auto
  qed (use ok in auto)
  with rec show ?thesis by simp
qed

text \<open>Replaying KV operations over a prefix of themselves changes nothing.\<close>

fun touches :: "bytes \<Rightarrow> wal_op \<Rightarrow> bool" where
  "touches k (PutKv k' v) \<longleftrightarrow> k = k'"
| "touches k (DeleteKv k') \<longleftrightarrow> k = k'"
| "touches k _ \<longleftrightarrow> False"

lemma apply_op_kv: "ea_kv (apply_op C a op) k = (if touches k op then ea_kv (apply_op C b op) k else ea_kv a k)"
  by (cases op) (auto split: res.splits)

lemma apply_ops_kv:
  "ea_kv (apply_ops C a ops) k = (if list_ex (touches k) ops then ea_kv (apply_ops C b ops) k else ea_kv a k)"
proof (induction ops rule: rev_induct)
  case (snoc op ops)
  show ?case
  proof (cases "touches k op")
    case True
    then show ?thesis using apply_op_kv [of C "apply_ops C a ops" op k "apply_ops C b ops"] by simp
  next
    case False
    then show ?thesis
      using snoc apply_op_kv [of C "apply_ops C a ops" op k] apply_op_kv [of C "apply_ops C b ops" op k] by simp
  qed
qed simp

lemma apply_ops_kv_idempotent:
  assumes "ea_kv b = ea_kv (apply_ops C a (take j ops))"
  shows "ea_kv (apply_ops C b ops) = ea_kv (apply_ops C a ops)"
proof
  fix k
  have "\<not> list_ex (touches k) ops \<Longrightarrow> \<not> list_ex (touches k) (take j ops)"
    by (meson in_set_takeD list_ex_iff)
  then show "ea_kv (apply_ops C b ops) k = ea_kv (apply_ops C a ops) k"
    using apply_ops_kv [of C b ops k a] apply_ops_kv [of C a ops k a] apply_ops_kv [of C a "take j ops" k a] assms
    by (metis (full_types))
qed

section \<open>Operations that can never be replayed\<close>

text \<open>
  A put with a key that LMDB refuses, and every columnar put: the columnar store is not open
  while the log is replayed.
\<close>

fun unreplayable :: "wal_op \<Rightarrow> bool" where
  "unreplayable (PutKv k v) \<longleftrightarrow> k = [] \<or> length k > LMDB_MAX_KEY"
| "unreplayable (PutColumnar t ipc) \<longleftrightarrow> True"
| "unreplayable _ \<longleftrightarrow> False"

lemma put_kv_bad_key:
  assumes "k = [] \<or> length k > LMDB_MAX_KEY"
  shows "\<not> is_ok (fst (put_kv H lk st k v t))"
  using assms by (cases "acquire_write_lock lk t") (auto simp: put_kv_def put_kv_inner_def put_kv_quota_def)

lemma replay_op_col: "replay_op C R e op = (r, e') \<Longrightarrow> en_col e = None \<Longrightarrow> en_col e' = None"
  by (cases op) (auto split: prod.splits option.splits res.splits)

lemma replay_unreplayable:
  assumes "unreplayable op" "en_col e = None"
  shows "\<not> is_ok (fst (replay_op C R e op))"
proof (cases op)
  case (PutKv k v)
  with put_kv_bad_key [of k "ec_heed C" "er_kv_lock R" "en_kv e" v None] assms(1) show ?thesis
    by (simp add: split_beta)
next
  case (PutColumnar t ipc)
  with assms(2) show ?thesis by (cases "decode_ipc C ipc") simp_all
qed (use assms in simp_all)

lemma replay_entries_blocked:
  assumes "replay_entries C R e m es = (r, e')" "en_col e = None" "list_ex (\<lambda>x. unreplayable (we_op x)) es"
  shows "\<not> is_ok r"
  using assms
proof (induction es arbitrary: e m)
  case (Cons x xs)
  obtain ro e1 where op: "replay_op C R e (we_op x) = (ro, e1)" by (cases "replay_op C R e (we_op x)")
  show ?case
  proof (cases ro)
    case (Ok u)
    with op replay_unreplayable [of "we_op x" e C R] Cons.prems(2) have "\<not> unreplayable (we_op x)" by auto
    with Cons Ok op replay_op_col [OF op] show ?thesis by auto
  qed (use Cons.prems op in auto)
qed simp

lemma recover_blocked:
  assumes "pending_recover_plan (ec_marker_from_slice C) (en_wal e) = Ok plan" "en_col e = None"
    "list_ex unreplayable (plan_ops plan)"
  shows "\<not> is_ok (fst (recover_inner C R e))"
proof -
  obtain r e' where rec: "recover_inner C R e = (r, e')" by (cases "recover_inner C R e")
  have ex: "list_ex (\<lambda>x. unreplayable (we_op x)) (rp_entries plan)"
    using assms(3) by (simp add: list_ex_iff)
  from rec assms(1) [folded engine_plan_def] show ?thesis
  proof (cases rule: recover_inner_cases)
    case nothing
    with ex show ?thesis by simp
  next
    case (failed rr)
    then show ?thesis by (simp add: rec)
  next
    case (finished m e1 w)
    with replay_entries_blocked [OF finished(1) assms(2) ex] show ?thesis by simp
  qed
qed

lemma engine_open_Ok:
  assumes "engine_open C R hm schema q = Ok e"
  obtains kv vi w where "kv_open (ec_heed C) (hm_kv_env hm) (hm_kv_dir hm) 0 q = Ok kv"
    "wal_open (hm_wal_dir hm) = Ok w"
    "recover_inner C R \<lparr>en_kv = kv, en_vec = vi, en_col = None, en_wal = w, en_home = hm, en_quota_limit = q\<rparr> = (Ok (), e)"
proof -
  from assms obtain kv vi w where *: "kv_open (ec_heed C) (hm_kv_env hm) (hm_kv_dir hm) 0 q = Ok kv"
    "wal_open (hm_wal_dir hm) = Ok w"
    and rec: "(case recover_inner C R \<lparr>en_kv = kv, en_vec = vi, en_col = None, en_wal = w, en_home = hm, en_quota_limit = q\<rparr>
       of (Ok u, e) \<Rightarrow> Ok e | (Err x, e) \<Rightarrow> Err x | (Panic, e) \<Rightarrow> Panic) = Ok e"
    unfolding engine_open_def res_bind_eq_Ok by blast
  let ?e0 = "\<lparr>en_kv = kv, en_vec = vi, en_col = None, en_wal = w, en_home = hm, en_quota_limit = q\<rparr>"
  obtain r e1 where re: "recover_inner C R ?e0 = (r, e1)" by (cases "recover_inner C R ?e0")
  with rec have "r = Ok () \<and> e1 = e" by (cases r) simp_all
  with that [OF *] re show thesis by simp
qed

lemma open_blocked:
  assumes "build_recover_plan (ec_marker_from_slice C) (hm_wal_dir hm) = Ok plan"
    "list_ex unreplayable (plan_ops plan)"
  shows "\<not> is_ok (engine_open C R hm schema q)"
proof
  assume "is_ok (engine_open C R hm schema q)"
  then obtain e where "engine_open C R hm schema q = Ok e" by (auto simp: is_ok_iff)
  then obtain kv vi w where w: "wal_open (hm_wal_dir hm) = Ok w"
    and rec: "recover_inner C R \<lparr>en_kv = kv, en_vec = vi, en_col = None, en_wal = w, en_home = hm,
        en_quota_limit = q\<rparr> = (Ok (), e)" (is "recover_inner C R ?e0 = _")
    by (rule engine_open_Ok)
  have "pending_recover_plan (ec_marker_from_slice C) (en_wal ?e0) = Ok plan"
    using assms(1) w by (simp add: build_recover_plan_def pending_recover_plan_def)
  from recover_blocked [OF this _ assms(2), of R] rec show False by simp
qed

section \<open>Checkpoints\<close>

lemma kv_flush_keeps:
  assumes "kv_inv H st"
  shows "kv_inv H (kv_flush st)" "kv_abs H (kv_flush st) = kv_abs H st"
  using kv_inv_pool_cong [OF assms pool_flush_keeps(1,2) [OF kv_inv_pool [OF assms]]]
  by (simp_all add: kv_flush_def)

lemma col_flush_keeps:
  assumes "col_inv C st"
  shows "col_inv C (col_flush st)" "col_abs C (col_flush st) = col_abs C st"
  using col_pool_keeps [OF assms pool_flush_keeps(1) [OF col_inv_pool [OF assms]]]
    pool_flush_keeps(2) [OF col_inv_pool [OF assms]]
  by (simp_all add: col_flush_def pool_flush_def)

lemma index_checkpoint_keeps:
  assumes "index_inv C idx"
  shows "index_inv C (index_checkpoint idx)" "index_abs C (index_checkpoint idx) = index_abs C idx"
    "stored_vectors C (index_checkpoint idx) = stored_vectors C idx"
proof -
  note p = vec_pool_persist [OF index_inv_pool [OF assms] refl, of "serialize (vi_graph idx)"]
  show "index_inv C (index_checkpoint idx)"
    using assms p by (simp add: index_inv_def index_checkpoint_def idx_covered_def)
  show st: "stored_vectors C (index_checkpoint idx) = stored_vectors C idx"
    using p(2) by (simp add: stored_vectors_def index_checkpoint_def idx_lookup_def cong: option.case_cong)
  show "index_abs C (index_checkpoint idx) = index_abs C idx"
    by (simp add: index_abs_def fun_eq_iff st) (simp add: index_checkpoint_def)
qed

lemma engine_checkpoint_correct:
  assumes ctx: "eng_ctx_ok C" and inv: "eng_inv C e" and log: "wal_clean (en_wal e) es"
    and below: "\<And>x. x \<in> set es \<Longrightarrow> we_seq x < wl_next_seq (en_wal e)"
    and cp: "engine_checkpoint C e = (r, e')"
  shows "r = Ok ()" "eng_inv C e'" "abs_of C e' = abs_of C e" "wal_clean (en_wal e') []"
    "en_kv e' = kv_flush (en_kv e)"
    "engine_plan C e' = Ok \<lparr>rp_entries = [], rp_applied_seq = saturating_sub_u64 (wl_next_seq (en_wal e)) 1\<rparr>"
proof -
  let ?a = "saturating_sub_u64 (wl_next_seq (en_wal e)) 1"
  let ?m = "\<lparr>cm_applied_seq = ?a, cm_checkpoint_seq = ?a, cm_graph_snapshot = Some (checkpoint_name ?a)\<rparr>"
  let ?w1 = "write_marker (ec_marker_to_vec C) (en_wal e) ?m"
  have w1: "wal_clean ?w1 es" by (rule wal_clean_write_marker [OF log])
  have old: "\<not> we_seq x > ?a" if "x \<in> set es" for x
    using below [OF that] by (simp add: word_less_nat_alt)
  obtain w where tr: "truncate_to ?w1 ?a = (Ok (), w)" "read_all w = Ok []"
    "w = ?w1 \<or> (\<exists>bs. w = ?w1\<lparr>wl_dir := fs_write (wl_dir ?w1) WAL_LOG bs\<rparr>)"
    using truncate_to_reads [OF wal_clean_read_all [OF w1], of ?a] old by (auto simp: filter_empty_conv)
  have ok1: "fs_ok (wl_dir ?w1)" using w1 by (simp add: wal_clean_def)
  have e': "r = Ok ()" "e' = e\<lparr>en_kv := kv_flush (en_kv e), en_col := map_option col_flush (en_col e),
      en_vec := map_option index_checkpoint (en_vec e), en_wal := w\<rparr>"
    using cp tr(1) by (auto simp: engine_checkpoint_def Let_def)
  show "r = Ok ()" "en_kv e' = kv_flush (en_kv e)" using e' by simp_all
  have kv: "kv_inv (ec_heed C) (en_kv e)" using inv by (simp add: eng_inv_def)
  show "eng_inv C e'"
    using inv kv_flush_keeps(1) [OF kv] col_flush_keeps(1) index_checkpoint_keeps(1)
    by (auto simp: eng_inv_def e' split: option.splits)
  show "abs_of C e' = abs_of C e"
    using inv kv_flush_keeps(2) [OF kv] col_flush_keeps(2) index_checkpoint_keeps(2,3)
    by (auto simp: eng_inv_def e' abs_of_def split: option.splits)
  have "wal_clean w []"
  proof (cases "es = []")
    case True
    with tr(1) wal_clean_read_all [OF w1] have "w = ?w1" by (auto simp: truncate_to_def)
    with w1 True show ?thesis by simp
  next
    case False
    with tr(1) wal_clean_read_all [OF w1] old
    have "w = ?w1\<lparr>wl_dir := fs_write (wl_dir ?w1) WAL_LOG []\<rparr>"
      by (auto simp: truncate_to_def filter_empty_conv)
    with ok1 show ?thesis by (simp add: wal_clean_def frames_def)
  qed
  then show "wal_clean (en_wal e') []" by (simp add: e')
  have "read_marker (ec_marker_from_slice C) w = Ok (Some ?m)"
    using truncate_to_marker(1) [OF tr(1) wal_clean_read_all [OF w1] ok1] read_write_marker [OF eng_serde [OF ctx]]
    by simp
  then show "engine_plan C e' = Ok \<lparr>rp_entries = [], rp_applied_seq = ?a\<rparr>"
    using tr(2) by (simp add: engine_plan_def pending_recover_plan_def e' marker_applied_def)
qed

lemma checkpoint_open_kv:
  assumes ctx: "eng_ctx_ok C" and inv: "eng_inv C e" and log: "wal_clean (en_wal e) es"
    and below: "\<And>x. x \<in> set es \<Longrightarrow> we_seq x < wl_next_seq (en_wal e)"
    and sz: "sp_seg_size (ks_pool (en_kv e)) = DEFAULT_SEGMENT_SIZE"
    and cp: "engine_checkpoint C e = (r, e')" and op: "engine_open C R (engine_home e') schema q = Ok e''"
  shows "ea_kv (abs_of C e'') = ea_kv (abs_of C e)"
proof -
  note cpc = engine_checkpoint_correct [OF ctx inv log below cp]
  let ?hm = "engine_home e'"
  have hm: "hm_kv_env ?hm = ks_env (en_kv e)" "hm_kv_dir ?hm = sp_data_dir (ks_pool (kv_flush (en_kv e)))"
    "hm_wal_dir ?hm = wl_dir (en_wal e')"
    using cpc(5) by (simp_all add: engine_home_def Let_def kv_flush_def split: option.splits)
  from op obtain kv vi w where kv: "kv_open (ec_heed C) (hm_kv_env ?hm) (hm_kv_dir ?hm) 0 q = Ok kv"
    and w: "wal_open (hm_wal_dir ?hm) = Ok w"
    and rec: "recover_inner C R \<lparr>en_kv = kv, en_vec = vi, en_col = None, en_wal = w, en_home = ?hm,
        en_quota_limit = q\<rparr> = (Ok (), e'')" (is "recover_inner C R ?e0 = _")
    by (rule engine_open_Ok)
  have po: "pool_open d 0 = pool_open d DEFAULT_SEGMENT_SIZE" for d
    by (simp add: pool_open_def DEFAULT_SEGMENT_SIZE_def)
  have "kv_open (ec_heed C) (ks_env (en_kv e)) (sp_data_dir (ks_pool (kv_flush (en_kv e))))
      (sp_seg_size (ks_pool (en_kv e))) q = Ok kv"
    using kv by (simp add: hm sz kv_open_def po)
  moreover have "0 < sp_seg_size (ks_pool (en_kv e))" "sp_seg_size (ks_pool (en_kv e)) < 2 ^ 64"
    by (simp_all add: sz DEFAULT_SEGMENT_SIZE_def)
  ultimately have kva: "kv_abs (ec_heed C) kv = kv_abs (ec_heed C) (en_kv e)"
    using kv_reopen_abs [OF eng_heed [OF ctx]] inv by (simp add: eng_inv_def)
  have cl: "fs_ok (wl_dir (en_wal e'))" "fs_read (wl_dir (en_wal e')) WAL_LOG = Some []"
    using cpc(4) by (simp_all add: wal_clean_def frames_def)
  have "read_entries [] = Ok []" using read_entries_frames_only [of "[]"] by (simp add: frames_def)
  from wal_open_keeps [OF cl this] w have "read_all w = Ok []"
    "fs_read (wl_dir w) MARKER = fs_read (wl_dir (en_wal e')) MARKER"
    by (auto simp: hm)
  with cpc(6) have "engine_plan C ?e0 = Ok \<lparr>rp_entries = [], rp_applied_seq = saturating_sub_u64 (wl_next_seq (en_wal e)) 1\<rparr>"
    by (auto simp: engine_plan_def pending_recover_plan_def read_marker_def)
  with rec have "e'' = ?e0" by (simp add: recover_inner_def engine_plan_def)
  with kva show ?thesis by (simp add: abs_of_def)
qed

section \<open>An engine to run\<close>

definition toy_eng_ctx :: "mem_db eng_ctx" where
  "toy_eng_ctx = \<lparr>ec_heed = mem_heed, ec_vec = toy_ctx, ec_col = toy_col_ctx,
     ec_marker_to_vec = toy_to_vec, ec_marker_from_slice = toy_from_slice,
     ec_ipc_write = (\<lambda>b. Some [1]),
     ec_ipc_open = (\<lambda>bs. if bs = [1] then Some [Some toy_batch] else None), ec_env_again = HErr HeedOther\<rparr>"

definition toy_run :: eng_run where
  "toy_run = \<lparr>er_kv_lock = free_lock, er_col_lock = free_lock, er_held = (\<lambda>s. False), er_now = 0,
     er_expired = (\<lambda>n. False)\<rparr>"

definition toy_home :: "mem_db home" where
  "toy_home = \<lparr>hm_kv_env = [], hm_kv_dir = fs_empty, hm_vec_meta = False, hm_vec_env = [], hm_vec_dir = fs_empty,
     hm_col_env = [], hm_col_dir = fs_empty, hm_wal_dir = fs_empty\<rparr>"

definition toy_engine :: "mem_db engine" where
  "toy_engine = \<lparr>en_kv = kv_fresh, en_vec = Some toy_index, en_col = None, en_wal = wal_fresh, en_home = toy_home,
     en_quota_limit = 0\<rparr>"

lemma toy_eng_ctx_ok: "eng_ctx_ok toy_eng_ctx"
proof -
  have "batch_ok toy_batch" by code_simp
  then show ?thesis
    by (simp add: eng_ctx_ok_def toy_eng_ctx_def mem_heed_laws toy_ctx_ok toy_col_ctx_ok toy_marker_law decode_ipc_def)
qed

lemma toy_engine_inv: "eng_inv toy_eng_ctx toy_engine"
  using kv_fresh_inv(1) toy_index_inv(1) by (simp add: eng_inv_def toy_eng_ctx_def toy_engine_def)

text \<open>The same engine with operations in its log that its stores have not seen.\<close>

definition toy_logged :: "wal_op list \<Rightarrow> mem_db engine" where
  "toy_logged ops = toy_engine\<lparr>en_wal := \<lparr>wl_dir = fs_write fs_empty WAL_LOG (frames (number 1 ops)),
     wl_next_seq = 1 + word_of_nat (length ops)\<rparr>\<rparr>"

lemma number_ops [simp]: "map we_op (number n ops) = ops"
  by (induction ops arbitrary: n) simp_all

lemma toy_logged_clean:
  assumes "list_all op_ok ops"
  shows "wal_clean (en_wal (toy_logged ops)) (number 1 ops)"
proof -
  have "we_op ` set (number 1 ops) = set ops" by (metis number_ops set_map)
  with assms show ?thesis by (auto simp: toy_logged_def wal_clean_def list_all_iff)
qed

abbreviation toy_plan :: "wal_op list \<Rightarrow> recover_plan" where
  "toy_plan ops \<equiv> \<lparr>rp_entries = number 1 ops, rp_applied_seq = 0\<rparr>"

abbreviation toy_replay :: "mem_db engine \<Rightarrow> wal_op list \<Rightarrow> u64 res \<times> mem_db engine" where
  "toy_replay e ops \<equiv> replay_entries toy_eng_ctx toy_run e (rp_applied_seq (toy_plan ops)) (rp_entries (toy_plan ops))"

lemma toy_logged_plan:
  assumes "list_all op_ok ops" "list_all (\<lambda>x. 0 < we_seq x) (number 1 ops)"
  shows "engine_plan toy_eng_ctx (toy_logged ops) = Ok (toy_plan ops)"
proof -
  have "fs_read (wl_dir (en_wal (toy_logged ops))) MARKER = None"
    by (simp add: toy_logged_def fs_read_write_other) (simp add: fs_read_def fs_empty_def fs_inode_def)
  then have "read_marker toy_from_slice (en_wal (toy_logged ops)) = Ok None"
    by (simp add: read_marker_def)
  with assms(2) wal_clean_read_all [OF toy_logged_clean [OF assms(1)]] show ?thesis
    by (simp add: engine_plan_def pending_recover_plan_def toy_eng_ctx_def marker_applied_def filter_id_conv list_all_iff)
qed

lemma toy_logged_inv: "eng_inv toy_eng_ctx (toy_logged ops)" "abs_of toy_eng_ctx (toy_logged ops) = abs_of toy_eng_ctx toy_engine"
  using toy_engine_inv by (simp_all add: toy_logged_def eng_inv_def abs_of_def)

lemma toy_logged_fs_ok: "fs_ok (wl_dir (en_wal (toy_logged ops)))"
  by (simp add: toy_logged_def)

section \<open>Properties\<close>

text \<open>
  Recovery (C3).  If the recovery of an engine succeeds, its KV map, vectors and tables are what
  the pending operations of the log make of what was there, in the order of the log, and nothing
  is pending any more.  If it fails, a prefix of the operations has been applied and the log is
  unchanged.  The invariants of the three stores hold in either case.
\<close>

theorem recovery_replays_log:
  assumes "eng_ctx_ok C" "eng_inv C e" "fs_ok (wl_dir (en_wal e))" "engine_plan C e = Ok plan"
    and "eng_room e (ops_weight C (rp_entries plan))" "recover_inner C R e = (r, e')"
  shows "eng_inv C e' \<and>
    (if is_ok r
     then abs_of C e' = apply_ops C (abs_of C e) (plan_ops plan) \<and>
          (\<exists>plan'. engine_plan C e' = Ok plan' \<and> rp_entries plan' = [])
     else en_wal e' = en_wal e \<and> (\<exists>k. abs_of C e' = apply_ops C (abs_of C e) (take k (plan_ops plan))))"
  using recover_inner_correct [OF assms] by auto

theorem recovery_replays_log_witness:
  "let ops = [PutKv [7] [1, 2], DeleteVector 3];
       e' = snd (recover_inner toy_eng_ctx toy_run (toy_logged ops))
   in eng_inv toy_eng_ctx e' \<and> abs_of toy_eng_ctx e' = apply_ops toy_eng_ctx (abs_of toy_eng_ctx toy_engine) ops \<and>
      (\<exists>plan'. engine_plan toy_eng_ctx e' = Ok plan' \<and> rp_entries plan' = [])"
proof -
  let ?ops = "[PutKv [7] [1, 2], DeleteVector 3]"
  have plan: "engine_plan toy_eng_ctx (toy_logged ?ops) = Ok (toy_plan ?ops)"
    by (rule toy_logged_plan) code_simp+
  have room: "eng_room (toy_logged ?ops) (ops_weight toy_eng_ctx (rp_entries (toy_plan ?ops)))" by code_simp
  have "is_ok (fst (toy_replay (toy_logged ?ops) ?ops))" by code_simp
  note rec = recover_inner_ok [OF toy_eng_ctx_ok toy_logged_inv(1) plan room this]
  from recovery_replays_log [OF toy_eng_ctx_ok toy_logged_inv(1) toy_logged_fs_ok plan room rec]
  show ?thesis unfolding Let_def by (simp add: toy_logged_inv(2))
qed

text \<open>
  Idempotence of KV recovery (C21).  A crash may leave any prefix of the logged operations applied
  to the stores.  If the KV map is what some prefix makes of a map \<open>a\<close>, a successful
  recovery makes it what all of them make of \<open>a\<close>.
\<close>

theorem kv_recovery_idempotent:
  assumes "eng_ctx_ok C" "eng_inv C e" "fs_ok (wl_dir (en_wal e))" "engine_plan C e = Ok plan"
    and "eng_room e (ops_weight C (rp_entries plan))" "recover_inner C R e = (Ok (), e')"
    and "ea_kv (abs_of C e) = ea_kv (apply_ops C a (take j (plan_ops plan)))"
  shows "ea_kv (abs_of C e') = ea_kv (apply_ops C a (plan_ops plan))"
  using recover_inner_correct(2) [OF assms(1-6)] apply_ops_kv_idempotent [OF assms(7)] by simp

theorem kv_recovery_idempotent_witness:
  "let ops = [PutKv [7] [1, 2], DeleteKv [8]];
       e' = snd (recover_inner toy_eng_ctx toy_run (toy_logged ops))
   in ea_kv (abs_of toy_eng_ctx e') = ea_kv (apply_ops toy_eng_ctx (abs_of toy_eng_ctx toy_engine) ops)"
proof -
  let ?ops = "[PutKv [7] [1, 2], DeleteKv [8]]"
  have plan: "engine_plan toy_eng_ctx (toy_logged ?ops) = Ok (toy_plan ?ops)"
    by (rule toy_logged_plan) code_simp+
  have room: "eng_room (toy_logged ?ops) (ops_weight toy_eng_ctx (rp_entries (toy_plan ?ops)))" by code_simp
  have "is_ok (fst (toy_replay (toy_logged ?ops) ?ops))" by code_simp
  note rec = recover_inner_ok [OF toy_eng_ctx_ok toy_logged_inv(1) plan room this]
  from kv_recovery_idempotent [OF toy_eng_ctx_ok toy_logged_inv(1) toy_logged_fs_ok plan room rec,
      of "abs_of toy_eng_ctx toy_engine" 0]
  show ?thesis unfolding Let_def by (simp add: toy_logged_inv(2))
qed

text \<open>
  Vector recovery is not idempotent (C33).  A deletion of an id that is not there, followed by its
  insertion, leaves the vector live.  When both are still pending after a crash and the store has
  them, the replay deletes the vector and skips the insertion as a duplicate: the
  acknowledged vector is gone.
\<close>

theorem recovery_loses_vector:
  assumes "eng_ctx_ok C" "eng_inv C e" "fs_ok (wl_dir (en_wal e))" "engine_plan C e = Ok plan"
    and "eng_room e (ops_weight C (rp_entries plan))" "recover_inner C R e = (Ok (), e')"
    and "plan_ops plan = [DeleteVector i, InsertVector i v]" "ea_live (abs_of C e) i = Some v"
  shows "ea_live (abs_of C e') i = None \<and>
    (ea_taken a i = None \<longrightarrow> ea_live (apply_ops C a (plan_ops plan)) i = Some v)"
proof -
  have "ea_taken (abs_of C e) i \<noteq> None"
    using assms(8) by (auto simp: abs_of_def index_abs_def split: option.splits if_splits)
  with recover_inner_correct(2) [OF assms(1-6)] assms(7) show ?thesis by simp
qed

theorem recovery_loses_vector_witness:
  "let ops = [DeleteVector 1, InsertVector 1 [5]];
       e = (toy_logged ops)\<lparr>en_vec := Some toy_one\<rparr>
   in ea_live (abs_of toy_eng_ctx e) 1 = Some [5] \<and>
      ea_live (abs_of toy_eng_ctx (snd (recover_inner toy_eng_ctx toy_run e))) 1 = None"
proof -
  let ?ops = "[DeleteVector 1, InsertVector 1 [5]]"
  let ?e = "(toy_logged ?ops)\<lparr>en_vec := Some toy_one\<rparr>"
  have "engine_plan toy_eng_ctx (toy_logged ?ops) = Ok (toy_plan ?ops)"
    by (rule toy_logged_plan) code_simp+
  then have plan: "engine_plan toy_eng_ctx ?e = Ok (toy_plan ?ops)"
    by (simp add: engine_plan_def)
  have inv: "eng_inv toy_eng_ctx ?e"
    using toy_logged_inv(1) [of ?ops] toy_one_inv(1) by (simp add: eng_inv_def) (simp add: toy_eng_ctx_def)
  have ok: "fs_ok (wl_dir (en_wal ?e))" using toy_logged_fs_ok [of ?ops] by simp
  have live: "ea_live (abs_of toy_eng_ctx ?e) 1 = Some [5]"
    using toy_one_inv(2) by (simp add: abs_of_def toy_eng_ctx_def)
  have room: "eng_room ?e (ops_weight toy_eng_ctx (rp_entries (toy_plan ?ops)))" by code_simp
  have "is_ok (skip_duplicate (fst (index_insert toy_ctx (\<lambda>s. False) 0 (snd (index_delete toy_one 1)) 1 [5])))"
    by code_simp
  then have "is_ok (fst (toy_replay ?e ?ops))"
    by (cases "skip_duplicate (fst (index_insert toy_ctx (\<lambda>s. False) 0 (snd (index_delete toy_one 1)) 1 [5]))")
      (simp_all add: split_beta toy_eng_ctx_def toy_run_def)
  note rec = recover_inner_ok [OF toy_eng_ctx_ok inv plan room this]
  from recovery_loses_vector [OF toy_eng_ctx_ok inv ok plan room rec, of 1 "[5]"] live
  show ?thesis unfolding Let_def by simp
qed

text \<open>
  Pending operations that block the engine (C34).  The log is written before an operation is checked.  If
  what is pending has a put with an empty or overlong key, which the store refuses each time, or any
  columnar put, stored or not, because recovery runs before the columnar store is open, then opening the namespace fails, with
  every schema and quota, and so it does each time until the log is repaired by hand.  A put that was refused for another
  reason (the quota, a busy lock) is in the log as well and is not covered: its replay may succeed later.
\<close>

theorem unreplayable_blocks_open:
  assumes "build_recover_plan (ec_marker_from_slice C) (hm_wal_dir hm) = Ok plan"
    and "list_ex unreplayable (plan_ops plan)"
  shows "\<not> is_ok (engine_open C R hm schema q)"
  by (rule open_blocked [OF assms])

lemma toy_rejected_log:
  "build_recover_plan toy_from_slice
     (wl_dir (en_wal (snd (engine_put_kv toy_eng_ctx toy_run (toy_engine\<lparr>en_vec := None\<rparr>) [] [1] None)))) =
   Ok \<lparr>rp_entries = [\<lparr>we_seq = 1, we_op = PutKv [] [1]\<rparr>], rp_applied_seq = 0\<rparr>"
  by code_simp

theorem unreplayable_blocks_open_witness:
  "let (r, e) = engine_put_kv toy_eng_ctx toy_run (toy_engine\<lparr>en_vec := None\<rparr>) [] [1] None
   in r = Err (InvalidKey ''empty key rejected'') \<and>
      \<not> is_ok (engine_open toy_eng_ctx toy_run (engine_home e) None 0)"
proof -
  let ?p = "engine_put_kv toy_eng_ctx toy_run (toy_engine\<lparr>en_vec := None\<rparr>) [] [1] None"
  have r: "fst ?p = Err (InvalidKey ''empty key rejected'')" by code_simp
  have "hm_wal_dir (engine_home (snd ?p)) = wl_dir (en_wal (snd ?p))"
    by (simp add: engine_home_def Let_def split: option.splits)
  with toy_rejected_log have "build_recover_plan (ec_marker_from_slice toy_eng_ctx) (hm_wal_dir (engine_home (snd ?p))) =
      Ok \<lparr>rp_entries = [\<lparr>we_seq = 1, we_op = PutKv [] [1]\<rparr>], rp_applied_seq = 0\<rparr>"
    by (simp add: toy_eng_ctx_def)
  from unreplayable_blocks_open [OF this, of toy_run None 0] r show ?thesis
    unfolding Let_def by (simp add: split_beta)
qed

lemma engine_put_kv_correct:
  assumes ctx: "eng_ctx_ok C" and inv: "eng_inv C e" and room: "eng_room e 1" and log: "wal_clean (en_wal e) es"
    and fits: "length (encode_op (PutKv k v)) \<le> U32_MAX" and put: "engine_put_kv C R e k v t = (r, e')"
  shows "eng_inv C e'" "wal_clean (en_wal e') (es @ [\<lparr>we_seq = wl_next_seq (en_wal e), we_op = PutKv k v\<rparr>])"
    "abs_of C e' = (if is_ok r then apply_op C (abs_of C e) (PutKv k v) else abs_of C e)"
proof -
  obtain w where w: "wal_append (en_wal e) (PutKv k v) = (Ok (wl_next_seq (en_wal e)), w)"
    "wal_clean w (es @ [\<lparr>we_seq = wl_next_seq (en_wal e), we_op = PutKv k v\<rparr>])"
    using wal_clean_append [OF log, of "PutKv k v"] fits by auto
  obtain kv where kv: "put_kv (ec_heed C) (er_kv_lock R) (en_kv e) k v t = (r, kv)"
    and e': "e' = e\<lparr>en_wal := w, en_kv := kv\<rparr>"
    using put w(1) by (auto simp: engine_put_kv_def split: prod.splits)
  have i: "kv_inv (ec_heed C) (en_kv e)" and ro: "room_for (ks_pool (en_kv e)) (Suc 0)"
    using inv room by (simp_all add: eng_inv_def eng_room_def)
  from put_kv_keeps [OF eng_heed [OF ctx] i ro kv] inv w(2)
  show "eng_inv C e'" "wal_clean (en_wal e') (es @ [\<lparr>we_seq = wl_next_seq (en_wal e), we_op = PutKv k v\<rparr>])"
    "abs_of C e' = (if is_ok r then apply_op C (abs_of C e) (PutKv k v) else abs_of C e)"
    by (simp_all add: eng_inv_def abs_of_def e')
qed

text \<open>
  A write goes to the log and to the store (C4).  After \<open>put_kv\<close> the log ends with the operation,
  whatever the store said, and the KV map has changed exactly if the call succeeded; vectors and
  tables are untouched.
\<close>

theorem engine_put_kv_refines:
  assumes "eng_ctx_ok C" "eng_inv C e" "eng_room e 1" "wal_clean (en_wal e) es"
    and "length (encode_op (PutKv k v)) \<le> U32_MAX" "engine_put_kv C R e k v t = (r, e')"
  shows "eng_inv C e' \<and> read_all (en_wal e') = Ok (es @ [\<lparr>we_seq = wl_next_seq (en_wal e), we_op = PutKv k v\<rparr>]) \<and>
    abs_of C e' = (if is_ok r then apply_op C (abs_of C e) (PutKv k v) else abs_of C e)"
  using engine_put_kv_correct [OF assms] wal_clean_read_all by blast

theorem engine_put_kv_refines_witness:
  "let (r, e') = engine_put_kv toy_eng_ctx toy_run toy_engine [7] [1, 2] None
   in r = Ok () \<and> read_all (en_wal e') = Ok [\<lparr>we_seq = 1, we_op = PutKv [7] [1, 2]\<rparr>] \<and>
      ea_kv (abs_of toy_eng_ctx e') = [[7] \<mapsto> [1, 2]]"
proof -
  let ?p = "engine_put_kv toy_eng_ctx toy_run toy_engine [7] [1, 2] None"
  have r: "fst ?p = Ok ()" by code_simp
  have room: "eng_room toy_engine 1" by code_simp
  have cl: "wal_clean (en_wal toy_engine) []" using wal_clean_empty by (simp add: toy_engine_def)
  have len: "length (encode_op (PutKv [7] [1, 2])) \<le> U32_MAX" by code_simp
  have "ea_kv (abs_of toy_eng_ctx toy_engine) = Map.empty" "wl_next_seq (en_wal toy_engine) = 1"
    using kv_fresh_inv(3) by (simp_all add: abs_of_def toy_engine_def toy_eng_ctx_def)
  with engine_put_kv_refines [OF toy_eng_ctx_ok toy_engine_inv room cl len surjective_pairing] r
  show ?thesis unfolding Let_def by (simp add: split_beta)
qed

text \<open>
  Checkpoints (C10).  A checkpoint of an engine whose log numbers its entries below the next
  number succeeds, changes none of the contents and leaves nothing to replay; opening the namespace
  again finds the same KV map.
\<close>

theorem checkpoint_then_open:
  assumes "eng_ctx_ok C" "eng_inv C e" "wal_clean (en_wal e) es"
    and "list_all (\<lambda>x. we_seq x < wl_next_seq (en_wal e)) es"
    and "sp_seg_size (ks_pool (en_kv e)) = DEFAULT_SEGMENT_SIZE" "engine_checkpoint C e = (r, e')"
  shows "r = Ok () \<and> eng_inv C e' \<and> abs_of C e' = abs_of C e \<and>
    (\<exists>plan. engine_plan C e' = Ok plan \<and> rp_entries plan = []) \<and>
    (\<forall>R schema q e''. engine_open C R (engine_home e') schema q = Ok e'' \<longrightarrow>
       ea_kv (abs_of C e'') = ea_kv (abs_of C e))"
proof -
  have below: "we_seq x < wl_next_seq (en_wal e)" if "x \<in> set es" for x
    using assms(4) that by (simp add: list_all_iff)
  note cp = engine_checkpoint_correct [OF assms(1-3) below assms(6)]
  have "ea_kv (abs_of C e'') = ea_kv (abs_of C e)"
    if "engine_open C R (engine_home e') schema q = Ok e''" for R schema q e''
    by (rule checkpoint_open_kv [OF assms(1-3) below assms(5,6) that])
  with cp(1,2,3,6) show ?thesis by auto
qed

lemma toy_pool_inv: "kv_inv mem_heed \<lparr>ks_env = [], ks_pool = pool_open fs_empty 0, ks_quota_limit = 0\<rparr>"
  by (rule kv_open_inv(1) [OF mem_heed_laws mem_heed_empty pool_inv_open_empty])
    (simp add: kv_open_def mem_heed_def)

theorem checkpoint_then_open_witness:
  "let e = toy_engine\<lparr>en_kv := \<lparr>ks_env = [], ks_pool = pool_open fs_empty 0, ks_quota_limit = 0\<rparr>\<rparr>;
       (r, e') = engine_checkpoint toy_eng_ctx e
   in r = Ok () \<and> eng_inv toy_eng_ctx e' \<and> abs_of toy_eng_ctx e' = abs_of toy_eng_ctx e"
proof -
  let ?e = "toy_engine\<lparr>en_kv := \<lparr>ks_env = [], ks_pool = pool_open fs_empty 0, ks_quota_limit = 0\<rparr>\<rparr>"
  have inv: "eng_inv toy_eng_ctx ?e"
    using toy_engine_inv toy_pool_inv by (simp add: eng_inv_def) (simp add: toy_eng_ctx_def)
  have cl: "wal_clean (en_wal ?e) []" using wal_clean_empty by (simp add: toy_engine_def)
  have "sp_seg_size (ks_pool (en_kv ?e)) = DEFAULT_SEGMENT_SIZE"
    by (simp add: pool_open_def Let_def split_beta)
  from checkpoint_then_open [OF toy_eng_ctx_ok inv cl _ this surjective_pairing]
  show ?thesis unfolding Let_def by (simp add: split_beta)
qed

section \<open>The KV contract\<close>

text \<open>
  A read copies the bytes out of the buffer it gets (\<open>to_owned_slice\<close>), as the clients of the trait do.
\<close>

definition owned :: "fs \<Rightarrow> zero_copy_buffer option res \<Rightarrow> bytes option res" where
  "owned d r = res_bind r (\<lambda>found. Ok (map_option (to_owned_slice d) found))"

definition kv_read :: "('h, 'm) heed_scheme \<Rightarrow> 'h kv_store \<Rightarrow> bytes \<Rightarrow> bytes option res \<times> 'h kv_store" where
  "kv_read H st k = (case get_kv_zero_copy H st k of (r, st') \<Rightarrow> (owned (sp_data_dir (ks_pool st')) r, st'))"

definition engine_read :: "'h eng_ctx \<Rightarrow> 'h engine \<Rightarrow> bytes \<Rightarrow> bytes option res \<times> 'h engine" where
  "engine_read C e k =
     (case engine_get_kv C e k of (r, e') \<Rightarrow> (owned (sp_data_dir (ks_pool (en_kv e'))) r, e'))"

lemma kv_read_keeps:
  assumes inv: "kv_inv H st" and rd: "kv_read H st k = (r, st')"
  shows "kv_inv H st'" "kv_abs H st' = kv_abs H st" "room_for (ks_pool st') n = room_for (ks_pool st) n"
    "r = Ok x \<Longrightarrow> x = kv_abs H st k"
proof -
  obtain r0 where get: "get_kv_zero_copy H st k = (r0, st')" and r: "r = owned (sp_data_dir (ks_pool st')) r0"
    using rd by (auto simp: kv_read_def split: prod.splits)
  show "kv_inv H st'" "kv_abs H st' = kv_abs H st" using get_kv_keeps [OF inv get] by simp_all
  have "sp_active_id (ks_pool st') = sp_active_id (ks_pool st)"
    using get sealed_handle_frame(2) by (auto simp: get_kv_zero_copy_def split: res.splits option.splits prod.splits)
  then show "room_for (ks_pool st') n = room_for (ks_pool st) n" by (simp add: room_for_def)
  assume "r = Ok x"
  then obtain y where y: "r0 = Ok y" "x = map_option (to_owned_slice (sp_data_dir (ks_pool st'))) y"
    using r by (auto simp: owned_def)
  have rt: "hd_read_txn H (ks_env st) = HOk ()" and old: "\<exists>old. hd_get H (ks_env st) KV_DB_NAME k = HOk old"
    using get y(1) by (auto simp: get_kv_zero_copy_def split: res.splits option.splits prod.splits)
  show "x = kv_abs H st k"
  proof (cases "kv_abs H st k")
    case None
    with get_kv_cases(2) [OF inv rt] old get y show ?thesis by auto
  next
    case (Some v)
    with get_kv_cases(1) [OF inv rt] get y show ?thesis by (fastforce simp: to_owned_slice_def)
  qed
qed

interpretation kvs: kv_trait "\<lambda>st. heed_laws H \<and> kv_inv H st" "\<lambda>st n. room_for (ks_pool st) n" "kv_abs H"
  "\<lambda>(lk, t) st k v. put_kv H lk st k v t" "kv_read H" "\<lambda>(lk, t) st k. delete_kv H lk st k t" for H
proof
  fix st n c k v r st'
  assume a: "heed_laws H \<and> kv_inv H st" "room_for (ks_pool st) (Suc n)" "(case c of (lk, t) \<Rightarrow> \<lambda>st k v. put_kv H lk st k v t) st k v = (r, st')"
  then show "(heed_laws H \<and> kv_inv H st') \<and> room_for (ks_pool st') n \<and>
      kv_abs H st' = (if is_ok r then (kv_abs H st)(k \<mapsto> v) else kv_abs H st)"
    using put_kv_keeps [of H st n] put_kv_room [of H st n] by (auto split: prod.splits)
next
  fix st n k r st'
  assume "heed_laws H \<and> kv_inv H st" "kv_read H st k = (r, st')"
  with kv_read_keeps [of H st k r st'] show "(heed_laws H \<and> kv_inv H st') \<and>
      (room_for (ks_pool st) n \<longrightarrow> room_for (ks_pool st') n) \<and> kv_abs H st' = kv_abs H st \<and> (\<forall>x. r = Ok x \<longrightarrow> x = kv_abs H st k)"
    by auto
next
  fix st n c k r st'
  assume a: "heed_laws H \<and> kv_inv H st" "(case c of (lk, t) \<Rightarrow> \<lambda>st k. delete_kv H lk st k t) st k = (r, st')"
  obtain lk t where d: "delete_kv H lk st k t = (r, st')" using a(2) by (cases c) auto
  have "r = Ok b \<Longrightarrow> b = (kv_abs H st k \<noteq> None)" for b
    using d by (cases rule: delete_kv_cases) (use a(1) delete_kv_inner_refines(2) [of H st k r st'] in auto)
  with delete_kv_keeps [OF _ _ d] delete_kv_pool [OF _ _ d] a(1)
  show "(heed_laws H \<and> kv_inv H st') \<and> (room_for (ks_pool st) n \<longrightarrow> room_for (ks_pool st') n) \<and>
      kv_abs H st' = (if is_ok r then (kv_abs H st)(k := None) else kv_abs H st) \<and> (\<forall>b. r = Ok b \<longrightarrow> b = (kv_abs H st k \<noteq> None))"
    by auto
qed (simp add: room_for_def)

lemma wal_append_clean:
  assumes "wal_clean w es" "op_wf op" "wal_append w op = (r, w')"
  shows "\<exists>es'. wal_clean w' es'"
proof (cases "length (encode_op op) \<le> U32_MAX")
  case True
  with wal_clean_append [OF assms(1,2)] assms(3) show ?thesis by auto
next
  case False
  with assms show ?thesis by (auto simp: wal_append_def)
qed

definition eng_ready :: "'h eng_ctx \<Rightarrow> 'h engine \<Rightarrow> bool" where
  "eng_ready C e \<longleftrightarrow> eng_ctx_ok C \<and> eng_inv C e \<and> (\<exists>es. wal_clean (en_wal e) es)"

abbreviation eng_kv :: "'h eng_ctx \<Rightarrow> 'h engine \<Rightarrow> bytes \<rightharpoonup> bytes" where
  "eng_kv C e \<equiv> kv_abs (ec_heed C) (en_kv e)"

text \<open>An engine whose KV store and log have changed, as all operations of the contract leave it.\<close>

lemma eng_ready_kv:
  assumes "eng_ready C e" "kv_inv (ec_heed C) kv" "\<exists>es. wal_clean w es"
  shows "eng_ready C (e\<lparr>en_wal := w, en_kv := kv\<rparr>)"
  using assms by (simp add: eng_ready_def eng_inv_def)

lemma eng_room_kv:
  assumes "eng_room e m" "n \<le> m" "room_for (ks_pool kv) n"
  shows "eng_room (e\<lparr>en_wal := w, en_kv := kv\<rparr>) n"
  using eng_room_mono [OF assms(1,2)] assms(3) by (simp add: eng_room_def)

lemma eng_readyD:
  assumes "eng_ready C e"
  shows "heed_laws (ec_heed C) \<and> kv_inv (ec_heed C) (en_kv e)" "\<exists>es. wal_clean (en_wal e) es"
  using assms eng_heed by (auto simp: eng_ready_def eng_inv_def)

lemma engine_put_kv_store:
  assumes rdy: "eng_ready C e" and room: "room_for (ks_pool (en_kv e)) (Suc n)" and put: "engine_put_kv C R e k v t = (r, e')"
  obtains w kv where "e' = e\<lparr>en_wal := w, en_kv := kv\<rparr>" "\<exists>es. wal_clean w es" "kv_inv (ec_heed C) kv" "room_for (ks_pool kv) n"
    "kv_abs (ec_heed C) kv = (if is_ok r then (eng_kv C e)(k \<mapsto> v) else eng_kv C e)"
proof -
  obtain ra w where w: "wal_append (en_wal e) (PutKv k v) = (ra, w)" by (cases "wal_append (en_wal e) (PutKv k v)")
  have cl: "\<exists>es. wal_clean w es" using eng_readyD(2) [OF rdy] wal_append_clean [OF _ _ w] by auto
  show thesis
  proof (cases "is_ok ra")
    case True
    then obtain kv where kv: "put_kv (ec_heed C) (er_kv_lock R) (en_kv e) k v t = (r, kv)" "e' = e\<lparr>en_wal := w, en_kv := kv\<rparr>"
      using put by (auto simp: engine_put_kv_def w is_ok_iff split: prod.splits)
    with kvs.put_law [OF eng_readyD(1) [OF rdy] room, of "(er_kv_lock R, t)" k v r kv] show thesis by (intro that [OF _ cl]) auto
  next
    case False
    then have "e' = e\<lparr>en_wal := w, en_kv := en_kv e\<rparr>" "\<not> is_ok r" using put w by (cases ra; auto simp: engine_put_kv_def)+
    with eng_readyD(1) [OF rdy] kvs.room_mono [OF room] show thesis by (intro that [OF _ cl]) auto
  qed
qed

lemma engine_delete_kv_store:
  assumes rdy: "eng_ready C e" and del: "engine_delete_kv C R e k t = (r, e')"
  obtains w kv where "e' = e\<lparr>en_wal := w, en_kv := kv\<rparr>" "\<exists>es. wal_clean w es" "kv_inv (ec_heed C) kv"
    "\<forall>n. room_for (ks_pool (en_kv e)) n \<longrightarrow> room_for (ks_pool kv) n"
    "kv_abs (ec_heed C) kv = (if is_ok r then (eng_kv C e)(k := None) else eng_kv C e)"
    "\<forall>b. r = Ok b \<longrightarrow> b = (eng_kv C e k \<noteq> None)"
proof -
  obtain ra w where w: "wal_append (en_wal e) (DeleteKv k) = (ra, w)" by (cases "wal_append (en_wal e) (DeleteKv k)")
  have cl: "\<exists>es. wal_clean w es" using eng_readyD(2) [OF rdy] wal_append_clean [OF _ _ w] by auto
  show thesis
  proof (cases "is_ok ra")
    case True
    then obtain kv where kv: "delete_kv (ec_heed C) (er_kv_lock R) (en_kv e) k t = (r, kv)" "e' = e\<lparr>en_wal := w, en_kv := kv\<rparr>"
      using del by (auto simp: engine_delete_kv_def w is_ok_iff split: prod.splits)
    with kvs.del_law [OF eng_readyD(1) [OF rdy], of "(er_kv_lock R, t)" k r kv] show thesis by (intro that [OF _ cl]) auto
  next
    case False
    then have "e' = e\<lparr>en_wal := w, en_kv := en_kv e\<rparr>" "\<not> is_ok r" using del w by (cases ra; auto simp: engine_delete_kv_def)+
    with eng_readyD(1) [OF rdy] show thesis by (intro that [OF _ cl]) auto
  qed
qed

interpretation eng: kv_trait "eng_ready C" eng_room "eng_kv C"
  "\<lambda>(R, t) e k v. engine_put_kv C R e k v t" "engine_read C" "\<lambda>(R, t) e k. engine_delete_kv C R e k t" for C
proof
  fix e :: "'a engine" and n
  show "eng_room e (Suc n) \<Longrightarrow> eng_room e n" by (erule eng_room_mono) simp
next
  fix e n c k v r e'
  assume a: "eng_ready C e" "eng_room e (Suc n)" "(case c of (R, t) \<Rightarrow> \<lambda>e k v. engine_put_kv C R e k v t) e k v = (r, e')"
  obtain R t where put: "engine_put_kv C R e k v t = (r, e')" using a(3) by (cases c) auto
  have ro: "room_for (ks_pool (en_kv e)) (Suc n)" using a(2) by (simp add: eng_room_def)
  show "eng_ready C e' \<and> eng_room e' n \<and> eng_kv C e' = (if is_ok r then (eng_kv C e)(k \<mapsto> v) else eng_kv C e)"
    by (rule engine_put_kv_store [OF a(1) ro put]) (use eng_ready_kv [OF a(1)] eng_room_kv [OF a(2)] in simp)
next
  fix e n k r e'
  assume a: "eng_ready C e" "engine_read C e k = (r, e')"
  obtain kv where kv: "kv_read (ec_heed C) (en_kv e) k = (r, kv)" "e' = e\<lparr>en_wal := en_wal e, en_kv := kv\<rparr>"
    using a(2) by (auto simp: engine_read_def engine_get_kv_def kv_read_def split: prod.splits)
  note g = kvs.get_law [OF eng_readyD(1) [OF a(1)] kv(1)]
  have "eng_room e n \<longrightarrow> eng_room e' n"
    using g [of n] eng_room_kv [of e n n kv "en_wal e"] by (auto simp: kv(2)) (simp add: eng_room_def)
  with g [of n] eng_ready_kv [OF a(1) _ eng_readyD(2) [OF a(1)]]
  show "eng_ready C e' \<and> (eng_room e n \<longrightarrow> eng_room e' n) \<and> eng_kv C e' = eng_kv C e \<and> (\<forall>x. r = Ok x \<longrightarrow> x = eng_kv C e k)"
    by (simp add: kv(2))
next
  fix e n c k r e'
  assume a: "eng_ready C e" "(case c of (R, t) \<Rightarrow> \<lambda>e k. engine_delete_kv C R e k t) e k = (r, e')"
  obtain R t where del: "engine_delete_kv C R e k t = (r, e')" using a(2) by (cases c) auto
  obtain w kv where kv: "e' = e\<lparr>en_wal := w, en_kv := kv\<rparr>" "\<exists>es. wal_clean w es" "kv_inv (ec_heed C) kv"
    "\<forall>n. room_for (ks_pool (en_kv e)) n \<longrightarrow> room_for (ks_pool kv) n"
    "kv_abs (ec_heed C) kv = (if is_ok r then (eng_kv C e)(k := None) else eng_kv C e)"
    "\<forall>b. r = Ok b \<longrightarrow> b = (eng_kv C e k \<noteq> None)"
    by (rule engine_delete_kv_store [OF a(1) del])
  have "eng_room e n \<longrightarrow> eng_room e' n" using kv(4) eng_room_kv [of e n n kv w] by (auto simp: kv(1)) (simp add: eng_room_def)
  with kv eng_ready_kv [OF a(1) kv(3,2)]
  show "eng_ready C e' \<and> (eng_room e n \<longrightarrow> eng_room e' n) \<and>
      eng_kv C e' = (if is_ok r then (eng_kv C e)(k := None) else eng_kv C e) \<and> (\<forall>b. r = Ok b \<longrightarrow> b = (eng_kv C e k \<noteq> None))"
    by simp
qed

end
