(* ===== verification/Serve.thy ===== *)
theory Serve
  imports Auth Engine
begin

text \<open>
  \<open>fs-serve/src/lib.rs\<close>: the endpoints of the daemon, the write queue and the pool of workers.

  The daemon is a set of request handlers and of workers that interleave.  One step of a handler
  or of a worker is one access to shared state: an atomic operation on a counter or a flag, an operation
  on the channel or on the semaphore, an append to the log, or a call into one part of the engine, which
  holds that part's lock.  A worker that finds the channel empty sleeps and polls again; polls that find
  nothing are no steps.

  The \<open>tokio\<close> operations are the record \<open>tokio\<close>; \<open>tk_items\<close>, \<open>tk_closed\<close> and \<open>tk_permits\<close> are what can
  be said of a channel and a semaphore, and \<open>channel_laws\<close> and \<open>semaphore_laws\<close> are their documented behaviour.  The sender of a
  \<open>oneshot\<close> that goes with a write request is the number of the handler that waits for it.  A panic inside the
  engine ends the task that called it and poisons a lock, so that afterwards engine calls
  return what the surroundings choose (\<open>choice\<close>).  A handler runs to its response: that its future
  is dropped at an \<open>await\<close> when the client disconnects is left out.  The metrics are added in \<open>Serve_Metrics\<close>; log lines are left out.
\<close>

definition DEFAULT_QUEUE_CAP :: nat where "DEFAULT_QUEUE_CAP = 10000"
definition BACKPRESSURE_THRESHOLD :: nat where "BACKPRESSURE_THRESHOLD = 8000"
definition WRITE_WORKERS :: nat where "WRITE_WORKERS = 4"
definition KNN_CONCURRENCY :: nat where "KNN_CONCURRENCY = 64"

section \<open>Requests\<close>

datatype write_req =
    ReqPutKv bytes bytes (req_done: nat)
  | ReqInsertVector u64 "f32 list" (req_done: nat)
  | ReqPutColumnar bytes bytes (req_done: nat)

datatype write_body = PutKvReq bytes bytes | InsertVectorReq u64 "f32 list" | PutColumnarReq bytes bytes

datatype endpoint = WriteEp write_body | CompactEp | KnnEp "f32 list" nat

fun write_label :: "write_body \<Rightarrow> string" where
  "write_label (PutKvReq k v) = ''put_kv''"
| "write_label (InsertVectorReq i v) = ''insert_vector''"
| "write_label (PutColumnarReq t b) = ''put_columnar''"

text \<open>An error response: a status and a text, or the text of an engine error or of a lost task (both 500).\<close>

datatype http_error = HttpError app_error | StoreFailed store_error | TaskPanicked

fun error_status :: "http_error \<Rightarrow> status_code" where
  "error_status (HttpError (AppError st msg)) = st"
| "error_status (StoreFailed e) = INTERNAL_SERVER_ERROR"
| "error_status TaskPanicked = INTERNAL_SERVER_ERROR"

datatype response =
    Status status_code
  | Failed http_error
  | KnnResp "(u64 \<times> f32) list"
  | CompactResp nat nat

section \<open>State\<close>

datatype send_result = SendOk | SendFull | SendClosed

datatype recv_result = Received write_req | RecvEmpty | RecvDisconnected

record ('q, 's) tokio =
  tk_try_send :: "'q \<Rightarrow> write_req \<Rightarrow> send_result \<times> 'q"
  tk_try_recv :: "'q \<Rightarrow> recv_result \<times> 'q"
  tk_drop_receiver :: "'q \<Rightarrow> write_req list \<times> 'q"
  tk_try_acquire :: "'s \<Rightarrow> 's option"
  tk_release :: "'s \<Rightarrow> 's"
  tk_items :: "'q \<Rightarrow> write_req list"
  tk_closed :: "'q \<Rightarrow> bool"
  tk_permits :: "'s \<Rightarrow> nat"

datatype oneshot = Pending | Answered bool | Dropped

text \<open>Where a handler is: \<open>Counted\<close> has added itself to the depth, \<open>Refused\<close> has still to subtract itself.\<close>

datatype client_pc =
    Start
  | Counted u64 write_req string
  | Refused
  | Waiting string
  | Compacting
  | CompactRan response
  | Searching "f32 list" nat
  | Searched response
  | Responded response

record client =
  cl_header :: "bytes option"
  cl_endpoint :: endpoint
  cl_pc :: client_pc

datatype worker_pc = Idle | Taken write_req | Logged write_req | Ran write_req bool | Uncounted write_req bool | Gone

text \<open>
  \<open>sv_panicked\<close> says that an engine call has panicked and \<open>sv_lost\<close> counts the requests that were counted
  in the depth and dropped: neither is a field of the code.
\<close>

record ('h, 'q, 's) server =
  sv_engine :: "'h engine"
  sv_queue_depth :: u64
  sv_compact_in_progress :: bool
  sv_write_ch :: 'q
  sv_knn_sem :: 's
  sv_done :: "nat \<Rightarrow> oneshot"
  sv_clients :: "client list"
  sv_workers :: "worker_pc list"
  sv_panicked :: bool
  sv_lost :: nat

record config =
  cf_queue_cap :: nat
  cf_auth :: auth_config
  cf_bind_is_loopback :: bool
  cf_base64_decode :: "bytes \<Rightarrow> bytes option"

record 'h choice =
  ch_run :: eng_run
  ch_statv :: "(u64 \<times> u64) option"
  ch_engine :: "'h engine"
  ch_unit :: "unit res"
  ch_hits :: "(u64 \<times> f32) list res"
  ch_compact :: "compact_result res"

section \<open>The engine calls of the workers\<close>

text \<open>
  \<open>run_req\<close> is the call \<open>handle_write_req\<close> makes.  Its two halves, the append to the log and the
  write that follows, are separate steps of a worker.
\<close>

fun run_req :: "'h eng_ctx \<Rightarrow> eng_run \<Rightarrow> 'h engine \<Rightarrow> write_req \<Rightarrow> unit res \<times> 'h engine" where
  "run_req C R e (ReqPutKv key val d) = engine_put_kv C R e key val None"
| "run_req C R e (ReqInsertVector i vector d) = insert_vector C R e i vector"
| "run_req C R e (ReqPutColumnar table_id ipc d) =
     (case decode_ipc C ipc of
        Err x \<Rightarrow> (Err x, e)
      | Panic \<Rightarrow> (Panic, e)
      | Ok batch \<Rightarrow> engine_put_columnar C R e table_id batch None)"

fun log_op :: "'h eng_ctx \<Rightarrow> write_req \<Rightarrow> wal_op res" where
  "log_op C (ReqPutKv key val d) = Ok (PutKv key val)"
| "log_op C (ReqInsertVector i vector d) = Ok (InsertVector i vector)"
| "log_op C (ReqPutColumnar table_id ipc d) =
     res_bind (decode_ipc C ipc) (\<lambda>batch. res_bind (encode_ipc C batch) (\<lambda>buf. Ok (PutColumnar table_id buf)))"

definition log_req :: "'h eng_ctx \<Rightarrow> 'h engine \<Rightarrow> write_req \<Rightarrow> unit res \<times> 'h engine" where
  "log_req C e r =
     (case log_op C r of
        Err x \<Rightarrow> (Err x, e)
      | Panic \<Rightarrow> (Panic, e)
      | Ok wop \<Rightarrow> (case wal_append (en_wal e) wop of (q, w) \<Rightarrow> (res_bind q (\<lambda>sq. Ok ()), e\<lparr>en_wal := w\<rparr>)))"

fun apply_req :: "'h eng_ctx \<Rightarrow> eng_run \<Rightarrow> 'h engine \<Rightarrow> write_req \<Rightarrow> unit res \<times> 'h engine" where
  "apply_req C R e (ReqPutKv key val d) =
     (case put_kv (ec_heed C) (er_kv_lock R) (en_kv e) key val None of (r, kv) \<Rightarrow> (r, e\<lparr>en_kv := kv\<rparr>))"
| "apply_req C R e (ReqInsertVector i vector d) =
     (case en_vec e of
        None \<Rightarrow> (Err NotFound, e)
      | Some idx \<Rightarrow>
          (case index_insert (ec_vec C) (er_held R) (er_now R) idx i vector of
             (r, idx') \<Rightarrow> (r, e\<lparr>en_vec := Some idx'\<rparr>)))"
| "apply_req C R e (ReqPutColumnar table_id ipc d) =
     (case decode_ipc C ipc of
        Err x \<Rightarrow> (Err x, e)
      | Panic \<Rightarrow> (Panic, e)
      | Ok batch \<Rightarrow>
          (case (case en_col e of
                   Some st \<Rightarrow> Ok st
                 | None \<Rightarrow> col_open (ec_col C) (hm_col_env (en_home e)) (hm_col_dir (en_home e)) 0
                             (en_quota_limit e)) of
             Err x \<Rightarrow> (Err x, e)
           | Panic \<Rightarrow> (Panic, e)
           | Ok st \<Rightarrow>
               (case put_columnar (ec_col C) (er_col_lock R) st table_id batch None of
                  (r, st') \<Rightarrow> (r, e\<lparr>en_col := Some st'\<rparr>))))"

definition compact_call ::
  "'h eng_ctx \<Rightarrow> 'h choice \<Rightarrow> 'h engine \<Rightarrow> compact_result res \<times> 'h engine" where
  "compact_call C ch e =
     (case en_vec e of
        None \<Rightarrow> (Err NotFound, e)
      | Some idx \<Rightarrow>
          (case run_compact (ec_vec C) (er_held (ch_run ch)) (er_now (ch_run ch)) (ch_statv ch) idx of
             (r, idx') \<Rightarrow> (r, e\<lparr>en_vec := Some idx'\<rparr>)))"

section \<open>Handlers\<close>

definition set_pc :: "('h, 'q, 's) server \<Rightarrow> nat \<Rightarrow> client_pc \<Rightarrow> ('h, 'q, 's) server" where
  "set_pc s i pc = s\<lparr>sv_clients := (sv_clients s)[i := (sv_clients s ! i)\<lparr>cl_pc := pc\<rparr>]\<rparr>"

text \<open>
  The write endpoints: the role check, the request, and the addition to the depth that \<open>try_enqueue\<close>
  starts with.
\<close>

fun write_req_of :: "config \<Rightarrow> nat \<Rightarrow> write_body \<Rightarrow> app_error + write_req" where
  "write_req_of cfg i (PutKvReq key val) = Inr (ReqPutKv key val i)"
| "write_req_of cfg i (InsertVectorReq vid vector) = Inr (ReqInsertVector vid vector i)"
| "write_req_of cfg i (PutColumnarReq table_id b64) =
     (case cf_base64_decode cfg b64 of
        None \<Rightarrow> Inl (AppError BAD_REQUEST ''base64 decode'')
      | Some ipc \<Rightarrow> Inr (ReqPutColumnar table_id ipc i))"

definition write_start :: "config \<Rightarrow> ('h, 'q, 's) server \<Rightarrow> nat \<Rightarrow> client \<Rightarrow> write_body \<Rightarrow> ('h, 'q, 's) server" where
  "write_start cfg s i c body =
     (case and_then (require_role (cf_auth cfg) (cl_header c) Readwrite) (\<lambda>role. write_req_of cfg i body) of
        Inl e \<Rightarrow> set_pc s i (Responded (Failed (HttpError e)))
      | Inr wreq \<Rightarrow>
          set_pc (s\<lparr>sv_queue_depth := sv_queue_depth s + 1\<rparr>) i
            (Counted (sv_queue_depth s) wreq (write_label body)))"

definition queue_full :: response where
  "queue_full = Failed (HttpError (AppError SERVICE_UNAVAILABLE ''backpressure: queue full''))"

definition drop_done :: "write_req list \<Rightarrow> (nat \<Rightarrow> oneshot) \<Rightarrow> nat \<Rightarrow> oneshot" where
  "drop_done rs d = (\<lambda>i. if d i = Pending \<and> i \<in> set (map req_done rs) then Dropped else d i)"

text \<open>\<open>try_enqueue\<close> after the addition.\<close>

definition enqueue_step ::
  "config \<Rightarrow> ('q, 's) tokio \<Rightarrow> ('h, 'q, 's) server \<Rightarrow> nat \<Rightarrow> u64 \<Rightarrow> write_req \<Rightarrow> string
     \<Rightarrow> ('h, 'q, 's) server" where
  "enqueue_step cfg T s i qd wreq label =
     (if unat qd \<ge> cf_queue_cap cfg
      then set_pc (s\<lparr>sv_queue_depth := sv_queue_depth s - 1\<rparr>) i (Responded queue_full)
      else
        (case tk_try_send T (sv_write_ch s) wreq of
           (SendFull, q) \<Rightarrow> set_pc (s\<lparr>sv_write_ch := q\<rparr>) i Refused
         | (SendOk, q) \<Rightarrow> set_pc (s\<lparr>sv_write_ch := q\<rparr>) i (Waiting label)
         | (SendClosed, q) \<Rightarrow>
             set_pc (s\<lparr>sv_write_ch := q, sv_done := drop_done [wreq] (sv_done s), sv_lost := Suc (sv_lost s)\<rparr>)
               i (Waiting label)))"

fun await_write_done :: "string \<Rightarrow> oneshot \<Rightarrow> response option" where
  "await_write_done label Pending = None"
| "await_write_done label (Answered True) = Some (Status NO_CONTENT)"
| "await_write_done label (Answered False) =
     Some (Failed (HttpError (AppError INTERNAL_SERVER_ERROR (label @ '' failed''))))"
| "await_write_done label Dropped =
     Some (Failed (HttpError (AppError INTERNAL_SERVER_ERROR (label @ '' worker dropped''))))"

definition compact_start :: "config \<Rightarrow> ('h, 'q, 's) server \<Rightarrow> nat \<Rightarrow> client \<Rightarrow> ('h, 'q, 's) server" where
  "compact_start cfg s i c =
     (case require_role (cf_auth cfg) (cl_header c) Admin of
        Inl e \<Rightarrow> set_pc s i (Responded (Failed (HttpError e)))
      | Inr role \<Rightarrow>
          (if sv_compact_in_progress s
           then set_pc s i (Responded (Failed (HttpError (AppError CONFLICT ''compact already in progress''))))
           else set_pc (s\<lparr>sv_compact_in_progress := True\<rparr>) i Compacting))"

definition compact_run ::
  "'h eng_ctx \<Rightarrow> 'h choice \<Rightarrow> ('h, 'q, 's) server \<Rightarrow> nat \<Rightarrow> ('h, 'q, 's) server" where
  "compact_run C ch s i =
     (case (if sv_panicked s then (ch_compact ch, ch_engine ch) else compact_call C ch (sv_engine s)) of
        (Ok r, e) \<Rightarrow>
          set_pc (s\<lparr>sv_engine := e\<rparr>) i
            (CompactRan (CompactResp (cr_live_vectors r) (length (cr_reclaimable_segs r))))
      | (Err x, e) \<Rightarrow> set_pc (s\<lparr>sv_engine := e\<rparr>) i (CompactRan (Failed (StoreFailed x)))
      | (Panic, e) \<Rightarrow> set_pc (s\<lparr>sv_engine := e, sv_panicked := True\<rparr>) i (Responded (Failed TaskPanicked)))"

definition knn_start ::
  "('q, 's) tokio \<Rightarrow> ('h, 'q, 's) server \<Rightarrow> nat \<Rightarrow> f32 list \<Rightarrow> nat \<Rightarrow> ('h, 'q, 's) server" where
  "knn_start T s i query top_k =
     (case tk_try_acquire T (sv_knn_sem s) of
        None \<Rightarrow>
          set_pc s i (Responded (Failed (HttpError (AppError SERVICE_UNAVAILABLE ''knn concurrency limit reached''))))
      | Some sem \<Rightarrow> set_pc (s\<lparr>sv_knn_sem := sem\<rparr>) i (Searching query top_k))"

definition knn_run ::
  "'h eng_ctx \<Rightarrow> 'h choice \<Rightarrow> ('h, 'q, 's) server \<Rightarrow> nat \<Rightarrow> f32 list \<Rightarrow> nat \<Rightarrow> ('h, 'q, 's) server" where
  "knn_run C ch s i query top_k =
     (case (if sv_panicked s then (ch_hits ch, ch_engine ch)
            else engine_search_knn C (ch_run ch) (sv_engine s) query top_k) of
        (Ok hits, e) \<Rightarrow> set_pc (s\<lparr>sv_engine := e\<rparr>) i (Searched (KnnResp hits))
      | (Err x, e) \<Rightarrow> set_pc (s\<lparr>sv_engine := e\<rparr>) i (Searched (Failed (StoreFailed x)))
      | (Panic, e) \<Rightarrow> set_pc (s\<lparr>sv_engine := e, sv_panicked := True\<rparr>) i (Searched (Failed TaskPanicked)))"

definition start_step ::
  "config \<Rightarrow> ('q, 's) tokio \<Rightarrow> ('h, 'q, 's) server \<Rightarrow> nat \<Rightarrow> client \<Rightarrow> ('h, 'q, 's) server" where
  "start_step cfg T s i c =
     (case cl_endpoint c of
        CompactEp \<Rightarrow> compact_start cfg s i c
      | KnnEp query top_k \<Rightarrow> knn_start T s i query top_k
      | WriteEp body \<Rightarrow> write_start cfg s i c body)"

text \<open>One step of handler \<open>i\<close>; \<open>None\<close>: it has responded or waits.\<close>

definition client_step ::
  "config \<Rightarrow> ('q, 's) tokio \<Rightarrow> 'h eng_ctx \<Rightarrow> 'h choice \<Rightarrow> ('h, 'q, 's) server \<Rightarrow> nat \<Rightarrow> ('h, 'q, 's) server option" where
  "client_step cfg T C ch s i =
     (let c = sv_clients s ! i in
      (case cl_pc c of
         Start \<Rightarrow> Some (start_step cfg T s i c)
       | Counted qd wreq label \<Rightarrow> Some (enqueue_step cfg T s i qd wreq label)
       | Refused \<Rightarrow> Some (set_pc (s\<lparr>sv_queue_depth := sv_queue_depth s - 1\<rparr>) i (Responded queue_full))
       | Waiting label \<Rightarrow> map_option (\<lambda>r. set_pc s i (Responded r)) (await_write_done label (sv_done s i))
       | Compacting \<Rightarrow> Some (compact_run C ch s i)
       | CompactRan r \<Rightarrow> Some (set_pc (s\<lparr>sv_compact_in_progress := False\<rparr>) i (Responded r))
       | Searching query top_k \<Rightarrow> Some (knn_run C ch s i query top_k)
       | Searched r \<Rightarrow> Some (set_pc (s\<lparr>sv_knn_sem := tk_release T (sv_knn_sem s)\<rparr>) i (Responded r))
       | Responded r \<Rightarrow> None))"

section \<open>Workers\<close>

definition set_worker :: "('h, 'q, 's) server \<Rightarrow> nat \<Rightarrow> worker_pc \<Rightarrow> ('h, 'q, 's) server" where
  "set_worker s w pc = s\<lparr>sv_workers := (sv_workers s)[w := pc]\<rparr>"

text \<open>The receiver goes away with the last worker, and the messages in the channel with it.\<close>

definition leave :: "('q, 's) tokio \<Rightarrow> ('h, 'q, 's) server \<Rightarrow> nat \<Rightarrow> ('h, 'q, 's) server" where
  "leave T s w =
     (let s1 = set_worker s w Gone in
      if list_all (\<lambda>pc. pc = Gone) (sv_workers s1)
      then (case tk_drop_receiver T (sv_write_ch s1) of
              (rs, q) \<Rightarrow> s1\<lparr>sv_write_ch := q, sv_done := drop_done rs (sv_done s1), sv_lost := sv_lost s1 + length rs\<rparr>)
      else s1)"

definition worker_panics :: "('q, 's) tokio \<Rightarrow> ('h, 'q, 's) server \<Rightarrow> nat \<Rightarrow> write_req \<Rightarrow> ('h, 'q, 's) server" where
  "worker_panics T s w r =
     leave T (s\<lparr>sv_panicked := True, sv_done := drop_done [r] (sv_done s), sv_lost := Suc (sv_lost s)\<rparr>) w"

definition handle_log ::
  "('q, 's) tokio \<Rightarrow> 'h eng_ctx \<Rightarrow> 'h choice \<Rightarrow> ('h, 'q, 's) server \<Rightarrow> nat \<Rightarrow> write_req \<Rightarrow> ('h, 'q, 's) server" where
  "handle_log T C ch s w r =
     (case (if sv_panicked s then (ch_unit ch, ch_engine ch) else log_req C (sv_engine s) r) of
        (Ok u, e) \<Rightarrow> set_worker (s\<lparr>sv_engine := e\<rparr>) w (Logged r)
      | (Err x, e) \<Rightarrow> set_worker (s\<lparr>sv_engine := e\<rparr>) w (Ran r False)
      | (Panic, e) \<Rightarrow> worker_panics T (s\<lparr>sv_engine := e\<rparr>) w r)"

definition handle_apply ::
  "('q, 's) tokio \<Rightarrow> 'h eng_ctx \<Rightarrow> 'h choice \<Rightarrow> ('h, 'q, 's) server \<Rightarrow> nat \<Rightarrow> write_req \<Rightarrow> ('h, 'q, 's) server" where
  "handle_apply T C ch s w r =
     (case (if sv_panicked s then (ch_unit ch, ch_engine ch) else apply_req C (ch_run ch) (sv_engine s) r) of
        (Ok u, e) \<Rightarrow> set_worker (s\<lparr>sv_engine := e\<rparr>) w (Ran r True)
      | (Err x, e) \<Rightarrow> set_worker (s\<lparr>sv_engine := e\<rparr>) w (Ran r False)
      | (Panic, e) \<Rightarrow> worker_panics T (s\<lparr>sv_engine := e\<rparr>) w r)"

definition poll :: "('q, 's) tokio \<Rightarrow> ('h, 'q, 's) server \<Rightarrow> nat \<Rightarrow> ('h, 'q, 's) server option" where
  "poll T s w =
     (case tk_try_recv T (sv_write_ch s) of
        (Received r, q) \<Rightarrow> Some (set_worker (s\<lparr>sv_write_ch := q\<rparr>) w (Taken r))
      | (RecvEmpty, q) \<Rightarrow> None
      | (RecvDisconnected, q) \<Rightarrow> Some (leave T (s\<lparr>sv_write_ch := q\<rparr>) w))"

definition worker_step ::
  "('q, 's) tokio \<Rightarrow> 'h eng_ctx \<Rightarrow> 'h choice \<Rightarrow> ('h, 'q, 's) server \<Rightarrow> nat \<Rightarrow> ('h, 'q, 's) server option" where
  "worker_step T C ch s w =
     (case sv_workers s ! w of
        Idle \<Rightarrow> poll T s w
      | Taken r \<Rightarrow> Some (handle_log T C ch s w r)
      | Logged r \<Rightarrow> Some (handle_apply T C ch s w r)
      | Ran r ok \<Rightarrow> Some (set_worker (s\<lparr>sv_queue_depth := sv_queue_depth s - 1\<rparr>) w (Uncounted r ok))
      | Uncounted r ok \<Rightarrow> Some (set_worker (s\<lparr>sv_done := (sv_done s)(req_done r := Answered ok)\<rparr>) w Idle)
      | Gone \<Rightarrow> None)"

section \<open>Runs\<close>

definition spawn_write_worker_pool :: "nat \<Rightarrow> worker_pc list" where
  "spawn_write_worker_pool workers = replicate (max workers 1) Idle"

definition request :: "bytes option \<Rightarrow> endpoint \<Rightarrow> client" where
  "request header ep = \<lparr>cl_header = header, cl_endpoint = ep, cl_pc = Start\<rparr>"

definition server_start ::
  "'h engine \<Rightarrow> 'q \<Rightarrow> 's \<Rightarrow> nat \<Rightarrow> (bytes option \<times> endpoint) list \<Rightarrow> ('h, 'q, 's) server" where
  "server_start e q sem workers reqs =
     \<lparr>sv_engine = e, sv_queue_depth = 0, sv_compact_in_progress = False, sv_write_ch = q, sv_knn_sem = sem,
      sv_done = (\<lambda>i. Pending), sv_clients = map (\<lambda>(h, ep). request h ep) reqs,
      sv_workers = spawn_write_worker_pool workers, sv_panicked = False, sv_lost = 0\<rparr>"

inductive serve_step ::
  "config \<Rightarrow> ('q, 's) tokio \<Rightarrow> 'h eng_ctx \<Rightarrow> ('h, 'q, 's) server \<Rightarrow> ('h, 'q, 's) server \<Rightarrow> bool"
  for cfg T C where
  by_client: "i < length (sv_clients s) \<Longrightarrow> client_step cfg T C ch s i = Some s' \<Longrightarrow> serve_step cfg T C s s'"
| by_worker: "w < length (sv_workers s) \<Longrightarrow> worker_step T C ch s w = Some s' \<Longrightarrow> serve_step cfg T C s s'"

inductive serve_run ::
  "config \<Rightarrow> ('q, 's) tokio \<Rightarrow> 'h eng_ctx \<Rightarrow> ('h, 'q, 's) server \<Rightarrow> nat \<Rightarrow> ('h, 'q, 's) server \<Rightarrow> bool"
  for cfg T C s0 where
  run_none: "serve_run cfg T C s0 0 s0"
| run_step: "serve_run cfg T C s0 n s \<Longrightarrow> serve_step cfg T C s s' \<Longrightarrow> serve_run cfg T C s0 (Suc n) s'"

section \<open>Endpoints that only read\<close>

record health_resp =
  hr_status :: string
  hr_store_open :: bool
  hr_compact_in_progress :: bool
  hr_backpressure :: bool

definition health :: "('h, 'q, 's) server \<Rightarrow> status_code \<times> health_resp" where
  "health s =
     (let compact = sv_compact_in_progress s;
          backpressure = unat (sv_queue_depth s) \<ge> BACKPRESSURE_THRESHOLD
      in (case (if compact then (''unavailable'', SERVICE_UNAVAILABLE)
                else if backpressure then (''degraded'', OK_200)
                else (''ok'', OK_200)) of
            (status, code) \<Rightarrow>
              (code, \<lparr>hr_status = status, hr_store_open = True, hr_compact_in_progress = compact,
                      hr_backpressure = backpressure\<rparr>)))"

record stats_resp =
  st_kv_used_bytes :: u64
  st_kv_quota :: u64
  st_kv_disk_bytes :: nat
  st_vec_disk_bytes :: nat
  st_vector_count :: nat
  st_vector_dim :: nat
  st_graph_memory_bytes :: nat
  st_queue_depth :: u64

text \<open>\<open>graph_mem\<close> estimates the memory of a graph from the capacities of its vectors.\<close>

definition stats ::
  "config \<Rightarrow> 'h eng_ctx \<Rightarrow> (nsw_graph \<Rightarrow> nat) \<Rightarrow> ('h, 'q, 's) server \<Rightarrow> bytes option
     \<Rightarrow> http_error + stats_resp" where
  "stats cfg C graph_mem s header =
     (case (if cf_bind_is_loopback cfg then Inr Admin else require_role (cf_auth cfg) header Readonly) of
        Inl e \<Rightarrow> Inl (HttpError e)
      | Inr role \<Rightarrow>
          (case used_bytes (ec_heed C) (en_kv (sv_engine s)) of
             Err x \<Rightarrow> Inl (StoreFailed x)
           | Panic \<Rightarrow> Inl TaskPanicked
           | Ok used \<Rightarrow>
               (case en_vec (sv_engine s) of
                  None \<Rightarrow> Inl (StoreFailed NotFound)
                | Some idx \<Rightarrow>
                    Inr \<lparr>st_kv_used_bytes = used, st_kv_quota = ks_quota_limit (en_kv (sv_engine s)),
                         st_kv_disk_bytes = kv_disk_bytes (en_kv (sv_engine s)),
                         st_vec_disk_bytes = index_disk_bytes idx, st_vector_count = vec_index_len idx,
                         st_vector_dim = vs_dim (vi_schema idx), st_graph_memory_bytes = graph_mem (vi_graph idx),
                         st_queue_depth = sv_queue_depth s\<rparr>)))"

end
