(* ===== verification/Daemon.thy ===== *)
theory Daemon
  imports Serve
begin

text \<open>
  Starting the daemon: \<open>fs-serve/src/main.rs\<close> and \<open>cmd_serve\<close> of \<open>fs-cli/src/main.rs\<close> up to the listener.  Both give the
  configuration and the state the requests of \<open>Serve\<close> meet.  The last part shows what a restart does to
  vectors that are not in a snapshot.
\<close>

text \<open>The entries of a log that are above the marker.\<close>

definition pending :: "checkpoint_marker option \<Rightarrow> wal_entry list \<Rightarrow> wal_entry list" where
  "pending m es = filter (\<lambda>x. we_seq x > marker_applied m) es"

section \<open>Starting the daemon\<close>

text \<open>
  \<open>cmd_serve\<close> and \<open>main\<close> of \<open>fs-serve\<close> up to the listener: the configuration and the server the requests meet, or why there is
  none.  \<open>channel\<close> and \<open>semaphore\<close> are the constructors of \<open>tokio\<close> (a channel that is too large
  panics); \<open>ip\<close> is the parsed address: \<open>None\<close> if it is none, otherwise whether it is a loopback address.
\<close>

datatype serve_error =
    OpenFailed store_error
  | StartPanicked
  | InvalidBind bytes
  | TokensFailed build_auth_error
  | PolicyFailed bind_auth_policy_error

record ('q, 's) serve_env =
  se_channel :: "nat \<Rightarrow> 'q option"
  se_semaphore :: "nat \<Rightarrow> 's"
  se_base64 :: "bytes \<Rightarrow> bytes option"
  se_vars :: "string \<Rightarrow> bytes option"
  se_read :: "bytes \<Rightarrow> bytes option"

definition serve_cap :: "nat \<Rightarrow> nat" where
  "serve_cap queue_cap = (if queue_cap = 0 then DEFAULT_QUEUE_CAP else queue_cap)"

text \<open>The part before the address and tokens are read, and the state that is handed to the router.\<close>

definition serve_open ::
  "'h eng_ctx \<Rightarrow> eng_run \<Rightarrow> ('q, 's) serve_env \<Rightarrow> 'h home \<Rightarrow> nat \<Rightarrow> nat \<Rightarrow> u64 \<Rightarrow> serve_error + ('h engine \<times> 'q)" where
  "serve_open C R E hm dim queue_cap quota =
     (case engine_open C R hm (Some (schema_new dim L2)) quota of
        Err x \<Rightarrow> Inl (OpenFailed x)
      | Panic \<Rightarrow> Inl StartPanicked
      | Ok e \<Rightarrow>
          (case se_channel E (serve_cap queue_cap) of
             None \<Rightarrow> Inl StartPanicked
           | Some q \<Rightarrow> Inr (e, q)))"

definition app_state ::
  "('q, 's) serve_env \<Rightarrow> nat \<Rightarrow> auth_config \<Rightarrow> bool \<Rightarrow> 'h engine \<times> 'q \<Rightarrow> config \<times> ('h, 'q, 's) server" where
  "app_state E queue_cap auth loopback eq =
     (\<lparr>cf_queue_cap = serve_cap queue_cap, cf_auth = auth, cf_bind_is_loopback = loopback, cf_base64_decode = se_base64 E\<rparr>,
      server_start (fst eq) (snd eq) (se_semaphore E KNN_CONCURRENCY) WRITE_WORKERS [])"

definition serve_main ::
  "'h eng_ctx \<Rightarrow> eng_run \<Rightarrow> ('q, 's) serve_env \<Rightarrow> 'h home \<Rightarrow> bytes \<Rightarrow> bool option \<Rightarrow> nat \<Rightarrow> nat \<Rightarrow> u64
     \<Rightarrow> serve_error + (config \<times> ('h, 'q, 's) server)" where
  "serve_main C R E hm bind ip dim queue_cap quota =
     and_then (serve_open C R E hm dim queue_cap quota) (\<lambda>eq.
       (case ip of
          None \<Rightarrow> Inl (InvalidBind bind)
        | Some loopback \<Rightarrow>
            (case build_auth_from_env (se_vars E) (se_read E) of
               Inl x \<Rightarrow> Inl (TokensFailed x)
             | Inr auth \<Rightarrow>
                 (case enforce_bind_auth_policy bind loopback (\<not> auth_is_empty auth) of
                    Inl x \<Rightarrow> Inl (PolicyFailed x)
                  | Inr u \<Rightarrow> Inr (app_state E queue_cap auth loopback eq)))))"

text \<open>The whole program: the arguments as \<open>clap\<close> delivers them, and the directory of the namespace.\<close>

record serve_args =
  sa_port :: nat
  sa_bind :: bytes
  sa_home :: "string option"
  sa_namespace :: string
  sa_dim :: nat
  sa_queue_cap :: nat
  sa_seg_size :: u64
  sa_quota :: u64

definition default_home :: "string option \<Rightarrow> string" where
  "default_home home_var =
     (case home_var of Some h \<Rightarrow> path_join h ''.fusion-store'' | None \<Rightarrow> ''/tmp/.fusion-store'')"

definition serve_program ::
  "'h eng_ctx \<Rightarrow> eng_run \<Rightarrow> ('q, 's) serve_env \<Rightarrow> (string \<Rightarrow> 'h home) \<Rightarrow> string option \<Rightarrow> (bytes \<Rightarrow> bool option) \<Rightarrow> serve_args
     \<Rightarrow> serve_error + (nat \<times> config \<times> ('h, 'q, 's) server)" where
  "serve_program C R E homes home_var ip args =
     (let home = (case sa_home args of Some h \<Rightarrow> h | None \<Rightarrow> default_home home_var) in
      (case serve_main C R E (homes (path_join home (sa_namespace args))) (sa_bind args) (ip (sa_bind args)) (sa_dim args)
              (sa_queue_cap args) (sa_quota args) of
         Inl x \<Rightarrow> Inl x
       | Inr st \<Rightarrow> Inr (sa_port args, st)))"

definition cmd_serve ::
  "'h eng_ctx \<Rightarrow> eng_run \<Rightarrow> ('q, 's) serve_env \<Rightarrow> 'h home \<Rightarrow> bytes \<Rightarrow> bool option \<Rightarrow> nat \<Rightarrow> nat \<Rightarrow> u64
     \<Rightarrow> serve_error + (config \<times> ('h, 'q, 's) server)" where
  "cmd_serve C R E hm bind ip dim queue_cap quota =
     and_then (serve_open C R E hm dim queue_cap quota) (\<lambda>eq.
       (case build_auth_from_env (se_vars E) (se_read E) of
          Inl x \<Rightarrow> Inl (TokensFailed x)
        | Inr auth \<Rightarrow>
            (case ip of
               None \<Rightarrow> Inl (InvalidBind bind)
             | Some loopback \<Rightarrow>
                 (if \<not> loopback \<and> auth_is_empty auth
                  then (case enforce_bind_auth_policy bind loopback (\<not> auth_is_empty auth) of
                          Inl x \<Rightarrow> Inl (PolicyFailed x)
                        | Inr u \<Rightarrow> Inr (app_state E queue_cap auth loopback eq))
                  else Inr (app_state E queue_cap auth loopback eq)))))"

section \<open>Properties\<close>

text \<open>
  Both ways to start the daemon.  They start in the same cases with the same configuration and the same state; a
  daemon that listens on an address that is not a loopback address has a token, and then a request without a header is
  answered 401 by every endpoint that asks for a role.
\<close>

theorem daemon_start:
  "(cmd_serve C R E hm bind ip dim cap quota = Inr x \<longleftrightarrow> serve_main C R E hm bind ip dim cap quota = Inr x) \<and>
   (case serve_main C R E hm bind ip dim cap quota of
      Inl err \<Rightarrow> True
    | Inr (cfg, s) \<Rightarrow>
        ip = Some (cf_bind_is_loopback cfg) \<and> 0 < cf_queue_cap cfg \<and> length (sv_workers s) = WRITE_WORKERS \<and>
        (cf_bind_is_loopback cfg \<or> (\<exists>err. require_role (cf_auth cfg) None role = Inl (AppError UNAUTHORIZED err))))"
proof
  show "cmd_serve C R E hm bind ip dim cap quota = Inr x \<longleftrightarrow> serve_main C R E hm bind ip dim cap quota = Inr x"
    by (cases "serve_open C R E hm dim cap quota")
      (auto simp: cmd_serve_def serve_main_def enforce_bind_auth_policy_def split: sum.splits option.splits)
  show "case serve_main C R E hm bind ip dim cap quota of
      Inl err \<Rightarrow> True
    | Inr (cfg, s) \<Rightarrow>
        ip = Some (cf_bind_is_loopback cfg) \<and> 0 < cf_queue_cap cfg \<and> length (sv_workers s) = WRITE_WORKERS \<and>
        (cf_bind_is_loopback cfg \<or> (\<exists>err. require_role (cf_auth cfg) None role = Inl (AppError UNAUTHORIZED err)))"
    by (cases "serve_open C R E hm dim cap quota")
      (auto simp: serve_main_def app_state_def serve_cap_def DEFAULT_QUEUE_CAP_def WRITE_WORKERS_def server_start_def
        spawn_write_worker_pool_def enforce_bind_auth_policy_def auth_is_empty_def require_role_def auth_check_def
        split: sum.splits option.splits)
qed

section \<open>Restarting\<close>

lemma index_open_Ok:
  assumes ctx: "vec_ctx_ok C" and ok: "fs_ok d" and op: "index_open C env d schema n = Ok idx"
  shows "loc_index C (vi_env idx) = loc_index C env" "vi_schema idx = schema"
    "snapshot_load d = Ok None \<Longrightarrow> vi_graph idx = nsw_new"
proof -
  obtain h1 h2 h3 h4 snp locs where
    h: "hd_create (vc_heed C) env VEC_LOCATOR_DB = HOk h1" "hd_create (vc_heed C) h1 '''' = HOk h2"
      "hd_put (vc_heed C) h2 '''' SCHEMA_KEY (vj_schema_to_vec (vc_serde C) schema) = HOk h3"
      "hd_commit (vc_heed C) h3 = HOk h4"
    and snp: "snapshot_load (vp_data_dir (vec_pool_open d n (vs_dim schema))) = Ok snp"
    and idx: "idx = \<lparr>vi_schema = schema, vi_env = h4, vi_pool = vec_pool_open d n (vs_dim schema),
      vi_graph = (case snp of Some g \<Rightarrow> g | None \<Rightarrow> nsw_new), vi_locators = locs, vi_read_error = False\<rparr>"
    using op by (auto simp: index_open_def Let_def)
  note H = ctx_heed [OF ctx]
  have "VEC_LOCATOR_DB \<noteq> ''''" by (simp add: VEC_LOCATOR_DB_def)
  then have "loc_view C h4 = loc_view C env"
    using heed_create_view [OF H h(1)] heed_create_view [OF H h(2)] heed_put_view [OF H h(3)] heed_commit_view [OF H h(4)]
    by simp
  then show "loc_index C (vi_env idx) = loc_index C env" unfolding idx vector_index.simps by (rule loc_index_cong)
  show "vi_schema idx = schema" by (simp add: idx)
  show "vi_graph idx = nsw_new" if "snapshot_load d = Ok None"
    using snp that snapshot_load_pool_open [OF ok] by (simp add: idx)
qed

text \<open>An id that has a locator is refused and nothing changes.\<close>

lemma index_insert_stored:
  assumes "loc_index C (vi_env idx) i \<noteq> None"
  shows "\<not> is_ok (fst (index_insert C held now idx i v))" "snd (index_insert C held now idx i v) = idx"
proof -
  let ?g = "res_bind (validate_dim (vi_schema idx) v) (\<lambda>u.
      res_bind (heed_res (hd_write_txn (vc_heed C) (vi_env idx))) (\<lambda>u. get_locator C (vi_env idx) i))"
  have "?g \<noteq> Ok None" using assms get_locator_Ok [of C "vi_env idx" i] by auto
  then consider l where "?g = Ok (Some l)" | e where "?g = Err e" | "?g = Panic" by (cases ?g) auto
  then have "\<not> is_ok (fst (index_insert C held now idx i v)) \<and> snd (index_insert C held now idx i v) = idx"
    unfolding index_insert_def by cases simp_all
  then show "\<not> is_ok (fst (index_insert C held now idx i v))" "snd (index_insert C held now idx i v) = idx" by simp_all
qed

definition inserts_stored :: "'h vec_ctx \<Rightarrow> 'h \<Rightarrow> wal_entry list \<Rightarrow> bool" where
  "inserts_stored C env es =
     list_all (\<lambda>x. case we_op x of InsertVector i v \<Rightarrow> loc_index C env i \<noteq> None | _ \<Rightarrow> False) es"

lemma replay_stored:
  assumes "en_vec e = Some idx" "inserts_stored (ec_vec C) (vi_env idx) es"
  shows "en_vec (snd (replay_entries C R e m es)) = Some idx"
  using assms
proof (induction es arbitrary: e m)
  case (Cons x es)
  from Cons.prems(2) obtain i v where op: "we_op x = InsertVector i v" "loc_index (ec_vec C) (vi_env idx) i \<noteq> None"
    by (auto simp: inserts_stored_def split: wal_op.splits)
  obtain r where ins: "index_insert (ec_vec C) (er_held R) (er_now R) idx i v = (r, idx)"
    using index_insert_stored(2) [OF op(2)] by (metis prod.collapse)
  have "inserts_stored (ec_vec C) (vi_env idx) es" using Cons.prems(2) by (simp add: inserts_stored_def)
  then have "en_vec (snd (replay_entries C R (e\<lparr>en_vec := Some idx\<rparr>) m' es)) = Some idx" for m' by (intro Cons.IH) simp
  then show ?case using Cons.prems(1) op(1) ins by (auto split: res.splits)
qed simp

lemma serve_main_Inr:
  assumes "serve_main C R E hm bind ip dim cap quota = Inr (cfg, s)"
  shows "engine_open C R hm (Some (schema_new dim L2)) quota = Ok (sv_engine s)"
  using assms
  by (cases "serve_open C R E hm dim cap quota")
    (auto simp: serve_main_def serve_open_def app_state_def server_start_def split: sum.splits option.splits res.splits)

lemma engine_open_index_Ok:
  assumes "engine_open C R hm (Some schema) q = Ok e"
  obtains kv idx w where "index_open (ec_vec C) (hm_vec_env hm) (hm_vec_dir hm) schema 0 = Ok idx"
    "wal_open (hm_wal_dir hm) = Ok w"
    "recover_inner C R \<lparr>en_kv = kv, en_vec = Some idx, en_col = None, en_wal = w, en_home = hm, en_quota_limit = q\<rparr> = (Ok (), e)"
proof -
  from assms obtain kv idx w where *: "index_open (ec_vec C) (hm_vec_env hm) (hm_vec_dir hm) schema 0 = Ok idx"
    "wal_open (hm_wal_dir hm) = Ok w"
    and rec: "(case recover_inner C R \<lparr>en_kv = kv, en_vec = Some idx, en_col = None, en_wal = w, en_home = hm, en_quota_limit = q\<rparr>
       of (Ok u, e) \<Rightarrow> Ok e | (Err x, e) \<Rightarrow> Err x | (Panic, e) \<Rightarrow> Panic) = Ok e"
    unfolding engine_open_def res_bind_eq_Ok by auto
  let ?e0 = "\<lparr>en_kv = kv, en_vec = Some idx, en_col = None, en_wal = w, en_home = hm, en_quota_limit = q\<rparr>"
  obtain r e1 where re: "recover_inner C R ?e0 = (r, e1)" by (cases "recover_inner C R ?e0")
  with rec have "r = Ok () \<and> e1 = e" by (cases r) simp_all
  with that [OF *] re show thesis by simp
qed

lemma recover_stored:
  assumes rec: "recover_inner C R e = (r, e')" and plan: "engine_plan C e = Ok plan" and vec: "en_vec e = Some idx"
    and st: "inserts_stored (ec_vec C) (vi_env idx) (rp_entries plan)"
  shows "en_vec e' = Some idx"
  using rec plan
proof (cases rule: recover_inner_cases)
  case (failed rr)
  with replay_stored [OF vec st, where R = R and m = "rp_applied_seq plan"] show ?thesis by simp
next
  case (finished m e1 w)
  with replay_stored [OF vec st, where R = R and m = "rp_applied_seq plan"] show ?thesis by simp
qed (use vec in simp)

text \<open>
  Restart of a daemon whose vectors are not in a snapshot (C40).  The daemon opens the index with a schema, which does
  not rebuild a graph, and the recovery skips the insertions that the database already has.  If no snapshot was
  written and the pending operations are insertions of stored ids, the restarted daemon finds none of them: every
  search returns an empty list with success, and the ids cannot be inserted again.
\<close>

theorem daemon_restart_hides_vectors:
  assumes ctx: "eng_ctx_ok C" and inv: "eng_inv C e" and vec: "en_vec e = Some idx"
    and snap: "snapshot_load (vp_data_dir (vi_pool idx)) = Ok None"
    and log: "wal_clean (en_wal e) es" and m: "read_marker (ec_marker_from_slice C) (en_wal e) = Ok m"
    and st: "inserts_stored (ec_vec C) (vi_env idx) (pending m es)"
    and start: "serve_main C R E (engine_home e) bind ip dim cap quota = Inr (cfg, s)"
    and live: "index_abs (ec_vec C) idx i = Some v" and q: "length q = dim"
  shows "fst (engine_search_knn C R' (sv_engine s) q k) = Ok [] \<and> \<not> is_ok (fst (insert_vector C R' (sv_engine s) i v'))"
proof -
  have vctx: "vec_ctx_ok (ec_vec C)" using ctx by (simp add: eng_ctx_ok_def)
  have iinv: "index_inv (ec_vec C) idx" using inv vec by (simp add: eng_inv_def)
  let ?hm = "engine_home e"
  have hm: "hm_vec_env ?hm = vi_env idx" "hm_vec_dir ?hm = vp_data_dir (vi_pool idx)" "hm_wal_dir ?hm = wl_dir (en_wal e)"
    using vec by (simp_all add: engine_home_def Let_def split: option.splits)
  from engine_open_index_Ok [OF serve_main_Inr [OF start]] obtain kv idx1 w where
    io: "index_open (ec_vec C) (vi_env idx) (vp_data_dir (vi_pool idx)) (schema_new dim L2) 0 = Ok idx1"
    and wo: "wal_open (wl_dir (en_wal e)) = Ok w"
    and rec: "recover_inner C R \<lparr>en_kv = kv, en_vec = Some idx1, en_col = None, en_wal = w, en_home = ?hm,
      en_quota_limit = quota\<rparr> = (Ok (), sv_engine s)" (is "recover_inner C R ?e0 = _")
    unfolding hm by blast
  note o = index_open_Ok [OF vctx vec_inv_fs_ok [OF index_inv_pool [OF iinv]] io]
  have c: "fs_ok (wl_dir (en_wal e))" "fs_read (wl_dir (en_wal e)) WAL_LOG = Some (frames es)" "read_entries (frames es) = Ok es"
    using log read_entries_frames_only [of es] by (auto simp: wal_clean_def)
  from wal_open_keeps [OF c] wo m have w: "read_all w = Ok es" "read_marker (ec_marker_from_slice C) w = Ok m"
    by (auto simp: read_marker_def)
  have plan: "engine_plan C ?e0 = Ok \<lparr>rp_entries = pending m es, rp_applied_seq = marker_applied m\<rparr>"
    using w by (simp add: engine_plan_def pending_recover_plan_def pending_def)
  have "inserts_stored (ec_vec C) (vi_env idx1) (pending m es)" using st unfolding inserts_stored_def o(1) .
  then have vec1: "en_vec (sv_engine s) = Some idx1" by (intro recover_stored [OF rec plan]) simp_all
  have "ng_entry_point (vi_graph idx1) = None" using o(3) [OF snap] by (simp add: nsw_new_def)
  moreover have "validate_dim (vi_schema idx1) q = Ok ()" using q o(2) by (simp add: validate_dim_def schema_new_def)
  ultimately have "fst (engine_search_knn C R' (sv_engine s) q k) = Ok []"
    by (simp add: engine_search_knn_def vec1 index_search_knn_def Let_def search_knn_def split_beta)
  moreover have "loc_index (ec_vec C) (vi_env idx1) i \<noteq> None"
    using live o(1) by (auto simp: index_abs_def stored_vectors_def idx_lookup_def split: if_splits option.splits)
  then have "\<not> is_ok (fst (insert_vector C R' (sv_engine s) i v'))"
    using index_insert_stored(1) [of "ec_vec C" idx1 i "er_held R'" "er_now R'" v']
    by (auto simp: insert_vector_def vec1 split_beta split: res.splits prod.splits)
  ultimately show ?thesis by blast
qed

text \<open>A daemon that was killed after it had acknowledged the vector 1.\<close>

definition killed :: "mem_db engine" where
  "killed = (toy_logged [InsertVector 1 [5]])\<lparr>en_vec := Some toy_one\<rparr>"

definition toy_serve :: "(unit, unit) serve_env" where
  "toy_serve = \<lparr>se_channel = (\<lambda>n. Some ()), se_semaphore = (\<lambda>n. ()), se_base64 = (\<lambda>b. None), se_vars = (\<lambda>v. None),
     se_read = (\<lambda>b. None)\<rparr>"

abbreviation restarted :: "serve_error + (config \<times> (mem_db, unit, unit) server)" where
  "restarted \<equiv> serve_main toy_eng_ctx toy_run toy_serve (engine_home killed) [] (Some True) 1 0 0"

lemma killed_log:
  "wal_clean (en_wal killed) [\<lparr>we_seq = 1, we_op = InsertVector 1 [5]\<rparr>]" "read_marker rd (en_wal killed) = Ok None"
  "eng_inv toy_eng_ctx killed" "en_vec killed = Some toy_one"
proof -
  have "list_all op_ok [InsertVector 1 [5]]" by code_simp
  from toy_logged_clean [OF this] show "wal_clean (en_wal killed) [\<lparr>we_seq = 1, we_op = InsertVector 1 [5]\<rparr>]"
    by (simp add: killed_def)
  have "fs_read (wl_dir (en_wal killed)) MARKER = None" by code_simp
  then show "read_marker rd (en_wal killed) = Ok None" by (simp add: read_marker_def)
  show "eng_inv toy_eng_ctx killed" "en_vec killed = Some toy_one"
    using toy_logged_inv(1) [of "[InsertVector 1 [5]]"] toy_one_inv(1)
    by (simp_all add: eng_inv_def killed_def) (simp add: toy_eng_ctx_def)
qed

text \<open>The index the restart opens; its segment has the default size, so that only the database is evaluated.\<close>

definition restart_env :: mem_db where
  "restart_env = AList.update ('''', SCHEMA_KEY) (vj_schema_to_vec toy_serde (schema_new 1 L2)) (vi_env toy_one)"

lemma restart_index:
  "\<exists>idx. index_open toy_ctx (vi_env toy_one) (vp_data_dir (vi_pool toy_one)) (schema_new 1 L2) 0 = Ok idx \<and>
    index_insert toy_ctx held now idx 1 [5] = (Err (DuplicateVector 1), idx)"
proof -
  define h d sc where defs: "h = vi_env toy_one" "d = vp_data_dir (vi_pool toy_one)" "sc = schema_new 1 L2"
  have "is_ok (load_locator_cache toy_ctx restart_env)" by code_simp
  then obtain locs where locs: "load_locator_cache toy_ctx restart_env = Ok locs" by (auto simp: is_ok_iff)
  have "case get_locator toy_ctx restart_env 1 of Ok (Some l) \<Rightarrow> True | _ \<Rightarrow> False" by code_simp
  then obtain l where l: "get_locator toy_ctx restart_env 1 = Ok (Some l)" by (auto split: res.splits option.splits)
  have "snapshot_load (vp_data_dir (vi_pool toy_one)) = Ok None" by code_simp
  then have snap: "snapshot_load (vp_data_dir (vec_pool_open d 0 n)) = Ok None" for n
    using snapshot_load_pool_open [OF vec_inv_fs_ok [OF index_inv_pool [OF toy_one_inv(1)]]] by (simp add: defs)
  have ctx: "vc_heed toy_ctx = mem_heed" "vc_serde toy_ctx = toy_serde" by (simp_all add: toy_ctx_def)
  have heed: "hd_write_txn mem_heed h = HOk ()" "hd_create mem_heed h n = HOk h" "hd_commit mem_heed h = HOk h" for h n
    by (simp_all add: mem_heed_def)
  have "\<not> bad_key SCHEMA_KEY" by code_simp
  then have put: "hd_put mem_heed h '''' SCHEMA_KEY (vj_schema_to_vec toy_serde sc) = HOk restart_env"
    by (simp add: mem_heed_def restart_env_def defs)
  have dim: "validate_dim sc [5] = Ok ()" unfolding defs by code_simp
  have "\<exists>idx. index_open toy_ctx h d sc 0 = Ok idx \<and> index_insert toy_ctx held now idx 1 [5] = (Err (DuplicateVector 1), idx)"
    using put locs snap l by (simp add: index_open_def index_insert_def ctx heed dim Let_def)
  then show ?thesis by (simp only: defs)
qed

lemma restarted_Ok: "\<exists>cfg s. restarted = Inr (cfg, s)"
proof -
  let ?h = "engine_home killed" and ?x = "\<lparr>we_seq = 1, we_op = InsertVector 1 [5]\<rparr>"
  have hm: "hm_vec_env ?h = vi_env toy_one" "hm_vec_dir ?h = vp_data_dir (vi_pool toy_one)"
    "hm_wal_dir ?h = wl_dir (en_wal killed)" "hm_kv_env ?h = []"
    using killed_log(4) by (simp_all add: engine_home_def Let_def killed_def toy_logged_def toy_engine_def)
  obtain kv where kv: "kv_open mem_heed [] (hm_kv_dir ?h) 0 0 = Ok kv" by (simp add: kv_open_def mem_heed_def)
  obtain idx where idx: "index_open toy_ctx (vi_env toy_one) (vp_data_dir (vi_pool toy_one)) (schema_new 1 L2) 0 = Ok idx"
    "index_insert toy_ctx (\<lambda>s. False) 0 idx 1 [5] = (Err (DuplicateVector 1), idx)"
    using restart_index [of "\<lambda>s. False" 0] by blast
  obtain w where w: "wal_open (wl_dir (en_wal killed)) = Ok w" "read_all w = Ok [?x]"
    "fs_read (wl_dir w) MARKER = fs_read (wl_dir (en_wal killed)) MARKER"
    using wal_open_keeps [of "wl_dir (en_wal killed)"] killed_log(1) read_entries_frames_only [of "[?x]"]
    by (fastforce simp: wal_clean_def)
  have m: "read_marker rd w = Ok None" for rd using killed_log(2) [of rd] w(3) by (simp add: read_marker_def)
  obtain w2 where t: "truncate_to w 1 = (Ok (), w2)" using truncate_to_reads [OF w(2)] by blast
  have auth: "build_auth_from_env (se_vars toy_serve) (se_read toy_serve) = Inr auth_empty" by code_simp
  have eng: "\<exists>e. engine_open toy_eng_ctx toy_run ?h (Some (schema_new 1 L2)) 0 = Ok e"
    using kv idx w m t
    by (simp add: engine_open_def hm toy_eng_ctx_def toy_run_def recover_inner_def pending_recover_plan_def marker_applied_def)
  then have "\<exists>eq. serve_open toy_eng_ctx toy_run toy_serve ?h 1 0 0 = Inr eq"
    by (auto simp: serve_open_def) (simp add: toy_serve_def)
  with auth show ?thesis by (auto simp: serve_main_def enforce_bind_auth_policy_def app_state_def)
qed

theorem daemon_restart_hides_vectors_witness:
  "case restarted of
     Inl x \<Rightarrow> False
   | Inr (cfg, s) \<Rightarrow> fst (engine_search_knn toy_eng_ctx toy_run (sv_engine s) [5] 3) = Ok [] \<and>
       \<not> is_ok (fst (insert_vector toy_eng_ctx toy_run (sv_engine s) 1 [5]))"
proof -
  obtain cfg s where r: "restarted = Inr (cfg, s)" using restarted_Ok by blast
  have snap: "snapshot_load (vp_data_dir (vi_pool toy_one)) = Ok None" by code_simp
  have st: "inserts_stored (ec_vec toy_eng_ctx) (vi_env toy_one) (pending None [\<lparr>we_seq = 1, we_op = InsertVector 1 [5]\<rparr>])"
    by code_simp
  have live: "index_abs (ec_vec toy_eng_ctx) toy_one 1 = Some [5]" using toy_one_inv(2) by (simp add: toy_eng_ctx_def)
  from daemon_restart_hides_vectors [OF toy_eng_ctx_ok killed_log(3,4) snap killed_log(1,2) st r live, of "[5]" toy_run 3 "[5]"] r
  show ?thesis by simp
qed

end
