(* ===== verification/Kv_Crash.thy ===== *)
theory Kv_Crash
  imports Kv
begin

text \<open>
  The KV store after a crash.  LMDB commits and the bytes of the segments survive the process (the
  mappings are shared); the cursor of the active segment is only in memory and, after a flush or a rotation,
  in the file \<open>active.cursor\<close>.  A crash is the end of the process with the directories as they are.
\<close>

section \<open>Without a recorded cursor\<close>

lemma pool_open_crash:
  fixes n
  assumes inv: "pool_inv p" and nc: "read_active_cursor (sp_data_dir p) = None"
    and ids: "next_seg_id (sp_data_dir p) \<noteq> 0"
  defines "q \<equiv> pool_open (sp_data_dir p) n"
  shows "pool_inv q" and "pool_read p l = Some b \<Longrightarrow> pool_read q l = Some b"
proof -
  let ?d = "sp_data_dir p" and ?sz = "if n = 0 then DEFAULT_SEGMENT_SIZE else n"
  let ?id = "next_seg_id ?d"
  have ok: "fs_ok ?d" using inv by (simp add: pool_inv_def)
  obtain i d' where oc: "open_or_create_sized ?d (segment_file ?id) ?sz = (i, d')" by (rule prod.exhaust)
  note spec = open_or_create_sized_spec [OF ok oc]
  have q: "sp_data_dir q = d'" "sp_active_id q = ?id"
    using nc oc by (simp_all add: q_def pool_open_def open_or_create_segment_def Let_def)
  show "pool_inv q" unfolding q_def using ids by (intro pool_open_fresh [OF ok nc]) blast
  assume rd: "pool_read p l = Some b"
  then obtain j where j: "fs_inode ?d (segment_file (vl_seg_id l)) = Some j"
    by (auto simp: pool_read_def split: option.splits)
  then have "vl_seg_id l < ?id"
    using next_seg_of_fresh [of ?d "''kv_payload_''" "vl_seg_id l" j] ids by (simp add: next_seg_id_def segment_file_def)
  then have ne: "vl_seg_id l \<noteq> ?id" "segment_file (vl_seg_id l) \<noteq> segment_file ?id"
    by auto
  have "fs_inode d' (segment_file (vl_seg_id l)) = Some j" "fs_data d' j = fs_data ?d j"
    using spec(5) [OF j] spec(6) [OF ne(2) j] by simp_all
  moreover have "sp_active_cursor p \<le> length (fs_data ?d (sp_active_ino p))"
    using inv by (auto simp: pool_inv_def)
  moreover have "vl_seg_id l = sp_active_id p \<Longrightarrow> j = sp_active_ino p" using inv j by (auto simp: pool_inv_def)
  ultimately show "pool_read q l = Some b"
    using rd j ne(1) by (auto simp: pool_read_def q Let_def split: if_splits)
qed

text \<open>What \<open>open\<close> finds in the database is what was committed.\<close>

lemma kv_open_view:
  assumes laws: "heed_laws H" and op: "kv_open H h d n q = Ok st"
  shows "ks_pool st = pool_open d n" "heed_view H (ks_env st) = heed_view H h"
proof -
  from op obtain h1 h2 h3 where h: "hd_create H h KV_DB_NAME = HOk h1" "hd_create H h1 QUOTA_DB_NAME = HOk h2"
    "hd_commit H h2 = HOk h3" and st: "st = \<lparr>ks_env = h3, ks_pool = pool_open d n, ks_quota_limit = q\<rparr>"
    by (auto simp: kv_open_def)
  show "ks_pool st = pool_open d n" by (simp add: st)
  show "heed_view H (ks_env st) = heed_view H h"
    by (rule ext) (simp add: st heed_create_view [OF laws h(1)] heed_create_view [OF laws h(2)] heed_commit_view [OF laws h(3)])
qed

lemma kv_open_after_crash:
  assumes laws: "heed_laws H" and inv: "kv_inv H st"
    and nc: "read_active_cursor (sp_data_dir (ks_pool st)) = None" "next_seg_id (sp_data_dir (ks_pool st)) \<noteq> 0"
    and op: "kv_open H (ks_env st) (sp_data_dir (ks_pool st)) n q = Ok st'"
  shows "kv_inv H st' \<and> kv_abs H st' = kv_abs H st \<and> kv_used H (ks_env st') = kv_used H (ks_env st) \<and>
    sp_active_id (ks_pool st') = next_seg_id (sp_data_dir (ks_pool st))"
proof -
  note o = kv_open_view [OF laws op]
  note p = pool_open_crash [OF kv_inv_pool [OF inv] nc, where n = n, folded o(1)]
  have idx: "kv_index H (ks_env st') = kv_index H (ks_env st)" by (rule kv_index_cong) (simp add: o(2))
  have rd: "pool_read (ks_pool st') l = pool_read (ks_pool st) l" if "kv_index H (ks_env st) k = Some l" for k l
    using p(2) kv_inv_covered [OF inv] that unfolding idx_covered_def by fastforce
  have "kv_inv H st'"
    using inv p(1) rd by (auto simp: kv_inv_def idx o(2) idx_covered_def)
  moreover have "kv_abs H st' = kv_abs H st"
    using rd by (auto simp: kv_abs_def idx_lookup_def idx fun_eq_iff split: option.splits)
  moreover have "sp_active_id (ks_pool st') = next_seg_id (sp_data_dir (ks_pool st))"
    using nc(1) by (simp add: o(1) pool_open_def Let_def split: prod.splits)
  ultimately show ?thesis by (simp add: kv_used_def o(2))
qed

text \<open>
  Crash of a store that was never flushed.  If no cursor is recorded, opening the directories a crash leaves
  gives a store with the same map and the same quota counter.
\<close>

theorem kv_crash_reopen:
  assumes "heed_laws H" "kv_inv H st"
    and "read_active_cursor (sp_data_dir (ks_pool st)) = None" "next_seg_id (sp_data_dir (ks_pool st)) \<noteq> 0"
    and "kv_open H (ks_env st) (sp_data_dir (ks_pool st)) n q = Ok st'"
  shows "kv_inv H st' \<and> kv_abs H st' = kv_abs H st \<and> kv_used H (ks_env st') = kv_used H (ks_env st)"
  using kv_open_after_crash [OF assms] by blast

lemma kv_one_inv: "kv_inv mem_heed kv_one" "kv_abs mem_heed kv_one = [[7] \<mapsto> [1, 2, 3]]"
proof -
  have put: "put_kv_inner mem_heed kv_fresh [7] [1, 2, 3] = (Ok (), kv_one)"
    using kv_one_put by (simp add: put_kv_def acquire_write_lock_def)
  note one = put_kv_inner_refines [OF mem_heed_laws kv_fresh_inv(1) kv_fresh_room put]
  show "kv_inv mem_heed kv_one" "kv_abs mem_heed kv_one = [[7] \<mapsto> [1, 2, 3]]"
    using one kv_fresh_inv(3) by simp_all
qed

theorem kv_crash_reopen_witness:
  "case kv_open mem_heed (ks_env kv_one) (sp_data_dir (ks_pool kv_one)) 16 0 of
     Ok st' \<Rightarrow> kv_abs mem_heed st' = [[7] \<mapsto> [1, 2, 3]] | _ \<Rightarrow> False"
proof -
  have nc: "read_active_cursor (sp_data_dir (ks_pool kv_one)) = None" by code_simp
  have ids: "next_seg_id (sp_data_dir (ks_pool kv_one)) \<noteq> 0" by code_simp
  have op: "kv_open mem_heed (ks_env kv_one) (sp_data_dir (ks_pool kv_one)) 16 0 =
      Ok \<lparr>ks_env = ks_env kv_one, ks_pool = pool_open (sp_data_dir (ks_pool kv_one)) 16, ks_quota_limit = 0\<rparr>"
    by (simp add: kv_open_def mem_heed_def)
  from kv_crash_reopen [OF mem_heed_laws kv_one_inv(1) nc ids op] kv_one_inv(2) show ?thesis
    unfolding op by simp
qed

section \<open>With a recorded cursor\<close>

lemma stale_reopen:
  assumes inv: "pool_inv p" and sz: "0 < sp_seg_size p"
    and cur: "read_active_cursor (sp_data_dir p) = Some (sp_active_id p, sp_active_cursor p)"
    and fit: "length bs \<le> pool_remaining p" and app: "pool_append p bs = (Ok l, p1)"
  defines "q \<equiv> pool_open (sp_data_dir p1) (sp_seg_size p)"
  shows "pool_inv q" "sp_active_id q = sp_active_id p" "sp_active_cursor q = sp_active_cursor p"
    "sp_seg_size q = sp_seg_size p" "vl_seg_id l = sp_active_id p" "vl_offset l = word_of_nat (sp_active_cursor p)"
    "vl_len l = word_of_nat (length bs)"
proof -
  have t: "append_target p bs = p" using fit by (simp add: append_target_def)
  let ?i = "sp_active_ino p"
  let ?bs = "splice (fs_data (sp_data_dir p) ?i) (sp_active_cursor p) bs"
  from app have l: "l = \<lparr>vl_seg_id = sp_active_id p, vl_offset = word_of_nat (sp_active_cursor p),
      vl_len = word_of_nat (length bs)\<rparr>"
    and p1: "sp_data_dir p1 = fs_put (sp_data_dir p) ?i ?bs"
    and len: "sp_active_cursor p + length bs \<le> length (fs_data (sp_data_dir p) ?i)"
    by (cases rule: pool_append_cases; simp add: t)+
  have ok: "fs_ok (sp_data_dir p)" and act: "fs_inode (sp_data_dir p) (segment_file (sp_active_id p)) = Some ?i"
    and size: "sp_seg_size p \<le> length (fs_data (sp_data_dir p) ?i)" and le: "sp_active_cursor p \<le> sp_seg_size p"
    using inv by (simp_all add: pool_inv_def)
  have "fs_inode (sp_data_dir p) ACTIVE_CURSOR_FILE \<noteq> Some ?i"
    using ok act by (metis fs_inode_inj segment_file_other(1))
  then have "fs_read (sp_data_dir p1) ACTIVE_CURSOR_FILE = fs_read (sp_data_dir p) ACTIVE_CURSOR_FILE"
    by (cases "fs_inode (sp_data_dir p) ACTIVE_CURSOR_FILE") (simp_all add: fs_read_def p1)
  then have rc: "read_active_cursor (sp_data_dir p1) = Some (sp_active_id p, sp_active_cursor p)"
    using cur by (simp add: read_active_cursor_def)
  have "length ?bs = length (fs_data (sp_data_dir p) ?i)" using len by simp
  then have oc: "open_or_create_segment (sp_data_dir p1) (segment_file (sp_active_id p)) (sp_seg_size p) = (?i, sp_data_dir p1)"
    using act size by (simp add: open_or_create_segment_def open_or_create_sized_def fs_open_create_def p1)
  have q: "q = \<lparr>sp_data_dir = sp_data_dir p1, sp_seg_size = sp_seg_size p, sp_active_id = sp_active_id p, sp_active_ino = ?i,
      sp_active_cursor = sp_active_cursor p, sp_sealed = [], sp_sealed_lru = [], sp_readers = (\<lambda>_. False)\<rparr>"
    using rc oc act sz le by (simp add: q_def pool_open_def fs_exists_def) (simp add: p1)
  show "pool_inv q" using inv len by (auto simp: pool_inv_def q p1 fs_exists_def)
  show "sp_active_id q = sp_active_id p" "sp_active_cursor q = sp_active_cursor p" "sp_seg_size q = sp_seg_size p"
    by (simp_all add: q)
  show "vl_seg_id l = sp_active_id p" "vl_offset l = word_of_nat (sp_active_cursor p)"
    "vl_len l = word_of_nat (length bs)" by (simp_all add: l)
qed

text \<open>
  Crash after a flush (C39).  A flush records the cursor and a later put moves it in memory only.  If the store is opened
  again as the crash left it, the next put writes over the value: the old key then reads the bytes of the new one.  The engine
  gets there when the log no longer has the first put, as after a recovery, which does not flush.
\<close>

theorem stale_cursor_overwrites:
  assumes laws: "heed_laws H" and inv: "kv_inv H st" and room: "pool_room (ks_pool st)"
    and sz: "0 < sp_seg_size (ks_pool st)" "sp_seg_size (ks_pool st) < 2 ^ 64"
    and put1: "put_kv H lk (kv_flush st) k1 v1 t = (Ok (), st1)" and fit: "length v1 \<le> pool_remaining (ks_pool st)"
    and op: "kv_open H (ks_env st1) (sp_data_dir (ks_pool st1)) (sp_seg_size (ks_pool st)) quota = Ok st2"
    and put2: "put_kv H lk2 st2 k2 v2 t2 = (Ok (), st3)"
    and ks: "k1 \<noteq> k2" "length v2 = length v1"
  shows "kv_abs H st3 k1 = Some v2"
proof -
  let ?p = "ks_pool (kv_flush st)"
  have p: "?p = pool_flush (ks_pool st)" by (simp add: kv_flush_def)
  have pinv: "pool_inv ?p" unfolding p by (rule pool_flush_keeps(1) [OF kv_inv_pool [OF inv]])
  have eq: "sp_seg_size ?p = sp_seg_size (ks_pool st)" "sp_active_id ?p = sp_active_id (ks_pool st)"
    "sp_active_cursor ?p = sp_active_cursor (ks_pool st)" "pool_remaining ?p = pool_remaining (ks_pool st)"
    by (simp_all add: p pool_flush_def pool_remaining_def)
  have "sp_active_cursor (ks_pool st) < 2 ^ 64"
    using pool_inv_cursor [OF kv_inv_pool [OF inv]] sz by linarith
  then have cur: "read_active_cursor (sp_data_dir ?p) = Some (sp_active_id ?p, sp_active_cursor ?p)"
    by (simp add: p pool_flush_def read_write_active_cursor)
  from put1 have "put_kv_inner H (kv_flush st) k1 v1 = (Ok (), st1)"
    by (cases rule: put_kv_cases) auto
  then obtain l1 p1 where a1: "pool_append ?p v1 = (Ok l1, p1)" "ks_pool st1 = p1" "kv_index H (ks_env st1) k1 = Some l1"
    by (cases rule: put_kv_inner_cases [OF laws]) auto
  note o = kv_open_view [OF laws op]
  have fit1: "length v1 \<le> pool_remaining ?p" and sz1: "0 < sp_seg_size ?p" using fit sz by (simp_all add: eq)
  note q = stale_reopen [OF pinv sz1 cur fit1 a1(1), folded a1(2), unfolded eq(1), folded o(1)]
  from put2 have "put_kv_inner H st2 k2 v2 = (Ok (), st3)"
    by (cases rule: put_kv_cases) auto
  then obtain l2 p2 where a2: "pool_append (ks_pool st2) v2 = (Ok l2, p2)" "ks_pool st3 = p2"
    "kv_index H (ks_env st3) = (kv_index H (ks_env st2))(k2 \<mapsto> l2)"
    by (cases rule: put_kv_inner_cases [OF laws]) auto
  have "length v2 \<le> pool_remaining (ks_pool st2)"
    using fit1 by (simp add: pool_remaining_def q(3,4) ks(2) eq(1))
  then have t: "append_target (ks_pool st2) v2 = ks_pool st2" by (simp add: append_target_def)
  from a2(1) have "l2 = l1"
    by (cases rule: pool_append_cases) (simp_all add: t q(2,3,5,6,7) ks(2))
  moreover have "pool_read p2 l2 = Some v2"
    using room by (intro pool_append_read [OF q(1) _ a2(1)]) (simp_all add: pool_room_def q(2) eq(2))
  ultimately have "pool_read (ks_pool st3) l1 = Some v2" by (simp add: a2(2))
  moreover have "kv_index H (ks_env st3) k1 = Some l1"
    using a1(3) ks(1) kv_index_cong [of H "ks_env st2" "ks_env st1"] by (simp add: a2(3) o(2))
  ultimately show ?thesis by (simp add: kv_abs_def idx_lookup_def)
qed

definition stale_one :: "mem_db kv_store" where
  "stale_one = snd (put_kv mem_heed free_lock (kv_flush kv_fresh) [7] [1, 2] None)"

definition stale_two :: "mem_db kv_store" where
  "stale_two = \<lparr>ks_env = ks_env stale_one, ks_pool = pool_open (sp_data_dir (ks_pool stale_one)) 16, ks_quota_limit = 0\<rparr>"

theorem stale_cursor_overwrites_witness:
  "kv_open mem_heed (ks_env stale_one) (sp_data_dir (ks_pool stale_one)) 16 0 = Ok stale_two \<and>
   kv_abs mem_heed (snd (put_kv mem_heed free_lock stale_two [8] [3, 4] None)) [7] = Some [3, 4]"
proof
  show op: "kv_open mem_heed (ks_env stale_one) (sp_data_dir (ks_pool stale_one)) 16 0 = Ok stale_two"
    by (simp add: kv_open_def mem_heed_def stale_two_def)
  have sz: "sp_seg_size (ks_pool kv_fresh) = 16" by code_simp
  have "fst (put_kv mem_heed free_lock (kv_flush kv_fresh) [7] [1, 2] None) = Ok ()" by code_simp
  then have p1: "put_kv mem_heed free_lock (kv_flush kv_fresh) [7] [1, 2] None = (Ok (), stale_one)"
    by (simp add: stale_one_def prod_eq_iff)
  have "fst (put_kv mem_heed free_lock stale_two [8] [3, 4] None) = Ok ()" by code_simp
  then have p2: "put_kv mem_heed free_lock stale_two [8] [3, 4] None =
      (Ok (), snd (put_kv mem_heed free_lock stale_two [8] [3, 4] None))"
    by (simp add: prod_eq_iff)
  have fit: "length [1, 2 :: u8] \<le> pool_remaining (ks_pool kv_fresh)" by code_simp
  show "kv_abs mem_heed (snd (put_kv mem_heed free_lock stale_two [8] [3, 4] None)) [7] = Some [3, 4]"
    using stale_cursor_overwrites [OF mem_heed_laws kv_fresh_inv(1) kv_fresh_room _ _ p1 fit _ p2] op sz by simp
qed

end
