(* ===== verification/Cli.thy ===== *)
theory Cli
  imports Daemon Kv_Crash
begin

text \<open>
  \<open>fs-cli/src/main.rs\<close>: the commands.  Each opens an engine on a namespace, runs one operation and lets the
  process end; no command closes the engine, so that what it leaves on disk is what a crash would
  leave (\<open>engine_home\<close>).  A command gives what it prints or how it fails, and the directories.

  The section before the commands shows that a namespace without a vector index that was never flushed keeps its
  KV map in that case.
\<close>

section \<open>A namespace after the end of a process\<close>

lemma open_kv_only_Ok:
  assumes "open_kv_only C R hm q = Ok e" "\<not> hm_vec_meta hm"
  obtains kv w where "kv_open (ec_heed C) (hm_kv_env hm) (hm_kv_dir hm) 0 q = Ok kv" "wal_open (hm_wal_dir hm) = Ok w"
    "recover_inner C R \<lparr>en_kv = kv, en_vec = None, en_col = None, en_wal = w, en_home = hm, en_quota_limit = q\<rparr> = (Ok (), e)"
proof -
  from assms obtain kv w where *: "kv_open (ec_heed C) (hm_kv_env hm) (hm_kv_dir hm) 0 q = Ok kv"
    "wal_open (hm_wal_dir hm) = Ok w"
    and rec: "(case recover_inner C R \<lparr>en_kv = kv, en_vec = None, en_col = None, en_wal = w, en_home = hm, en_quota_limit = q\<rparr>
       of (Ok u, e) \<Rightarrow> Ok e | (Err x, e) \<Rightarrow> Err x | (Panic, e) \<Rightarrow> Panic) = Ok e"
    unfolding open_kv_only_def engine_open_def res_bind_eq_Ok by auto
  let ?e0 = "\<lparr>en_kv = kv, en_vec = None, en_col = None, en_wal = w, en_home = hm, en_quota_limit = q\<rparr>"
  obtain r e1 where re: "recover_inner C R ?e0 = (r, e1)" by (cases "recover_inner C R ?e0")
  with rec have "r = Ok () \<and> e1 = e" by (cases r) simp_all
  with that [OF *] re show thesis by simp
qed

text \<open>An engine has applied the entries of a log.\<close>

definition in_sync :: "'h eng_ctx \<Rightarrow> 'h engine \<Rightarrow> wal_entry list \<Rightarrow> bool" where
  "in_sync C e es \<longleftrightarrow> (\<exists>a. ea_kv (abs_of C e) = ea_kv (apply_ops C a (map we_op es)))"

text \<open>A KV namespace that has no vector index and no recorded cursor, with room for \<open>n\<close> segments.\<close>

definition kv_namespace :: "'h engine \<Rightarrow> nat \<Rightarrow> bool" where
  "kv_namespace e n \<longleftrightarrow> en_vec e = None \<and> \<not> hm_vec_meta (en_home e) \<and>
     read_active_cursor (sp_data_dir (ks_pool (en_kv e))) = None \<and>
     next_seg_id (sp_data_dir (ks_pool (en_kv e))) \<noteq> 0 \<and>
     unat (next_seg_id (sp_data_dir (ks_pool (en_kv e)))) + n \<le> U32_MAX"

lemma kv_crash:
  assumes ctx: "eng_ctx_ok C" and inv: "eng_inv C e" and log: "wal_clean (en_wal e) es"
    and m: "read_marker (ec_marker_from_slice C) (en_wal e) = Ok m"
    and ns: "kv_namespace e (ops_weight C (pending m es))" and sync: "in_sync C e (pending m es)"
    and op: "open_kv_only C R (engine_home e) quota = Ok e'"
  shows "eng_inv C e'" "ea_kv (abs_of C e') = ea_kv (abs_of C e)"
    "\<exists>plan. engine_plan C e' = Ok plan \<and> rp_entries plan = []"
proof -
  let ?hm = "engine_home e"
  have hm: "hm_kv_env ?hm = ks_env (en_kv e)" "hm_kv_dir ?hm = sp_data_dir (ks_pool (en_kv e))"
    "hm_wal_dir ?hm = wl_dir (en_wal e)" "\<not> hm_vec_meta ?hm"
    using ns by (simp_all add: engine_home_def Let_def kv_namespace_def split: option.splits)
  from op hm(4) obtain kv w where kv: "kv_open (ec_heed C) (hm_kv_env ?hm) (hm_kv_dir ?hm) 0 quota = Ok kv"
    and w: "wal_open (hm_wal_dir ?hm) = Ok w"
    and rec: "recover_inner C R \<lparr>en_kv = kv, en_vec = None, en_col = None, en_wal = w, en_home = ?hm,
        en_quota_limit = quota\<rparr> = (Ok (), e')" (is "recover_inner C R ?e0 = _")
    by (rule open_kv_only_Ok)
  have kvi: "kv_inv (ec_heed C) (en_kv e)" using inv by (simp add: eng_inv_def)
  have cur: "read_active_cursor (sp_data_dir (ks_pool (en_kv e))) = None"
    "next_seg_id (sp_data_dir (ks_pool (en_kv e))) \<noteq> 0" using ns by (simp_all add: kv_namespace_def)
  note cr = kv_open_after_crash [OF eng_heed [OF ctx] kvi cur kv [unfolded hm(1,2)]]
  have c: "fs_ok (wl_dir (en_wal e))" "fs_read (wl_dir (en_wal e)) WAL_LOG = Some (frames es)"
    "read_entries (frames es) = Ok es"
    using log read_entries_frames_only [of es] by (auto simp: wal_clean_def)
  obtain ww where "wal_open (wl_dir (en_wal e)) = Ok ww" "fs_ok (wl_dir ww)" "read_all ww = Ok es"
    "fs_read (wl_dir ww) MARKER = fs_read (wl_dir (en_wal e)) MARKER"
    using wal_open_keeps [OF c] by blast
  with w have w: "fs_ok (wl_dir w)" "read_all w = Ok es" "read_marker (ec_marker_from_slice C) w = Ok m"
    using m by (simp_all add: hm read_marker_def)
  have plan: "engine_plan C ?e0 = Ok \<lparr>rp_entries = pending m es, rp_applied_seq = marker_applied m\<rparr>"
    using w by (simp add: engine_plan_def pending_recover_plan_def pending_def)
  have inv0: "eng_inv C ?e0" using cr by (simp add: eng_inv_def)
  have room: "eng_room ?e0 (ops_weight C (rp_entries \<lparr>rp_entries = pending m es, rp_applied_seq = marker_applied m\<rparr>))"
    using ns cr by (simp add: eng_room_def room_for_def kv_namespace_def)
  note rc = recover_inner_correct [OF ctx inv0 _ plan room rec]
  show "eng_inv C e'" by (rule rc(1)) (simp add: w)
  show "\<exists>plan. engine_plan C e' = Ok plan \<and> rp_entries plan = []" using rc(3) w by simp
  obtain a where a: "ea_kv (abs_of C e) = ea_kv (apply_ops C a (map we_op (pending m es)))"
    using sync by (auto simp: in_sync_def)
  have "ea_kv (abs_of C ?e0) = ea_kv (abs_of C e)" using cr by (simp add: abs_of_def)
  then have "ea_kv (abs_of C ?e0) = ea_kv (apply_ops C a (take (length (pending m es)) (map we_op (pending m es))))"
    using a by simp
  from apply_ops_kv_idempotent [OF this] rc(2) w a show "ea_kv (abs_of C e') = ea_kv (abs_of C e)" by simp
qed

section \<open>The commands\<close>

text \<open>
  What a command prints or how it ends.  \<open>Printed\<close> has the bytes that are handed to \<open>from_utf8_lossy\<close>; \<open>NotFoundExit\<close> is the
  exit code 2.  After an open that fails the directories are not given.
\<close>

datatype cli_out =
    Initialized nat
  | PutOk bytes nat
  | Printed bytes
  | NotFoundExit
  | StatsOut u64 u64 nat nat nat nat nat
  | CompactOk nat nat "nat option"
  | PlanOut u64 "wal_entry list"
  | RecoverOk nat
  | CliFailed store_error
  | CliPanicked

text \<open>Opening and then one operation.\<close>

fun with_engine ::
  "'h engine res \<Rightarrow> ('h engine \<Rightarrow> cli_out \<times> 'h engine) \<Rightarrow> cli_out \<times> 'h home option" where
  "with_engine (Ok e) f = (case f e of (out, e') \<Rightarrow> (out, Some (engine_home e')))"
| "with_engine (Err x) f = (CliFailed x, None)"
| "with_engine Panic f = (CliPanicked, None)"

fun finish :: "'a res \<Rightarrow> ('a \<Rightarrow> cli_out) \<Rightarrow> cli_out" where
  "finish (Ok x) f = f x"
| "finish (Err e) f = CliFailed e"
| "finish Panic f = CliPanicked"

definition cmd_init ::
  "'h eng_ctx \<Rightarrow> eng_run \<Rightarrow> 'h home \<Rightarrow> u64 \<Rightarrow> nat \<Rightarrow> cli_out \<times> 'h home option" where
  "cmd_init C R hm quota dim =
     with_engine (engine_open C R hm (Some (schema_new dim L2)) quota) (\<lambda>e. (Initialized dim, e))"

definition cmd_put ::
  "'h eng_ctx \<Rightarrow> eng_run \<Rightarrow> 'h home \<Rightarrow> bytes \<Rightarrow> bytes \<Rightarrow> u64 \<Rightarrow> cli_out \<times> 'h home option" where
  "cmd_put C R hm key val quota =
     with_engine (open_kv_only C R hm quota) (\<lambda>e.
       (case engine_put_kv C R e key val None of
          (r, e') \<Rightarrow> (finish r (\<lambda>u. PutOk key (length val)), e')))"

definition cmd_get :: "'h eng_ctx \<Rightarrow> eng_run \<Rightarrow> 'h home \<Rightarrow> bytes \<Rightarrow> cli_out \<times> 'h home option" where
  "cmd_get C R hm key =
     with_engine (open_kv_only C R hm 0) (\<lambda>e.
       (case engine_get_kv C e key of
          (r, e') \<Rightarrow>
            (finish r (\<lambda>found.
               (case found of
                  Some z \<Rightarrow> Printed (to_owned_slice (sp_data_dir (ks_pool (en_kv e'))) z)
                | None \<Rightarrow> NotFoundExit)), e')))"

definition cmd_stats ::
  "'h eng_ctx \<Rightarrow> eng_run \<Rightarrow> (nsw_graph \<Rightarrow> nat) \<Rightarrow> 'h home \<Rightarrow> cli_out \<times> 'h home option" where
  "cmd_stats C R graph_mem hm =
     with_engine (engine_open C R hm None 0) (\<lambda>e.
       (finish (used_bytes (ec_heed C) (en_kv e)) (\<lambda>used.
          finish (ensure_vec e) (\<lambda>idx.
            StatsOut used (ks_quota_limit (en_kv e)) (kv_disk_bytes (en_kv e)) (index_disk_bytes idx)
              (vec_index_len idx) (vs_dim (vi_schema idx)) (graph_mem (vi_graph idx)))), e))"

text \<open>\<open>held\<close>, \<open>now\<close> and \<open>statv\<close>: the readers of the segments, the clock and the free disk space.\<close>

definition cmd_compact ::
  "'h eng_ctx \<Rightarrow> eng_run \<Rightarrow> (u64 \<times> u64) option \<Rightarrow> 'h home \<Rightarrow> bool \<Rightarrow> cli_out \<times> 'h home option" where
  "cmd_compact C R statv hm reclaim_now =
     with_engine (engine_open C R hm None 0) (\<lambda>e.
       (case en_vec e of
          None \<Rightarrow> (CliFailed NotFound, e)
        | Some idx \<Rightarrow>
            (case run_compact (ec_vec C) (er_held R) (er_now R) statv idx of
               (Err x, idx1) \<Rightarrow> (CliFailed x, e\<lparr>en_vec := Some idx1\<rparr>)
             | (Panic, idx1) \<Rightarrow> (CliPanicked, e\<lparr>en_vec := Some idx1\<rparr>)
             | (Ok res, idx1) \<Rightarrow>
                 (if reclaim_now \<and> cr_reclaimable_segs res \<noteq> []
                  then (case reclaim (er_held R) (er_now R) idx1 (cr_reclaimable_segs res) of
                          (n, idx2) \<Rightarrow>
                            (CompactOk (cr_live_vectors res) (length (cr_reclaimable_segs res)) (Some n),
                             e\<lparr>en_vec := Some idx2\<rparr>))
                  else (CompactOk (cr_live_vectors res) (length (cr_reclaimable_segs res)) None,
                        e\<lparr>en_vec := Some idx1\<rparr>)))))"

definition cmd_recover :: "'h eng_ctx \<Rightarrow> eng_run \<Rightarrow> 'h home \<Rightarrow> bool \<Rightarrow> cli_out \<times> 'h home option" where
  "cmd_recover C R hm dry_run =
     (if dry_run
      then (finish (build_recover_plan (ec_marker_from_slice C) (hm_wal_dir hm)) (\<lambda>plan.
              PlanOut (rp_applied_seq plan) (rp_entries plan)), Some hm)
      else
        with_engine (engine_open C R hm None 0) (\<lambda>e.
          (finish (engine_plan C e) (\<lambda>plan. RecoverOk (length (rp_entries plan))), e)))"

section \<open>The program\<close>

text \<open>
  The arguments as \<open>clap\<close> delivers them, defaults filled in.  \<open>homes\<close> is what the directory of a namespace under
  the data directory holds; \<open>ip\<close> parses an address.  The segment size is read and not used.
\<close>

datatype cmd =
    Init string u64 u64 nat
  | Put string bytes bytes u64 u64
  | Get string bytes u64
  | Stats string u64
  | Compact string u64 bool
  | Recover string bool
  | ServeCmd string nat bytes nat nat u64 u64

datatype ('h, 'q, 's) cli_end =
    Command "cli_out \<times> 'h home option"
  | Listening nat "config \<times> ('h, 'q, 's) server"
  | StartFailed serve_error

record cli =
  cl_home :: "string option"
  cl_cmd :: cmd

definition dirs_or_default :: "string option \<Rightarrow> string" where
  "dirs_or_default home_var =
     (case home_var of Some h \<Rightarrow> path_join h ''.fusion-store'' | None \<Rightarrow> ''.fusion-store'')"

record ('h, 'q, 's) cli_world =
  cw_homes :: "string \<Rightarrow> 'h home"
  cw_home_var :: "string option"
  cw_serve :: "('q, 's) serve_env"
  cw_ip :: "bytes \<Rightarrow> bool option"
  cw_statv :: "(u64 \<times> u64) option"
  cw_graph_mem :: "nsw_graph \<Rightarrow> nat"

definition cli_main :: "'h eng_ctx \<Rightarrow> eng_run \<Rightarrow> ('h, 'q, 's) cli_world \<Rightarrow> cli \<Rightarrow> ('h, 'q, 's) cli_end" where
  "cli_main C R W args =
     (let home = (case cl_home args of Some h \<Rightarrow> h | None \<Rightarrow> dirs_or_default (cw_home_var W));
          dir = (\<lambda>ns. cw_homes W (path_join home ns)) in
      (case cl_cmd args of
         Init ns seg_size quota dim \<Rightarrow> Command (cmd_init C R (dir ns) quota dim)
       | Put ns key val seg_size quota \<Rightarrow> Command (cmd_put C R (dir ns) key val quota)
       | Get ns key seg_size \<Rightarrow> Command (cmd_get C R (dir ns) key)
       | Stats ns seg_size \<Rightarrow> Command (cmd_stats C R (cw_graph_mem W) (dir ns))
       | Compact ns seg_size reclaim_now \<Rightarrow> Command (cmd_compact C R (cw_statv W) (dir ns) reclaim_now)
       | Recover ns dry_run \<Rightarrow> Command (cmd_recover C R (dir ns) dry_run)
       | ServeCmd ns port bind dim queue_cap seg_size quota \<Rightarrow>
           (case cmd_serve C R (cw_serve W) (dir ns) bind (cw_ip W bind) dim queue_cap quota of
              Inl x \<Rightarrow> StartFailed x
            | Inr st \<Rightarrow> Listening port st)))"

section \<open>Properties\<close>

text \<open>
  The two programs that serve a namespace find the same directory as long as there is a home directory, and then start alike;
  without one they look in different places.
\<close>

lemma serve_programs_agree:
  assumes "hv = Some h \<or> hm = Some h"
  shows "cli_main C R \<lparr>cw_homes = homes, cw_home_var = hv, cw_serve = E, cw_ip = ip, cw_statv = sv, cw_graph_mem = gm\<rparr>
      \<lparr>cl_home = hm, cl_cmd = ServeCmd ns port bind dim cap seg quota\<rparr> = Listening port st \<longleftrightarrow>
    serve_program C R E homes hv ip \<lparr>sa_port = port, sa_bind = bind, sa_home = hm, sa_namespace = ns, sa_dim = dim,
      sa_queue_cap = cap, sa_seg_size = seg, sa_quota = quota\<rparr> = Inr (port, st)"
proof -
  have homes_eq: "hm = None \<Longrightarrow> dirs_or_default hv = default_home hv"
    using assms by (auto simp: dirs_or_default_def default_home_def)
  have eq: "cmd_serve C R E d bind (ip bind) dim cap quota = Inr st \<longleftrightarrow> serve_main C R E d bind (ip bind) dim cap quota = Inr st" for d
    by (rule conjunct1 [OF daemon_start])
  have "(case x of Inl e \<Rightarrow> StartFailed e | Inr y \<Rightarrow> Listening port y) = Listening port st \<longleftrightarrow> x = Inr st"
    "(case x of Inl e \<Rightarrow> Inl e | Inr y \<Rightarrow> Inr (port, y)) = Inr (port, st) \<longleftrightarrow> x = Inr st" for x
    by (cases x; simp)+
  then show ?thesis by (cases hm) (simp_all add: cli_main_def serve_program_def Let_def homes_eq eq cong: sum.case_cong)
qed

lemma default_homes_differ: "dirs_or_default None \<noteq> default_home None"
  by (simp add: dirs_or_default_def default_home_def)

lemma wal_append_marker:
  "wal_clean w es \<Longrightarrow> wal_append w op = (r, w') \<Longrightarrow> fs_read (wl_dir w') MARKER = fs_read (wl_dir w) MARKER"
  by (auto simp: wal_append_def wal_clean_def fs_read_write_other Let_def split: if_splits)

lemma engine_put_kv_log:
  assumes log: "wal_clean (en_wal e) es" and fits: "length (encode_op (PutKv k v)) \<le> U32_MAX"
    and m: "read_marker rd (en_wal e) = Ok m" and put: "engine_put_kv C R e k v t = (r, e')"
  shows "read_marker rd (en_wal e') = Ok m" "en_vec e' = en_vec e" "en_home e' = en_home e"
proof -
  obtain w where w: "wal_append (en_wal e) (PutKv k v) = (Ok (wl_next_seq (en_wal e)), w)"
    using wal_clean_append [OF log, of "PutKv k v"] fits by auto
  have "fs_read (wl_dir w) MARKER = fs_read (wl_dir (en_wal e)) MARKER"
    by (rule wal_append_marker [OF log w])
  with m w put show "read_marker rd (en_wal e') = Ok m" "en_vec e' = en_vec e" "en_home e' = en_home e"
    by (auto simp: engine_put_kv_def read_marker_def split: prod.splits)
qed

lemma pending_append:
  "marker_applied m < we_seq x \<Longrightarrow> pending m (es @ [x]) = pending m es @ [x]"
  by (simp add: pending_def)

text \<open>
  Writes survive the end of the process (C13).  In a namespace without a vector index (\<open>fs-cli init\<close> creates one) that was never
  flushed or rotated and whose log is clean and in sync with the store, and if the second process can open it, a
  put by one process that reports success is what a get by the next one prints, although neither closes the engine: the
  second finds the value in the database and in the segment, and replays the log over it.
\<close>

theorem cli_put_get:
  assumes ctx: "eng_ctx_ok C" and open1: "open_kv_only C R hm q = Ok e" and inv: "eng_inv C e" and room: "eng_room e 1"
    and log: "wal_clean (en_wal e) es" and m: "read_marker (ec_marker_from_slice C) (en_wal e) = Ok m"
    and sq: "marker_applied m < wl_next_seq (en_wal e)" and sync: "in_sync C e (pending m es)"
    and fits: "length (encode_op (PutKv k v)) \<le> U32_MAX"
    and put: "engine_put_kv C R e k v None = (Ok (), e1)"
    and ns: "kv_namespace e1 (Suc (ops_weight C (pending m es)))"
    and open2: "open_kv_only C R' (engine_home e1) 0 = Ok e2"
    and rt: "hd_read_txn (ec_heed C) (ks_env (en_kv e2)) = HOk ()"
  shows "cmd_put C R hm k v q = (PutOk k (length v), Some (engine_home e1)) \<and>
    fst (cmd_get C R' (engine_home e1) k) = Printed v"
proof -
  let ?x = "\<lparr>we_seq = wl_next_seq (en_wal e), we_op = PutKv k v\<rparr>"
  note p = engine_put_kv_correct [OF ctx inv room log fits put]
  note l = engine_put_kv_log [OF log fits m put]
  have pend: "pending m (es @ [?x]) = pending m es @ [?x]" using sq by (intro pending_append) simp
  obtain a where a: "ea_kv (abs_of C e) = ea_kv (apply_ops C a (map we_op (pending m es)))"
    using sync by (auto simp: in_sync_def)
  have sync1: "in_sync C e1 (pending m (es @ [?x]))"
    unfolding in_sync_def pend using p(3) a by (intro exI [of _ a]) simp
  have ns1: "kv_namespace e1 (ops_weight C (pending m (es @ [?x])))"
    using ns by (simp add: pend ops_weight_def)
  note cr = kv_crash [OF ctx p(1) p(2) l(1) ns1 sync1 open2]
  have "kv_inv (ec_heed C) (en_kv e2)" "kv_abs (ec_heed C) (en_kv e2) k = Some v"
    using cr(1,2) p(3) by (simp_all add: eng_inv_def abs_of_def)
  then obtain z st where "get_kv_zero_copy (ec_heed C) (en_kv e2) k = (Ok (Some z), st)"
    "buffer_as_bytes (sp_data_dir (ks_pool st)) z = v"
    using get_kv_cases(1) [OF _ rt] by blast
  then have "fst (cmd_get C R' (engine_home e1) k) = Printed v"
    by (simp add: cmd_get_def open2 engine_get_kv_def to_owned_slice_def)
  then show ?thesis by (simp add: cmd_put_def open1 put)
qed


section \<open>A namespace to run\<close>

text \<open>
  The segments have their real size of 64 MB here, so that the pools are described by their names and cursors
  instead of being evaluated.
\<close>

definition cli_wal :: wal where
  "cli_wal = (case wal_open fs_empty of Ok w \<Rightarrow> w)"

definition cli_kv :: "mem_db kv_store" where
  "cli_kv = \<lparr>ks_env = [], ks_pool = pool_open fs_empty 0, ks_quota_limit = 0\<rparr>"

definition cli_engine :: "mem_db engine" where
  "cli_engine = \<lparr>en_kv = cli_kv, en_vec = None, en_col = None, en_wal = cli_wal, en_home = toy_home, en_quota_limit = 0\<rparr>"

definition cli_put :: "mem_db engine" where
  "cli_put = snd (engine_put_kv toy_eng_ctx toy_run cli_engine [7] [1, 2] None)"

lemma cli_wal_open: "wal_open fs_empty = Ok cli_wal"
proof -
  have "is_ok (wal_open fs_empty)" by code_simp
  then show ?thesis by (cases "wal_open fs_empty") (simp_all add: cli_wal_def)
qed

lemma cli_wal_clean: "wal_clean cli_wal []" "read_marker rd cli_wal = Ok None" "wl_next_seq cli_wal = 1"
proof -
  have *: "fs_read (wl_dir cli_wal) WAL_LOG = Some []" "fs_read (wl_dir cli_wal) MARKER = None" by code_simp+
  have "fs_ok (wl_dir cli_wal)" by code_simp
  with * show "wal_clean cli_wal []" by (simp add: wal_clean_def frames_def)
  show "read_marker rd cli_wal = Ok None" using * by (simp add: read_marker_def)
  show "wl_next_seq cli_wal = 1" by code_simp
qed

lemma cli_open: "open_kv_only toy_eng_ctx toy_run toy_home 0 = Ok cli_engine"
proof -
  have "kv_open mem_heed [] fs_empty 0 0 = Ok cli_kv" by (simp add: kv_open_def mem_heed_def cli_kv_def)
  then show ?thesis
    using cli_wal_open cli_wal_clean(2) wal_clean_read_all [OF cli_wal_clean(1)]
    by (simp add: open_kv_only_def engine_open_def toy_eng_ctx_def toy_home_def cli_engine_def recover_inner_def
        pending_recover_plan_def)
qed

lemma cli_pool:
  "sp_active_id (ks_pool cli_kv) = 0" "sp_active_cursor (ks_pool cli_kv) = 0"
  "sp_seg_size (ks_pool cli_kv) = DEFAULT_SEGMENT_SIZE" "fs_names (sp_data_dir (ks_pool cli_kv)) = [(segment_file 0, 0)]"
proof -
  have "next_seg_id fs_empty = 0" "read_active_cursor fs_empty = None" by code_simp+
  then show "sp_active_id (ks_pool cli_kv) = 0" "sp_active_cursor (ks_pool cli_kv) = 0"
    "sp_seg_size (ks_pool cli_kv) = DEFAULT_SEGMENT_SIZE" "fs_names (sp_data_dir (ks_pool cli_kv)) = [(segment_file 0, 0)]"
    by (simp_all add: cli_kv_def pool_open_def open_or_create_segment_def open_or_create_sized_def fs_open_create_def
        fs_inode_def fs_empty_def fs_put_def Let_def)
qed

text \<open>A put into the store in memory succeeds when the quota check and the append do.\<close>

lemma mem_put_Ok:
  assumes "put_kv_quota mem_heed st k v = Ok u" "pool_append (ks_pool st) v = (Ok l, p)"
  shows "put_kv mem_heed free_lock st k v None =
    (Ok (), st\<lparr>ks_env := AList.update (QUOTA_DB_NAME, QUOTA_KEY) (u64_to_le u)
       (AList.update (KV_DB_NAME, k) (binencode l) (ks_env st)), ks_pool := p\<rparr>)"
proof -
  have "\<not> bad_key k" using assms(1) by (auto simp: put_kv_quota_def bad_key_def LMDB_MAX_KEY_def split: if_splits)
  moreover have "\<not> bad_key QUOTA_KEY" by code_simp
  ultimately show ?thesis
    using assms by (simp add: put_kv_def acquire_write_lock_def put_kv_inner_def write_quota_txn_def mem_heed_def)
qed

definition cli_env :: mem_db where
  "cli_env = AList.update (QUOTA_DB_NAME, QUOTA_KEY) (u64_to_le 2)
     (AList.update (KV_DB_NAME, [7]) (binencode \<lparr>vl_seg_id = 0, vl_offset = 0, vl_len = 2\<rparr>) [])"

lemma cli_quota:
  "put_kv_quota mem_heed \<lparr>ks_env = [], ks_pool = p, ks_quota_limit = 0\<rparr> [7] [1, 2] = Ok 2"
  "put_kv_quota mem_heed \<lparr>ks_env = cli_env, ks_pool = p, ks_quota_limit = 0\<rparr> [7] [1, 2] = Ok 2"
  by code_simp+

lemma cli_op_len: "length (encode_op (PutKv [7] [1, 2])) \<le> U32_MAX"
  by code_simp

lemma cli_put_eq:
  "\<exists>p. engine_put_kv toy_eng_ctx toy_run cli_engine [7] [1, 2] None = (Ok (), cli_put) \<and>
    en_kv cli_put = \<lparr>ks_env = cli_env, ks_pool = p, ks_quota_limit = 0\<rparr> \<and>
    fs_names (sp_data_dir p) = [(segment_file 0, 0)]"
proof -
  have "pool_inv (ks_pool cli_kv)" unfolding cli_kv_def by (simp add: pool_inv_open_empty)
  then obtain l p where app: "pool_append (ks_pool cli_kv) [1, 2] = (Ok l, p)"
    using pool_append_fits [of "ks_pool cli_kv" "[1, 2]"] cli_pool
    by (auto simp: pool_room_def DEFAULT_SEGMENT_SIZE_def prod_eq_iff)
  have t: "append_target (ks_pool cli_kv) [1, 2] = ks_pool cli_kv"
    using cli_pool by (simp add: append_target_def pool_remaining_def DEFAULT_SEGMENT_SIZE_def)
  from app have l: "l = \<lparr>vl_seg_id = 0, vl_offset = 0, vl_len = 2\<rparr>" and p: "fs_names (sp_data_dir p) = [(segment_file 0, 0)]"
    by (cases rule: pool_append_cases; simp add: t cli_pool fs_put_def)+
  have "put_kv_quota mem_heed cli_kv [7] [1, 2] = Ok 2" unfolding cli_kv_def by (rule cli_quota)
  note mem_put_Ok [OF this app]
  then have put: "put_kv mem_heed free_lock cli_kv [7] [1, 2] None = (Ok (), \<lparr>ks_env = cli_env, ks_pool = p, ks_quota_limit = 0\<rparr>)"
    by (simp add: l cli_env_def cli_kv_def)
  obtain w where "wal_append cli_wal (PutKv [7] [1, 2]) = (Ok 1, w)"
    using wal_clean_append [OF cli_wal_clean(1) _ cli_op_len] cli_wal_clean(3) by auto
  with put p show ?thesis
    by (simp add: cli_put_def engine_put_kv_def cli_engine_def toy_eng_ctx_def toy_run_def)
qed

lemma cli_engine_inv: "eng_inv toy_eng_ctx cli_engine" "eng_room cli_engine 1"
  using toy_pool_inv cli_pool
  by (simp_all add: eng_inv_def toy_eng_ctx_def cli_engine_def cli_kv_def eng_room_def room_for_def)

lemma cli_put_log:
  "wal_clean (en_wal cli_put) [\<lparr>we_seq = 1, we_op = PutKv [7] [1, 2]\<rparr>]" "read_marker rd (en_wal cli_put) = Ok None"
  "eng_inv toy_eng_ctx cli_put" "en_vec cli_put = None" "en_home cli_put = toy_home"
proof -
  have put: "engine_put_kv toy_eng_ctx toy_run cli_engine [7] [1, 2] None = (Ok (), cli_put)" using cli_put_eq by blast
  have cl: "wal_clean (en_wal cli_engine) []" "read_marker rd (en_wal cli_engine) = Ok None" "wl_next_seq (en_wal cli_engine) = 1"
    using cli_wal_clean by (simp_all add: cli_engine_def)
  note p = engine_put_kv_correct [OF toy_eng_ctx_ok cli_engine_inv cl(1) cli_op_len put]
  note l = engine_put_kv_log [OF cl(1) cli_op_len cl(2) put]
  from p(1,2) l cl(3) show
    "wal_clean (en_wal cli_put) [\<lparr>we_seq = 1, we_op = PutKv [7] [1, 2]\<rparr>]" "read_marker rd (en_wal cli_put) = Ok None"
    "eng_inv toy_eng_ctx cli_put" "en_vec cli_put = None" "en_home cli_put = toy_home"
    by (simp_all add: cli_engine_def)
qed

lemma cli_dir:
  assumes "fs_names d = [(segment_file 0, 0)]"
  shows "read_active_cursor d = None" "next_seg_id d = 1"
proof -
  have ne: "ACTIVE_CURSOR_FILE \<noteq> segment_file 0" by code_simp
  with assms show "read_active_cursor d = None" by (simp add: read_active_cursor_def fs_read_def fs_inode_def)
  have "next_seg_id d = next_seg_id \<lparr>fs_names = [(segment_file 0, 0)], fs_data = (\<lambda>_. []), fs_next = 1\<rparr>"
    using assms by (simp add: next_seg_id_def next_seg_of_def)
  also have "\<dots> = 1" by code_simp
  finally show "next_seg_id d = 1" .
qed

text \<open>The next process replays the put over what it finds.\<close>

lemma cli_open_again: "\<exists>e2. open_kv_only toy_eng_ctx toy_run (engine_home cli_put) 0 = Ok e2"
proof -
  from cli_put_eq obtain p where p: "en_kv cli_put = \<lparr>ks_env = cli_env, ks_pool = p, ks_quota_limit = 0\<rparr>"
    and d: "fs_names (sp_data_dir p) = [(segment_file 0, 0)]" by blast
  let ?kv = "\<lparr>ks_env = cli_env, ks_pool = pool_open (sp_data_dir p) 0, ks_quota_limit = 0\<rparr>"
  have hm: "hm_kv_env (engine_home cli_put) = cli_env" "hm_kv_dir (engine_home cli_put) = sp_data_dir p"
    "hm_wal_dir (engine_home cli_put) = wl_dir (en_wal cli_put)" "\<not> hm_vec_meta (engine_home cli_put)"
    using p cli_put_log(4,5) by (simp_all add: engine_home_def Let_def toy_home_def split: option.splits)
  have kv: "kv_open mem_heed cli_env (sp_data_dir p) 0 0 = Ok ?kv" by (simp add: kv_open_def mem_heed_def)
  let ?x = "\<lparr>we_seq = 1, we_op = PutKv [7] [1, 2]\<rparr>"
  obtain w where w: "wal_open (wl_dir (en_wal cli_put)) = Ok w" "read_all w = Ok [?x]"
    "fs_read (wl_dir w) MARKER = fs_read (wl_dir (en_wal cli_put)) MARKER"
    using wal_open_keeps [of "wl_dir (en_wal cli_put)"] cli_put_log(1) read_entries_frames_only [of "[?x]"]
    by (fastforce simp: wal_clean_def)
  have m: "read_marker rd w = Ok None" for rd using cli_put_log(2) [of rd] w(3) by (simp add: read_marker_def)
  have "pool_inv p" using cli_put_log(3) p by (simp add: eng_inv_def kv_inv_def)
  then have inv: "pool_inv (pool_open (sp_data_dir p) 0)" using cli_dir [OF d] by (intro pool_open_crash) simp_all
  have "sp_active_id (pool_open (sp_data_dir p) 0) = 1" "sp_seg_size (pool_open (sp_data_dir p) 0) = DEFAULT_SEGMENT_SIZE"
    using cli_dir [OF d] by (simp_all add: pool_open_def Let_def split_beta)
  then obtain l q where "pool_append (pool_open (sp_data_dir p) 0) [1, 2] = (Ok l, q)"
    using pool_append_fits [OF inv, of "[1, 2]"] by (auto simp: pool_room_def DEFAULT_SEGMENT_SIZE_def prod_eq_iff)
  then obtain kv2 where put: "put_kv mem_heed free_lock ?kv [7] [1, 2] None = (Ok (), kv2)"
    using mem_put_Ok [OF cli_quota(2)] by simp
  obtain w2 where "truncate_to w 1 = (Ok (), w2)" using truncate_to_reads [OF w(2)] by blast
  with put kv w m hm show ?thesis
    by (simp add: open_kv_only_def engine_open_def toy_eng_ctx_def toy_run_def recover_inner_def pending_recover_plan_def)
qed

theorem cli_put_get_witness:
  "fst (cmd_put toy_eng_ctx toy_run toy_home [7] [1, 2] 0) = PutOk [7] 2 \<and>
   fst (cmd_get toy_eng_ctx toy_run (engine_home cli_put) [7]) = Printed [1, 2]"
proof -
  from cli_put_eq obtain p where put: "engine_put_kv toy_eng_ctx toy_run cli_engine [7] [1, 2] None = (Ok (), cli_put)"
    and p: "en_kv cli_put = \<lparr>ks_env = cli_env, ks_pool = p, ks_quota_limit = 0\<rparr>"
    and d: "fs_names (sp_data_dir p) = [(segment_file 0, 0)]" by blast
  have cl: "wal_clean (en_wal cli_engine) []" "read_marker rd (en_wal cli_engine) = Ok None" "wl_next_seq (en_wal cli_engine) = 1" for rd
    using cli_wal_clean by (simp_all add: cli_engine_def)
  have sync: "in_sync toy_eng_ctx cli_engine (pending None [])"
    unfolding in_sync_def pending_def by (rule exI [of _ "abs_of toy_eng_ctx cli_engine"]) simp
  have ns: "kv_namespace cli_put (Suc (ops_weight toy_eng_ctx (pending None [])))"
    using cli_put_log(4,5) cli_dir [OF d] p by (simp add: kv_namespace_def ops_weight_def pending_def toy_home_def)
  obtain e2 where o2: "open_kv_only toy_eng_ctx toy_run (engine_home cli_put) 0 = Ok e2" using cli_open_again by blast
  have rt: "hd_read_txn (ec_heed toy_eng_ctx) (ks_env (en_kv e2)) = HOk ()" by (simp add: toy_eng_ctx_def mem_heed_def)
  have sq: "marker_applied None < wl_next_seq (en_wal cli_engine)" by (simp add: cl(3) marker_applied_def)
  from cli_put_get [OF toy_eng_ctx_ok cli_open cli_engine_inv cl(1) cl(2) sq sync cli_op_len put ns o2 rt]
  show ?thesis by simp
qed

end
