(* ===== verification/Durability.thy ===== *)
theory Durability
  imports Cli
begin

text \<open>
  What the trait promises across the end of a process.  The runs are those of the KV contract (\<open>kv_exec\<close>) over the engine: every
  call that writes is in the log, so that opening the directories again replays all of them over what the stores
  already have.
\<close>

abbreviation engine_run ::
  "'h eng_ctx \<Rightarrow> 'h engine \<Rightarrow> ((eng_run \<times> nat option) \<times> kv_call) list \<Rightarrow> kv_reply list \<times> 'h engine" where
  "engine_run C \<equiv> kv_exec (\<lambda>(R, t) e k v. engine_put_kv C R e k v t) (engine_read C) (\<lambda>(R, t) e k. engine_delete_kv C R e k t)"

abbreviation engine_call1 ::
  "'h eng_ctx \<Rightarrow> eng_run \<times> nat option \<Rightarrow> 'h engine \<Rightarrow> kv_call \<Rightarrow> kv_reply \<times> 'h engine" where
  "engine_call1 C \<equiv> kv_call1 (\<lambda>(R, t) e k v. engine_put_kv C R e k v t) (engine_read C) (\<lambda>(R, t) e k. engine_delete_kv C R e k t)"

fun reply_ok :: "kv_reply \<Rightarrow> bool" where
  "reply_ok (PutReply r) = is_ok r"
| "reply_ok (GetReply r) = is_ok r"
| "reply_ok (DeleteReply r) = is_ok r"

abbreviation puts :: "('c \<times> kv_call) list \<Rightarrow> nat" where
  "puts calls \<equiv> length (filter (\<lambda>(c, call). is_put call) calls)"

section \<open>The log of a run\<close>

text \<open>
  The engine has applied the pending entries of its log, no entry can be mistaken for one below the marker for
  another \<open>n\<close> calls, and the entries weigh at most \<open>b\<close>.
\<close>

definition synced :: "'h eng_ctx \<Rightarrow> checkpoint_marker option \<Rightarrow> nat \<Rightarrow> nat \<Rightarrow> 'h engine \<Rightarrow> bool" where
  "synced C m n b e \<longleftrightarrow> eng_ready C e \<and> en_vec e = None \<and> \<not> hm_vec_meta (en_home e) \<and>
     read_marker (ec_marker_from_slice C) (en_wal e) = Ok m \<and>
     marker_applied m < wl_next_seq (en_wal e) \<and> unat (wl_next_seq (en_wal e)) + n < 2 ^ 64 \<and>
     (\<exists>es. wal_clean (en_wal e) es \<and> in_sync C e (pending m es) \<and> ops_weight C (pending m es) \<le> b)"

lemma wal_append_Ok_fits: "wal_append w op = (Ok sq, w') \<Longrightarrow> length (encode_op op) \<le> U32_MAX"
  by (auto simp: wal_append_def Let_def split: if_splits)

text \<open>A logged operation that the KV map has taken over.\<close>

lemma synced_append:
  assumes s: "synced C m (Suc n) b e" and w: "wal_append (en_wal e) op = (Ok sq, w)" and wf: "op_wf op"
    and e': "eng_ready C (e\<lparr>en_wal := w, en_kv := kv\<rparr>)"
    and kv: "\<And>a. ea_kv a = eng_kv C e \<Longrightarrow> ea_kv (apply_op C a op) = kv_abs (ec_heed C) kv"
    and b: "op_weight C op \<le> d"
  shows "synced C m n (b + d) (e\<lparr>en_wal := w, en_kv := kv\<rparr>)"
proof -
  obtain es where es: "wal_clean (en_wal e) es" "in_sync C e (pending m es)" "ops_weight C (pending m es) \<le> b"
    using s by (auto simp: synced_def)
  let ?x = "\<lparr>we_seq = wl_next_seq (en_wal e), we_op = op\<rparr>"
  have w': "wal_clean w (es @ [?x])" "wl_next_seq w = wl_next_seq (en_wal e) + 1"
    using wal_clean_append [OF es(1) wf wal_append_Ok_fits [OF w]] w by auto
  have "fs_read (wl_dir w) MARKER = fs_read (wl_dir (en_wal e)) MARKER"
    by (rule wal_append_marker [OF es(1) w])
  then have mk: "read_marker (ec_marker_from_slice C) w = Ok m" using s by (simp add: synced_def read_marker_def)
  have lt: "marker_applied m < wl_next_seq (en_wal e)" and nw: "unat (wl_next_seq (en_wal e)) + Suc n < 2 ^ 64"
    using s by (auto simp: synced_def)
  have sq: "unat (wl_next_seq (en_wal e) + 1) = Suc (unat (wl_next_seq (en_wal e)))"
    using nw by (simp add: unat_word_ariths)
  have pend: "pending m (es @ [?x]) = pending m es @ [?x]" using lt by (intro pending_append) simp
  obtain a where a: "eng_kv C e = ea_kv (apply_ops C a (map we_op (pending m es)))"
    using es(2) by (auto simp: in_sync_def abs_of_def)
  have "in_sync C (e\<lparr>en_wal := w, en_kv := kv\<rparr>) (pending m (es @ [?x]))"
    unfolding in_sync_def pend using a kv [of "apply_ops C a (map we_op (pending m es))"]
    by (intro exI [of _ a]) (simp add: abs_of_def)
  moreover have "ops_weight C (pending m (es @ [?x])) \<le> b + d" using es(3) b by (simp add: pend ops_weight_def)
  ultimately show ?thesis
    using s e' mk w' nw lt sq by (auto simp: synced_def word_less_nat_alt intro!: exI [of _ "es @ [?x]"])
qed

lemma synced_mono: "synced C m n b e \<Longrightarrow> n' \<le> n \<Longrightarrow> b \<le> b' \<Longrightarrow> synced C m n' b' e"
  by (force simp: synced_def)

text \<open>A call that succeeds keeps the log in step with the map.\<close>

lemma synced_call:
  assumes s: "synced C m (Suc n) b e" and room: "eng_room e (k + (if is_put call then 1 else 0))"
    and c1: "engine_call1 C c e call = (r, e')" and ok: "reply_ok r"
  shows "synced C m n (Suc b) e'"
proof -
  have rdy: "eng_ready C e" using s by (simp add: synced_def)
  note law = eng.call_law [OF rdy room c1]
  obtain R t where c: "c = (R, t)" by (cases c)
  show ?thesis
  proof (cases call)
    case (PutCall key v)
    have put: "engine_put_kv C R e key v t = (Ok (), e')" using c1 ok by (auto simp: PutCall c is_ok_iff split: prod.splits)
    then obtain sq w kv where w: "wal_append (en_wal e) (PutKv key v) = (Ok sq, w)" and e': "e' = e\<lparr>en_wal := w, en_kv := kv\<rparr>"
      by (auto simp: engine_put_kv_def split: prod.splits res.splits)
    have "r = PutReply (Ok ())" using c1 put by (simp add: PutCall c)
    with law have "eng_kv C e' = (eng_kv C e)(key \<mapsto> v)" "eng_ready C e'" by (simp_all add: PutCall)
    then show ?thesis using synced_append [OF s w, of kv 1] by (simp add: e')
  next
    case (DeleteCall key)
    obtain bb where del: "engine_delete_kv C R e key t = (Ok bb, e')" using c1 ok by (auto simp: DeleteCall c is_ok_iff split: prod.splits)
    then obtain sq w kv where w: "wal_append (en_wal e) (DeleteKv key) = (Ok sq, w)" and e': "e' = e\<lparr>en_wal := w, en_kv := kv\<rparr>"
      by (auto simp: engine_delete_kv_def split: prod.splits res.splits)
    have "r = DeleteReply (Ok bb)" using c1 del by (simp add: DeleteCall c)
    with law have "eng_kv C e' = (eng_kv C e)(key := None)" "eng_ready C e'" by (simp_all add: DeleteCall)
    then show ?thesis using synced_append [OF s w, of kv 1] by (simp add: e')
  next
    case (GetCall key)
    obtain kv where e': "e' = e\<lparr>en_kv := kv\<rparr>"
      using c1 by (auto simp: GetCall engine_read_def engine_get_kv_def split: prod.splits)
    have "eng_kv C e' = eng_kv C e" "eng_ready C e'" using law by (simp_all add: GetCall)
    then have "synced C m (Suc n) b e'" using s by (simp add: synced_def in_sync_def abs_of_def e')
    then show ?thesis by (rule synced_mono) simp_all
  qed
qed

lemma synced_run:
  assumes "synced C m (n + length calls) b e" "eng_room e (puts calls)" "engine_run C e calls = (rs, e')" "list_all reply_ok rs"
  shows "synced C m n (b + length calls) e'"
  using assms
proof (induction calls arbitrary: e rs b)
  case (Cons x calls)
  obtain c call where x: "x = (c, call)" by (cases x)
  obtain r e1 where c1: "engine_call1 C c e call = (r, e1)" by (cases "engine_call1 C c e call")
  obtain rs1 where rest: "engine_run C e1 calls = (rs1, e')" "rs = r # rs1"
    using Cons.prems(3) by (auto simp: x c1 split: prod.splits)
  have room: "eng_room e (puts calls + (if is_put call then 1 else 0))" using Cons.prems(2) by (simp add: x split: if_splits)
  have s: "synced C m (Suc (n + length calls)) b e" using Cons.prems(1) by simp
  have "synced C m (n + length calls) (Suc b) e1"
    by (rule synced_call [OF s room c1]) (use Cons.prems(4) rest(2) in simp)
  moreover have "eng_room e1 (puts calls)" using eng.call_law [OF _ room c1] s by (simp add: synced_def)
  ultimately have "synced C m n (Suc b + length calls) e'"
    by (rule Cons.IH [OF _ _ rest(1)]) (use Cons.prems(4) rest(2) in simp)
  then show ?case by simp
qed simp

section \<open>Properties\<close>

text \<open>
  Durability (C8).  Take a namespace without a vector index whose pool was never flushed and never rotated, so that it has no
  recorded cursor, and whose log is clean and in sync with the store; take any sequence of puts, reads and deletes
  that all succeed and let the process end without closing the engine.  If the next process can open the
  namespace, it has the map that the replies describe, and nothing is left to replay.  After a flush this fails
  (\<open>Kv_Crash\<close>).
\<close>

theorem run_survives_crash:
  assumes "synced C m (length calls) b e" "eng_room e (puts calls)"
    and "engine_run C e calls = (rs, e')" "list_all reply_ok rs"
    and "kv_namespace e' (b + length calls)" "open_kv_only C R (engine_home e') q = Ok e''"
  shows "kv_explains (eng_kv C e) (map snd calls) rs \<and>
    eng_kv C e'' = kv_final (eng_kv C e) (map snd calls) rs \<and> eng_inv C e'' \<and>
    (\<exists>plan. engine_plan C e'' = Ok plan \<and> rp_entries plan = [])"
proof -
  have "eng_ready C e" using assms(1) by (simp add: synced_def)
  then have ex: "kv_explains (eng_kv C e) (map snd calls) rs" "eng_kv C e' = kv_final (eng_kv C e) (map snd calls) rs"
    using eng.exec_law [of C e 0 calls rs e'] assms(2,3) by simp_all
  have s: "synced C m 0 (b + length calls) e'" using synced_run [of C m 0 calls b e] assms(1-4) by simp
  then obtain es where es: "wal_clean (en_wal e') es" "in_sync C e' (pending m es)" "ops_weight C (pending m es) \<le> b + length calls"
    and rdy: "eng_ctx_ok C" "eng_inv C e'" and mk: "read_marker (ec_marker_from_slice C) (en_wal e') = Ok m"
    by (auto simp: synced_def eng_ready_def)
  have "kv_namespace e' (ops_weight C (pending m es))" using assms(5) es(3) by (simp add: kv_namespace_def)
  note cr = kv_crash [OF rdy es(1) mk this es(2) assms(6)]
  with ex show ?thesis by (simp add: abs_of_def)
qed

lemma cli_engine_synced: "synced toy_eng_ctx None 1 0 cli_engine"
proof -
  have "eng_ready toy_eng_ctx cli_engine"
    using toy_eng_ctx_ok cli_engine_inv(1) cli_wal_clean(1) by (auto simp: eng_ready_def cli_engine_def)
  moreover have "in_sync toy_eng_ctx cli_engine (pending None [])"
    unfolding in_sync_def pending_def by (rule exI [of _ "abs_of toy_eng_ctx cli_engine"]) simp
  moreover have "ops_weight toy_eng_ctx (pending None []) \<le> 0" by (simp add: ops_weight_def pending_def)
  ultimately show ?thesis
    using cli_wal_clean by (auto simp: synced_def cli_engine_def toy_home_def marker_applied_def)
qed

theorem run_survives_crash_witness:
  "case open_kv_only toy_eng_ctx toy_run (engine_home cli_put) 0 of
     Ok e \<Rightarrow> eng_kv toy_eng_ctx e = [[7] \<mapsto> [1, 2]] | _ \<Rightarrow> False"
proof -
  let ?calls = "[((toy_run, None), PutCall [7] [1, 2])]"
  from cli_put_eq obtain p where put: "engine_put_kv toy_eng_ctx toy_run cli_engine [7] [1, 2] None = (Ok (), cli_put)"
    and p: "en_kv cli_put = \<lparr>ks_env = cli_env, ks_pool = p, ks_quota_limit = 0\<rparr>"
    and d: "fs_names (sp_data_dir p) = [(segment_file 0, 0)]" by blast
  have run: "engine_run toy_eng_ctx cli_engine ?calls = ([PutReply (Ok ())], cli_put)" by (simp add: put)
  have ns: "kv_namespace cli_put (0 + length ?calls)"
    using cli_put_log(4,5) cli_dir [OF d] p by (simp add: kv_namespace_def toy_home_def)
  have room: "eng_room cli_engine (puts ?calls)" using cli_engine_inv(2) by simp
  have "kv_open mem_heed [] fs_empty 0 0 = Ok cli_kv" by (simp add: kv_open_def mem_heed_def cli_kv_def)
  from kv_open_inv(3) [OF mem_heed_laws mem_heed_empty pool_inv_open_empty this]
  have kv: "eng_kv toy_eng_ctx cli_engine = Map.empty" by (simp add: cli_engine_def toy_eng_ctx_def)
  obtain e2 where o2: "open_kv_only toy_eng_ctx toy_run (engine_home cli_put) 0 = Ok e2" using cli_open_again by blast
  from run_survives_crash [of toy_eng_ctx None ?calls 0 cli_engine, OF _ room run _ ns o2] cli_engine_synced kv
  show ?thesis by (simp add: o2)
qed

end
