(* ===== verification/Sharded.thy ===== *)
theory Sharded
  imports Engine
begin

text \<open>
  \<open>fs-core/src/sharded.rs\<close>: one logical store over several engines.  A router, which the caller may
  supply, sends a vector id or a key to a shard; searches go to all shards and are merged.

  \<open>HashRouter\<close> hashes a key with Rust's \<open>DefaultHasher\<close>, whose algorithm is left open by its
  documentation: it is an argument.  \<open>usize\<close> has 64 bits.  A shard number outside the vector of shards is a
  panic, as indexing is in the source.  The threads of a search only read their own shard, so the
  order in which they run does not matter; each has its own surroundings.
\<close>

section \<open>Routing\<close>

record router =
  rt_vector :: "u64 \<Rightarrow> nat \<Rightarrow> nat"
  rt_key :: "bytes \<Rightarrow> nat \<Rightarrow> nat"

definition hash_shard_for_vector :: "u64 \<Rightarrow> nat \<Rightarrow> nat" where
  "hash_shard_for_vector i num_shards = (if num_shards = 0 then 0 else unat i mod num_shards)"

definition hash_shard_for_key :: "(bytes \<Rightarrow> u64) \<Rightarrow> bytes \<Rightarrow> nat \<Rightarrow> nat" where
  "hash_shard_for_key hash key num_shards = (if num_shards = 0 then 0 else unat (hash key) mod num_shards)"

definition hash_router :: "(bytes \<Rightarrow> u64) \<Rightarrow> router" where
  "hash_router hash = \<lparr>rt_vector = hash_shard_for_vector, rt_key = hash_shard_for_key hash\<rparr>"

record 'h sharded_engine =
  sh_shards :: "'h engine list"
  sh_router :: router

abbreviation num_shards :: "'h sharded_engine \<Rightarrow> nat" where
  "num_shards s \<equiv> length (sh_shards s)"

section \<open>Opening\<close>

fun open_shards ::
  "'h eng_ctx \<Rightarrow> eng_run \<Rightarrow> vector_schema option \<Rightarrow> u64 \<Rightarrow> 'h home list \<Rightarrow> 'h engine list res" where
  "open_shards C R schema quota_limit [] = Ok []"
| "open_shards C R schema quota_limit (hm # hms) =
     res_bind (engine_open C R hm schema quota_limit) (\<lambda>e.
     res_bind (open_shards C R schema quota_limit hms) (\<lambda>es. Ok (e # es)))"

text \<open>\<open>homes i\<close> is what the directory \<open>shard_i\<close> holds.\<close>

definition open_with_router ::
  "'h eng_ctx \<Rightarrow> eng_run \<Rightarrow> (nat \<Rightarrow> 'h home) \<Rightarrow> nat \<Rightarrow> vector_schema option \<Rightarrow> u64 \<Rightarrow> router
     \<Rightarrow> 'h sharded_engine res" where
  "open_with_router C R homes n schema quota_limit router =
     (if n = 0 then Err (Corrupt ''num_shards must be >= 1'')
      else res_bind (open_shards C R schema quota_limit (map homes [0..<n]))
             (\<lambda>es. Ok \<lparr>sh_shards = es, sh_router = router\<rparr>))"

definition sharded_open ::
  "'h eng_ctx \<Rightarrow> eng_run \<Rightarrow> (bytes \<Rightarrow> u64) \<Rightarrow> (nat \<Rightarrow> 'h home) \<Rightarrow> nat \<Rightarrow> vector_schema option \<Rightarrow> u64
     \<Rightarrow> 'h sharded_engine res" where
  "sharded_open C R hash homes n schema quota_limit =
     open_with_router C R homes n schema quota_limit (hash_router hash)"

section \<open>Dispatch\<close>

definition on_shard :: "'h sharded_engine \<Rightarrow> nat \<Rightarrow> ('h engine \<Rightarrow> 'a res \<times> 'h engine) \<Rightarrow> 'a res \<times> 'h sharded_engine" where
  "on_shard s i f =
     (if i < num_shards s
      then (case f (sh_shards s ! i) of (r, e) \<Rightarrow> (r, s\<lparr>sh_shards := (sh_shards s)[i := e]\<rparr>))
      else (Panic, s))"

definition shard_for_vector :: "'h sharded_engine \<Rightarrow> u64 \<Rightarrow> nat" where
  "shard_for_vector s i = rt_vector (sh_router s) i (num_shards s)"

definition shard_for_key :: "'h sharded_engine \<Rightarrow> bytes \<Rightarrow> nat" where
  "shard_for_key s key = rt_key (sh_router s) key (num_shards s)"

definition sharded_disk_bytes :: "'h sharded_engine \<Rightarrow> nat" where
  "sharded_disk_bytes s = sum_list (map engine_disk_bytes (sh_shards s))"

definition vector_count :: "'h sharded_engine \<Rightarrow> nat" where
  "vector_count s =
     sum_list (map (\<lambda>e. case en_vec e of None \<Rightarrow> 0 | Some idx \<Rightarrow> vec_index_len idx) (sh_shards s))"

definition sharded_put_kv ::
  "'h eng_ctx \<Rightarrow> eng_run \<Rightarrow> 'h sharded_engine \<Rightarrow> bytes \<Rightarrow> bytes \<Rightarrow> nat option \<Rightarrow> unit res \<times> 'h sharded_engine" where
  "sharded_put_kv C R s key value timeout =
     on_shard s (shard_for_key s key) (\<lambda>e. engine_put_kv C R e key value timeout)"

definition sharded_get_kv ::
  "'h eng_ctx \<Rightarrow> 'h sharded_engine \<Rightarrow> bytes \<Rightarrow> zero_copy_buffer option res \<times> 'h sharded_engine" where
  "sharded_get_kv C s key = on_shard s (shard_for_key s key) (\<lambda>e. engine_get_kv C e key)"

definition sharded_delete_kv ::
  "'h eng_ctx \<Rightarrow> eng_run \<Rightarrow> 'h sharded_engine \<Rightarrow> bytes \<Rightarrow> nat option \<Rightarrow> bool res \<times> 'h sharded_engine" where
  "sharded_delete_kv C R s key timeout =
     on_shard s (shard_for_key s key) (\<lambda>e. engine_delete_kv C R e key timeout)"

text \<open>A loop over all shards that stops at the first error.\<close>

fun each_shard :: "('h engine \<Rightarrow> unit res \<times> 'h engine) \<Rightarrow> 'h engine list \<Rightarrow> unit res \<times> 'h engine list" where
  "each_shard f [] = (Ok (), [])"
| "each_shard f (e # es) =
     (case f e of
        (Ok u, e') \<Rightarrow> (case each_shard f es of (r, es') \<Rightarrow> (r, e' # es'))
      | (Err x, e') \<Rightarrow> (Err x, e' # es)
      | (Panic, e') \<Rightarrow> (Panic, e' # es))"

definition for_shards :: "('h engine \<Rightarrow> unit res \<times> 'h engine) \<Rightarrow> 'h sharded_engine \<Rightarrow> unit res \<times> 'h sharded_engine" where
  "for_shards f s = (case each_shard f (sh_shards s) of (r, es) \<Rightarrow> (r, s\<lparr>sh_shards := es\<rparr>))"

definition sharded_create_vector_index ::
  "'h eng_ctx \<Rightarrow> 'h sharded_engine \<Rightarrow> vector_schema \<Rightarrow> unit res \<times> 'h sharded_engine" where
  "sharded_create_vector_index C s schema = for_shards (\<lambda>e. create_vector_index C e schema) s"

definition sharded_open_vector_index :: "'h sharded_engine \<Rightarrow> vector_schema res" where
  "sharded_open_vector_index s =
     (case sh_shards s of [] \<Rightarrow> Panic | e # es \<Rightarrow> open_vector_index e)"

definition sharded_insert_vector ::
  "'h eng_ctx \<Rightarrow> eng_run \<Rightarrow> 'h sharded_engine \<Rightarrow> u64 \<Rightarrow> f32 list \<Rightarrow> unit res \<times> 'h sharded_engine" where
  "sharded_insert_vector C R s i vector =
     on_shard s (shard_for_vector s i) (\<lambda>e. insert_vector C R e i vector)"

definition bucket :: "'h sharded_engine \<Rightarrow> (u64 \<times> f32 list) list \<Rightarrow> nat \<Rightarrow> (u64 \<times> f32 list) list" where
  "bucket s items n = filter (\<lambda>(i, v). shard_for_vector s i = n) items"

fun insert_buckets ::
  "'h eng_ctx \<Rightarrow> eng_run \<Rightarrow> ((u64 \<times> f32 list) list \<times> 'h engine) list \<Rightarrow> unit res \<times> 'h engine list" where
  "insert_buckets C R [] = (Ok (), [])"
| "insert_buckets C R ((b, e) # rest) =
     (if b = [] then (case insert_buckets C R rest of (r, es) \<Rightarrow> (r, e # es))
      else
        (case insert_vector_batch C R e b of
           (Ok u, e') \<Rightarrow> (case insert_buckets C R rest of (r, es) \<Rightarrow> (r, e' # es))
         | (Err x, e') \<Rightarrow> (Err x, e' # map snd rest)
         | (Panic, e') \<Rightarrow> (Panic, e' # map snd rest)))"

definition sharded_insert_batch ::
  "'h eng_ctx \<Rightarrow> eng_run \<Rightarrow> 'h sharded_engine \<Rightarrow> (u64 \<times> f32 list) list \<Rightarrow> unit res \<times> 'h sharded_engine" where
  "sharded_insert_batch C R s items =
     (if list_ex (\<lambda>(i, v). shard_for_vector s i \<ge> num_shards s) items then (Panic, s)
      else
        (case insert_buckets C R (zip (map (bucket s items) [0..<num_shards s]) (sh_shards s)) of
           (r, es) \<Rightarrow> (r, s\<lparr>sh_shards := es\<rparr>)))"

section \<open>Search\<close>

text \<open>
  \<open>sort_by\<close> with \<open>partial_cmp\<close> and \<open>Equal\<close> for incomparable distances: a stable sort by the
  numeric value where no distance is a NaN.  With one the comparison is no order and the result of the
  library's sort is not specified: \<open>nan_sort\<close> (\<open>None\<close> where it panics).
\<close>

definition num_key :: "f32 \<Rightarrow> int" where
  "num_key d = (if f32_zero d then 0 else total_key d)"

definition sort_hits ::
  "((u64 \<times> f32) list \<Rightarrow> (u64 \<times> f32) list option) \<Rightarrow> (u64 \<times> f32) list \<Rightarrow> (u64 \<times> f32) list res" where
  "sort_hits nan_sort hits =
     (if list_ex (\<lambda>(i, d). f32_nan d) hits
      then (case nan_sort hits of None \<Rightarrow> Panic | Some hs \<Rightarrow> Ok hs)
      else Ok (sort_key (\<lambda>(i, d). num_key d) hits))"

text \<open>A shard that fails or panics is logged and left out.\<close>

fun fan_out ::
  "'h eng_ctx \<Rightarrow> (nat \<Rightarrow> eng_run) \<Rightarrow> f32 list \<Rightarrow> nat \<Rightarrow> nat \<Rightarrow> 'h engine list
     \<Rightarrow> (u64 \<times> f32) list \<times> 'h engine list" where
  "fan_out C Rs query top_k n [] = ([], [])"
| "fan_out C Rs query top_k n (e # es) =
     (case engine_search_knn C (Rs n) e query top_k of
        (r, e') \<Rightarrow>
          (case fan_out C Rs query top_k (Suc n) es of
             (hits, es') \<Rightarrow> ((case r of Ok part \<Rightarrow> part @ hits | _ \<Rightarrow> hits), e' # es')))"

definition sharded_search_knn ::
  "'h eng_ctx \<Rightarrow> (nat \<Rightarrow> eng_run) \<Rightarrow> ((u64 \<times> f32) list \<Rightarrow> (u64 \<times> f32) list option) \<Rightarrow> 'h sharded_engine
     \<Rightarrow> f32 list \<Rightarrow> nat \<Rightarrow> (u64 \<times> f32) list res \<times> 'h sharded_engine" where
  "sharded_search_knn C Rs nan_sort s query top_k =
     (if num_shards s = 1 then on_shard s 0 (\<lambda>e. engine_search_knn C (Rs 0) e query top_k)
      else
        (case fan_out C Rs query top_k 0 (sh_shards s) of
           (hits, es) \<Rightarrow>
             (res_bind (sort_hits nan_sort hits) (\<lambda>hs. Ok (take top_k hs)), s\<lparr>sh_shards := es\<rparr>)))"

section \<open>The other operations\<close>

definition sharded_delete_vector :: "'h sharded_engine \<Rightarrow> u64 \<Rightarrow> bool res \<times> 'h sharded_engine" where
  "sharded_delete_vector s i = on_shard s (shard_for_vector s i) (\<lambda>e. delete_vector e i)"

definition sharded_get_vector ::
  "'h eng_ctx \<Rightarrow> eng_run \<Rightarrow> 'h sharded_engine \<Rightarrow> u64 \<Rightarrow> f32 list option res \<times> 'h sharded_engine" where
  "sharded_get_vector C R s i = on_shard s (shard_for_vector s i) (\<lambda>e. engine_get_vector C R e i)"

fun list_shards :: "'h engine list \<Rightarrow> u64 list res" where
  "list_shards [] = Ok []"
| "list_shards (e # es) =
     res_bind (engine_list_vector_ids e) (\<lambda>ids. res_bind (list_shards es) (\<lambda>rest. Ok (ids @ rest)))"

definition sharded_list_vector_ids :: "'h sharded_engine \<Rightarrow> u64 list res" where
  "sharded_list_vector_ids s = list_shards (sh_shards s)"

definition sharded_put_columnar ::
  "'h eng_ctx \<Rightarrow> eng_run \<Rightarrow> 'h sharded_engine \<Rightarrow> bytes \<Rightarrow> record_batch \<Rightarrow> nat option \<Rightarrow> unit res \<times> 'h sharded_engine" where
  "sharded_put_columnar C R s table_id batch timeout =
     on_shard s (shard_for_key s table_id) (\<lambda>e. engine_put_columnar C R e table_id batch timeout)"

definition sharded_get_columnar ::
  "'h eng_ctx \<Rightarrow> 'h sharded_engine \<Rightarrow> bytes \<Rightarrow> bytes list \<Rightarrow> record_batch option res \<times> 'h sharded_engine" where
  "sharded_get_columnar C s table_id columns =
     on_shard s (shard_for_key s table_id) (\<lambda>e. engine_get_columnar C e table_id columns)"

definition sharded_checkpoint :: "'h eng_ctx \<Rightarrow> 'h sharded_engine \<Rightarrow> unit res \<times> 'h sharded_engine" where
  "sharded_checkpoint C s = for_shards (engine_checkpoint C) s"

definition sharded_recover :: "'h eng_ctx \<Rightarrow> eng_run \<Rightarrow> 'h sharded_engine \<Rightarrow> unit res \<times> 'h sharded_engine" where
  "sharded_recover C R s = for_shards (engine_recover C R) s"

definition sharded_close :: "'h eng_ctx \<Rightarrow> 'h sharded_engine \<Rightarrow> unit res \<times> 'h sharded_engine" where
  "sharded_close C s = for_shards (engine_close C) s"

section \<open>Comparing distances\<close>

lemma f32_zero_iff: "f32_zero x \<longleftrightarrow> x = 0 \<or> x = 0x80000000"
proof
  assume z: "f32_zero x"
  have low: "\<not> bit x n" if "n < 31" for n
  proof -
    have "bit (x AND mask 31) n = bit x n" using that by (simp add: bit_and_iff bit_mask_iff)
    moreover have "x AND mask 31 = 0" using z by (simp add: f32_zero_def mask_eq_exp_minus_1)
    ultimately show ?thesis by simp
  qed
  show "x = 0 \<or> x = 0x80000000"
  proof (cases "bit x 31")
    case True
    have "x = 2 ^ 31"
    proof (rule bit_word_eqI)
      fix n
      assume "n < LENGTH(32)"
      then show "bit x n \<longleftrightarrow> bit (2 ^ 31 :: f32) n"
        unfolding bit_exp_iff using low [of n] True by (cases "n = 31") auto
    qed
    then show ?thesis by simp
  next
    case False
    have "x = 0"
      by (rule bit_word_eqI) (use low False in \<open>auto simp: less_Suc_eq numeral_eq_Suc\<close>)
    then show ?thesis by simp
  qed
qed (auto simp: f32_zero_def)

lemma total_key_zeros: "total_key 0 = 0" "total_key 0x80000000 = - 1"
  by code_simp+

lemma num_key_lt:
  assumes "\<not> f32_nan a" "\<not> f32_nan b"
  shows "f32_lt a b \<longleftrightarrow> num_key a < num_key b"
proof -
  have nz: "total_key x \<noteq> 0 \<and> total_key x \<noteq> - 1" if "\<not> f32_zero x" for x
    using that by (auto simp: f32_zero_iff simp flip: total_key_zeros simp: total_key_inj)
  have z: "total_key x = 0 \<or> total_key x = - 1" if "f32_zero x" for x
    using that by (auto simp: f32_zero_iff total_key_zeros)
  show ?thesis
    using assms nz [of a] nz [of b] z [of a] z [of b]
    by (auto simp: f32_lt_def num_key_def)
qed

section \<open>Merging\<close>

definition shard_hits ::
  "'h eng_ctx \<Rightarrow> eng_run \<Rightarrow> f32 list \<Rightarrow> nat \<Rightarrow> 'h engine \<Rightarrow> (u64 \<times> f32) list" where
  "shard_hits C R query top_k e =
     (case fst (engine_search_knn C R e query top_k) of Ok part \<Rightarrow> part | _ \<Rightarrow> [])"

lemma fan_out_hits:
  "fst (fan_out C Rs query top_k n es) =
     concat (map (\<lambda>(m, e). shard_hits C (Rs m) query top_k e) (enumerate n es))"
  by (induction es arbitrary: n) (auto simp: shard_hits_def split_beta split: res.splits)

lemma take_sort_key_least:
  fixes key :: "'a \<Rightarrow> 'b :: linorder"
  shows "mset (take k (sort_key key xs)) + mset (drop k (sort_key key xs)) = mset xs"
    and "sorted (map key (take k (sort_key key xs)))"
    and "x \<in> set (take k (sort_key key xs)) \<Longrightarrow> y \<in> set (drop k (sort_key key xs)) \<Longrightarrow> key x \<le> key y"
proof -
  let ?s = "sort_key key xs"
  have s: "sorted (map key (take k ?s) @ map key (drop k ?s))"
    by (simp flip: map_append)
  show "mset (take k ?s) + mset (drop k ?s) = mset xs"
    by (simp flip: mset_append)
  show "sorted (map key (take k ?s))" using s by (simp only: sorted_append)
  show "x \<in> set (take k ?s) \<Longrightarrow> y \<in> set (drop k ?s) \<Longrightarrow> key x \<le> key y"
    using s unfolding sorted_append by (auto simp: image_iff)
qed

lemma sharded_search_merges:
  assumes n: "num_shards s \<noteq> 1"
    and hits: "hits = concat (map (\<lambda>(m, e). shard_hits C (Rs m) query top_k e) (enumerate 0 (sh_shards s)))"
    and nan: "\<not> list_ex (\<lambda>(i, d). f32_nan d) hits"
  shows "\<exists>hs rest. fst (sharded_search_knn C Rs nan_sort s query top_k) = Ok hs \<and>
    mset hs + mset rest = mset hits \<and> length hs = min top_k (length hits) \<and>
    sorted (map (\<lambda>(i, d). num_key d) hs) \<and>
    (\<forall>x \<in> set hs. \<forall>y \<in> set rest. \<not> f32_lt (snd y) (snd x))"
proof (intro exI conjI)
  let ?key = "\<lambda>(i :: u64, d). num_key d"
  let ?s = "sort_key ?key hits"
  show "fst (sharded_search_knn C Rs nan_sort s query top_k) = Ok (take top_k ?s)"
    using n nan by (simp add: sharded_search_knn_def split_beta fan_out_hits sort_hits_def flip: hits)
  show ms: "mset (take top_k ?s) + mset (drop top_k ?s) = mset hits" by (rule take_sort_key_least(1))
  show "length (take top_k ?s) = min top_k (length hits)" by simp
  show "sorted (map ?key (take top_k ?s))" by (rule take_sort_key_least(2))
  show "\<forall>x \<in> set (take top_k ?s). \<forall>y \<in> set (drop top_k ?s). \<not> f32_lt (snd y) (snd x)"
  proof (intro ballI)
    fix x y
    assume x: "x \<in> set (take top_k ?s)" and y: "y \<in> set (drop top_k ?s)"
    from x y have "x \<in> set hits" "y \<in> set hits" by (auto dest: in_set_takeD in_set_dropD)
    with nan have "\<not> f32_nan (snd x)" "\<not> f32_nan (snd y)" by (auto simp: list_ex_iff)
    with num_key_lt take_sort_key_least(3) [OF x y] show "\<not> f32_lt (snd y) (snd x)"
      by (auto simp: split_beta)
  qed
qed

section \<open>One store out of many\<close>

text \<open>
  What the shards hold together: a key or an id is looked up in the shard it is routed to.
  \<open>placed\<close>: no shard holds a vector that is routed elsewhere.
\<close>

definition routed :: "'h sharded_engine \<Rightarrow> bool" where
  "routed s \<longleftrightarrow> (\<forall>k. shard_for_key s k < num_shards s) \<and> (\<forall>i. shard_for_vector s i < num_shards s)"

definition sh_kv :: "'h eng_ctx \<Rightarrow> 'h sharded_engine \<Rightarrow> bytes \<rightharpoonup> bytes" where
  "sh_kv C s k = ea_kv (abs_of C (sh_shards s ! shard_for_key s k)) k"

definition sh_live :: "'h eng_ctx \<Rightarrow> 'h sharded_engine \<Rightarrow> u64 \<rightharpoonup> f32 list" where
  "sh_live C s i = ea_live (abs_of C (sh_shards s ! shard_for_vector s i)) i"

definition placed :: "'h eng_ctx \<Rightarrow> 'h sharded_engine \<Rightarrow> bool" where
  "placed C s \<longleftrightarrow> (\<forall>n < num_shards s. \<forall>i. ea_taken (abs_of C (sh_shards s ! n)) i \<noteq> None \<longrightarrow> shard_for_vector s i = n)"

definition sh_ready :: "'h eng_ctx \<Rightarrow> 'h sharded_engine \<Rightarrow> bool" where
  "sh_ready C s \<longleftrightarrow> list_all (\<lambda>e. eng_inv C e \<and> eng_room e 1 \<and> (\<exists>es. wal_clean (en_wal e) es)) (sh_shards s)"

lemma routed_hash_router:
  assumes "sh_router s = hash_router hash" "sh_shards s \<noteq> []"
  shows "routed s"
  using assms
  by (simp add: routed_def shard_for_key_def shard_for_vector_def hash_router_def hash_shard_for_vector_def
      hash_shard_for_key_def)

lemma open_shards_length: "open_shards C R schema q hms = Ok es \<Longrightarrow> length es = length hms"
  by (induction hms arbitrary: es) auto

lemma insert_vector_correct:
  assumes ctx: "eng_ctx_ok C" and inv: "eng_inv C e" and room: "eng_room e 1" and log: "wal_clean (en_wal e) es"
    and fits: "length (encode_op (InsertVector i v)) \<le> U32_MAX" and ins: "insert_vector C R e i v = (r, e')"
  shows "eng_inv C e'" "is_ok r \<Longrightarrow> ea_taken (abs_of C e) i = None"
    "abs_of C e' = (if is_ok r then apply_op C (abs_of C e) (InsertVector i v) else abs_of C e)"
proof -
  obtain w where w: "wal_append (en_wal e) (InsertVector i v) = (Ok (wl_next_seq (en_wal e)), w)"
    using wal_clean_append [OF log, of "InsertVector i v"] fits by auto
  have "eng_inv C e' \<and> (is_ok r \<longrightarrow> ea_taken (abs_of C e) i = None) \<and>
      abs_of C e' = (if is_ok r then apply_op C (abs_of C e) (InsertVector i v) else abs_of C e)"
  proof (cases "en_vec e")
    case None
    with ins w inv show ?thesis by (auto simp: insert_vector_def eng_inv_def abs_of_def)
  next
    case (Some idx)
    obtain idx' where ii: "index_insert (ec_vec C) (er_held R) (er_now R) idx i v = (r, idx')"
      and e': "e' = e\<lparr>en_wal := w, en_vec := Some idx'\<rparr>"
      using ins w Some by (auto simp: insert_vector_def split: prod.splits)
    have iv: "index_inv (ec_vec C) idx" and rv: "vec_room_for (vi_pool idx) 1"
      using inv room by (simp_all add: eng_inv_def eng_room_def Some)
    from index_insert_keeps [OF eng_vec [OF ctx] iv vec_room_for_room [OF rv] ii] inv show ?thesis
      by (auto simp: eng_inv_def abs_of_def e' Some)
  qed
  then show "eng_inv C e'" "is_ok r \<Longrightarrow> ea_taken (abs_of C e) i = None"
    "abs_of C e' = (if is_ok r then apply_op C (abs_of C e) (InsertVector i v) else abs_of C e)"
    by blast+
qed

lemma on_shard_Ok:
  assumes "on_shard s n f = (r, s')" "n < num_shards s"
  obtains e where "f (sh_shards s ! n) = (r, e)" "s' = s\<lparr>sh_shards := (sh_shards s)[n := e]\<rparr>"
  using assms by (auto simp: on_shard_def split: prod.splits)

lemma shard_for_update [simp]:
  "length es = num_shards s \<Longrightarrow> shard_for_key (s\<lparr>sh_shards := es\<rparr>) k = shard_for_key s k"
  "length es = num_shards s \<Longrightarrow> shard_for_vector (s\<lparr>sh_shards := es\<rparr>) i = shard_for_vector s i"
  by (simp_all add: shard_for_key_def shard_for_vector_def)

lemma sh_readyD:
  assumes "sh_ready C s" "n < num_shards s"
  obtains es where "eng_inv C (sh_shards s ! n)" "eng_room (sh_shards s ! n) 1" "wal_clean (en_wal (sh_shards s ! n)) es"
  using assms by (auto simp: sh_ready_def list_all_length)

lemma sharded_put_kv_correct:
  assumes ctx: "eng_ctx_ok C" and ready: "sh_ready C s" and rt: "routed s" and pl: "placed C s"
    and fits: "length (encode_op (PutKv k v)) \<le> U32_MAX" and put: "sharded_put_kv C R s k v t = (r, s')"
  shows "sh_kv C s' = (if is_ok r then (sh_kv C s)(k \<mapsto> v) else sh_kv C s) \<and> sh_live C s' = sh_live C s \<and> placed C s' \<and>
    list_all (eng_inv C) (sh_shards s')"
proof -
  let ?n = "shard_for_key s k"
  have n: "?n < num_shards s" using rt by (simp add: routed_def)
  obtain e where e: "engine_put_kv C R (sh_shards s ! ?n) k v t = (r, e)"
    and s': "s' = s\<lparr>sh_shards := (sh_shards s)[?n := e]\<rparr>"
    using put on_shard_Ok [OF _ n] unfolding sharded_put_kv_def by blast
  obtain es where rd: "eng_inv C (sh_shards s ! ?n)" "eng_room (sh_shards s ! ?n) 1" "wal_clean (en_wal (sh_shards s ! ?n)) es"
    by (rule sh_readyD [OF ready n])
  note p = engine_put_kv_correct [OF ctx rd fits e]
  have "sh_kv C s' = (if is_ok r then (sh_kv C s)(k \<mapsto> v) else sh_kv C s)"
    using n p(3) by (auto simp: fun_eq_iff sh_kv_def s' nth_list_update)
  moreover have "sh_live C s' = sh_live C s"
    using n p(3) rt by (auto simp: fun_eq_iff sh_live_def s' nth_list_update routed_def)
  moreover have "placed C s'"
    using pl n p(3) by (auto simp: placed_def s' nth_list_update split: if_splits)
  moreover have "list_all (eng_inv C) (sh_shards s')"
    using ready p(1) n by (auto simp: sh_ready_def list_all_length s' nth_list_update)
  ultimately show ?thesis by blast
qed

lemma sharded_insert_vector_correct:
  assumes ctx: "eng_ctx_ok C" and ready: "sh_ready C s" and rt: "routed s" and pl: "placed C s"
    and fits: "length (encode_op (InsertVector i v)) \<le> U32_MAX" and ins: "sharded_insert_vector C R s i v = (r, s')"
  shows "sh_live C s' = (if is_ok r then (sh_live C s)(i \<mapsto> v) else sh_live C s) \<and> sh_kv C s' = sh_kv C s \<and> placed C s' \<and>
    list_all (eng_inv C) (sh_shards s')"
proof -
  let ?n = "shard_for_vector s i"
  have n: "?n < num_shards s" using rt by (simp add: routed_def)
  obtain e where e: "insert_vector C R (sh_shards s ! ?n) i v = (r, e)"
    and s': "s' = s\<lparr>sh_shards := (sh_shards s)[?n := e]\<rparr>"
    using ins on_shard_Ok [OF _ n] unfolding sharded_insert_vector_def by blast
  obtain es where rd: "eng_inv C (sh_shards s ! ?n)" "eng_room (sh_shards s ! ?n) 1" "wal_clean (en_wal (sh_shards s ! ?n)) es"
    by (rule sh_readyD [OF ready n])
  note p = insert_vector_correct [OF ctx rd fits e]
  have "sh_live C s' = (if is_ok r then (sh_live C s)(i \<mapsto> v) else sh_live C s)"
    using n p(2,3) by (auto simp: fun_eq_iff sh_live_def s' nth_list_update)
  moreover have "sh_kv C s' = sh_kv C s"
    using n p(2,3) rt by (auto simp: fun_eq_iff sh_kv_def s' nth_list_update routed_def)
  moreover have "placed C s'"
    using pl n p(2,3) by (auto simp: placed_def s' nth_list_update split: if_splits)
  moreover have "list_all (eng_inv C) (sh_shards s')"
    using ready p(1) n by (auto simp: sh_ready_def list_all_length s' nth_list_update)
  ultimately show ?thesis by blast
qed

text \<open>The ids of all shards together.\<close>

lemma engine_ids:
  assumes inv: "eng_inv C e" and ids: "engine_list_vector_ids e = Ok ids"
  shows "distinct ids" "set ids = dom (ea_live (abs_of C e))"
proof -
  obtain idx where idx: "en_vec e = Some idx" and l: "ids = all_ids (vi_graph idx)"
    using ids by (auto simp: engine_list_vector_ids_def ensure_vec_def list_vector_ids_def split: option.splits)
  have iv: "index_inv (ec_vec C) idx" using inv by (simp add: eng_inv_def idx)
  note wf = index_inv_graph [OF iv]
  show "distinct ids"
    unfolding l all_ids_def using nsw_wf_distinct [OF wf] by (rule distinct_map_filter)
  have "i \<in> set ids \<longleftrightarrow> i \<in> dom (ea_live (abs_of C e))" for i
  proof -
    have "\<not> is_deleted (vi_graph idx) i \<Longrightarrow> stored_vectors (ec_vec C) idx i \<noteq> None"
      using stored_iff [OF iv, of i] live_in_nodes [of "vi_graph idx" i] by auto
    then show ?thesis
      unfolding l all_ids_iff [OF wf] by (auto simp: abs_of_def idx index_abs_def split: if_splits)
  qed
  then show "set ids = dom (ea_live (abs_of C e))" by blast
qed

lemma live_taken: "ea_live (abs_of C e) i \<noteq> None \<Longrightarrow> ea_taken (abs_of C e) i \<noteq> None"
  by (auto simp: abs_of_def index_abs_def split: option.splits if_splits)

lemma list_shards_ids:
  assumes "list_shards es = Ok ids" "list_all (eng_inv C) es"
    and "\<And>n i. n < length es \<Longrightarrow> ea_live (abs_of C (es ! n)) i \<noteq> None \<Longrightarrow> rt i = n + m"
  shows "distinct ids \<and> (\<forall>i. i \<in> set ids \<longleftrightarrow> (\<exists>n < length es. ea_live (abs_of C (es ! n)) i \<noteq> None))"
  using assms
proof (induction es arbitrary: ids m)
  case Nil
  then show ?case by simp
next
  case (Cons e es)
  then obtain ids1 ids2 where i1: "engine_list_vector_ids e = Ok ids1" and i2: "list_shards es = Ok ids2"
    and ids: "ids = ids1 @ ids2"
    by auto
  have inv: "eng_inv C e" "list_all (eng_inv C) es" using Cons.prems(2) by simp_all
  note e = engine_ids [OF inv(1) i1]
  have rt1: "rt i = m" if "i \<in> set ids1" for i
    using Cons.prems(3) [of 0 i] that e(2) by auto
  have rt: "rt i = n + Suc m" if "n < length es" "ea_live (abs_of C (es ! n)) i \<noteq> None" for n i
    using Cons.prems(3) [of "Suc n" i] that by simp
  have IH: "distinct ids2" "\<And>i. i \<in> set ids2 \<longleftrightarrow> (\<exists>n < length es. ea_live (abs_of C (es ! n)) i \<noteq> None)"
    using Cons.IH [OF i2 inv(2) rt] by blast+
  have "set ids1 \<inter> set ids2 = {}"
  proof -
    have "rt i \<noteq> m" if i: "i \<in> set ids2" for i
    proof -
      obtain n where "n < length es" "ea_live (abs_of C (es ! n)) i \<noteq> None"
        using IH(2) [of i] i by blast
      from rt [OF this] show ?thesis by simp
    qed
    with rt1 show ?thesis by blast
  qed
  moreover have "(\<exists>n < length (e # es). ea_live (abs_of C ((e # es) ! n)) i \<noteq> None) \<longleftrightarrow>
      ea_live (abs_of C e) i \<noteq> None \<or> (\<exists>n < length es. ea_live (abs_of C (es ! n)) i \<noteq> None)" for i
    by (simp add: Ex_less_Suc2)
  ultimately show ?case
    using e IH by (auto simp: ids)
qed

lemma sharded_ids:
  assumes ids: "sharded_list_vector_ids s = Ok ids" and inv: "list_all (eng_inv C) (sh_shards s)"
    and pl: "placed C s" and rt: "routed s"
  shows "distinct ids \<and> set ids = dom (sh_live C s)"
proof -
  have own: "shard_for_vector s i = n + 0"
    if "n < num_shards s" "ea_live (abs_of C (sh_shards s ! n)) i \<noteq> None" for n i
    using pl that live_taken [of C "sh_shards s ! n" i] by (auto simp: placed_def)
  have ls: "distinct ids \<and> (\<forall>i. i \<in> set ids \<longleftrightarrow> (\<exists>n < num_shards s. ea_live (abs_of C (sh_shards s ! n)) i \<noteq> None))"
    by (rule list_shards_ids [OF ids [unfolded sharded_list_vector_ids_def] inv, of "shard_for_vector s" 0]) (rule own)
  have "i \<in> set ids \<longleftrightarrow> sh_live C s i \<noteq> None" for i
  proof
    assume "i \<in> set ids"
    then obtain n where n: "n < num_shards s" "ea_live (abs_of C (sh_shards s ! n)) i \<noteq> None"
      using ls by blast
    with own [OF n] show "sh_live C s i \<noteq> None" by (simp add: sh_live_def)
  next
    assume "sh_live C s i \<noteq> None"
    moreover have "shard_for_vector s i < num_shards s" using rt by (simp add: routed_def)
    ultimately show "i \<in> set ids"
      using ls unfolding sh_live_def by blast
  qed
  with ls show ?thesis by blast
qed

section \<open>Two shards to run\<close>

definition toy_sharded :: "mem_db sharded_engine" where
  "toy_sharded = \<lparr>sh_shards = [toy_engine, toy_engine], sh_router = hash_router (\<lambda>k. 5)\<rparr>"

lemma toy_sharded_ready: "sh_ready toy_eng_ctx toy_sharded" "routed toy_sharded" "placed toy_eng_ctx toy_sharded"
proof -
  have "eng_room toy_engine 1" by code_simp
  moreover have "wal_clean (en_wal toy_engine) []" using wal_clean_empty by (simp add: toy_engine_def)
  ultimately show "sh_ready toy_eng_ctx toy_sharded"
    using toy_engine_inv by (auto simp: sh_ready_def toy_sharded_def)
  show "routed toy_sharded"
    by (rule routed_hash_router [where hash = "\<lambda>k. 5"]) (simp_all add: toy_sharded_def)
  have "ea_taken (abs_of toy_eng_ctx toy_engine) i = None" for i
  proof (rule ccontr)
    assume "ea_taken (abs_of toy_eng_ctx toy_engine) i \<noteq> None"
    then have "stored_vectors toy_ctx toy_index i \<noteq> None"
      by (simp add: abs_of_def toy_engine_def toy_eng_ctx_def)
    moreover have "map_of (ng_nodes (vi_graph toy_index)) i = None"
      by (simp add: toy_index_def index_open_def) code_simp
    ultimately show False using stored_iff [OF toy_index_inv(1)] by simp
  qed
  then show "placed toy_eng_ctx toy_sharded"
    by (auto simp: placed_def toy_sharded_def less_Suc_eq numeral_2_eq_2)
qed

section \<open>Properties\<close>

text \<open>
  Shard numbers.  An engine that was opened with the hash router has the number of shards that was
  asked for, at least one, and every key and every id is routed to one of them: no operation indexes
  outside the vector of shards.  With no shards the opening is refused.
\<close>

theorem sharded_open_in_range:
  "(case sharded_open C R hash homes n schema q of
      Ok s \<Rightarrow> num_shards s = n \<and> 0 < n \<and> (\<forall>k. shard_for_key s k < n) \<and> (\<forall>i. shard_for_vector s i < n)
    | Err x \<Rightarrow> True
    | Panic \<Rightarrow> True) \<and>
   sharded_open C R hash homes 0 schema q = Err (Corrupt ''num_shards must be >= 1'')"
proof -
  have none: "sharded_open C R hash homes 0 schema q = Err (Corrupt ''num_shards must be >= 1'')"
    by (simp add: sharded_open_def open_with_router_def)
  show ?thesis
  proof (cases "sharded_open C R hash homes n schema q")
    case (Ok s)
    then obtain es where es: "open_shards C R schema q (map homes [0..<n]) = Ok es" and n: "n \<noteq> 0"
      and s: "s = \<lparr>sh_shards = es, sh_router = hash_router hash\<rparr>"
      by (auto simp: sharded_open_def open_with_router_def split: if_splits)
    have "length es = n" using open_shards_length [OF es] by simp
    with n s none routed_hash_router [of s hash] show ?thesis
      by (auto simp: Ok routed_def)
  qed (simp_all add: none)
qed

text \<open>
  The shards are one KV map.  A put through any router that stays in range refines the update
  of the map that looks a key up in its shard, and touches no vector.
\<close>

theorem sharded_put_kv_refines:
  assumes "eng_ctx_ok C" "sh_ready C s" "routed s" "placed C s"
    and "length (encode_op (PutKv k v)) \<le> U32_MAX" "sharded_put_kv C R s k v t = (r, s')"
  shows "sh_kv C s' = (if is_ok r then (sh_kv C s)(k \<mapsto> v) else sh_kv C s) \<and> sh_live C s' = sh_live C s"
  using sharded_put_kv_correct [OF assms] by blast

theorem sharded_put_kv_refines_witness:
  "let (r, s') = sharded_put_kv toy_eng_ctx toy_run toy_sharded [7] [1, 2] None
   in r = Ok () \<and> sh_kv toy_eng_ctx s' [7] = Some [1, 2]"
proof -
  let ?p = "sharded_put_kv toy_eng_ctx toy_run toy_sharded [7] [1, 2] None"
  have r: "fst ?p = Ok ()" by code_simp
  have len: "length (encode_op (PutKv [7] [1, 2])) \<le> U32_MAX" by code_simp
  from sharded_put_kv_refines [OF toy_eng_ctx_ok toy_sharded_ready len surjective_pairing] r
  show ?thesis unfolding Let_def by (simp add: split_beta)
qed

text \<open>
  The shards are one set of vectors.  An insertion refines the update of the map of live
  vectors and keeps every vector in the shard it is routed to; so the ids that are listed afterwards are
  distinct and are exactly the live ones.
\<close>

theorem sharded_insert_refines:
  assumes "eng_ctx_ok C" "sh_ready C s" "routed s" "placed C s"
    and "length (encode_op (InsertVector i v)) \<le> U32_MAX" "sharded_insert_vector C R s i v = (r, s')"
  shows "sh_live C s' = (if is_ok r then (sh_live C s)(i \<mapsto> v) else sh_live C s) \<and> sh_kv C s' = sh_kv C s \<and>
    placed C s' \<and> (\<forall>ids. sharded_list_vector_ids s' = Ok ids \<longrightarrow> distinct ids \<and> set ids = dom (sh_live C s'))"
proof -
  note ins = sharded_insert_vector_correct [OF assms]
  have "routed s'"
    using assms(3,6) by (auto simp: routed_def sharded_insert_vector_def on_shard_def split: if_splits prod.splits)
  with ins sharded_ids [of s' _ C] show ?thesis by blast
qed

theorem sharded_insert_refines_witness:
  "let (r, s') = sharded_insert_vector toy_eng_ctx toy_run toy_sharded 3 [5]
   in r = Ok () \<and> sh_live toy_eng_ctx s' 3 = Some [5] \<and> placed toy_eng_ctx s'"
proof -
  let ?p = "sharded_insert_vector toy_eng_ctx toy_run toy_sharded 3 [5]"
  have r: "fst ?p = Ok ()" by code_simp
  have len: "length (encode_op (InsertVector 3 [5])) \<le> U32_MAX" by code_simp
  from sharded_insert_refines [OF toy_eng_ctx_ok toy_sharded_ready len surjective_pairing] r
  show ?thesis unfolding Let_def by (simp add: split_beta)
qed

text \<open>
  Merged search.  With several shards a search returns as many of the hits of the shards as were
  asked for, in the order of their distances, and no hit that is left out is closer than one that is
  returned.  The hits are those of the shards that answered: a shard that fails is left out and the
  search succeeds without it.
\<close>

theorem sharded_search_merged:
  assumes "num_shards s \<noteq> 1"
    and "hits = concat (map (\<lambda>(m, e). shard_hits C (Rs m) query top_k e) (enumerate 0 (sh_shards s)))"
    and "\<not> list_ex (\<lambda>(i, d). f32_nan d) hits"
  shows "\<exists>hs rest. fst (sharded_search_knn C Rs nan_sort s query top_k) = Ok hs \<and>
    mset hs + mset rest = mset hits \<and> length hs = min top_k (length hits) \<and>
    sorted (map (\<lambda>(i, d). num_key d) hs) \<and>
    (\<forall>x \<in> set hs. \<forall>y \<in> set rest. \<not> f32_lt (snd y) (snd x))"
  by (rule sharded_search_merges [OF assms])

theorem sharded_search_merged_witness:
  "fst (sharded_search_knn toy_eng_ctx (\<lambda>n. toy_run) (\<lambda>hs. None)
     (toy_sharded\<lparr>sh_shards := [toy_engine\<lparr>en_vec := None\<rparr>, toy_engine\<lparr>en_vec := Some toy_one\<rparr>]\<rparr>) [5] 3) = Ok [(1, 0)]"
proof -
  let ?s = "toy_sharded\<lparr>sh_shards := [toy_engine\<lparr>en_vec := None\<rparr>, toy_engine\<lparr>en_vec := Some toy_one\<rparr>]\<rparr>"
  have n: "num_shards ?s \<noteq> 1" by simp
  have hits: "[(1, 0)] = concat (map (\<lambda>(m, e). shard_hits toy_eng_ctx ((\<lambda>n. toy_run) m) [5] 3 e) (enumerate 0 (sh_shards ?s)))"
    by code_simp
  have nan: "\<not> list_ex (\<lambda>(i, d). f32_nan d) [(1 :: u64, 0)]" by code_simp
  obtain hs rest where r: "fst (sharded_search_knn toy_eng_ctx (\<lambda>n. toy_run) (\<lambda>hs. None) ?s [5] 3) = Ok hs"
    and m: "mset hs + mset rest = mset [(1, 0)]" "length hs = min 3 (length [(1 :: u64, 0 :: f32)])"
    using sharded_search_merged [OF n hits nan, of "\<lambda>hs. None"] by blast
  from m(2) obtain h where "hs = [h]" by (auto simp: length_Suc_conv)
  with m(1) have "hs = [(1, 0)]" by auto
  with r show ?thesis by simp
qed

section \<open>The KV contract\<close>

definition sharded_read :: "'h eng_ctx \<Rightarrow> 'h sharded_engine \<Rightarrow> bytes \<Rightarrow> bytes option res \<times> 'h sharded_engine" where
  "sharded_read C s k =
     (case sharded_get_kv C s k of
        (r, s') \<Rightarrow> (owned (sp_data_dir (ks_pool (en_kv (sh_shards s' ! shard_for_key s k)))) r, s'))"

lemma eng_router:
  "(\<And>k. route k < n) \<Longrightarrow> kv_router (eng_ready C) eng_room (eng_kv C) (\<lambda>(R, t) e k v. engine_put_kv C R e k v t)
     (engine_read C) (\<lambda>(R, t) e k. engine_delete_kv C R e k t) route n"
  by unfold_locales

interpretation hsh: kv_router "eng_ready C" eng_room "eng_kv C" "\<lambda>(R, t) e k v. engine_put_kv C R e k v t"
  "engine_read C" "\<lambda>(R, t) e k. engine_delete_kv C R e k t" "\<lambda>k. hash_shard_for_key hash k (Suc m)" "Suc m" for C hash m
  by unfold_locales (simp add: hash_shard_for_key_def)

text \<open>The operations of the sharded engine are those of its vector of shards.\<close>

lemma on_shard_at: "on_shard s i f = (r, s') \<longleftrightarrow> (\<exists>es. at_shard i f (sh_shards s) = (r, es) \<and> s' = s\<lparr>sh_shards := es\<rparr>)"
  by (auto simp: on_shard_def at_shard_def split: prod.splits)

lemma sharded_read_at:
  assumes "routed s"
  shows "sharded_read C s k = on_shard s (shard_for_key s k) (\<lambda>e. engine_read C e k)"
  using assms
  by (auto simp: sharded_read_def sharded_get_kv_def on_shard_def engine_read_def routed_def split: prod.splits)

definition shd_ready :: "'h eng_ctx \<Rightarrow> 'h sharded_engine \<Rightarrow> bool" where
  "shd_ready C s \<longleftrightarrow> routed s \<and> list_all (eng_ready C) (sh_shards s)"

definition shd_room :: "'h sharded_engine \<Rightarrow> nat \<Rightarrow> bool" where
  "shd_room s n \<longleftrightarrow> list_all (\<lambda>e. eng_room e n) (sh_shards s)"

lemma shd_router:
  assumes "shd_ready C s"
  defines "n \<equiv> num_shards s"
  shows "kv_trait (\<lambda>es. length es = n \<and> list_all (eng_ready C) es) (\<lambda>es m. list_all (\<lambda>e. eng_room e m) es)
    (\<lambda>es k. eng_kv C (es ! shard_for_key s k) k)
    (\<lambda>c es k v. at_shard (shard_for_key s k) (\<lambda>e. (case c of (R, t) \<Rightarrow> \<lambda>e k v. engine_put_kv C R e k v t) e k v) es)
    (\<lambda>es k. at_shard (shard_for_key s k) (\<lambda>e. engine_read C e k) es)
    (\<lambda>c es k. at_shard (shard_for_key s k) (\<lambda>e. (case c of (R, t) \<Rightarrow> \<lambda>e k. engine_delete_kv C R e k t) e k) es)"
proof -
  have kr: "kv_router (eng_ready C) eng_room (eng_kv C) (\<lambda>(R, t) e k v. engine_put_kv C R e k v t)
     (engine_read C) (\<lambda>(R, t) e k. engine_delete_kv C R e k t) (shard_for_key s) n"
    using assms(1) by (intro eng_router) (simp add: n_def shd_ready_def routed_def)
  from kv_router.routed_trait [OF this] show ?thesis
    unfolding kv_router.all_ok_def [OF kr, abs_def] kv_router.all_room_def [OF kr, abs_def]
      kv_router.routed_abs_def [OF kr, abs_def] .
qed

lemma shd_update:
  assumes "shd_ready C s" "length es = num_shards s" "list_all (eng_ready C) es"
  shows "shd_ready C (s\<lparr>sh_shards := es\<rparr>)" "sh_kv C (s\<lparr>sh_shards := es\<rparr>) = (\<lambda>k. eng_kv C (es ! shard_for_key s k) k)"
    "shd_room (s\<lparr>sh_shards := es\<rparr>) m = list_all (\<lambda>e. eng_room e m) es"
  using assms by (simp_all add: shd_ready_def routed_def sh_kv_def shd_room_def fun_eq_iff abs_of_def)

lemma shd_at:
  assumes "shd_ready C s"
  shows "length (sh_shards s) = num_shards s \<and> list_all (eng_ready C) (sh_shards s)"
    "sh_kv C s = (\<lambda>k. eng_kv C (sh_shards s ! shard_for_key s k) k)"
    "shd_room s m = list_all (\<lambda>e. eng_room e m) (sh_shards s)"
  using assms by (simp_all add: shd_ready_def sh_kv_def shd_room_def fun_eq_iff abs_of_def)

interpretation shd: kv_trait "shd_ready C" shd_room "sh_kv C"
  "\<lambda>(R, t) s k v. sharded_put_kv C R s k v t" "sharded_read C" "\<lambda>(R, t) s k. sharded_delete_kv C R s k t" for C
proof
  fix s :: "'a sharded_engine" and n
  show "shd_room s (Suc n) \<Longrightarrow> shd_room s n" using eng.room_mono by (auto simp: shd_room_def list_all_iff)
next
  fix s n c k v r s'
  assume a: "shd_ready C s" "shd_room s (Suc n)" "(case c of (R, t) \<Rightarrow> \<lambda>s k v. sharded_put_kv C R s k v t) s k v = (r, s')"
  note sh = shd_at [OF a(1)]
  obtain es where es: "at_shard (shard_for_key s k) (\<lambda>e. (case c of (R, t) \<Rightarrow> \<lambda>e k v. engine_put_kv C R e k v t) e k v) (sh_shards s) = (r, es)"
    and s': "s' = s\<lparr>sh_shards := es\<rparr>"
    using a(3) by (cases c) (auto simp: sharded_put_kv_def on_shard_at)
  note p = kv_trait.put_law [OF shd_router [OF a(1)] sh(1) a(2) [unfolded sh(3)] es]
  with shd_update [OF a(1), of es] show "shd_ready C s' \<and> shd_room s' n \<and> sh_kv C s' = (if is_ok r then (sh_kv C s)(k \<mapsto> v) else sh_kv C s)"
    by (simp add: s' sh(2))
next
  fix s n k r s'
  assume a: "shd_ready C s" "sharded_read C s k = (r, s')"
  note sh = shd_at [OF a(1)]
  have "routed s" using a(1) by (simp add: shd_ready_def)
  then obtain es where es: "at_shard (shard_for_key s k) (\<lambda>e. engine_read C e k) (sh_shards s) = (r, es)"
    and s': "s' = s\<lparr>sh_shards := es\<rparr>"
    using a(2) by (auto simp: sharded_read_at on_shard_at)
  note p = kv_trait.get_law [OF shd_router [OF a(1)] sh(1) es, of n]
  with shd_update [OF a(1), of es] show "shd_ready C s' \<and> (shd_room s n \<longrightarrow> shd_room s' n) \<and> sh_kv C s' = sh_kv C s \<and>
      (\<forall>x. r = Ok x \<longrightarrow> x = sh_kv C s k)"
    by (simp add: s' sh(2,3))
next
  fix s n c k r s'
  assume a: "shd_ready C s" "(case c of (R, t) \<Rightarrow> \<lambda>s k. sharded_delete_kv C R s k t) s k = (r, s')"
  note sh = shd_at [OF a(1)]
  obtain es where es: "at_shard (shard_for_key s k) (\<lambda>e. (case c of (R, t) \<Rightarrow> \<lambda>e k. engine_delete_kv C R e k t) e k) (sh_shards s) = (r, es)"
    and s': "s' = s\<lparr>sh_shards := es\<rparr>"
    using a(2) by (cases c) (auto simp: sharded_delete_kv_def on_shard_at)
  note p = kv_trait.del_law [OF shd_router [OF a(1)] sh(1) es, of n]
  with shd_update [OF a(1), of es] show "shd_ready C s' \<and> (shd_room s n \<longrightarrow> shd_room s' n) \<and>
      sh_kv C s' = (if is_ok r then (sh_kv C s)(k := None) else sh_kv C s) \<and> (\<forall>b. r = Ok b \<longrightarrow> b = (sh_kv C s k \<noteq> None))"
    by (simp add: s' sh(2,3))
qed

abbreviation sharded_run ::
  "'h eng_ctx \<Rightarrow> 'h sharded_engine \<Rightarrow> ((eng_run \<times> nat option) \<times> kv_call) list \<Rightarrow> kv_reply list \<times> 'h sharded_engine" where
  "sharded_run C \<equiv>
     kv_exec (\<lambda>(R, t) s k v. sharded_put_kv C R s k v t) (sharded_read C) (\<lambda>(R, t) s k. sharded_delete_kv C R s k t)"

definition toy_calls :: "((eng_run \<times> nat option) \<times> kv_call) list" where
  "toy_calls = map (Pair (toy_run, None)) [PutCall [7] [1, 2], GetCall [7], DeleteCall [7], DeleteCall [7], PutCall [] [1]]"

text \<open>
  The sharded engine is one KV map (C19).  Whatever the router does, as long as it stays in range: the replies to any sequence
  of puts, reads and deletes, in any surroundings, are those of one map in which the calls that fail have no effect, and
  that map is what the shards hold afterwards.
\<close>

theorem sharded_run_refines:
  assumes "shd_ready C s" "shd_room s (length (filter (\<lambda>(c, call). is_put call) calls))" "sharded_run C s calls = (rs, s')"
  shows "kv_explains (sh_kv C s) (map snd calls) rs \<and> sh_kv C s' = kv_final (sh_kv C s) (map snd calls) rs \<and> shd_ready C s'"
  using shd.exec_law [OF assms(1) _ assms(3), of 0] assms(2) by simp

theorem sharded_run_refines_witness:
  "let (rs, s') = sharded_run toy_eng_ctx toy_sharded toy_calls
   in rs = [PutReply (Ok ()), GetReply (Ok (Some [1, 2])), DeleteReply (Ok True), DeleteReply (Ok False),
            PutReply (Err (InvalidKey ''empty key rejected''))] \<and>
      kv_explains (sh_kv toy_eng_ctx toy_sharded) (map snd toy_calls) rs \<and> shd_ready toy_eng_ctx s'"
proof -
  have rdy: "shd_ready toy_eng_ctx toy_sharded"
    using toy_sharded_ready(1,2) toy_eng_ctx_ok by (auto simp: shd_ready_def sh_ready_def eng_ready_def list_all_iff)
  have room: "shd_room toy_sharded (length (filter (\<lambda>(c, call). is_put call) toy_calls))" by code_simp
  have rs: "fst (sharded_run toy_eng_ctx toy_sharded toy_calls) =
      [PutReply (Ok ()), GetReply (Ok (Some [1, 2])), DeleteReply (Ok True), DeleteReply (Ok False),
       PutReply (Err (InvalidKey ''empty key rejected''))]" by code_simp
  from sharded_run_refines [OF rdy room surjective_pairing] rs show ?thesis
    unfolding Let_def split_beta by simp
qed

end
