(* ===== verification/Vec_Trait.thy ===== *)
theory Vec_Trait
  imports Store_Trait
begin

text \<open>
  The vector part of the trait \<open>FusionStoreEngine\<close> (\<open>engine.rs\<close>) as a contract, in the form of \<open>Store_Trait\<close>.  An id that was
  inserted stays taken after its vector is deleted, so that the abstract state is the map of live vectors and the map of
  all that were stored.
\<close>

datatype vec_call = InsertCall u64 "f32 list" | GetVecCall u64 | DeleteVecCall u64

datatype vec_reply = InsertReply "unit res" | GetVecReply "f32 list option res" | DeleteVecReply "bool res"

type_synonym ('c, 's) insert_fn = "'c \<Rightarrow> 's \<Rightarrow> u64 \<Rightarrow> f32 list \<Rightarrow> unit res \<times> 's"
type_synonym ('c, 's) get_vec_fn = "'c \<Rightarrow> 's \<Rightarrow> u64 \<Rightarrow> f32 list option res \<times> 's"
type_synonym 's delete_vec_fn = "'s \<Rightarrow> u64 \<Rightarrow> bool res \<times> 's"

type_synonym vec_abs = "(u64 \<rightharpoonup> f32 list) \<times> (u64 \<rightharpoonup> f32 list)"

fun vec_call1 ::
  "('c, 's) insert_fn \<Rightarrow> ('c, 's) get_vec_fn \<Rightarrow> 's delete_vec_fn \<Rightarrow> 'c \<Rightarrow> 's \<Rightarrow> vec_call \<Rightarrow> vec_reply \<times> 's" where
  "vec_call1 ins get del c s (InsertCall i v) = (case ins c s i v of (r, s') \<Rightarrow> (InsertReply r, s'))"
| "vec_call1 ins get del c s (GetVecCall i) = (case get c s i of (r, s') \<Rightarrow> (GetVecReply r, s'))"
| "vec_call1 ins get del c s (DeleteVecCall i) = (case del s i of (r, s') \<Rightarrow> (DeleteVecReply r, s'))"

fun vec_exec ::
  "('c, 's) insert_fn \<Rightarrow> ('c, 's) get_vec_fn \<Rightarrow> 's delete_vec_fn \<Rightarrow> 's \<Rightarrow> ('c \<times> vec_call) list \<Rightarrow> vec_reply list \<times> 's" where
  "vec_exec ins get del s [] = ([], s)"
| "vec_exec ins get del s ((c, call) # calls) =
     (case vec_call1 ins get del c s call of
        (r, s1) \<Rightarrow> (case vec_exec ins get del s1 calls of (rs, s2) \<Rightarrow> (r # rs, s2)))"

fun vec_after :: "vec_abs \<Rightarrow> vec_call \<Rightarrow> vec_reply \<Rightarrow> vec_abs" where
  "vec_after (live, taken) (InsertCall i v) (InsertReply (Ok u)) = (live(i \<mapsto> v), taken(i \<mapsto> v))"
| "vec_after (live, taken) (DeleteVecCall i) (DeleteVecReply (Ok b)) = (live(i := None), taken)"
| "vec_after a _ _ = a"

fun is_duplicate :: "unit res \<Rightarrow> bool" where
  "is_duplicate (Err (DuplicateVector j)) = True"
| "is_duplicate _ = False"

lemma is_duplicate_iff: "is_duplicate r \<longleftrightarrow> (\<exists>j. r = Err (DuplicateVector j))"
  by (cases r rule: is_duplicate.cases) auto

text \<open>An insertion succeeds for a new id only, and the error for a duplicate is never given for one.\<close>

fun vec_allowed :: "vec_abs \<Rightarrow> vec_call \<Rightarrow> vec_reply \<Rightarrow> bool" where
  "vec_allowed (live, taken) (InsertCall i v) (InsertReply r) =
     ((is_ok r \<longrightarrow> taken i = None) \<and> (is_duplicate r \<longrightarrow> taken i \<noteq> None))"
| "vec_allowed (live, taken) (GetVecCall i) (GetVecReply r) = (case r of Ok x \<Rightarrow> x = live i | _ \<Rightarrow> True)"
| "vec_allowed (live, taken) (DeleteVecCall i) (DeleteVecReply r) = (case r of Ok b \<Rightarrow> b = (live i \<noteq> None) | _ \<Rightarrow> True)"
| "vec_allowed a _ _ = False"

fun vec_explains :: "vec_abs \<Rightarrow> vec_call list \<Rightarrow> vec_reply list \<Rightarrow> bool" where
  "vec_explains a [] [] = True"
| "vec_explains a (call # calls) (r # rs) = (vec_allowed a call r \<and> vec_explains (vec_after a call r) calls rs)"
| "vec_explains a _ _ = False"

fun vec_final :: "vec_abs \<Rightarrow> vec_call list \<Rightarrow> vec_reply list \<Rightarrow> vec_abs" where
  "vec_final a (call # calls) (r # rs) = vec_final (vec_after a call r) calls rs"
| "vec_final a _ _ = a"

fun is_insert :: "vec_call \<Rightarrow> bool" where
  "is_insert (InsertCall i v) = True"
| "is_insert _ = False"

abbreviation inserts :: "('c \<times> vec_call) list \<Rightarrow> nat" where
  "inserts calls \<equiv> length (filter (\<lambda>(c, call). is_insert call) calls)"

definition insert_allowed :: "vec_abs \<Rightarrow> u64 \<Rightarrow> f32 list \<Rightarrow> unit res \<Rightarrow> vec_abs \<Rightarrow> bool" where
  "insert_allowed a i v r a' \<longleftrightarrow> a' = vec_after a (InsertCall i v) (InsertReply r) \<and> vec_allowed a (InsertCall i v) (InsertReply r)"

definition delete_allowed :: "vec_abs \<Rightarrow> u64 \<Rightarrow> bool res \<Rightarrow> vec_abs \<Rightarrow> bool" where
  "delete_allowed a i r a' \<longleftrightarrow>
     a' = vec_after a (DeleteVecCall i) (DeleteVecReply r) \<and> vec_allowed a (DeleteVecCall i) (DeleteVecReply r)"

definition get_allowed :: "vec_abs \<Rightarrow> u64 \<Rightarrow> f32 list option res \<Rightarrow> vec_abs \<Rightarrow> bool" where
  "get_allowed a i r a' \<longleftrightarrow> a' = a \<and> vec_allowed a (GetVecCall i) (GetVecReply r)"

text \<open>The laws in terms of the two maps, of which a call changes the entry of its id at most.\<close>

lemma insert_allowed_alt:
  "insert_allowed a i v r a' \<longleftrightarrow>
     (is_ok r \<longrightarrow> snd a i = None) \<and> (is_duplicate r \<longrightarrow> snd a i \<noteq> None) \<and>
     a' = ((fst a)(i := if is_ok r then Some v else fst a i), (snd a)(i := if is_ok r then Some v else snd a i))"
  by (cases a; cases r) (auto simp: insert_allowed_def)

lemma delete_allowed_alt:
  "delete_allowed a i r a' \<longleftrightarrow> (\<forall>b. r = Ok b \<longrightarrow> b = (fst a i \<noteq> None)) \<and>
     a' = ((fst a)(i := if is_ok r then None else fst a i), (snd a)(i := snd a i))"
  by (cases a; cases r) (auto simp: delete_allowed_def)

lemma get_allowed_alt:
  "get_allowed a i r a' \<longleftrightarrow> (\<forall>x. r = Ok x \<longrightarrow> x = fst a i) \<and> a' = ((fst a)(i := fst a i), (snd a)(i := snd a i))"
  by (cases a; cases r) (auto simp: get_allowed_def)

section \<open>The contract\<close>

locale vec_trait =
  fixes ok :: "'s \<Rightarrow> bool"
    and room :: "'s \<Rightarrow> nat \<Rightarrow> bool"
    and abs :: "'s \<Rightarrow> vec_abs"
    and ins :: "('c, 's) insert_fn"
    and get :: "('c, 's) get_vec_fn"
    and del :: "'s delete_vec_fn"
  assumes room_mono: "room s (Suc n) \<Longrightarrow> room s n"
    and ins_law: "ok s \<Longrightarrow> room s (Suc n) \<Longrightarrow> ins c s i v = (r, s') \<Longrightarrow>
      ok s' \<and> room s' n \<and> insert_allowed (abs s) i v r (abs s')"
    and get_law: "ok s \<Longrightarrow> get c s i = (r', s') \<Longrightarrow>
      ok s' \<and> (room s n \<longrightarrow> room s' n) \<and> get_allowed (abs s) i r' (abs s')"
    and del_law: "ok s \<Longrightarrow> del s i = (r'', s') \<Longrightarrow>
      ok s' \<and> (room s n \<longrightarrow> room s' n) \<and> delete_allowed (abs s) i r'' (abs s')"
begin

lemma vec_call_law:
  assumes "ok s" "room s (n + (if is_insert call then 1 else 0))" "vec_call1 ins get del c s call = (r, s')"
  shows "ok s' \<and> room s' n \<and> vec_allowed (abs s) call r \<and> abs s' = vec_after (abs s) call r"
proof (cases call)
  case (InsertCall i v)
  obtain r0 where p: "ins c s i v = (r0, s')" "r = InsertReply r0" using assms(3) by (auto simp: InsertCall split: prod.splits)
  from ins_law [OF assms(1) _ p(1), of n] assms(2) show ?thesis by (simp add: InsertCall p(2) insert_allowed_def)
next
  case (GetVecCall i)
  obtain r0 where p: "get c s i = (r0, s')" "r = GetVecReply r0" using assms(3) by (auto simp: GetVecCall split: prod.splits)
  have "vec_after (abs s) call r = abs s" by (cases "abs s") (simp add: GetVecCall p(2))
  with get_law [OF assms(1) p(1), of n] assms(2) show ?thesis by (simp add: GetVecCall p(2) get_allowed_def)
next
  case (DeleteVecCall i)
  obtain r0 where p: "del s i = (r0, s')" "r = DeleteVecReply r0" using assms(3) by (auto simp: DeleteVecCall split: prod.splits)
  from del_law [OF assms(1) p(1), of n] assms(2) show ?thesis by (simp add: DeleteVecCall p(2) delete_allowed_def)
qed

lemma vec_exec_law:
  assumes "ok s" "room s (n + inserts calls)" "vec_exec ins get del s calls = (rs, s')"
  shows "ok s' \<and> room s' n \<and> vec_explains (abs s) (map snd calls) rs \<and> abs s' = vec_final (abs s) (map snd calls) rs"
  using assms
proof (induction calls arbitrary: s rs)
  case (Cons x calls)
  obtain c call where x: "x = (c, call)" by (cases x)
  obtain r s1 where c1: "vec_call1 ins get del c s call = (r, s1)" by (cases "vec_call1 ins get del c s call")
  obtain rs1 where rest: "vec_exec ins get del s1 calls = (rs1, s')" "rs = r # rs1"
    using Cons.prems(3) by (auto simp: x c1 split: prod.splits)
  have "room s (n + inserts calls + (if is_insert call then 1 else 0))" using Cons.prems(2) by (simp add: x split: if_splits)
  note one = vec_call_law [OF Cons.prems(1) this c1]
  with Cons.IH [OF _ _ rest(1)] show ?case by (simp add: x rest(2))
qed simp

end

section \<open>Routing\<close>

locale vec_router = vec_trait ok room abs ins get del
  for ok :: "'e \<Rightarrow> bool" and room abs and ins :: "('c, 'e) insert_fn" and get :: "('c, 'e) get_vec_fn" and del +
  fixes route :: "u64 \<Rightarrow> nat" and n :: nat
  assumes in_range: "route i < n"
begin

definition all_ok :: "'e list \<Rightarrow> bool" where
  "all_ok es \<longleftrightarrow> length es = n \<and> list_all ok es"

definition all_room :: "'e list \<Rightarrow> nat \<Rightarrow> bool" where
  "all_room es m \<longleftrightarrow> list_all (\<lambda>e. room e m) es"

definition routed_abs :: "'e list \<Rightarrow> vec_abs" where
  "routed_abs es = ((\<lambda>i. fst (abs (es ! route i)) i), (\<lambda>i. snd (abs (es ! route i)) i))"

lemma at_route:
  assumes "all_ok es" "at_shard (route i) f es = (r, es')"
  obtains e where "ok (es ! route i)" "f (es ! route i) = (r, e)" "es' = es[route i := e]" "route i < length es"
  using assms in_range [of i] by (auto simp: at_shard_def all_ok_def list_all_length split: prod.splits)

lemma all_ok_update: "all_ok es \<Longrightarrow> ok e \<Longrightarrow> all_ok (es[route i := e])"
  using in_range by (auto simp: all_ok_def list_all_length nth_list_update)

lemma all_room_update:
  "all_room es m \<Longrightarrow> room e m \<Longrightarrow> all_room (es[route i := e]) m"
  unfolding all_room_def list_all_iff using set_update_subset_insert [of es "route i" e] by blast

lemma routed_update:
  assumes "route i < length es" "abs e = ((fst (abs (es ! route i)))(i := x), (snd (abs (es ! route i)))(i := y))"
  shows "routed_abs (es[route i := e]) = ((fst (routed_abs es))(i := x), (snd (routed_abs es))(i := y))"
  using assms by (auto simp: routed_abs_def fun_eq_iff nth_list_update)

lemma routed_at: "fst (routed_abs es) i = fst (abs (es ! route i)) i" "snd (routed_abs es) i = snd (abs (es ! route i)) i"
  by (simp_all add: routed_abs_def)

lemma insert_routed:
  assumes "route i < length es" "insert_allowed (abs (es ! route i)) i v r (abs e)"
  shows "insert_allowed (routed_abs es) i v r (routed_abs (es[route i := e]))"
  using assms(2) routed_update [OF assms(1)] unfolding insert_allowed_alt routed_at by simp

lemma delete_routed:
  assumes "route i < length es" "delete_allowed (abs (es ! route i)) i r (abs e)"
  shows "delete_allowed (routed_abs es) i r (routed_abs (es[route i := e]))"
  using assms(2) routed_update [OF assms(1), of e _ "snd (abs (es ! route i)) i"]
  unfolding delete_allowed_alt routed_at by blast

lemma get_routed:
  assumes "route i < length es" "get_allowed (abs (es ! route i)) i r (abs e)"
  shows "get_allowed (routed_abs es) i r (routed_abs (es[route i := e]))"
  using assms(2) routed_update [OF assms(1), of e "fst (abs (es ! route i)) i" "snd (abs (es ! route i)) i"]
  unfolding get_allowed_alt routed_at by blast

end

sublocale vec_router \<subseteq> shards: vec_trait all_ok all_room routed_abs
  "\<lambda>c es i v. at_shard (route i) (\<lambda>e. ins c e i v) es" "\<lambda>c es i. at_shard (route i) (\<lambda>e. get c e i) es"
  "\<lambda>es i. at_shard (route i) (\<lambda>e. del e i) es"
proof
  fix es m
  assume "all_room es (Suc m)"
  then show "all_room es m" using room_mono by (auto simp: all_room_def list_all_iff)
next
  fix es m c i v r es'
  assume a: "all_ok es" "all_room es (Suc m)" "at_shard (route i) (\<lambda>e. ins c e i v) es = (r, es')"
  obtain e where e: "ok (es ! route i)" "ins c (es ! route i) i v = (r, e)" "es' = es[route i := e]" "route i < length es"
    by (rule at_route [OF a(1,3)])
  from a(2) e(4) have "room (es ! route i) (Suc m)" by (simp add: all_room_def list_all_length)
  note p = ins_law [OF e(1) this e(2)]
  have "all_room es m" using a(2) room_mono by (auto simp: all_room_def list_all_iff)
  with p all_ok_update [OF a(1)] all_room_update insert_routed [OF e(4)]
  show "all_ok es' \<and> all_room es' m \<and> insert_allowed (routed_abs es) i v r (routed_abs es')" by (simp add: e(3))
next
  fix es m c i r es'
  assume a: "all_ok es" "at_shard (route i) (\<lambda>e. get c e i) es = (r, es')"
  obtain e where e: "ok (es ! route i)" "get c (es ! route i) i = (r, e)" "es' = es[route i := e]" "route i < length es"
    by (rule at_route [OF a])
  have "all_room es m \<Longrightarrow> room (es ! route i) m" using e(4) by (simp add: all_room_def list_all_length)
  with get_law [OF e(1,2), of m] all_ok_update [OF a(1)] all_room_update get_routed [OF e(4)]
  show "all_ok es' \<and> (all_room es m \<longrightarrow> all_room es' m) \<and> get_allowed (routed_abs es) i r (routed_abs es')" by (simp add: e(3))
next
  fix es m i r es'
  assume a: "all_ok es" "at_shard (route i) (\<lambda>e. del e i) es = (r, es')"
  obtain e where e: "ok (es ! route i)" "del (es ! route i) i = (r, e)" "es' = es[route i := e]" "route i < length es"
    by (rule at_route [OF a])
  have "all_room es m \<Longrightarrow> room (es ! route i) m" using e(4) by (simp add: all_room_def list_all_length)
  with del_law [OF e(1,2), of m] all_ok_update [OF a(1)] all_room_update delete_routed [OF e(4)]
  show "all_ok es' \<and> (all_room es m \<longrightarrow> all_room es' m) \<and> delete_allowed (routed_abs es) i r (routed_abs es')" by (simp add: e(3))
qed

context vec_router
begin

lemma routed_trait:
  "vec_trait all_ok all_room routed_abs (\<lambda>c es i v. at_shard (route i) (\<lambda>e. ins c e i v) es)
     (\<lambda>c es i. at_shard (route i) (\<lambda>e. get c e i) es) (\<lambda>es i. at_shard (route i) (\<lambda>e. del e i) es)"
  by unfold_locales

end

end
