(* ===== verification/Vec_Impl.thy ===== *)
theory Vec_Impl
  imports Sharded Vec_Trait
begin

text \<open>
  The vector index, the engine and the sharded engine under the contract of \<open>Vec_Trait\<close>: each interprets \<open>vec_trait\<close>, the engine
  by the index's laws and the sharded engine by those of \<open>vec_router\<close>.
\<close>

section \<open>The vector index\<close>

definition index_pair :: "'h vec_ctx \<Rightarrow> 'h vector_index \<Rightarrow> vec_abs" where
  "index_pair C idx = (index_abs C idx, stored_vectors C idx)"

lemma index_insert_law:
  assumes ctx: "vec_ctx_ok C" and inv: "index_inv C idx" and room: "vec_room_for (vi_pool idx) (Suc n)"
    and ins: "index_insert C held now idx i v = (r, idx')"
  shows "index_inv C idx' \<and> vec_room_for (vi_pool idx') n \<and> insert_allowed (index_pair C idx) i v r (index_pair C idx')"
proof -
  note k = index_insert_keeps [OF ctx inv vec_room_for_room [OF room] ins]
  have "is_duplicate r \<Longrightarrow> stored_vectors C idx i \<noteq> None"
    using index_insert_duplicate(1) [OF inv] ins by (auto simp: is_duplicate_iff)
  with k index_insert_room [OF room ins] show ?thesis
    by (cases "is_ok r") (auto simp: insert_allowed_alt index_pair_def)
qed

lemma index_get_law:
  assumes inv: "index_inv C idx" and get: "get_vector C held idx i = (r, idx')"
  shows "index_inv C idx' \<and> vec_room_for (vi_pool idx') n = vec_room_for (vi_pool idx) n \<and>
    get_allowed (index_pair C idx) i r (index_pair C idx')"
proof -
  note g = index_get_vector [OF inv get]
  have "vp_active_id (vi_pool idx') = vp_active_id (vi_pool idx) \<and> stored_vectors C idx' = stored_vectors C idx"
  proof (cases "is_deleted (vi_graph idx) i")
    case False
    then have st: "stored_vectors C idx i \<noteq> None"
      using stored_iff [OF inv, of i] live_in_nodes [of "vi_graph idx" i] by auto
    obtain rs where sl: "index_vec_slice C held idx i = (rs, idx')"
      using get False by (auto simp: get_vector_def split: prod.splits)
    show ?thesis by (rule index_vec_slice_keeps [OF inv st sl]) simp
  qed (use get in \<open>simp add: get_vector_def\<close>)
  with g show ?thesis by (simp add: get_allowed_alt index_pair_def vec_room_for_def)
qed

lemma index_delete_law:
  assumes inv: "index_inv C idx" and del: "index_delete idx i = (b, idx')"
  shows "index_inv C idx' \<and> vi_pool idx' = vi_pool idx \<and> delete_allowed (index_pair C idx) i (Ok b) (index_pair C idx')"
proof -
  obtain g where "idx' = idx\<lparr>vi_graph := g\<rparr>" using del by (auto simp: index_delete_def split: prod.splits)
  with index_delete_keeps [OF inv del] show ?thesis by (simp add: delete_allowed_alt index_pair_def stored_vectors_def)
qed

interpretation ixv: vec_trait "\<lambda>idx. vec_ctx_ok C \<and> index_inv C idx" "\<lambda>idx n. vec_room_for (vi_pool idx) n" "index_pair C"
  "\<lambda>(held, now) idx i v. index_insert C held now idx i v" "\<lambda>(held, now) idx i. get_vector C held idx i"
  "\<lambda>idx i. case index_delete idx i of (b, idx') \<Rightarrow> (Ok b, idx')" for C
proof
  fix idx :: "'a vector_index" and n
  show "vec_room_for (vi_pool idx) (Suc n) \<Longrightarrow> vec_room_for (vi_pool idx) n" by (erule vec_room_for_mono) simp
next
  fix idx n c i v r idx'
  assume "vec_ctx_ok C \<and> index_inv C idx" "vec_room_for (vi_pool idx) (Suc n)"
    "(case c of (held, now) \<Rightarrow> \<lambda>idx i v. index_insert C held now idx i v) idx i v = (r, idx')"
  then show "(vec_ctx_ok C \<and> index_inv C idx') \<and> vec_room_for (vi_pool idx') n \<and>
      insert_allowed (index_pair C idx) i v r (index_pair C idx')"
    using index_insert_law [of C idx n] by (auto split: prod.splits)
next
  fix idx n c i r idx'
  assume "vec_ctx_ok C \<and> index_inv C idx" "(case c of (held, now) \<Rightarrow> \<lambda>idx i. get_vector C held idx i) idx i = (r, idx')"
  then show "(vec_ctx_ok C \<and> index_inv C idx') \<and> (vec_room_for (vi_pool idx) n \<longrightarrow> vec_room_for (vi_pool idx') n) \<and>
      get_allowed (index_pair C idx) i r (index_pair C idx')"
    using index_get_law [of C idx _ i r idx' n] by (auto split: prod.splits)
next
  fix idx n i r idx'
  assume "vec_ctx_ok C \<and> index_inv C idx" "(case index_delete idx i of (b, idx') \<Rightarrow> (Ok b, idx')) = (r, idx')"
  then show "(vec_ctx_ok C \<and> index_inv C idx') \<and> (vec_room_for (vi_pool idx) n \<longrightarrow> vec_room_for (vi_pool idx') n) \<and>
      delete_allowed (index_pair C idx) i r (index_pair C idx')"
    using index_delete_law [of C idx i] by (auto split: prod.splits)
qed

section \<open>The engine\<close>

abbreviation eng_vec_abs :: "'h eng_ctx \<Rightarrow> 'h engine \<Rightarrow> vec_abs" where
  "eng_vec_abs C e \<equiv> (ea_live (abs_of C e), ea_taken (abs_of C e))"

text \<open>An engine whose index and log have changed.\<close>

lemma eng_ready_vec:
  assumes "eng_ready C e" "index_inv (ec_vec C) idx" "\<exists>es. wal_clean w es"
  shows "eng_ready C (e\<lparr>en_wal := w, en_vec := Some idx\<rparr>)"
  using assms by (simp add: eng_ready_def eng_inv_def)

lemma eng_room_vec:
  assumes "eng_room e m" "n \<le> m" "vec_room_for (vi_pool idx) n"
  shows "eng_room (e\<lparr>en_wal := w, en_vec := Some idx\<rparr>) n"
  using eng_room_mono [OF assms(1,2)] assms(3) by (simp add: eng_room_def)

lemma eng_vec_abs_Some: "en_vec e = Some idx \<Longrightarrow> eng_vec_abs C e = index_pair (ec_vec C) idx"
  by (simp add: abs_of_def index_pair_def)

lemma eng_ready_index: "eng_ready C e \<Longrightarrow> en_vec e = Some idx \<Longrightarrow> vec_ctx_ok (ec_vec C) \<and> index_inv (ec_vec C) idx"
  using eng_vec by (auto simp: eng_ready_def eng_inv_def)

lemma eng_ready_log: "eng_ready C e \<Longrightarrow> \<exists>es. wal_clean w es \<Longrightarrow> eng_ready C (e\<lparr>en_wal := w\<rparr>)"
  by (simp add: eng_ready_def eng_inv_def)

lemma eng_log_update [simp]: "abs_of C (e\<lparr>en_wal := w\<rparr>) = abs_of C e" "eng_room (e\<lparr>en_wal := w\<rparr>) n = eng_room e n"
  by (simp_all add: abs_of_def eng_room_def)

lemma engine_insert_law:
  assumes rdy: "eng_ready C e" and room: "eng_room e (Suc n)" and ins: "insert_vector C R e i v = (r, e')"
  shows "eng_ready C e' \<and> eng_room e' n \<and> insert_allowed (eng_vec_abs C e) i v r (eng_vec_abs C e')"
proof -
  obtain ra w where w: "wal_append (en_wal e) (InsertVector i v) = (ra, w)" by (cases "wal_append (en_wal e) (InsertVector i v)")
  have cl: "\<exists>es. wal_clean w es" using eng_readyD(2) [OF rdy] wal_append_clean [OF _ _ w] by auto
  have room': "eng_room e n" by (rule eng_room_mono [OF room]) simp
  have fail: "eng_ready C e' \<and> eng_room e' n \<and> insert_allowed (eng_vec_abs C e) i v r (eng_vec_abs C e')"
    if "e' = e\<lparr>en_wal := w\<rparr>" "\<not> is_ok r" "\<not> is_duplicate r"
    using that eng_ready_log [OF rdy cl] room' by (simp add: insert_allowed_alt)
  show ?thesis
  proof (cases "is_ok ra \<and> en_vec e \<noteq> None")
    case True
    then obtain idx idx' where idx: "en_vec e = Some idx"
      "index_insert (ec_vec C) (er_held R) (er_now R) idx i v = (r, idx')" "e' = e\<lparr>en_wal := w, en_vec := Some idx'\<rparr>"
      using ins by (auto simp: insert_vector_def w is_ok_iff split: prod.splits)
    have "vec_room_for (vi_pool idx) (Suc n)" using room by (simp add: eng_room_def idx(1))
    from ixv.ins_law [OF eng_ready_index [OF rdy idx(1)] this, of "(er_held R, er_now R)" i v r idx'] idx(2)
    have l: "index_inv (ec_vec C) idx'" "vec_room_for (vi_pool idx') n"
      "insert_allowed (index_pair (ec_vec C) idx) i v r (index_pair (ec_vec C) idx')" by simp_all
    from eng_ready_vec [OF rdy l(1) cl] eng_room_vec [OF room _ l(2)] l(3) show ?thesis
      by (simp add: idx(1,3) eng_vec_abs_Some)
  next
    case False
    have "\<not> is_duplicate ra'" if "wal_append (en_wal e) (InsertVector i v) = (Err x, w)" "ra' = Err x" for ra' x
      using that by (auto simp: wal_append_def Let_def split: if_splits)
    with False ins w show ?thesis
      by (intro fail) (cases ra; auto simp: insert_vector_def is_duplicate_iff split: option.splits)+
  qed
qed

lemma engine_delete_law:
  assumes rdy: "eng_ready C e" and del: "delete_vector e i = (r, e')"
  shows "eng_ready C e' \<and> (eng_room e n \<longrightarrow> eng_room e' n) \<and> delete_allowed (eng_vec_abs C e) i r (eng_vec_abs C e')"
proof -
  obtain ra w where w: "wal_append (en_wal e) (DeleteVector i) = (ra, w)" by (cases "wal_append (en_wal e) (DeleteVector i)")
  have cl: "\<exists>es. wal_clean w es" using eng_readyD(2) [OF rdy] wal_append_clean [OF _ _ w] by auto
  show ?thesis
  proof (cases "is_ok ra \<and> en_vec e \<noteq> None")
    case True
    then obtain idx idx' b where idx: "en_vec e = Some idx" "index_delete idx i = (b, idx')"
      "r = Ok b" "e' = e\<lparr>en_wal := w, en_vec := Some idx'\<rparr>"
      using del by (auto simp: delete_vector_def w is_ok_iff split: prod.splits)
    from ixv.del_law [OF eng_ready_index [OF rdy idx(1)], of i r idx'] idx(2,3)
    have l: "index_inv (ec_vec C) idx'" "vec_room_for (vi_pool idx) n \<Longrightarrow> vec_room_for (vi_pool idx') n"
      "delete_allowed (index_pair (ec_vec C) idx) i r (index_pair (ec_vec C) idx')" by simp_all
    have "eng_room e n \<Longrightarrow> vec_room_for (vi_pool idx) n" by (simp add: eng_room_def idx(1))
    with eng_ready_vec [OF rdy l(1) cl] eng_room_vec [of e n n idx' w] l(2,3) show ?thesis
      by (simp add: idx(1,4) eng_vec_abs_Some)
  next
    case False
    with del w have "e' = e\<lparr>en_wal := w\<rparr> \<and> \<not> is_ok r"
      by (cases ra) (auto simp: delete_vector_def split: option.splits)
    with eng_ready_log [OF rdy cl] show ?thesis by (auto simp: delete_allowed_alt)
  qed
qed

lemma engine_get_vec_law:
  assumes rdy: "eng_ready C e" and get: "engine_get_vector C R e i = (r, e')"
  shows "eng_ready C e' \<and> (eng_room e n \<longrightarrow> eng_room e' n) \<and> get_allowed (eng_vec_abs C e) i r (eng_vec_abs C e')"
proof (cases "en_vec e")
  case None
  with get rdy show ?thesis by (auto simp: engine_get_vector_def get_allowed_alt)
next
  case (Some idx)
  then obtain idx' where idx: "get_vector (ec_vec C) (er_held R) idx i = (r, idx')" "e' = e\<lparr>en_vec := Some idx'\<rparr>"
    using get by (auto simp: engine_get_vector_def split: prod.splits)
  from ixv.get_law [OF eng_ready_index [OF rdy Some], of "(er_held R, er_now R)" i r idx'] idx(1)
  have l: "index_inv (ec_vec C) idx'" "vec_room_for (vi_pool idx) n \<Longrightarrow> vec_room_for (vi_pool idx') n"
    "get_allowed (index_pair (ec_vec C) idx) i r (index_pair (ec_vec C) idx')" by simp_all
  have e': "e' = e\<lparr>en_wal := en_wal e, en_vec := Some idx'\<rparr>" by (simp add: idx(2))
  have "eng_room e n \<Longrightarrow> vec_room_for (vi_pool idx) n" by (simp add: eng_room_def Some)
  with eng_ready_vec [OF rdy l(1) eng_readyD(2) [OF rdy]] eng_room_vec [of e n n idx' "en_wal e"] l(2,3) show ?thesis
    unfolding e' by (simp add: Some eng_vec_abs_Some)
qed

interpretation engv: vec_trait "eng_ready C" eng_room "eng_vec_abs C"
  "\<lambda>R e i v. insert_vector C R e i v" "\<lambda>R e i. engine_get_vector C R e i" delete_vector for C
proof
  show "\<And>e n. eng_room e (Suc n) \<Longrightarrow> eng_room e n" by (rule eng_room_mono) auto
qed (rule engine_insert_law engine_get_vec_law engine_delete_law; assumption)+

section \<open>The sharded engine\<close>

lemma eng_vec_router:
  "(\<And>i. route i < n) \<Longrightarrow> vec_router (eng_ready C) eng_room (eng_vec_abs C) (\<lambda>R e i v. insert_vector C R e i v)
     (\<lambda>R e i. engine_get_vector C R e i) delete_vector route n"
  by unfold_locales

interpretation hshv: vec_router "eng_ready C" eng_room "eng_vec_abs C" "\<lambda>R e i v. insert_vector C R e i v"
  "\<lambda>R e i. engine_get_vector C R e i" delete_vector "\<lambda>i. hash_shard_for_vector i (Suc m)" "Suc m" for C m
  by unfold_locales (simp add: hash_shard_for_vector_def)

definition sh_taken :: "'h eng_ctx \<Rightarrow> 'h sharded_engine \<Rightarrow> u64 \<rightharpoonup> f32 list" where
  "sh_taken C s i = ea_taken (abs_of C (sh_shards s ! shard_for_vector s i)) i"

abbreviation sh_vec_abs :: "'h eng_ctx \<Rightarrow> 'h sharded_engine \<Rightarrow> vec_abs" where
  "sh_vec_abs C s \<equiv> (sh_live C s, sh_taken C s)"

lemma shd_vec_router:
  assumes "shd_ready C s"
  defines "n \<equiv> num_shards s"
  shows "vec_trait (\<lambda>es. length es = n \<and> list_all (eng_ready C) es) (\<lambda>es m. list_all (\<lambda>e. eng_room e m) es)
    (\<lambda>es. (\<lambda>i. fst (eng_vec_abs C (es ! shard_for_vector s i)) i, \<lambda>i. snd (eng_vec_abs C (es ! shard_for_vector s i)) i))
    (\<lambda>R es i v. at_shard (shard_for_vector s i) (\<lambda>e. insert_vector C R e i v) es)
    (\<lambda>R es i. at_shard (shard_for_vector s i) (\<lambda>e. engine_get_vector C R e i) es)
    (\<lambda>es i. at_shard (shard_for_vector s i) (\<lambda>e. delete_vector e i) es)"
proof -
  have vr: "vec_router (eng_ready C) eng_room (eng_vec_abs C) (\<lambda>R e i v. insert_vector C R e i v)
     (\<lambda>R e i. engine_get_vector C R e i) delete_vector (shard_for_vector s) n"
    using assms(1) by (intro eng_vec_router) (simp add: n_def shd_ready_def routed_def)
  from vec_router.routed_trait [OF this] show ?thesis
    unfolding vec_router.all_ok_def [OF vr, abs_def] vec_router.all_room_def [OF vr, abs_def]
      vec_router.routed_abs_def [OF vr, abs_def] .
qed

lemma shd_vec_update:
  assumes "shd_ready C s" "length es = num_shards s"
  shows "sh_vec_abs C (s\<lparr>sh_shards := es\<rparr>) = (\<lambda>i. fst (eng_vec_abs C (es ! shard_for_vector s i)) i, \<lambda>i. snd (eng_vec_abs C (es ! shard_for_vector s i)) i)"
  using assms by (simp add: sh_live_def sh_taken_def fun_eq_iff)

lemma shd_vec_at:
  "sh_vec_abs C s = (\<lambda>i. fst (eng_vec_abs C (sh_shards s ! shard_for_vector s i)) i, \<lambda>i. snd (eng_vec_abs C (sh_shards s ! shard_for_vector s i)) i)"
  by (simp add: sh_live_def sh_taken_def fun_eq_iff)

interpretation shv: vec_trait "shd_ready C" shd_room "sh_vec_abs C"
  "\<lambda>R s i v. sharded_insert_vector C R s i v" "\<lambda>R s i. sharded_get_vector C R s i" sharded_delete_vector for C
proof
  show "\<And>s n. shd_room s (Suc n) \<Longrightarrow> shd_room s n" by (rule shd.room_mono)
next
  fix s n R i v r s'
  assume a: "shd_ready C s" "shd_room s (Suc n)" "sharded_insert_vector C R s i v = (r, s')"
  obtain es where es: "at_shard (shard_for_vector s i) (\<lambda>e. insert_vector C R e i v) (sh_shards s) = (r, es)" "s' = s\<lparr>sh_shards := es\<rparr>"
    using a(3) by (auto simp: sharded_insert_vector_def on_shard_at)
  note sh = shd_at(1,3) [OF a(1)]
  from vec_trait.ins_law [OF shd_vec_router [OF a(1)] sh(1) a(2) [unfolded sh(2)] es(1)] shd_update(1,3) [OF a(1), of es]
    shd_vec_update [OF a(1), of es]
  show "shd_ready C s' \<and> shd_room s' n \<and> insert_allowed (sh_vec_abs C s) i v r (sh_vec_abs C s')"
    unfolding es(2) shd_vec_at [of C s] by simp
next
  fix s n R i r s'
  assume a: "shd_ready C s" "sharded_get_vector C R s i = (r, s')"
  obtain es where es: "at_shard (shard_for_vector s i) (\<lambda>e. engine_get_vector C R e i) (sh_shards s) = (r, es)" "s' = s\<lparr>sh_shards := es\<rparr>"
    using a(2) by (auto simp: sharded_get_vector_def on_shard_at)
  note sh = shd_at(1,3) [OF a(1)]
  from vec_trait.get_law [OF shd_vec_router [OF a(1)] sh(1) es(1), of n] shd_update(1,3) [OF a(1), of es]
    shd_vec_update [OF a(1), of es]
  show "shd_ready C s' \<and> (shd_room s n \<longrightarrow> shd_room s' n) \<and> get_allowed (sh_vec_abs C s) i r (sh_vec_abs C s')"
    unfolding es(2) shd_vec_at [of C s] sh(2) by simp
next
  fix s n i r s'
  assume a: "shd_ready C s" "sharded_delete_vector s i = (r, s')"
  obtain es where es: "at_shard (shard_for_vector s i) (\<lambda>e. delete_vector e i) (sh_shards s) = (r, es)" "s' = s\<lparr>sh_shards := es\<rparr>"
    using a(2) by (auto simp: sharded_delete_vector_def on_shard_at)
  note sh = shd_at(1,3) [OF a(1)]
  from vec_trait.del_law [OF shd_vec_router [OF a(1)] sh(1) es(1), of n] shd_update(1,3) [OF a(1), of es]
    shd_vec_update [OF a(1), of es]
  show "shd_ready C s' \<and> (shd_room s n \<longrightarrow> shd_room s' n) \<and> delete_allowed (sh_vec_abs C s) i r (sh_vec_abs C s')"
    unfolding es(2) shd_vec_at [of C s] sh(2) by simp
qed

abbreviation sharded_vec_run ::
  "'h eng_ctx \<Rightarrow> 'h sharded_engine \<Rightarrow> (eng_run \<times> vec_call) list \<Rightarrow> vec_reply list \<times> 'h sharded_engine" where
  "sharded_vec_run C \<equiv>
     vec_exec (\<lambda>R s i v. sharded_insert_vector C R s i v) (\<lambda>R s i. sharded_get_vector C R s i) sharded_delete_vector"

definition toy_vec_calls :: "(eng_run \<times> vec_call) list" where
  "toy_vec_calls = map (Pair toy_run)
     [InsertCall 1 [5], GetVecCall 1, InsertCall 1 [6], DeleteVecCall 1, GetVecCall 1, DeleteVecCall 1, InsertCall 1 [5], InsertCall 2 [7], GetVecCall 2]"

text \<open>
  The sharded engine is one store of vectors (C20).  Whatever the router does, as long as it stays in range: the replies to any
  sequence of insertions, reads and deletions, in any surroundings, are those of one map of live vectors in which the calls that
  fail have no effect.  An insertion succeeds only for an id that was never stored, an id that was deleted stays taken, and
  the error for a duplicate is given for such ids only.
\<close>

theorem sharded_vectors_run_refines:
  assumes "shd_ready C s" "shd_room s (inserts calls)" "sharded_vec_run C s calls = (rs, s')"
  shows "vec_explains (sh_vec_abs C s) (map snd calls) rs \<and> sh_vec_abs C s' = vec_final (sh_vec_abs C s) (map snd calls) rs \<and>
    shd_ready C s'"
  using shv.vec_exec_law [OF assms(1) _ assms(3), of 0] assms(2) by simp

theorem sharded_vectors_run_refines_witness:
  "let (rs, s') = sharded_vec_run toy_eng_ctx toy_sharded toy_vec_calls
   in rs = [InsertReply (Ok ()), GetVecReply (Ok (Some [5])), InsertReply (Err (DuplicateVector 1)), DeleteVecReply (Ok True),
            GetVecReply (Ok None), DeleteVecReply (Ok False), InsertReply (Err (DuplicateVector 1)), InsertReply (Ok ()),
            GetVecReply (Ok (Some [7]))] \<and>
      vec_explains (sh_vec_abs toy_eng_ctx toy_sharded) (map snd toy_vec_calls) rs \<and> shd_ready toy_eng_ctx s'"
proof -
  have rdy: "shd_ready toy_eng_ctx toy_sharded"
    using toy_sharded_ready(1,2) toy_eng_ctx_ok by (auto simp: shd_ready_def sh_ready_def eng_ready_def list_all_iff)
  have room: "shd_room toy_sharded (inserts toy_vec_calls)" by code_simp
  have rs: "fst (sharded_vec_run toy_eng_ctx toy_sharded toy_vec_calls) =
      [InsertReply (Ok ()), GetVecReply (Ok (Some [5])), InsertReply (Err (DuplicateVector 1)), DeleteVecReply (Ok True),
       GetVecReply (Ok None), DeleteVecReply (Ok False), InsertReply (Err (DuplicateVector 1)), InsertReply (Ok ()),
       GetVecReply (Ok (Some [7]))]" by code_simp
  from sharded_vectors_run_refines [OF rdy room surjective_pairing] rs show ?thesis
    unfolding Let_def split_beta by simp
qed

end
