(* ===== verification/Vec_Durability.thy ===== *)
theory Vec_Durability
  imports Durability Vec_Impl
begin

text \<open>
  What the trait promises across the end of a process for an engine with a vector index.  The next process finds the stored vectors
  and rebuilds the graph of all of them, the deleted ones included; the replay of the log then deletes again what was deleted.
  That gives the vectors of the first process as long as the log does not insert an id after deleting it: such an
  insertion is skipped as a duplicate, and the vector is lost.
\<close>

section \<open>Replaying a log over the vectors it has stored\<close>

text \<open>No id is inserted after it was deleted; \<open>ds\<close> are the ids deleted before.\<close>

fun tidy :: "u64 list \<Rightarrow> wal_op list \<Rightarrow> bool" where
  "tidy ds [] = True"
| "tidy ds (InsertVector i v # ops) = (i \<notin> set ds \<and> tidy ds ops)"
| "tidy ds (DeleteVector i # ops) = tidy (i # ds) ops"
| "tidy ds (op # ops) = tidy ds ops"

lemma tidy_live:
  assumes "tidy ds ops" "\<forall>i. ea_live a i = (if i \<in> set ds then None else ea_taken a i)"
  shows "ea_live (apply_ops C a ops) i =
    (if i \<in> set ds \<or> DeleteVector i \<in> set ops then None else ea_taken (apply_ops C a ops) i)"
  using assms
proof (induction ds ops arbitrary: a rule: tidy.induct)
  case (2 ds j v ops)
  have "\<forall>i. ea_live (apply_op C a (InsertVector j v)) i = (if i \<in> set ds then None else ea_taken (apply_op C a (InsertVector j v)) i)"
    using 2(2,3) by auto
  from 2(1) [OF _ this] 2(2) show ?case by simp
next
  case (3 ds j ops)
  have "\<forall>i. ea_live (apply_op C a (DeleteVector j)) i = (if i \<in> set (j # ds) then None else ea_taken (apply_op C a (DeleteVector j)) i)"
    using 3(3) by auto
  from 3(1) [OF _ this] 3(2) show ?case by auto
qed (auto split: res.splits)

lemma taken_op: "ea_taken a i \<noteq> None \<Longrightarrow> ea_taken (apply_op C a op) i = ea_taken a i"
  by (cases op) (auto split: res.splits)

lemma taken_ops: "ea_taken a i \<noteq> None \<Longrightarrow> ea_taken (apply_ops C a ops) i = ea_taken a i"
proof (induction ops arbitrary: a)
  case (Cons op ops)
  from Cons.IH [of "apply_op C a op"] taken_op [OF Cons.prems, of C op] Cons.prems show ?case by simp
qed simp

lemma inserted_taken: "InsertVector i v \<in> set ops \<Longrightarrow> ea_taken (apply_ops C a ops) i \<noteq> None"
proof (induction ops arbitrary: a)
  case (Cons op ops)
  show ?case
  proof (cases "op = InsertVector i v")
    case True
    then have "ea_taken (apply_op C a op) i \<noteq> None" by simp
    from taken_ops [OF this, of C ops] this show ?thesis by simp
  qed (use Cons in simp)
qed simp

text \<open>Over a state that has taken all ids it inserts, a log does nothing but delete.\<close>

lemma apply_op_taken:
  assumes "\<forall>i v. op = InsertVector i v \<longrightarrow> ea_taken b i \<noteq> None"
  shows "ea_taken (apply_op C b op) = ea_taken b"
    "ea_live (apply_op C b op) i = (if op = DeleteVector i then None else ea_live b i)"
  using assms by (cases op; auto split: res.splits)+

lemma replay_deletes:
  assumes "\<And>i v. InsertVector i v \<in> set ops \<Longrightarrow> ea_taken b i \<noteq> None"
  shows "ea_taken (apply_ops C b ops) = ea_taken b"
    "ea_live (apply_ops C b ops) i = (if DeleteVector i \<in> set ops then None else ea_live b i)"
proof -
  have "ea_taken (apply_ops C b ops) = ea_taken b \<and>
    ea_live (apply_ops C b ops) i = (if DeleteVector i \<in> set ops then None else ea_live b i)"
    using assms
  proof (induction ops arbitrary: b)
    case (Cons op ops)
    have "\<forall>i v. op = InsertVector i v \<longrightarrow> ea_taken b i \<noteq> None" using Cons.prems by auto
    note o = apply_op_taken [OF this, of C]
    have "ea_taken (apply_op C b op) j \<noteq> None" if "InsertVector j v \<in> set ops" for j v
      unfolding o(1) by (rule Cons.prems [of j v]) (use that in simp)
    from Cons.IH [OF this] o show ?case by auto
  qed simp
  then show "ea_taken (apply_ops C b ops) = ea_taken b"
    "ea_live (apply_ops C b ops) i = (if DeleteVector i \<in> set ops then None else ea_live b i)" by blast+
qed

text \<open>The state that the first process left comes back from its stored vectors and its log.\<close>

lemma rebuilt_and_replayed:
  assumes "ea_live a = ea_taken a" "tidy [] ops"
    and "ea_taken b = ea_taken (apply_ops C a ops)" "ea_live b = ea_taken b"
  shows "ea_live (apply_ops C b ops) = ea_live (apply_ops C a ops)" "ea_taken (apply_ops C b ops) = ea_taken (apply_ops C a ops)"
proof -
  have "InsertVector i v \<in> set ops \<Longrightarrow> ea_taken b i \<noteq> None" for i v using inserted_taken [of i v ops C a] assms(3) by simp
  note r = replay_deletes [of ops b C, OF this]
  show "ea_taken (apply_ops C b ops) = ea_taken (apply_ops C a ops)" using r(1) assms(3) by simp
  show "ea_live (apply_ops C b ops) = ea_live (apply_ops C a ops)"
  proof
    fix i
    show "ea_live (apply_ops C b ops) i = ea_live (apply_ops C a ops) i"
      using r(2) [where i = i] tidy_live [OF assms(2), of a C i] assms by simp
  qed
qed

section \<open>An engine after the end of a process\<close>

lemma open_vec_Ok:
  assumes "open_kv_only C R hm q = Ok e" "hm_vec_meta hm"
  obtains kv idx w where "kv_open (ec_heed C) (hm_kv_env hm) (hm_kv_dir hm) 0 q = Ok kv"
    "index_reopen (ec_vec C) (er_held R) (hm_vec_env hm) (hm_vec_dir hm) 0 = Ok idx" "wal_open (hm_wal_dir hm) = Ok w"
    "recover_inner C R \<lparr>en_kv = kv, en_vec = Some idx, en_col = None, en_wal = w, en_home = hm, en_quota_limit = q\<rparr> = (Ok (), e)"
proof -
  from assms obtain kv idx w where *: "kv_open (ec_heed C) (hm_kv_env hm) (hm_kv_dir hm) 0 q = Ok kv"
    "index_reopen (ec_vec C) (er_held R) (hm_vec_env hm) (hm_vec_dir hm) 0 = Ok idx" "wal_open (hm_wal_dir hm) = Ok w"
    and rec: "(case recover_inner C R \<lparr>en_kv = kv, en_vec = Some idx, en_col = None, en_wal = w, en_home = hm, en_quota_limit = q\<rparr>
       of (Ok u, e) \<Rightarrow> Ok e | (Err x, e) \<Rightarrow> Err x | (Panic, e) \<Rightarrow> Panic) = Ok e"
    unfolding open_kv_only_def engine_open_def res_bind_eq_Ok by auto
  let ?e0 = "\<lparr>en_kv = kv, en_vec = Some idx, en_col = None, en_wal = w, en_home = hm, en_quota_limit = q\<rparr>"
  obtain r e1 where re: "recover_inner C R ?e0 = (r, e1)" by (cases "recover_inner C R ?e0")
  with rec have "r = Ok () \<and> e1 = e" by (cases r) simp_all
  with that [OF *] re show thesis by simp
qed

text \<open>
  A namespace whose KV store was never flushed and whose snapshot, if there is one, has fewer vectors than are stored, with room
  for \<open>n\<close> segments.
\<close>

definition vec_namespace :: "'h eng_ctx \<Rightarrow> 'h engine \<Rightarrow> nat \<Rightarrow> bool" where
  "vec_namespace C e n \<longleftrightarrow>
     (let kd = sp_data_dir (ks_pool (en_kv e)) in
      read_active_cursor kd = None \<and> next_seg_id kd \<noteq> 0 \<and> unat (next_seg_id kd) + n \<le> U32_MAX) \<and>
     (case en_vec e of
        None \<Rightarrow> False
      | Some idx \<Rightarrow>
          (let vd = vp_data_dir (vi_pool idx) in
           next_vec_seg_id vd \<noteq> 0 \<and> unat (next_vec_seg_id vd) + n < U32_MAX \<and>
           heed_view (vc_heed (ec_vec C)) (vi_env idx) '''' SCHEMA_KEY = Some (vj_schema_to_vec (vc_serde (ec_vec C)) (vi_schema idx)) \<and>
           nsw_len (snapshot_graph vd) < card (dom (stored_vectors (ec_vec C) idx))))"

lemma vec_crash:
  assumes ctx: "eng_ctx_ok C" and inv: "eng_inv C e" and log: "wal_clean (en_wal e) es"
    and m: "read_marker (ec_marker_from_slice C) (en_wal e) = Ok m"
    and ns: "vec_namespace C e (ops_weight C (pending m es))"
    and sync: "abs_of C e = apply_ops C a (map we_op (pending m es))" "ea_live a = ea_taken a" "tidy [] (map we_op (pending m es))"
    and op: "open_kv_only C R (engine_home e) quota = Ok e'"
  shows "eng_inv C e'" "ea_kv (abs_of C e') = ea_kv (abs_of C e)" "eng_vec_abs C e' = eng_vec_abs C e"
    "\<exists>plan. engine_plan C e' = Ok plan \<and> rp_entries plan = []"
proof -
  let ?hm = "engine_home e"
  obtain idx where idx: "en_vec e = Some idx" using ns by (auto simp: vec_namespace_def split: option.splits)
  have hm: "hm_kv_env ?hm = ks_env (en_kv e)" "hm_kv_dir ?hm = sp_data_dir (ks_pool (en_kv e))"
    "hm_wal_dir ?hm = wl_dir (en_wal e)" "hm_vec_meta ?hm" "hm_vec_env ?hm = vi_env idx" "hm_vec_dir ?hm = vp_data_dir (vi_pool idx)"
    by (simp_all add: engine_home_def Let_def idx split: option.splits)
  from op hm(4) obtain kv idx0 w where kv: "kv_open (ec_heed C) (hm_kv_env ?hm) (hm_kv_dir ?hm) 0 quota = Ok kv"
    and ro: "index_reopen (ec_vec C) (er_held R) (hm_vec_env ?hm) (hm_vec_dir ?hm) 0 = Ok idx0"
    and w: "wal_open (hm_wal_dir ?hm) = Ok w"
    and rec: "recover_inner C R \<lparr>en_kv = kv, en_vec = Some idx0, en_col = None, en_wal = w, en_home = ?hm,
        en_quota_limit = quota\<rparr> = (Ok (), e')" (is "recover_inner C R ?e0 = _")
    by (rule open_vec_Ok)
  have kvi: "kv_inv (ec_heed C) (en_kv e)" and ivi: "index_inv (ec_vec C) idx" using inv by (simp_all add: eng_inv_def idx)
  have cur: "read_active_cursor (sp_data_dir (ks_pool (en_kv e))) = None"
    "next_seg_id (sp_data_dir (ks_pool (en_kv e))) \<noteq> 0" using ns by (simp_all add: vec_namespace_def Let_def)
  note cr = kv_open_after_crash [OF eng_heed [OF ctx] kvi cur kv [unfolded hm(1,2)]]
  have vn: "next_vec_seg_id (vp_data_dir (vi_pool idx)) \<noteq> 0"
    "heed_view (vc_heed (ec_vec C)) (vi_env idx) '''' SCHEMA_KEY = Some (vj_schema_to_vec (vc_serde (ec_vec C)) (vi_schema idx))"
    "nsw_len (snapshot_graph (vp_data_dir (vi_pool idx))) < card (dom (stored_vectors (ec_vec C) idx))"
    using ns by (simp_all add: vec_namespace_def idx Let_def)
  note ir = index_reopen_rebuilds [OF eng_vec [OF ctx] ivi vn(1) _ vn(2,3) ro [unfolded hm(5,6)], simplified]
  have c: "fs_ok (wl_dir (en_wal e))" "fs_read (wl_dir (en_wal e)) WAL_LOG = Some (frames es)"
    "read_entries (frames es) = Ok es"
    using log read_entries_frames_only [of es] by (auto simp: wal_clean_def)
  obtain ww where "wal_open (wl_dir (en_wal e)) = Ok ww" "fs_ok (wl_dir ww)" "read_all ww = Ok es"
    "fs_read (wl_dir ww) MARKER = fs_read (wl_dir (en_wal e)) MARKER"
    using wal_open_keeps [OF c] by blast
  with w have w: "fs_ok (wl_dir w)" "read_all w = Ok es" "read_marker (ec_marker_from_slice C) w = Ok m"
    using m by (simp_all add: hm read_marker_def)
  have plan: "engine_plan C ?e0 = Ok \<lparr>rp_entries = pending m es, rp_applied_seq = marker_applied m\<rparr>"
    using w by (simp add: engine_plan_def pending_recover_plan_def pending_def)
  have inv0: "eng_inv C ?e0" using cr ir(1) by (simp add: eng_inv_def)
  have room: "eng_room ?e0 (ops_weight C (rp_entries \<lparr>rp_entries = pending m es, rp_applied_seq = marker_applied m\<rparr>))"
    using ns cr ir(5) by (simp add: eng_room_def room_for_def vec_room_for_def vec_namespace_def idx Let_def)
  note rc = recover_inner_correct [OF ctx inv0 _ plan room rec]
  show "eng_inv C e'" by (rule rc(1)) (simp add: w)
  show "\<exists>plan. engine_plan C e' = Ok plan \<and> rp_entries plan = []" using rc(3) w by simp
  let ?P = "map we_op (pending m es)"
  have e': "abs_of C e' = apply_ops C (abs_of C ?e0) ?P" using rc(2) w by simp
  have "ea_kv (abs_of C ?e0) = ea_kv (apply_ops C a (take (length ?P) ?P))" using cr by (simp add: sync(1) [symmetric]) (simp add: abs_of_def)
  from apply_ops_kv_idempotent [OF this] show "ea_kv (abs_of C e') = ea_kv (abs_of C e)" by (simp add: e' sync(1))
  have "ea_taken (abs_of C ?e0) = ea_taken (apply_ops C a ?P)" "ea_live (abs_of C ?e0) = ea_taken (abs_of C ?e0)"
    using ir(2,4) by (simp_all add: sync(1) [symmetric]) (simp_all add: abs_of_def idx)
  from rebuilt_and_replayed [OF sync(2,3) this] show "eng_vec_abs C e' = eng_vec_abs C e" by (simp add: e' sync(1))
qed

section \<open>Runs of the trait\<close>

text \<open>The calls on keys and on vectors, in any order.\<close>

datatype store_call = KvPart kv_call | VecPart vec_call

datatype store_reply = KvReply kv_reply | VecReply vec_reply

fun engine_call ::
  "'h eng_ctx \<Rightarrow> eng_run \<times> nat option \<Rightarrow> 'h engine \<Rightarrow> store_call \<Rightarrow> store_reply \<times> 'h engine" where
  "engine_call C c e (KvPart call) = (case engine_call1 C c e call of (r, e') \<Rightarrow> (KvReply r, e'))"
| "engine_call C c e (VecPart call) =
     (case vec_call1 (\<lambda>R e i v. insert_vector C R e i v) (\<lambda>R e i. engine_get_vector C R e i) delete_vector (fst c) e call of
        (r, e') \<Rightarrow> (VecReply r, e'))"

fun engine_calls ::
  "'h eng_ctx \<Rightarrow> 'h engine \<Rightarrow> ((eng_run \<times> nat option) \<times> store_call) list \<Rightarrow> store_reply list \<times> 'h engine" where
  "engine_calls C e [] = ([], e)"
| "engine_calls C e ((c, call) # calls) =
     (case engine_call C c e call of
        (r, e1) \<Rightarrow> (case engine_calls C e1 calls of (rs, e2) \<Rightarrow> (r # rs, e2)))"

fun vec_reply_ok :: "vec_reply \<Rightarrow> bool" where
  "vec_reply_ok (InsertReply r) = is_ok r"
| "vec_reply_ok (GetVecReply r) = is_ok r"
| "vec_reply_ok (DeleteVecReply r) = is_ok r"

fun store_reply_ok :: "store_reply \<Rightarrow> bool" where
  "store_reply_ok (KvReply r) = reply_ok r"
| "store_reply_ok (VecReply r) = vec_reply_ok r"

text \<open>What a call writes to the log.\<close>

fun call_ops :: "store_call \<Rightarrow> wal_op list" where
  "call_ops (KvPart (PutCall k v)) = [PutKv k v]"
| "call_ops (KvPart (DeleteCall k)) = [DeleteKv k]"
| "call_ops (VecPart (InsertCall i v)) = [InsertVector i v]"
| "call_ops (VecPart (DeleteVecCall i)) = [DeleteVector i]"
| "call_ops _ = []"

abbreviation calls_ops :: "('c \<times> store_call) list \<Rightarrow> wal_op list" where
  "calls_ops calls \<equiv> concat (map (\<lambda>(c, call). call_ops call) calls)"

text \<open>
  The pending operations of the log are \<open>ops\<close>, the engine has applied them to a state without deleted vectors, and for
  another \<open>n\<close> calls no entry can be mistaken for one below the marker.
\<close>

definition logged :: "'h eng_ctx \<Rightarrow> checkpoint_marker option \<Rightarrow> wal_op list \<Rightarrow> nat \<Rightarrow> 'h engine \<Rightarrow> bool" where
  "logged C m ops n e \<longleftrightarrow> eng_ready C e \<and> read_marker (ec_marker_from_slice C) (en_wal e) = Ok m \<and>
     marker_applied m < wl_next_seq (en_wal e) \<and> unat (wl_next_seq (en_wal e)) + n < 2 ^ 64 \<and>
     (\<exists>es. wal_clean (en_wal e) es \<and> map we_op (pending m es) = ops) \<and>
     (\<exists>a. ea_live a = ea_taken a \<and> abs_of C e = apply_ops C a ops)"

lemma logged_mono: "logged C m ops n e \<Longrightarrow> n' \<le> n \<Longrightarrow> logged C m ops n' e"
  by (simp add: logged_def)

lemma logged_append:
  assumes l: "logged C m ops (Suc n) e" and w: "wal_append (en_wal e) op = (Ok sq, en_wal e')" and wf: "op_wf op"
    and e': "eng_ready C e'" "abs_of C e' = apply_op C (abs_of C e) op"
  shows "logged C m (ops @ [op]) n e'"
proof -
  obtain es a where es: "wal_clean (en_wal e) es" "map we_op (pending m es) = ops"
    and a: "ea_live a = ea_taken a" "abs_of C e = apply_ops C a ops"
    using l by (auto simp: logged_def)
  let ?x = "\<lparr>we_seq = wl_next_seq (en_wal e), we_op = op\<rparr>"
  have w': "wal_clean (en_wal e') (es @ [?x])" "wl_next_seq (en_wal e') = wl_next_seq (en_wal e) + 1"
    using wal_clean_append [OF es(1) wf wal_append_Ok_fits [OF w]] w by auto
  have "fs_read (wl_dir (en_wal e')) MARKER = fs_read (wl_dir (en_wal e)) MARKER"
    by (rule wal_append_marker [OF es(1) w])
  then have mk: "read_marker (ec_marker_from_slice C) (en_wal e') = Ok m" using l by (simp add: logged_def read_marker_def)
  have lt: "marker_applied m < wl_next_seq (en_wal e)" and nw: "unat (wl_next_seq (en_wal e)) + Suc n < 2 ^ 64"
    using l by (auto simp: logged_def)
  have sq: "unat (wl_next_seq (en_wal e) + 1) = Suc (unat (wl_next_seq (en_wal e)))"
    using nw by (simp add: unat_word_ariths)
  have "map we_op (pending m (es @ [?x])) = ops @ [op]" using lt es(2) by (subst pending_append) simp_all
  moreover have "abs_of C e' = apply_ops C a (ops @ [op])" using e'(2) a(2) by simp
  ultimately show ?thesis
    using e'(1) mk w' nw lt sq a(1) by (auto simp: logged_def word_less_nat_alt intro!: exI [of _ "es @ [?x]"] exI [of _ a])
qed

text \<open>A call that succeeds has the effect of what it logs.\<close>

lemma engine_insert_logs:
  assumes "insert_vector C R e i v = (Ok u, e')"
  shows "\<exists>sq. wal_append (en_wal e) (InsertVector i v) = (Ok sq, en_wal e')"
    "ea_kv (abs_of C e') = ea_kv (abs_of C e)" "ea_tables (abs_of C e') = ea_tables (abs_of C e)"
  using assms by (auto simp: insert_vector_def abs_of_def split: prod.splits res.splits option.splits)

lemma engine_delete_logs:
  assumes "delete_vector e i = (Ok b, e')"
  shows "\<exists>sq. wal_append (en_wal e) (DeleteVector i) = (Ok sq, en_wal e')"
    "ea_kv (abs_of C e') = ea_kv (abs_of C e)" "ea_tables (abs_of C e') = ea_tables (abs_of C e)"
  using assms by (auto simp: delete_vector_def abs_of_def split: prod.splits res.splits option.splits)

lemma eng_abs_eqI:
  "ea_kv x = ea_kv y \<Longrightarrow> ea_taken x = ea_taken y \<Longrightarrow> ea_live x = ea_live y \<Longrightarrow> ea_tables x = ea_tables y \<Longrightarrow> x = (y :: eng_abs)"
  by (cases x; cases y) simp

lemma logged_vec_call:
  assumes l: "logged C m ops (Suc n) e" and room: "eng_room e (Suc k)"
    and c1: "vec_call1 (\<lambda>R e i v. insert_vector C R e i v) (\<lambda>R e i. engine_get_vector C R e i) delete_vector R e call = (r, e')"
    and ok: "vec_reply_ok r"
  shows "logged C m (ops @ call_ops (VecPart call)) n e' \<and> eng_room e' k \<and> abs_of C e' = apply_ops C (abs_of C e) (call_ops (VecPart call))"
proof -
  have rdy: "eng_ready C e" using l by (simp add: logged_def)
  have room': "eng_room e (k + (if is_insert call then 1 else 0))" by (rule eng_room_mono [OF room]) simp
  note law = engv.vec_call_law [OF rdy room' c1]
  show ?thesis
  proof (cases call)
    case (InsertCall i v)
    have ins: "insert_vector C R e i v = (Ok (), e')" and r: "r = InsertReply (Ok ())"
      using c1 ok by (auto simp: InsertCall is_ok_iff split: prod.splits)
    have "abs_of C e' = apply_op C (abs_of C e) (InsertVector i v)"
      using law engine_insert_logs(2,3) [OF ins] by (intro eng_abs_eqI) (simp_all add: InsertCall r)
    with engine_insert_logs(1) [OF ins] law show ?thesis
      by (auto simp: InsertCall intro!: logged_append [OF l])
  next
    case (DeleteVecCall i)
    obtain b where del: "delete_vector e i = (Ok b, e')" and r: "r = DeleteVecReply (Ok b)"
      using c1 ok by (auto simp: DeleteVecCall is_ok_iff split: prod.splits)
    have "abs_of C e' = apply_op C (abs_of C e) (DeleteVector i)"
      using law engine_delete_logs(2,3) [OF del, of C] by (intro eng_abs_eqI) (simp_all add: DeleteVecCall r)
    with engine_delete_logs(1) [OF del] law show ?thesis
      by (auto simp: DeleteVecCall intro!: logged_append [OF l])
  next
    case (GetVecCall i)
    have get: "en_wal e' = en_wal e" "ea_kv (abs_of C e') = ea_kv (abs_of C e)" "ea_tables (abs_of C e') = ea_tables (abs_of C e)"
      using c1 by (auto simp: GetVecCall engine_get_vector_def abs_of_def split: prod.splits option.splits)
    have "vec_after (eng_vec_abs C e) call r = eng_vec_abs C e" by (simp add: GetVecCall)
    then have "abs_of C e' = abs_of C e" using law get by (intro eng_abs_eqI) simp_all
    then have "logged C m ops (Suc n) e'" using l law get(1) by (simp add: logged_def)
    then show ?thesis using logged_mono [of C m ops "Suc n" e' n] law \<open>abs_of C e' = abs_of C e\<close> by (simp add: GetVecCall)
  qed
qed

lemma logged_kv_call:
  assumes l: "logged C m ops (Suc n) e" and room: "eng_room e (Suc k)"
    and c1: "engine_call1 C c e call = (r, e')" and ok: "reply_ok r"
  shows "logged C m (ops @ call_ops (KvPart call)) n e' \<and> eng_room e' k \<and> abs_of C e' = apply_ops C (abs_of C e) (call_ops (KvPart call))"
proof -
  have rdy: "eng_ready C e" using l by (simp add: logged_def)
  have room': "eng_room e (k + (if is_put call then 1 else 0))" by (rule eng_room_mono [OF room]) simp
  note law = eng.call_law [OF rdy room' c1]
  obtain R t where c: "c = (R, t)" by (cases c)
  show ?thesis
  proof (cases call)
    case (PutCall key v)
    have put: "engine_put_kv C R e key v t = (Ok (), e')" and r: "r = PutReply (Ok ())"
      using c1 ok by (auto simp: PutCall c is_ok_iff split: prod.splits)
    then obtain sq w kv where w: "wal_append (en_wal e) (PutKv key v) = (Ok sq, w)" and e': "e' = e\<lparr>en_wal := w, en_kv := kv\<rparr>"
      by (auto simp: engine_put_kv_def split: prod.splits res.splits)
    have "abs_of C e' = apply_op C (abs_of C e) (PutKv key v)"
      using law by (intro eng_abs_eqI) (simp_all add: PutCall r e' abs_of_def)
    with w law show ?thesis by (auto simp: PutCall e' intro!: logged_append [OF l])
  next
    case (DeleteCall key)
    obtain bb where del: "engine_delete_kv C R e key t = (Ok bb, e')" and r: "r = DeleteReply (Ok bb)"
      using c1 ok by (auto simp: DeleteCall c is_ok_iff split: prod.splits)
    then obtain sq w kv where w: "wal_append (en_wal e) (DeleteKv key) = (Ok sq, w)" and e': "e' = e\<lparr>en_wal := w, en_kv := kv\<rparr>"
      by (auto simp: engine_delete_kv_def split: prod.splits res.splits)
    have "abs_of C e' = apply_op C (abs_of C e) (DeleteKv key)"
      using law by (intro eng_abs_eqI) (simp_all add: DeleteCall r e' abs_of_def)
    with w law show ?thesis by (auto simp: DeleteCall e' intro!: logged_append [OF l])
  next
    case (GetCall key)
    obtain kv where e': "e' = e\<lparr>en_kv := kv\<rparr>"
      using c1 by (auto simp: GetCall engine_read_def engine_get_kv_def split: prod.splits)
    have "abs_of C e' = abs_of C e" using law by (intro eng_abs_eqI) (simp_all add: GetCall e' abs_of_def)
    then have "logged C m ops (Suc n) e'" using l law by (simp add: logged_def e')
    then show ?thesis using logged_mono [of C m ops "Suc n" e' n] law \<open>abs_of C e' = abs_of C e\<close> by (simp add: GetCall)
  qed
qed

lemma logged_call:
  assumes "logged C m ops (Suc n) e" "eng_room e (Suc k)" "engine_call C c e call = (r, e')" "store_reply_ok r"
  shows "logged C m (ops @ call_ops call) n e' \<and> eng_room e' k \<and> abs_of C e' = apply_ops C (abs_of C e) (call_ops call)"
  using assms logged_kv_call [OF assms(1,2), of c] logged_vec_call [OF assms(1,2), of "fst c"]
  by (cases call) (auto split: prod.splits)

lemma logged_calls:
  assumes "logged C m ops (n + length calls) e" "eng_room e (length calls)" "engine_calls C e calls = (rs, e')" "list_all store_reply_ok rs"
  shows "logged C m (ops @ calls_ops calls) n e' \<and> abs_of C e' = apply_ops C (abs_of C e) (calls_ops calls)"
  using assms
proof (induction calls arbitrary: e rs ops)
  case (Cons x calls)
  obtain c call where x: "x = (c, call)" by (cases x)
  obtain r e1 where c1: "engine_call C c e call = (r, e1)" by (cases "engine_call C c e call")
  obtain rs1 where rest: "engine_calls C e1 calls = (rs1, e')" "rs = r # rs1"
    using Cons.prems(3) by (auto simp: x c1 split: prod.splits)
  have one: "logged C m (ops @ call_ops call) (n + length calls) e1 \<and> eng_room e1 (length calls) \<and>
      abs_of C e1 = apply_ops C (abs_of C e) (call_ops call)"
    by (rule logged_call [OF _ _ c1]) (use Cons.prems rest(2) in simp_all)
  then have "logged C m ((ops @ call_ops call) @ calls_ops calls) n e' \<and> abs_of C e' = apply_ops C (abs_of C e1) (calls_ops calls)"
    by (intro Cons.IH [OF _ _ rest(1)]) (use Cons.prems(4) rest(2) in simp_all)
  with one show ?case by (simp add: x)
qed simp

section \<open>Properties\<close>

text \<open>
  Durability of an engine with a vector index (C9).  Take a namespace whose KV pool was never flushed or rotated, whose snapshot is missing
  or stale and whose log is clean and holds all deletions of vectors, and any sequence of puts, reads and deletes of keys and of insertions, reads
  and deletions of vectors that all succeed, in which no id is inserted after a deletion of it that is still in the log (such a vector is
  lost, see \<open>recovery_loses_vector\<close>).  Let the process end without closing the engine or writing a snapshot.  If the next
  process can open the namespace, it has the keys and values, the
  live vectors and the ids that are taken that the calls make of the first state, and nothing is left to replay.
\<close>

theorem store_survives_crash:
  assumes "logged C m ops (length calls) e" "eng_room e (length calls)" "tidy [] (ops @ calls_ops calls)"
    and "engine_calls C e calls = (rs, e')" "list_all store_reply_ok rs"
    and "vec_namespace C e' (sum_list (map (op_weight C) (ops @ calls_ops calls)))"
    and "open_kv_only C R (engine_home e') q = Ok e''"
  shows "ea_kv (abs_of C e'') = ea_kv (apply_ops C (abs_of C e) (calls_ops calls)) \<and>
    ea_live (abs_of C e'') = ea_live (apply_ops C (abs_of C e) (calls_ops calls)) \<and>
    ea_taken (abs_of C e'') = ea_taken (apply_ops C (abs_of C e) (calls_ops calls)) \<and> eng_inv C e'' \<and>
    (\<exists>plan. engine_plan C e'' = Ok plan \<and> rp_entries plan = [])"
proof -
  have r: "logged C m (ops @ calls_ops calls) 0 e'" "abs_of C e' = apply_ops C (abs_of C e) (calls_ops calls)"
    using logged_calls [of C m ops 0 calls e] assms(1,2,4,5) by simp_all
  then obtain es a where es: "wal_clean (en_wal e') es" "map we_op (pending m es) = ops @ calls_ops calls"
    and a: "ea_live a = ea_taken a" "abs_of C e' = apply_ops C a (ops @ calls_ops calls)"
    and rdy: "eng_ctx_ok C" "eng_inv C e'" and mk: "read_marker (ec_marker_from_slice C) (en_wal e') = Ok m"
    by (auto simp: logged_def eng_ready_def)
  have "ops_weight C (pending m es) = sum_list (map (op_weight C) (map we_op (pending m es)))"
    by (simp add: ops_weight_def comp_def)
  with es(2) assms(6) have "vec_namespace C e' (ops_weight C (pending m es))" by simp
  from vec_crash [OF rdy es(1) mk this _ a(1) _ assms(7)] assms(3) a(2) es(2) r(2) show ?thesis by simp
qed

text \<open>An engine that inserted a vector and deleted it; the next process finds its files.\<close>

lemma rebuild_ok:
  assumes "vec_ctx_ok C" "vec_pool_inv (vi_pool idx)" "db_ok C (vi_env idx)"
    and "idx_covered vec_read (vi_pool idx) (loc_index C (vi_env idx))"
    and "hd_read_txn (vc_heed C) (vi_env idx) = HOk ()" "hd_iter (vc_heed C) (vi_env idx) VEC_LOCATOR_DB = HOk kvs"
  shows "\<exists>g p. rebuild_graph_from_data C held idx = (Ok (), idx\<lparr>vi_pool := p, vi_graph := g\<rparr>)"
proof -
  obtain live hc where sc: "scan_live (vc_serde C) held (\<lambda>_. False) (vi_pool idx) kvs = (Ok live, (vi_pool idx)\<lparr>vp_handles := hc\<rparr>)"
    "distinct (map fst live)"
    by (rule scan_store [OF assms(1-4,6), of held "\<lambda>_. False"])
  obtain g where "graph_of_live C (vs_metric (vi_schema idx)) live = Ok g"
    by (rule graph_of_live_ok [OF assms(1) sc(2), of "vs_metric (vi_schema idx)"])
  with sc assms(5,6) show ?thesis by (auto simp: rebuild_graph_from_data_def)
qed

abbreviation toy_mixed :: "((eng_run \<times> nat option) \<times> store_call) list" where
  "toy_mixed \<equiv> [((toy_run, None), VecPart (InsertCall 1 [5])), ((toy_run, None), VecPart (DeleteVecCall 1))]"

definition toy_ended :: "mem_db engine" where
  "toy_ended = snd (engine_calls toy_eng_ctx toy_engine toy_mixed)"

lemma toy_deleted_facts:
  "index_inv toy_ctx toy_deleted" "stored_vectors toy_ctx toy_deleted 1 = Some [5]" "vi_env toy_deleted = vi_env toy_one"
  "vi_pool toy_deleted = vi_pool toy_one" "vi_schema toy_deleted = vi_schema toy_one"
proof -
  have st: "stored_vectors toy_ctx toy_deleted = stored_vectors toy_ctx toy_one"
    by (simp add: stored_vectors_def index_delete_def split_beta)
  have "stored_vectors toy_ctx toy_one 1 = Some [5]"
    using toy_one_inv(2) by (metis fun_upd_same index_abs_def option.distinct(1))
  then show "stored_vectors toy_ctx toy_deleted 1 = Some [5]" by (simp add: st)
  show "index_inv toy_ctx toy_deleted" using index_delete_keeps(2) [OF toy_one_inv(1) surjective_pairing, of 1] by simp
  show "vi_env toy_deleted = vi_env toy_one" "vi_pool toy_deleted = vi_pool toy_one" "vi_schema toy_deleted = vi_schema toy_one"
    by (simp_all add: index_delete_def split_beta)
qed

lemma toy_reopen:
  "\<exists>idx. index_reopen toy_ctx held (vi_env toy_deleted) (vp_data_dir (vi_pool toy_deleted)) 0 = Ok idx \<and>
    vi_env idx = vi_env toy_one \<and> vi_schema idx = vi_schema toy_one"
proof -
  define h d where defs: "h = vi_env toy_one" "d = vp_data_dir (vi_pool toy_one)"
  let ?pool = "vec_pool_open d 0 (vs_dim (vi_schema toy_one))"
  note inv = toy_one_inv(1) and pinv = index_inv_pool [OF toy_one_inv(1)]
  have ctx: "vc_heed toy_ctx = mem_heed" "vc_serde toy_ctx = toy_serde" by (simp_all add: toy_ctx_def)
  have heed: "hd_write_txn mem_heed h = HOk ()" "hd_read_txn mem_heed h = HOk ()" "hd_create mem_heed h n = HOk h"
    "hd_commit mem_heed h = HOk h" "\<exists>kvs. hd_iter mem_heed h n = HOk kvs" for h n
    by (simp_all add: mem_heed_def)
  have "read_schema toy_ctx (vi_env toy_one) = Ok (vi_schema toy_one)" by code_simp
  then have sch: "read_schema toy_ctx h = Ok (vi_schema toy_one)" by (simp add: defs)
  have "is_ok (load_locator_cache toy_ctx (vi_env toy_one))" by code_simp
  then obtain locs where locs: "load_locator_cache toy_ctx h = Ok locs" by (auto simp: is_ok_iff defs)
  have "next_vec_seg_id (vp_data_dir (vi_pool toy_one)) \<noteq> 0" by code_simp
  then have ids: "next_vec_seg_id d \<noteq> 0" by (simp add: defs)
  have pool: "vec_pool_inv ?pool" by (rule vec_pool_open_inv) (use vec_inv_fs_ok [OF pinv] ids in \<open>simp_all add: defs\<close>)
  have dim: "vp_dim (vi_pool toy_one) = vs_dim (vi_schema toy_one)" using index_inv_dim [OF inv] by simp
  have "\<exists>v. vec_read ?pool l = Some v" if li: "loc_index toy_ctx h i = Some l" for i l
  proof -
    obtain v where "vec_read (vi_pool toy_one) l = Some v"
      using li index_inv_covered [OF inv] unfolding idx_covered_def defs by blast
    from vec_reopen_reads [OF pinv ids [unfolded defs] this, of 0] show ?thesis by (simp add: defs dim)
  qed
  then have cov: "idx_covered vec_read ?pool (loc_index toy_ctx h)" by (auto simp: idx_covered_def)
  let ?idx0 = "\<lparr>vi_schema = vi_schema toy_one, vi_env = h, vi_pool = ?pool, vi_graph = snapshot_graph (vp_data_dir ?pool),
      vi_locators = locs, vi_read_error = False\<rparr>"
  obtain kvs where kvs: "hd_iter mem_heed h VEC_LOCATOR_DB = HOk kvs" using heed(5) by blast
  obtain g p where rb: "rebuild_graph_from_data toy_ctx held ?idx0 = (Ok (), ?idx0\<lparr>vi_pool := p, vi_graph := g\<rparr>)"
    using rebuild_ok [OF toy_ctx_ok, of ?idx0 kvs held] pool cov kvs heed(2) index_inv_db [OF inv] by (auto simp: ctx defs)
  have "\<exists>idx. index_reopen toy_ctx held h d 0 = Ok idx \<and> vi_env idx = h \<and> vi_schema idx = vi_schema toy_one"
    using sch heed(1,3,4) locs rb by (simp add: index_reopen_def ctx Let_def)
  then show ?thesis by (simp add: defs toy_deleted_facts(3,4))
qed


lemma toy_run_parts [simp]: "er_held toy_run = no_reader" "er_now toy_run = 0" "ec_vec toy_eng_ctx = toy_ctx" "ec_heed toy_eng_ctx = mem_heed"
  by (simp_all add: toy_run_def toy_eng_ctx_def)

lemma toy_ended_run:
  "engine_calls toy_eng_ctx toy_engine toy_mixed = ([VecReply (InsertReply (Ok ())), VecReply (DeleteVecReply (Ok True))], toy_ended)"
proof -
  have "fst (engine_calls toy_eng_ctx toy_engine toy_mixed) = [VecReply (InsertReply (Ok ())), VecReply (DeleteVecReply (Ok True))]"
    by code_simp
  then show ?thesis unfolding toy_ended_def by (metis prod.collapse)
qed

lemma toy_ended_parts:
  "en_vec toy_ended = Some toy_deleted" "en_kv toy_ended = kv_fresh" "en_home toy_ended = toy_home" "en_col toy_ended = None"
  "wal_clean (en_wal toy_ended) (number 1 [InsertVector 1 [5], DeleteVector 1])" "read_marker rd (en_wal toy_ended) = Ok None"
proof -
  have len: "length (encode_op (InsertVector 1 [5])) \<le> U32_MAX" "length (encode_op (DeleteVector 1)) \<le> U32_MAX" by code_simp+
  obtain w1 where w1: "wal_append wal_fresh (InsertVector 1 [5]) = (Ok 1, w1)"
    "wal_clean w1 [\<lparr>we_seq = 1, we_op = InsertVector 1 [5]\<rparr>]" "wl_next_seq w1 = 2"
    using wal_clean_append [OF wal_clean_empty _ len(1)] by auto
  obtain w2 where w2: "wal_append w1 (DeleteVector 1) = (Ok 2, w2)"
    "wal_clean w2 (number 1 [InsertVector 1 [5], DeleteVector 1])"
    using wal_clean_append [OF w1(2) _ len(2)] by (auto simp: w1(3))
  have e: "toy_ended = toy_engine\<lparr>en_wal := w2, en_vec := Some toy_deleted\<rparr>"
    using w1(1) w2(1) toy_one_insert by (simp add: toy_ended_def insert_vector_def delete_vector_def toy_engine_def split_beta)
  show "en_vec toy_ended = Some toy_deleted" "en_kv toy_ended = kv_fresh" "en_home toy_ended = toy_home" "en_col toy_ended = None"
    "wal_clean (en_wal toy_ended) (number 1 [InsertVector 1 [5], DeleteVector 1])"
    unfolding e using w2(2) by (simp_all add: toy_engine_def)
  have "fs_read (wl_dir wal_fresh) MARKER = None" by code_simp
  then have "fs_read (wl_dir w2) MARKER = None"
    using wal_append_marker [OF wal_clean_empty w1(1)] wal_append_marker [OF w1(2) w2(1)] by simp
  then show "read_marker rd (en_wal toy_ended) = Ok None" unfolding e by (simp add: read_marker_def)
qed

lemma toy_engine_logged: "logged toy_eng_ctx None [] 2 toy_engine"
proof -
  have "eng_ready toy_eng_ctx toy_engine"
    using toy_eng_ctx_ok toy_engine_inv wal_clean_empty by (auto simp: eng_ready_def toy_engine_def)
  moreover have "ea_live (abs_of toy_eng_ctx toy_engine) = ea_taken (abs_of toy_eng_ctx toy_engine)"
  proof
    fix i
    have "stored_vectors toy_ctx toy_index i = None"
    proof -
      have "map_of (ng_nodes (vi_graph toy_index)) i = None" by (simp add: toy_index_def index_open_def) code_simp
      then show ?thesis using stored_iff [OF toy_index_inv(1), of i] by simp
    qed
    then show "ea_live (abs_of toy_eng_ctx toy_engine) i = ea_taken (abs_of toy_eng_ctx toy_engine) i"
      using toy_index_inv(2) by (simp add: abs_of_def toy_engine_def)
  qed
  moreover have "fs_read (wl_dir wal_fresh) MARKER = None" by code_simp
  ultimately show ?thesis
    using wal_clean_empty by (auto simp: logged_def toy_engine_def marker_applied_def pending_def read_marker_def)
qed

lemma toy_open_again: "\<exists>e. open_kv_only toy_eng_ctx toy_run (engine_home toy_ended) 0 = Ok e"
proof -
  let ?h = "engine_home toy_ended"
  let ?es = "number 1 [InsertVector 1 [5], DeleteVector 1]"
  have hm: "hm_vec_env ?h = vi_env toy_deleted" "hm_vec_dir ?h = vp_data_dir (vi_pool toy_deleted)" "hm_vec_meta ?h"
    "hm_wal_dir ?h = wl_dir (en_wal toy_ended)" "hm_kv_env ?h = ks_env kv_fresh"
    by (simp_all add: engine_home_def Let_def toy_ended_parts)
  obtain kv where kv: "kv_open mem_heed (ks_env kv_fresh) (hm_kv_dir ?h) 0 0 = Ok kv" by (simp add: kv_open_def mem_heed_def)
  obtain idx where idx: "index_reopen toy_ctx (\<lambda>s. False) (vi_env toy_deleted) (vp_data_dir (vi_pool toy_deleted)) 0 = Ok idx"
    "vi_env idx = vi_env toy_one" "vi_schema idx = vi_schema toy_one"
    using toy_reopen [of "\<lambda>s. False"] by blast
  have "case get_locator toy_ctx (vi_env toy_one) 1 of Ok (Some l) \<Rightarrow> True | _ \<Rightarrow> False" by code_simp
  then obtain l where l: "get_locator toy_ctx (vi_env toy_one) 1 = Ok (Some l)" by (auto split: res.splits option.splits)
  have "validate_dim (vi_schema toy_one) [5] = Ok ()" by code_simp
  then have ins: "index_insert toy_ctx (\<lambda>s. False) 0 idx 1 [5] = (Err (DuplicateVector 1), idx)"
    using l idx(2,3) by (simp add: index_insert_def) (simp add: toy_ctx_def mem_heed_def)
  obtain b idx2 where del: "index_delete idx 1 = (b, idx2)" by (cases "index_delete idx 1")
  obtain w where w: "wal_open (wl_dir (en_wal toy_ended)) = Ok w" "read_all w = Ok ?es"
    "fs_read (wl_dir w) MARKER = fs_read (wl_dir (en_wal toy_ended)) MARKER"
    using wal_open_keeps [of "wl_dir (en_wal toy_ended)"] toy_ended_parts(5) read_entries_frames_only [of ?es]
    by (fastforce simp: wal_clean_def)
  have m: "read_marker rd w = Ok None" for rd using toy_ended_parts(6) [of rd] w(3) by (simp add: read_marker_def)
  obtain w2 where t: "truncate_to w 2 = (Ok (), w2)" using truncate_to_reads [OF w(2)] by blast
  show ?thesis
    using kv idx(1) w m t ins del
    by (simp add: open_kv_only_def engine_open_def hm toy_eng_ctx_def toy_run_def recover_inner_def pending_recover_plan_def
        marker_applied_def)
qed

theorem store_survives_crash_witness:
  "case open_kv_only toy_eng_ctx toy_run (engine_home toy_ended) 0 of
     Ok e \<Rightarrow> ea_live (abs_of toy_eng_ctx e) 1 = None \<and> ea_taken (abs_of toy_eng_ctx e) 1 = Some [5] | _ \<Rightarrow> False"
proof -
  obtain e where op: "open_kv_only toy_eng_ctx toy_run (engine_home toy_ended) 0 = Ok e" using toy_open_again by blast
  have room: "eng_room toy_engine (length toy_mixed)" by code_simp
  have log: "logged toy_eng_ctx None [] (length toy_mixed) toy_engine" using toy_engine_logged by (simp add: numeral_2_eq_2)
  have kd: "read_active_cursor (sp_data_dir (ks_pool kv_fresh)) = None" "next_seg_id (sp_data_dir (ks_pool kv_fresh)) \<noteq> 0"
    "unat (next_seg_id (sp_data_dir (ks_pool kv_fresh))) + 2 \<le> U32_MAX" by code_simp+
  have vd: "next_vec_seg_id (vp_data_dir (vi_pool toy_one)) \<noteq> 0" "unat (next_vec_seg_id (vp_data_dir (vi_pool toy_one))) + 2 < U32_MAX"
    "heed_view (vc_heed toy_ctx) (vi_env toy_one) '''' SCHEMA_KEY = Some (vj_schema_to_vec (vc_serde toy_ctx) (vi_schema toy_one))"
    "nsw_len (snapshot_graph (vp_data_dir (vi_pool toy_one))) = 0" by code_simp+
  have "finite (dom (stored_vectors toy_ctx toy_deleted))"
    by (rule finite_subset [OF _ finite_dom_map_of [of "ng_nodes (vi_graph toy_deleted)"]])
      (use stored_iff [OF toy_deleted_facts(1)] in \<open>auto simp: dom_def\<close>)
  then have "0 < card (dom (stored_vectors toy_ctx toy_deleted))" using toy_deleted_facts(2) by (auto simp: card_gt_0_iff)
  with kd vd have ns: "vec_namespace toy_eng_ctx toy_ended (sum_list (map (op_weight toy_eng_ctx) ([] @ calls_ops toy_mixed)))"
    by (simp add: vec_namespace_def toy_ended_parts toy_deleted_facts)
  have none: "ea_taken (abs_of toy_eng_ctx toy_engine) 1 = None"
  proof -
    have "map_of (ng_nodes (vi_graph toy_index)) 1 = None" by (simp add: toy_index_def index_open_def) code_simp
    then show ?thesis using stored_iff [OF toy_index_inv(1), of 1] by (simp add: abs_of_def toy_engine_def)
  qed
  from store_survives_crash [OF log room _ toy_ended_run _ ns op] none show ?thesis by (simp add: op)
qed

end
