(* ===== verification/Serve_Queue.thy ===== *)
theory Serve_Queue
  imports Serve
begin

text \<open>
  What the daemon's queue, flag and semaphore guarantee under every interleaving of handlers and
  workers: how many requests are accepted, that the depth counts them, that at most one compaction
  and at most \<open>KNN_CONCURRENCY\<close> searches run, and that every request is answered.
\<close>

section \<open>What the daemon relies on\<close>

text \<open>
  The channel is a bounded queue with a sender alive in the state of the daemon; messages left in it
  are dropped with the receiver, and sending fails as closed exactly after that.
\<close>

definition channel_laws :: "('q, 's) tokio \<Rightarrow> nat \<Rightarrow> bool" where
  "channel_laws T cap \<longleftrightarrow>
     (\<forall>q r q'. tk_try_send T q r = (SendOk, q') \<longrightarrow>
        \<not> tk_closed T q \<and> \<not> tk_closed T q' \<and> tk_items T q' = tk_items T q @ [r]) \<and>
     (\<forall>q r q'. tk_try_send T q r = (SendFull, q') \<longrightarrow>
        cap \<le> length (tk_items T q) \<and> tk_closed T q' = tk_closed T q \<and> tk_items T q' = tk_items T q) \<and>
     (\<forall>q r q'. tk_try_send T q r = (SendClosed, q') \<longrightarrow>
        tk_closed T q \<and> tk_closed T q' \<and> tk_items T q' = tk_items T q) \<and>
     (\<forall>q r q'. tk_try_recv T q = (Received r, q') \<longrightarrow>
        tk_items T q = r # tk_items T q' \<and> tk_closed T q' = tk_closed T q) \<and>
     (\<forall>q q'. tk_try_recv T q = (RecvEmpty, q') \<longrightarrow> tk_items T q = []) \<and>
     (\<forall>q. fst (tk_try_recv T q) \<noteq> RecvDisconnected) \<and>
     (\<forall>q rs q'. tk_drop_receiver T q = (rs, q') \<longrightarrow> rs = tk_items T q \<and> tk_items T q' = [] \<and> tk_closed T q')"

definition semaphore_laws :: "('q, 's) tokio \<Rightarrow> bool" where
  "semaphore_laws T \<longleftrightarrow>
     (\<forall>s s'. tk_try_acquire T s = Some s' \<longrightarrow> tk_permits T s = Suc (tk_permits T s')) \<and>
     (\<forall>s. tk_try_acquire T s = None \<longrightarrow> tk_permits T s = 0) \<and>
     (\<forall>s. tk_permits T (tk_release T s) = Suc (tk_permits T s))"

lemma channel_lawsD:
  assumes "channel_laws T cap"
  shows send_ok: "tk_try_send T q r = (SendOk, q') \<Longrightarrow>
      \<not> tk_closed T q \<and> \<not> tk_closed T q' \<and> tk_items T q' = tk_items T q @ [r]"
    and send_full: "tk_try_send T q r = (SendFull, q') \<Longrightarrow>
      cap \<le> length (tk_items T q) \<and> tk_closed T q' = tk_closed T q \<and> tk_items T q' = tk_items T q"
    and send_closed: "tk_try_send T q r = (SendClosed, q') \<Longrightarrow>
      tk_closed T q \<and> tk_closed T q' \<and> tk_items T q' = tk_items T q"
    and received: "tk_try_recv T q = (Received r, q') \<Longrightarrow>
      tk_items T q = r # tk_items T q' \<and> tk_closed T q' = tk_closed T q"
    and recv_empty: "tk_try_recv T q = (RecvEmpty, q') \<Longrightarrow> tk_items T q = []"
    and recv_connected: "tk_try_recv T q \<noteq> (RecvDisconnected, q')"
    and receiver_dropped: "tk_drop_receiver T q = (rs, q') \<Longrightarrow>
      rs = tk_items T q \<and> tk_items T q' = [] \<and> tk_closed T q'"
proof -
  show "tk_try_recv T q \<noteq> (RecvDisconnected, q')"
    using assms unfolding channel_laws_def by (metis fst_conv)
qed (use assms in \<open>auto simp: channel_laws_def\<close>)

section \<open>Counting handlers and workers\<close>

definition tally :: "(client_pc \<Rightarrow> nat) \<Rightarrow> ('h, 'q, 's) server \<Rightarrow> nat" where
  "tally f s = sum_list (map (\<lambda>c. f (cl_pc c)) (sv_clients s))"

definition wtally :: "(worker_pc \<Rightarrow> nat) \<Rightarrow> ('h, 'q, 's) server \<Rightarrow> nat" where
  "wtally f s = sum_list (map f (sv_workers s))"

lemma sum_list_map_update:
  "i < length xs \<Longrightarrow> sum_list (map f (xs[i := x])) + f (xs ! i) = sum_list (map f xs) + (f x :: nat)"
  by (induction xs arbitrary: i) (auto split: nat.splits)

lemma tally_set_pc:
  "i < length (sv_clients s) \<Longrightarrow>
     tally f (set_pc s i pc) + f (cl_pc (sv_clients s ! i)) = tally f s + f pc"
  using sum_list_map_update [of i "sv_clients s" "\<lambda>c. f (cl_pc c)" "(sv_clients s ! i)\<lparr>cl_pc := pc\<rparr>"]
  by (simp add: tally_def set_pc_def)

lemma wtally_set_worker:
  "w < length (sv_workers s) \<Longrightarrow>
     wtally f (set_worker s w pc) + f (sv_workers s ! w) = wtally f s + f pc"
  using sum_list_map_update [of w "sv_workers s" f pc] by (simp add: wtally_def set_worker_def)

lemma tally_simps [simp]:
  "tally f (s\<lparr>sv_engine := x0\<rparr>) = tally f s"
  "tally f (s\<lparr>sv_queue_depth := x1\<rparr>) = tally f s"
  "tally f (s\<lparr>sv_compact_in_progress := x2\<rparr>) = tally f s"
  "tally f (s\<lparr>sv_write_ch := x3\<rparr>) = tally f s"
  "tally f (s\<lparr>sv_knn_sem := x4\<rparr>) = tally f s"
  "tally f (s\<lparr>sv_done := x5\<rparr>) = tally f s"
  "tally f (s\<lparr>sv_workers := x6\<rparr>) = tally f s"
  "tally f (s\<lparr>sv_panicked := x7\<rparr>) = tally f s"
  "tally f (s\<lparr>sv_lost := x8\<rparr>) = tally f s"
  by (simp_all add: tally_def)

lemma wtally_simps [simp]:
  "wtally f (s\<lparr>sv_engine := x0\<rparr>) = wtally f s"
  "wtally f (s\<lparr>sv_queue_depth := x1\<rparr>) = wtally f s"
  "wtally f (s\<lparr>sv_compact_in_progress := x2\<rparr>) = wtally f s"
  "wtally f (s\<lparr>sv_write_ch := x3\<rparr>) = wtally f s"
  "wtally f (s\<lparr>sv_knn_sem := x4\<rparr>) = wtally f s"
  "wtally f (s\<lparr>sv_done := x5\<rparr>) = wtally f s"
  "wtally f (s\<lparr>sv_clients := x6\<rparr>) = wtally f s"
  "wtally f (s\<lparr>sv_panicked := x7\<rparr>) = wtally f s"
  "wtally f (s\<lparr>sv_lost := x8\<rparr>) = wtally f s"
  by (simp_all add: wtally_def)

lemma tally_set_pc_same:
  "i < length (sv_clients s) \<Longrightarrow> f pc = f (cl_pc (sv_clients s ! i)) \<Longrightarrow> tally f (set_pc s i pc) = tally f s"
  using tally_set_pc [of i s f pc] by simp

lemma wtally_set_worker_same:
  "w < length (sv_workers s) \<Longrightarrow> f pc = f (sv_workers s ! w) \<Longrightarrow> wtally f (set_worker s w pc) = wtally f s"
  using wtally_set_worker [of w s f pc] by simp

lemma tally_le: "(\<And>pc. f pc \<le> 1) \<Longrightarrow> tally f s \<le> length (sv_clients s)"
  unfolding tally_def
  by (rule order_trans [OF sum_list_mono [of _ _ "\<lambda>c. 1"]]) (simp_all add: sum_list_triv)

lemma tally_zero: "tally f s = 0 \<longleftrightarrow> (\<forall>i<length (sv_clients s). f (cl_pc (sv_clients s ! i)) = 0)"
  by (auto simp: tally_def sum_list_eq_0_iff all_set_conv_all_nth)

lemma wtally_zero: "wtally f s = 0 \<longleftrightarrow> (\<forall>w<length (sv_workers s). f (sv_workers s ! w) = 0)"
  by (auto simp: wtally_def sum_list_eq_0_iff all_set_conv_all_nth)

lemma set_pc_simps [simp]:
  "sv_engine (set_pc s i pc) = sv_engine s" "sv_queue_depth (set_pc s i pc) = sv_queue_depth s"
  "sv_compact_in_progress (set_pc s i pc) = sv_compact_in_progress s" "sv_write_ch (set_pc s i pc) = sv_write_ch s"
  "sv_knn_sem (set_pc s i pc) = sv_knn_sem s" "sv_done (set_pc s i pc) = sv_done s"
  "sv_workers (set_pc s i pc) = sv_workers s" "sv_panicked (set_pc s i pc) = sv_panicked s"
  "sv_lost (set_pc s i pc) = sv_lost s" "length (sv_clients (set_pc s i pc)) = length (sv_clients s)"
  by (simp_all add: set_pc_def)

lemma set_worker_simps [simp]:
  "sv_engine (set_worker s i pc) = sv_engine s" "sv_queue_depth (set_worker s i pc) = sv_queue_depth s"
  "sv_compact_in_progress (set_worker s i pc) = sv_compact_in_progress s"
  "sv_write_ch (set_worker s i pc) = sv_write_ch s"
  "sv_knn_sem (set_worker s i pc) = sv_knn_sem s" "sv_done (set_worker s i pc) = sv_done s"
  "sv_clients (set_worker s i pc) = sv_clients s" "sv_panicked (set_worker s i pc) = sv_panicked s"
  "sv_lost (set_worker s i pc) = sv_lost s" "length (sv_workers (set_worker s i pc)) = length (sv_workers s)"
  by (simp_all add: set_worker_def)

lemma tally_other [simp]: "wtally f (set_pc s i pc) = wtally f s" "tally g (set_worker s w wpc) = tally g s"
  by (simp_all add: wtally_def tally_def)

lemma set_pc_nth:
  "j < length (sv_clients s) \<Longrightarrow>
     cl_pc (sv_clients (set_pc s i pc) ! j) = (if j = i then pc else cl_pc (sv_clients s ! j))"
  by (simp add: set_pc_def nth_list_update)

lemma set_worker_nth:
  "v < length (sv_workers s) \<Longrightarrow> sv_workers (set_worker s w pc) ! v = (if v = w then pc else sv_workers s ! v)"
  by (simp add: set_worker_def nth_list_update)

section \<open>The moves of a handler and of a worker\<close>

lemma req_done_of: "write_req_of cfg i body = Inr wreq \<Longrightarrow> req_done wreq = i"
  by (cases body) (auto split: option.splits)

lemma client_step_cases [consumes 1, case_names fail count over full sent closed refused waited compact
    compact_ran compact_panic unflag search searched release]:
  assumes "client_step cfg T C ch s i = Some s'"
  obtains
    (fail) r where "cl_pc (sv_clients s ! i) = Start" "s' = set_pc s i (Responded r)" "r \<noteq> Failed TaskPanicked"
  | (count) wreq label where "cl_pc (sv_clients s ! i) = Start" "req_done wreq = i"
      "s' = set_pc (s\<lparr>sv_queue_depth := sv_queue_depth s + 1\<rparr>) i (Counted (sv_queue_depth s) wreq label)"
      "cl_endpoint (sv_clients s ! i) \<noteq> CompactEp"
  | (over) qd wreq label where "cl_pc (sv_clients s ! i) = Counted qd wreq label" "cf_queue_cap cfg \<le> unat qd"
      "s' = set_pc (s\<lparr>sv_queue_depth := sv_queue_depth s - 1\<rparr>) i (Responded queue_full)"
  | (full) qd wreq label q where "cl_pc (sv_clients s ! i) = Counted qd wreq label" "unat qd < cf_queue_cap cfg"
      "tk_try_send T (sv_write_ch s) wreq = (SendFull, q)" "s' = set_pc (s\<lparr>sv_write_ch := q\<rparr>) i Refused"
  | (sent) qd wreq label q where "cl_pc (sv_clients s ! i) = Counted qd wreq label" "unat qd < cf_queue_cap cfg"
      "tk_try_send T (sv_write_ch s) wreq = (SendOk, q)" "s' = set_pc (s\<lparr>sv_write_ch := q\<rparr>) i (Waiting label)"
  | (closed) qd wreq label q where "cl_pc (sv_clients s ! i) = Counted qd wreq label" "unat qd < cf_queue_cap cfg"
      "tk_try_send T (sv_write_ch s) wreq = (SendClosed, q)"
      "s' = set_pc (s\<lparr>sv_write_ch := q, sv_done := drop_done [wreq] (sv_done s), sv_lost := Suc (sv_lost s)\<rparr>)
         i (Waiting label)"
  | (refused) "cl_pc (sv_clients s ! i) = Refused"
      "s' = set_pc (s\<lparr>sv_queue_depth := sv_queue_depth s - 1\<rparr>) i (Responded queue_full)"
  | (waited) label r where "cl_pc (sv_clients s ! i) = Waiting label"
      "await_write_done label (sv_done s i) = Some r" "s' = set_pc s i (Responded r)"
  | (compact) "cl_pc (sv_clients s ! i) = Start" "\<not> sv_compact_in_progress s"
      "s' = set_pc (s\<lparr>sv_compact_in_progress := True\<rparr>) i Compacting" "cl_endpoint (sv_clients s ! i) = CompactEp"
  | (compact_ran) e r where "cl_pc (sv_clients s ! i) = Compacting" "s' = set_pc (s\<lparr>sv_engine := e\<rparr>) i (CompactRan r)"
      "r \<noteq> Failed TaskPanicked"
  | (compact_panic) e where "cl_pc (sv_clients s ! i) = Compacting"
      "s' = set_pc (s\<lparr>sv_engine := e, sv_panicked := True\<rparr>) i (Responded (Failed TaskPanicked))"
  | (unflag) r where "cl_pc (sv_clients s ! i) = CompactRan r"
      "s' = set_pc (s\<lparr>sv_compact_in_progress := False\<rparr>) i (Responded r)"
  | (search) sem query top_k where "cl_pc (sv_clients s ! i) = Start" "tk_try_acquire T (sv_knn_sem s) = Some sem"
      "s' = set_pc (s\<lparr>sv_knn_sem := sem\<rparr>) i (Searching query top_k)"
      "cl_endpoint (sv_clients s ! i) \<noteq> CompactEp"
  | (searched) e p r query top_k where "cl_pc (sv_clients s ! i) = Searching query top_k" "sv_panicked s \<Longrightarrow> p"
      "s' = set_pc (s\<lparr>sv_engine := e, sv_panicked := p\<rparr>) i (Searched r)"
  | (release) r where "cl_pc (sv_clients s ! i) = Searched r"
      "s' = set_pc (s\<lparr>sv_knn_sem := tk_release T (sv_knn_sem s)\<rparr>) i (Responded r)"
proof (cases "cl_pc (sv_clients s ! i)")
  case Start
  with assms have s': "s' = start_step cfg T s i (sv_clients s ! i)" by (simp add: client_step_def)
  show thesis
  proof (cases "cl_endpoint (sv_clients s ! i)")
    case (WriteEp body)
    show thesis
    proof (cases "and_then (require_role (cf_auth cfg) (cl_header (sv_clients s ! i)) Readwrite)
        (\<lambda>role. write_req_of cfg i body)")
      case (Inl e)
      with s' WriteEp show thesis by (intro fail [OF Start, of "Failed (HttpError e)"]) (simp_all add: start_step_def write_start_def)
    next
      case (Inr wreq)
      then have "req_done wreq = i" by (metis and_then.elims req_done_of sum.distinct(1))
      with s' WriteEp Inr show thesis by (intro count [OF Start]) (simp_all add: start_step_def write_start_def)
    qed
  next
    case CompactEp
    with s' fail compact Start show thesis
      by (auto simp: start_step_def compact_start_def split: sum.splits if_splits)
  next
    case (KnnEp query top_k)
    with s' fail search Start show thesis
      by (auto simp: start_step_def knn_start_def split: option.splits)
  qed
next
  case (Counted qd wreq label)
  with assms have "s' = enqueue_step cfg T s i qd wreq label" by (simp add: client_step_def)
  with Counted over full sent closed show thesis
    by (auto simp: enqueue_step_def not_le split: if_splits prod.splits send_result.splits)
next
  case Compacting
  with assms have s': "s' = compact_run C ch s i" by (simp add: client_step_def)
  obtain r e where x: "(if sv_panicked s then (ch_compact ch, ch_engine ch) else compact_call C ch (sv_engine s)) = (r, e)"
    by (rule prod.exhaust)
  show thesis
  proof (cases r)
    case (Ok y)
    with s' x show thesis
      by (intro compact_ran [OF Compacting, of e "CompactResp (cr_live_vectors y) (length (cr_reclaimable_segs y))"])
        (simp_all add: compact_run_def)
  next
    case (Err y)
    with s' x show thesis by (intro compact_ran [OF Compacting, of e "Failed (StoreFailed y)"]) (simp_all add: compact_run_def)
  next
    case Panic
    with s' x show thesis by (intro compact_panic [OF Compacting]) (simp add: compact_run_def)
  qed
next
  case (Searching query top_k)
  with assms have s': "s' = knn_run C ch s i query top_k" by (simp add: client_step_def)
  obtain r e where x: "(if sv_panicked s then (ch_hits ch, ch_engine ch)
      else engine_search_knn C (ch_run ch) (sv_engine s) query top_k) = (r, e)"
    by (rule prod.exhaust)
  have keep: "s\<lparr>sv_engine := e\<rparr> = s\<lparr>sv_engine := e, sv_panicked := sv_panicked s\<rparr>" by simp
  show thesis
  proof (cases r)
    case (Ok y)
    with s' x have eq: "s' = set_pc (s\<lparr>sv_engine := e, sv_panicked := sv_panicked s\<rparr>) i (Searched (KnnResp y))"
      unfolding keep [symmetric] by (simp add: knn_run_def)
    show thesis by (rule searched [OF Searching _ eq])
  next
    case (Err y)
    with s' x have eq: "s' = set_pc (s\<lparr>sv_engine := e, sv_panicked := sv_panicked s\<rparr>) i (Searched (Failed (StoreFailed y)))"
      unfolding keep [symmetric] by (simp add: knn_run_def)
    show thesis by (rule searched [OF Searching _ eq])
  next
    case Panic
    with s' x show thesis by (intro searched [OF Searching, of True]) (simp_all add: knn_run_def)
  qed
next
  case Refused
  with assms show thesis by (intro refused) (simp_all add: client_step_def)
next
  case (Waiting label)
  with assms obtain r where "await_write_done label (sv_done s i) = Some r" "s' = set_pc s i (Responded r)"
    by (auto simp: client_step_def)
  then show thesis by (rule waited [OF Waiting])
next
  case (CompactRan r)
  with assms show thesis by (intro unflag [OF CompactRan]) (simp add: client_step_def)
next
  case (Searched r)
  with assms show thesis by (intro release [OF Searched]) (simp add: client_step_def)
next
  case (Responded r)
  with assms show thesis by (simp add: client_step_def)
qed

lemma worker_step_cases [consumes 1, case_names take leave log ran panic uncount answer]:
  assumes "worker_step T C ch s w = Some s'"
  obtains
    (take) r q where "sv_workers s ! w = Idle" "tk_try_recv T (sv_write_ch s) = (Received r, q)"
      "s' = set_worker (s\<lparr>sv_write_ch := q\<rparr>) w (Taken r)"
  | (leave) q where "sv_workers s ! w = Idle" "tk_try_recv T (sv_write_ch s) = (RecvDisconnected, q)"
      "s' = leave T (s\<lparr>sv_write_ch := q\<rparr>) w"
  | (log) r e where "sv_workers s ! w = Taken r" "s' = set_worker (s\<lparr>sv_engine := e\<rparr>) w (Logged r)"
  | (ran) r e ok where "sv_workers s ! w = Taken r \<or> sv_workers s ! w = Logged r"
      "s' = set_worker (s\<lparr>sv_engine := e\<rparr>) w (Ran r ok)"
  | (panic) r e where "sv_workers s ! w = Taken r \<or> sv_workers s ! w = Logged r"
      "s' = worker_panics T (s\<lparr>sv_engine := e\<rparr>) w r"
  | (uncount) r ok where "sv_workers s ! w = Ran r ok"
      "s' = set_worker (s\<lparr>sv_queue_depth := sv_queue_depth s - 1\<rparr>) w (Uncounted r ok)"
  | (answer) r ok where "sv_workers s ! w = Uncounted r ok"
      "s' = set_worker (s\<lparr>sv_done := (sv_done s)(req_done r := Answered ok)\<rparr>) w Idle"
proof (cases "sv_workers s ! w")
  case Idle
  with assms take leave show thesis
    by (auto simp: worker_step_def poll_def split: prod.splits recv_result.splits)
next
  case (Taken r)
  with assms have s': "s' = handle_log T C ch s w r" by (simp add: worker_step_def)
  obtain x e where x: "(if sv_panicked s then (ch_unit ch, ch_engine ch) else log_req C (sv_engine s) r) = (x, e)"
    by (rule prod.exhaust)
  show thesis
  proof (cases x)
    case (Ok y)
    with s' x show thesis by (intro log [OF Taken]) (simp add: handle_log_def)
  next
    case (Err y)
    with s' x show thesis by (intro ran [OF disjI1 [OF Taken]]) (simp add: handle_log_def)
  next
    case Panic
    with s' x show thesis by (intro panic [OF disjI1 [OF Taken]]) (simp add: handle_log_def)
  qed
next
  case (Logged r)
  with assms have s': "s' = handle_apply T C ch s w r" by (simp add: worker_step_def)
  obtain x e where x: "(if sv_panicked s then (ch_unit ch, ch_engine ch)
      else apply_req C (ch_run ch) (sv_engine s) r) = (x, e)"
    by (rule prod.exhaust)
  show thesis
  proof (cases x)
    case (Ok y)
    with s' x show thesis by (intro ran [OF disjI2 [OF Logged]]) (simp add: handle_apply_def)
  next
    case (Err y)
    with s' x show thesis by (intro ran [OF disjI2 [OF Logged]]) (simp add: handle_apply_def)
  next
    case Panic
    with s' x show thesis by (intro panic [OF disjI2 [OF Logged]]) (simp add: handle_apply_def)
  qed
next
  case (Ran r ok)
  with assms show thesis by (intro uncount [OF Ran]) (simp add: worker_step_def)
next
  case (Uncounted r ok)
  with assms show thesis by (intro answer [OF Uncounted]) (simp add: worker_step_def)
next
  case Gone
  with assms show thesis by (simp add: worker_step_def)
qed

lemma leave_simps [simp]:
  "sv_engine (leave T s w) = sv_engine s" "sv_queue_depth (leave T s w) = sv_queue_depth s"
  "sv_compact_in_progress (leave T s w) = sv_compact_in_progress s" "sv_knn_sem (leave T s w) = sv_knn_sem s"
  "sv_clients (leave T s w) = sv_clients s" "sv_panicked (leave T s w) = sv_panicked s"
  "sv_workers (leave T s w) = (sv_workers s)[w := Gone]"
  by (simp_all add: leave_def Let_def set_worker_def split: prod.splits)

lemma leave_items:
  "channel_laws T cap \<Longrightarrow>
     length (tk_items T (sv_write_ch (leave T s w))) + sv_lost (leave T s w) =
     length (tk_items T (sv_write_ch s)) + sv_lost s"
  by (auto simp: leave_def Let_def dest: receiver_dropped split: prod.splits)

lemma wtally_leave:
  "w < length (sv_workers s) \<Longrightarrow> wtally f (leave T s w) + f (sv_workers s ! w) = wtally f s + f Gone"
  using sum_list_map_update [of w "sv_workers s" f Gone] by (simp add: wtally_def)

lemma tally_leave [simp]: "tally f (leave T s w) = tally f s"
  by (simp add: tally_def)

section \<open>The depth of the queue\<close>

fun counted :: "nat \<Rightarrow> client_pc \<Rightarrow> nat" where
  "counted cap (Counted qd wreq label) = (if unat qd < cap then 1 else 0)"
| "counted cap _ = 0"

fun refusing :: "nat \<Rightarrow> client_pc \<Rightarrow> nat" where
  "refusing cap (Counted qd wreq label) = (if unat qd < cap then 0 else 1)"
| "refusing cap Refused = 1"
| "refusing cap _ = 0"

fun in_work :: "worker_pc \<Rightarrow> nat" where
  "in_work (Taken r) = 1"
| "in_work (Logged r) = 1"
| "in_work (Ran r ok) = 1"
| "in_work _ = 0"

text \<open>The requests that were let into the queue and that the depth still counts.\<close>

definition accepted :: "nat \<Rightarrow> ('q, 's) tokio \<Rightarrow> ('h, 'q, 's) server \<Rightarrow> nat" where
  "accepted cap T s = tally (counted cap) s + length (tk_items T (sv_write_ch s)) + wtally in_work s + sv_lost s"

definition queue_inv :: "nat \<Rightarrow> ('q, 's) tokio \<Rightarrow> nat \<Rightarrow> ('h, 'q, 's) server \<Rightarrow> bool" where
  "queue_inv cap T n s \<longleftrightarrow>
     length (sv_clients s) = n \<and> accepted cap T s \<le> cap \<and>
     unat (sv_queue_depth s) = accepted cap T s + tally (refusing cap) s"

lemma unat_minus_1: "unat d = Suc n \<Longrightarrow> unat (d - 1) = n" for d :: u64
  by (metis Suc_eq_plus1 add_diff_cancel_right' nat.distinct(1) unat_0 unat_minus_one)

lemma unat_plus_1: "Suc (unat d) < 2 ^ 64 \<Longrightarrow> unat (d + 1) = Suc (unat d)" for d :: u64
  by (simp add: unat_word_ariths)

lemma refusing_le: "tally (refusing cap) s \<le> length (sv_clients s)"
proof (rule tally_le)
  show "refusing cap pc \<le> 1" for pc by (cases pc) simp_all
qed

lemma queue_inv_client:
  assumes laws: "channel_laws T ccap" and small: "cap + n < 2 ^ 64 - 1" and cap: "cf_queue_cap cfg = cap"
    and inv: "queue_inv cap T n s" and i: "i < length (sv_clients s)"
    and step: "client_step cfg T C ch s i = Some s'"
  shows "queue_inv cap T n s'"
proof -
  let ?pc = "cl_pc (sv_clients s ! i)"
  have d: "unat (sv_queue_depth s) = accepted cap T s + tally (refusing cap) s"
    and a: "accepted cap T s \<le> cap" and len: "length (sv_clients s) = n"
    using inv by (simp_all add: queue_inv_def)
  note t' = tally_set_pc [of i]
  show ?thesis
    using step
  proof (cases rule: client_step_cases)
    case (count wreq label)
    have "Suc (unat (sv_queue_depth s)) < 2 ^ 64" using d a small refusing_le [of cap s] len by linarith
    then have "unat (sv_queue_depth s + 1) = Suc (unat (sv_queue_depth s))" by (rule unat_plus_1)
    with count d a len i show ?thesis
      using t' [of "s\<lparr>sv_queue_depth := sv_queue_depth s + 1\<rparr>" "counted cap" "Counted (sv_queue_depth s) wreq label"]
        t' [of "s\<lparr>sv_queue_depth := sv_queue_depth s + 1\<rparr>" "refusing cap" "Counted (sv_queue_depth s) wreq label"]
      by (auto simp: queue_inv_def accepted_def split: if_splits)
  next
    case (over qd wreq label)
    with i t' [of "s\<lparr>sv_queue_depth := sv_queue_depth s - 1\<rparr>" "counted cap" "Responded queue_full"]
      t' [of "s\<lparr>sv_queue_depth := sv_queue_depth s - 1\<rparr>" "refusing cap" "Responded queue_full"] cap d a len
    show ?thesis
      by (auto simp: queue_inv_def accepted_def intro!: unat_minus_1)
  next
    case refused
    with i t' [of "s\<lparr>sv_queue_depth := sv_queue_depth s - 1\<rparr>" "counted cap" "Responded queue_full"]
      t' [of "s\<lparr>sv_queue_depth := sv_queue_depth s - 1\<rparr>" "refusing cap" "Responded queue_full"] cap d a len
    show ?thesis
      by (auto simp: queue_inv_def accepted_def intro!: unat_minus_1)
  next
    case (full qd wreq label q)
    with i t' [of "s\<lparr>sv_write_ch := q\<rparr>" "counted cap" Refused] t' [of "s\<lparr>sv_write_ch := q\<rparr>" "refusing cap" Refused]
      cap d a len send_full [OF laws full(3)]
    show ?thesis by (auto simp: queue_inv_def accepted_def)
  next
    case (sent qd wreq label q)
    with i t' [of "s\<lparr>sv_write_ch := q\<rparr>" "counted cap" "Waiting label"]
      t' [of "s\<lparr>sv_write_ch := q\<rparr>" "refusing cap" "Waiting label"] cap d a len send_ok [OF laws sent(3)]
    show ?thesis by (auto simp: queue_inv_def accepted_def)
  next
    case (closed qd wreq label q)
    let ?s1 = "s\<lparr>sv_write_ch := q, sv_done := drop_done [wreq] (sv_done s), sv_lost := Suc (sv_lost s)\<rparr>"
    from closed i t' [of ?s1 "counted cap" "Waiting label"] t' [of ?s1 "refusing cap" "Waiting label"]
      cap d a len send_closed [OF laws closed(3)]
    show ?thesis by (auto simp: queue_inv_def accepted_def)
  qed (use i d a len in \<open>auto simp: queue_inv_def accepted_def tally_set_pc_same\<close>)
qed

lemma queue_inv_worker:
  assumes laws: "channel_laws T ccap" and inv: "queue_inv cap T n s" and w: "w < length (sv_workers s)"
    and step: "worker_step T C ch s w = Some s'"
  shows "queue_inv cap T n s'"
  using step
proof (cases rule: worker_step_cases)
  case (take r q)
  with inv w wtally_set_worker [of w "s\<lparr>sv_write_ch := q\<rparr>" in_work "Taken r"] received [OF laws take(2)]
  show ?thesis by (simp add: queue_inv_def accepted_def)
next
  case (leave q)
  with recv_connected [OF laws] show ?thesis by blast
next
  case (panic r e)
  let ?s1 = "s\<lparr>sv_engine := e, sv_panicked := True, sv_done := drop_done [r] (sv_done s), sv_lost := Suc (sv_lost s)\<rparr>"
  from panic inv w wtally_leave [of w ?s1 in_work T] leave_items [OF laws, of ?s1 w]
  show ?thesis by (auto simp: queue_inv_def accepted_def worker_panics_def)
next
  case (uncount r ok)
  with inv w wtally_set_worker [of w "s\<lparr>sv_queue_depth := sv_queue_depth s - 1\<rparr>" in_work "Uncounted r ok"]
  show ?thesis by (auto simp: queue_inv_def accepted_def intro!: unat_minus_1)
qed (use inv w in \<open>auto simp: queue_inv_def accepted_def wtally_set_worker_same\<close>)

lemma queue_inv_step:
  assumes "channel_laws T ccap" "cap + n < 2 ^ 64 - 1" "cf_queue_cap cfg = cap" "queue_inv cap T n s"
    and "serve_step cfg T C s s'"
  shows "queue_inv cap T n s'"
  using assms(5) assms(1-4) by cases (auto intro: queue_inv_client queue_inv_worker)

lemma sum_list_zeroI: "(\<And>x. x \<in> set xs \<Longrightarrow> f x = 0) \<Longrightarrow> sum_list (map f xs) = (0 :: nat)"
  by (induction xs) auto

lemma start_tallies:
  assumes "f Start = 0" "g Idle = 0"
  shows "tally f (server_start e q sem workers reqs) = 0" "wtally g (server_start e q sem workers reqs) = 0"
  using assms
  by (auto simp: tally_def wtally_def server_start_def request_def spawn_write_worker_pool_def intro!: sum_list_zeroI)

lemma queue_inv_start:
  "tk_items T q = [] \<Longrightarrow> queue_inv cap T (length reqs) (server_start e q sem workers reqs)"
  by (simp add: queue_inv_def accepted_def start_tallies) (simp add: server_start_def)

lemma queue_inv_run:
  assumes "serve_run cfg T C (server_start e q sem workers reqs) k s"
    and "channel_laws T ccap" "tk_items T q = []" "cf_queue_cap cfg + length reqs < 2 ^ 64 - 1"
  shows "queue_inv (cf_queue_cap cfg) T (length reqs) s"
  using assms by (induction rule: serve_run.induct) (auto intro: queue_inv_start queue_inv_step)

lemma tally_ge: "i < length (sv_clients s) \<Longrightarrow> f (cl_pc (sv_clients s ! i)) \<le> tally f s"
  unfolding tally_def by (rule elem_le_sum_list [of i "map (\<lambda>c. f (cl_pc c)) (sv_clients s)", simplified])

section \<open>Compactions and searches\<close>

fun compacting :: "client_pc \<Rightarrow> nat" where
  "compacting Compacting = 1"
| "compacting (CompactRan r) = 1"
| "compacting _ = 0"

fun searching :: "client_pc \<Rightarrow> nat" where
  "searching (Searching query top_k) = 1"
| "searching (Searched r) = 1"
| "searching _ = 0"

definition compact_inv :: "('h, 'q, 's) server \<Rightarrow> bool" where
  "compact_inv s \<longleftrightarrow>
     tally compacting s \<le> (if sv_compact_in_progress s then 1 else 0) \<and>
     (sv_compact_in_progress s \<and> \<not> sv_panicked s \<longrightarrow> tally compacting s = 1)"

definition permit_inv :: "('q, 's) tokio \<Rightarrow> nat \<Rightarrow> ('h, 'q, 's) server \<Rightarrow> bool" where
  "permit_inv T limit s \<longleftrightarrow> tk_permits T (sv_knn_sem s) + tally searching s = limit"

lemma compact_inv_step:
  assumes inv: "compact_inv s" and step: "serve_step cfg T C s s'"
  shows "compact_inv s'"
  using step
proof cases
  case (by_client i ch)
  note t = tally_set_pc [of i _ compacting]
  from by_client(2) show ?thesis
  proof (cases rule: client_step_cases)
    case compact
    with inv t [of "s\<lparr>sv_compact_in_progress := True\<rparr>" Compacting] by_client(1)
    show ?thesis by (simp add: compact_inv_def)
  next
    case (compact_panic e)
    with inv t [of "s\<lparr>sv_engine := e, sv_panicked := True\<rparr>" "Responded (Failed TaskPanicked)"] by_client(1)
    show ?thesis by (auto simp: compact_inv_def split: if_splits)
  next
    case (unflag r)
    with inv t [of "s\<lparr>sv_compact_in_progress := False\<rparr>" "Responded r"] by_client(1)
    show ?thesis by (auto simp: compact_inv_def split: if_splits)
  qed (use inv by_client(1) in \<open>auto simp: compact_inv_def tally_set_pc_same\<close>)
next
  case (by_worker w ch)
  from by_worker(2) show ?thesis
    by (cases rule: worker_step_cases) (use inv in \<open>auto simp: compact_inv_def worker_panics_def\<close>)
qed

lemma permit_inv_step:
  assumes laws: "semaphore_laws T" and inv: "permit_inv T limit s" and step: "serve_step cfg T C s s'"
  shows "permit_inv T limit s'"
  using step
proof cases
  case (by_client i ch)
  note t = tally_set_pc [of i _ searching]
  from by_client(2) show ?thesis
  proof (cases rule: client_step_cases)
    case (search sem query top_k)
    with inv laws t [of "s\<lparr>sv_knn_sem := sem\<rparr>" "Searching query top_k"] by_client(1)
    show ?thesis by (auto simp: permit_inv_def semaphore_laws_def)
  next
    case (release r)
    with inv laws t [of "s\<lparr>sv_knn_sem := tk_release T (sv_knn_sem s)\<rparr>" "Responded r"] by_client(1)
    show ?thesis by (auto simp: permit_inv_def semaphore_laws_def)
  qed (use inv by_client(1) in \<open>auto simp: permit_inv_def tally_set_pc_same\<close>)
next
  case (by_worker w ch)
  from by_worker(2) show ?thesis
    by (cases rule: worker_step_cases) (use inv in \<open>auto simp: permit_inv_def worker_panics_def\<close>)
qed

lemma compact_inv_run:
  "serve_run cfg T C (server_start e q sem workers reqs) k s \<Longrightarrow> compact_inv s"
proof (induction rule: serve_run.induct)
  case run_none
  show ?case by (simp add: compact_inv_def start_tallies) (simp add: server_start_def)
qed (rule compact_inv_step)

lemma permit_inv_run:
  assumes "serve_run cfg T C (server_start e q sem workers reqs) k s" "semaphore_laws T"
  shows "permit_inv T (tk_permits T sem) s"
  using assms
proof (induction rule: serve_run.induct)
  case run_none
  show ?case by (simp add: permit_inv_def start_tallies) (simp add: server_start_def)
qed (auto intro: permit_inv_step)

text \<open>A compaction that panics leaves the flag set, and nothing clears it.\<close>

lemma stuck_flag_step:
  assumes "sv_compact_in_progress s" "tally compacting s = 0" and step: "serve_step cfg T C s s'"
  shows "sv_compact_in_progress s' \<and> tally compacting s' = 0"
  using step
proof cases
  case (by_client i ch)
  have z: "compacting (cl_pc (sv_clients s ! i)) = 0" using assms(2) by_client(1) by (simp add: tally_zero)
  from by_client(2) show ?thesis
    by (cases rule: client_step_cases) (use assms(1,2) z by_client(1) in \<open>auto simp: tally_set_pc_same\<close>)
next
  case (by_worker w ch)
  from by_worker(2) show ?thesis
    by (cases rule: worker_step_cases) (use assms(1,2) in \<open>auto simp: worker_panics_def\<close>)
qed

lemma stuck_flag_run:
  assumes "serve_run cfg T C s m s'" "sv_compact_in_progress s" "tally compacting s = 0"
  shows "sv_compact_in_progress s' \<and> tally compacting s' = 0"
  using assms by (induction rule: serve_run.induct) (auto dest: stuck_flag_step)

text \<open>
  The flag stays set without a compaction exactly when the task of one has panicked: its handler has then responded
  500 before the store that clears the flag.
\<close>

definition compact_died :: "client \<Rightarrow> bool" where
  "compact_died c \<longleftrightarrow> cl_endpoint c = CompactEp \<and> cl_pc c = Responded (Failed TaskPanicked)"

definition compact_panicked :: "('h, 'q, 's) server \<Rightarrow> bool" where
  "compact_panicked s = list_ex compact_died (sv_clients s)"

definition compact_pc :: "client \<Rightarrow> bool" where
  "compact_pc c =
     (case cl_pc c of
        Start \<Rightarrow> True
      | Compacting \<Rightarrow> cl_endpoint c = CompactEp
      | CompactRan r \<Rightarrow> cl_endpoint c = CompactEp \<and> r \<noteq> Failed TaskPanicked
      | Responded r \<Rightarrow> True
      | _ \<Rightarrow> cl_endpoint c \<noteq> CompactEp)"

definition compact_died_inv :: "('h, 'q, 's) server \<Rightarrow> bool" where
  "compact_died_inv s \<longleftrightarrow>
     list_all compact_pc (sv_clients s) \<and>
     (compact_panicked s \<longleftrightarrow> sv_compact_in_progress s \<and> tally compacting s = 0)"

lemma compact_panicked_fields [simp]:
  "compact_panicked (s\<lparr>sv_engine := x0\<rparr>) = compact_panicked s"
  "compact_panicked (s\<lparr>sv_queue_depth := x1\<rparr>) = compact_panicked s"
  "compact_panicked (s\<lparr>sv_compact_in_progress := x2\<rparr>) = compact_panicked s"
  "compact_panicked (s\<lparr>sv_write_ch := x3\<rparr>) = compact_panicked s"
  "compact_panicked (s\<lparr>sv_knn_sem := x4\<rparr>) = compact_panicked s"
  "compact_panicked (s\<lparr>sv_done := x5\<rparr>) = compact_panicked s"
  "compact_panicked (s\<lparr>sv_panicked := x6\<rparr>) = compact_panicked s"
  "compact_panicked (s\<lparr>sv_lost := x7\<rparr>) = compact_panicked s"
  by (simp_all add: compact_panicked_def)

lemma compact_panicked_set_pc:
  assumes "i < length (sv_clients s)" "\<not> compact_died (sv_clients s ! i)"
  shows "compact_panicked (set_pc s i pc) \<longleftrightarrow> compact_panicked s \<or> compact_died ((sv_clients s ! i)\<lparr>cl_pc := pc\<rparr>)"
  using assms by (auto simp: compact_panicked_def list_ex_length set_pc_def nth_list_update)

lemma compact_pc_set_pc:
  "list_all compact_pc (sv_clients s) \<Longrightarrow> compact_pc ((sv_clients s ! i)\<lparr>cl_pc := pc\<rparr>) \<Longrightarrow>
     list_all compact_pc (sv_clients (set_pc s i pc))"
  by (cases "i < length (sv_clients s)") (auto simp: list_all_length set_pc_def nth_list_update)

lemma compact_died_inv_client:
  fixes s :: "('h, 'q, 's) server"
  assumes inv: "compact_died_inv s" "compact_inv s" and i: "i < length (sv_clients s)"
    and step: "client_step cfg T C ch s i = Some s'"
  shows "compact_died_inv s'"
proof -
  let ?c = "sv_clients s ! i"
  note t = tally_set_pc [of i _ compacting]
  have all: "list_all compact_pc (sv_clients s)" using inv(1) by (simp add: compact_died_inv_def)
  then have ok: "compact_pc ?c" using i by (simp add: list_all_length)
  have keep: "compact_died_inv (set_pc s1 i pc)"
    if "sv_clients s1 = sv_clients s" "\<not> compact_died ?c" "compact_pc (?c\<lparr>cl_pc := pc\<rparr>)"
      "compact_panicked s \<or> compact_died (?c\<lparr>cl_pc := pc\<rparr>) \<longleftrightarrow>
         sv_compact_in_progress s1 \<and> tally compacting (set_pc s1 i pc) = 0" for s1 :: "('h, 'q, 's) server" and pc
    using compact_pc_set_pc [of s1 pc i] compact_panicked_set_pc [of i s1 pc] that all i
    by (simp add: compact_died_inv_def compact_panicked_def)
  from inv have iff: "compact_panicked s \<longleftrightarrow> sv_compact_in_progress s \<and> tally compacting s = 0"
    by (simp add: compact_died_inv_def)
  have same: "compact_died_inv (set_pc s1 i pc)"
    if "sv_clients s1 = sv_clients s" "sv_compact_in_progress s1 = sv_compact_in_progress s" "\<not> compact_died ?c"
      "compact_pc (?c\<lparr>cl_pc := pc\<rparr>)" "\<not> compact_died (?c\<lparr>cl_pc := pc\<rparr>)" "compacting pc = compacting (cl_pc ?c)"
    for s1 :: "('h, 'q, 's) server" and pc
  proof (rule keep)
    have "tally compacting s1 = tally compacting s" using that(1) by (simp add: tally_def)
    with t [of s1 pc] i that(1,6) have "tally compacting (set_pc s1 i pc) = tally compacting s" by simp
    with iff that show "compact_panicked s \<or> compact_died (?c\<lparr>cl_pc := pc\<rparr>) \<longleftrightarrow>
        sv_compact_in_progress s1 \<and> tally compacting (set_pc s1 i pc) = 0" by simp
  qed (use that in simp_all)
  from step show ?thesis
  proof (cases rule: client_step_cases)
    case compact
    with t [of "s\<lparr>sv_compact_in_progress := True\<rparr>" Compacting] i iff show ?thesis
      by (intro keep [of "s\<lparr>sv_compact_in_progress := True\<rparr>" Compacting, folded compact(3)])
        (simp_all add: compact_died_def compact_pc_def)
  next
    case (compact_panic e)
    have "1 \<le> tally compacting s" using tally_ge [OF i, of compacting] compact_panic(1) by simp
    with compact_panic t [of "s\<lparr>sv_engine := e, sv_panicked := True\<rparr>" "Responded (Failed TaskPanicked)"] i iff inv(2) ok show ?thesis
      by (intro keep [of "s\<lparr>sv_engine := e, sv_panicked := True\<rparr>" "Responded (Failed TaskPanicked)", folded compact_panic(2)])
        (auto simp: compact_died_def compact_pc_def compact_inv_def split: if_splits)
  next
    case (unflag r)
    have "1 \<le> tally compacting s" using tally_ge [OF i, of compacting] unflag(1) by simp
    with unflag i iff ok show ?thesis
      by (intro keep [of "s\<lparr>sv_compact_in_progress := False\<rparr>" "Responded r", folded unflag(2)])
        (auto simp: compact_died_def compact_pc_def)
  next
    case (count wreq label)
    show ?thesis
      unfolding count(3) by (rule same) (use ok count in \<open>simp_all add: compact_died_def compact_pc_def\<close>)
  qed (use ok in \<open>auto intro!: same simp: compact_died_def compact_pc_def queue_full_def\<close>)
qed

lemma compact_died_inv_step:
  assumes "compact_died_inv s" "compact_inv s" "serve_step cfg T C s s'"
  shows "compact_died_inv s'"
  using assms(3)
proof cases
  case (by_client i ch)
  with assms compact_died_inv_client show ?thesis by blast
next
  case (by_worker w ch)
  from by_worker(2) have "sv_clients s' = sv_clients s \<and> sv_compact_in_progress s' = sv_compact_in_progress s"
    by (cases rule: worker_step_cases) (simp_all add: worker_panics_def)
  with assms(1) show ?thesis by (simp add: compact_died_inv_def compact_panicked_def tally_def)
qed

lemma compact_died_inv_run:
  assumes "serve_run cfg T C (server_start e q sem workers reqs) k s"
  shows "compact_died_inv s"
  using assms
proof (induction rule: serve_run.induct)
  case run_none
  have "compact_pc c \<and> \<not> compact_died c" if "cl_pc c = Start" for c
    using that by (simp add: compact_pc_def compact_died_def)
  moreover have "\<forall>c \<in> set (sv_clients (server_start e q sem workers reqs)). cl_pc c = Start"
    by (auto simp: server_start_def request_def)
  moreover have "\<not> sv_compact_in_progress (server_start e q sem workers reqs)" by (simp add: server_start_def)
  ultimately show ?case by (auto simp: compact_died_inv_def compact_panicked_def list_ex_iff list_all_iff)
next
  case (run_step n s s')
  show ?case by (rule compact_died_inv_step [OF run_step.IH compact_inv_run [OF run_step.hyps(1)] run_step.hyps(2)])
qed

section \<open>Every request is answered\<close>

fun holds :: "worker_pc \<Rightarrow> write_req list" where
  "holds (Taken r) = [r]"
| "holds (Logged r) = [r]"
| "holds (Ran r ok) = [r]"
| "holds (Uncounted r ok) = [r]"
| "holds _ = []"

text \<open>The request of handler \<open>d\<close> is in the channel or with a worker.\<close>

definition in_flight :: "('q, 's) tokio \<Rightarrow> ('h, 'q, 's) server \<Rightarrow> nat \<Rightarrow> bool" where
  "in_flight T s d \<longleftrightarrow>
     d \<in> req_done ` set (tk_items T (sv_write_ch s)) \<or>
     (\<exists>w<length (sv_workers s). d \<in> req_done ` set (holds (sv_workers s ! w)))"

definition ticket_inv :: "('q, 's) tokio \<Rightarrow> ('h, 'q, 's) server \<Rightarrow> bool" where
  "ticket_inv T s \<longleftrightarrow>
     (\<forall>i<length (sv_clients s). \<forall>qd wreq label. cl_pc (sv_clients s ! i) = Counted qd wreq label \<longrightarrow> req_done wreq = i) \<and>
     (\<forall>i<length (sv_clients s). \<forall>label. cl_pc (sv_clients s ! i) = Waiting label \<longrightarrow>
        sv_done s i \<noteq> Pending \<or> in_flight T s i)"

definition workers_inv :: "('q, 's) tokio \<Rightarrow> ('h, 'q, 's) server \<Rightarrow> bool" where
  "workers_inv T s \<longleftrightarrow>
     (list_all (\<lambda>pc. pc = Gone) (sv_workers s) \<longrightarrow> tk_closed T (sv_write_ch s) \<and> tk_items T (sv_write_ch s) = []) \<and>
     (\<not> sv_panicked s \<longrightarrow> \<not> tk_closed T (sv_write_ch s) \<and> sv_lost s = 0 \<and> Gone \<notin> set (sv_workers s))"

lemma drop_done_not_Pending: "d i \<noteq> Pending \<Longrightarrow> drop_done rs d i \<noteq> Pending"
  by (simp add: drop_done_def)

lemma drop_done_dropped: "i \<in> req_done ` set rs \<Longrightarrow> drop_done rs d i \<noteq> Pending"
  by (simp add: drop_done_def)

lemma leave_done: "sv_done s d \<noteq> Pending \<Longrightarrow> sv_done (leave T s w) d \<noteq> Pending"
  by (auto simp: leave_def Let_def drop_done_not_Pending split: prod.splits)

lemma leave_in_flight:
  assumes laws: "channel_laws T cap" and "in_flight T s d" and "d \<notin> req_done ` set (holds (sv_workers s ! w))"
  shows "in_flight T (leave T s w) d \<or> sv_done (leave T s w) d \<noteq> Pending"
proof (cases "list_all (\<lambda>pc. pc = Gone) ((sv_workers s)[w := Gone])")
  case True
  then have g: "(sv_workers s)[w := Gone] ! v = Gone" if "v < length (sv_workers s)" for v
    using that by (simp add: list_all_length)
  have "sv_workers s ! v = Gone" if "v < length (sv_workers s)" "v \<noteq> w" for v using g that by force
  with assms(2, 3) have "d \<in> req_done ` set (tk_items T (sv_write_ch s))" by (force simp: in_flight_def)
  moreover obtain rs q where "tk_drop_receiver T (sv_write_ch s) = (rs, q)" by (rule prod.exhaust)
  ultimately show ?thesis
    using True receiver_dropped [OF laws, of "sv_write_ch s" rs q]
    by (simp add: leave_def Let_def set_worker_def drop_done_dropped)
next
  case False
  then have l: "leave T s w = set_worker s w Gone" by (simp add: leave_def set_worker_def)
  have "d \<in> req_done ` set (holds (sv_workers (set_worker s w Gone) ! v))"
    if "v < length (sv_workers s)" "d \<in> req_done ` set (holds (sv_workers s ! v))" for v
    using that assms(3) by (cases "v = w") (auto simp: set_worker_nth)
  with assms(2) show ?thesis unfolding l in_flight_def by auto
qed

lemma in_flight_set_worker:
  assumes "in_flight T s d" "set (holds (sv_workers s ! w)) \<subseteq> set (holds pc)"
  shows "in_flight T (set_worker s w pc) d"
proof -
  have "set (holds (sv_workers s ! v)) \<subseteq> set (holds (sv_workers (set_worker s w pc) ! v))"
    if "v < length (sv_workers s)" for v
    using that assms(2) by (simp add: set_worker_nth)
  with assms(1) show ?thesis unfolding in_flight_def by (fastforce)
qed

lemma in_flight_cong:
  "sv_workers s' = sv_workers s \<Longrightarrow> sv_write_ch s' = sv_write_ch s \<Longrightarrow> in_flight T s' d = in_flight T s d"
  by (simp add: in_flight_def)

lemma worker_step_done:
  assumes laws: "channel_laws T cap" and step: "worker_step T C ch s w = Some s'" and "sv_done s d \<noteq> Pending"
  shows "sv_done s' d \<noteq> Pending"
  using step
  by (cases rule: worker_step_cases)
    (use assms(3) in \<open>auto simp: worker_panics_def drop_done_not_Pending intro!: leave_done\<close>)

lemma worker_step_in_flight:
  assumes laws: "channel_laws T cap" and w: "w < length (sv_workers s)"
    and step: "worker_step T C ch s w = Some s'" and flight: "in_flight T s d"
  shows "in_flight T s' d \<or> sv_done s' d \<noteq> Pending"
  using step
proof (cases rule: worker_step_cases)
  case (take r q)
  then have it: "tk_items T (sv_write_ch s) = r # tk_items T q" using received [OF laws] by blast
  show ?thesis
  proof (cases "d = req_done r")
    case True
    with take(3) w show ?thesis by (auto simp: in_flight_def set_worker_def intro!: exI [of _ w])
  next
    case False
    with flight it have "in_flight T (s\<lparr>sv_write_ch := q\<rparr>) d" by (auto simp: in_flight_def)
    with take show ?thesis by (auto intro!: in_flight_set_worker)
  qed
next
  case (leave q)
  with recv_connected [OF laws] show ?thesis by blast
next
  case (panic r e)
  then have h: "holds (sv_workers s ! w) = [r]" by auto
  let ?s1 = "s\<lparr>sv_engine := e, sv_panicked := True, sv_done := drop_done [r] (sv_done s), sv_lost := Suc (sv_lost s)\<rparr>"
  have s': "s' = leave T ?s1 w" using panic by (simp add: worker_panics_def)
  show ?thesis
  proof (cases "d = req_done r")
    case True
    then show ?thesis unfolding s' by (intro disjI2 leave_done) (simp add: drop_done_dropped)
  next
    case False
    moreover have "in_flight T ?s1 d" using flight by (simp add: in_flight_def)
    ultimately show ?thesis unfolding s' using h by (intro leave_in_flight [OF laws]) simp_all
  qed
next
  case (answer r ok)
  show ?thesis
  proof (cases "d = req_done r")
    case True
    with answer show ?thesis by simp
  next
    case False
    let ?s1 = "s\<lparr>sv_done := (sv_done s)(req_done r := Answered ok)\<rparr>"
    have "d \<in> req_done ` set (holds (sv_workers (set_worker ?s1 w Idle) ! v))"
      if "v < length (sv_workers s)" "d \<in> req_done ` set (holds (sv_workers s ! v))" for v
      using that answer(1) False by (cases "v = w") (auto simp: set_worker_nth)
    with flight show ?thesis unfolding answer(2) in_flight_def by auto
  qed
next
  case (log r e)
  with flight have "in_flight T (s\<lparr>sv_engine := e\<rparr>) d" by (simp add: in_flight_def)
  with log show ?thesis by (auto intro!: in_flight_set_worker)
next
  case (ran r e ok)
  with flight have "in_flight T (s\<lparr>sv_engine := e\<rparr>) d" by (simp add: in_flight_def)
  with ran show ?thesis by (auto intro!: in_flight_set_worker)
next
  case (uncount r ok)
  with flight have "in_flight T (s\<lparr>sv_queue_depth := sv_queue_depth s - 1\<rparr>) d" by (simp add: in_flight_def)
  with uncount show ?thesis by (auto intro!: in_flight_set_worker)
qed

lemma ticket_inv_client:
  assumes laws: "channel_laws T cap" and inv: "ticket_inv T s" and i: "i < length (sv_clients s)"
    and step: "client_step cfg T C ch s i = Some s'"
  shows "ticket_inv T s'"
proof -
  have keep: "ticket_inv T (set_pc s1 i pc)"
    if "sv_clients s1 = sv_clients s" "\<And>d. sv_done s d \<noteq> Pending \<Longrightarrow> sv_done s1 d \<noteq> Pending"
      "\<And>d. in_flight T s d \<Longrightarrow> in_flight T s1 d"
      "\<And>qd wreq label. pc = Counted qd wreq label \<Longrightarrow> req_done wreq = i"
      "\<And>label. pc = Waiting label \<Longrightarrow> sv_done s1 i \<noteq> Pending \<or> in_flight T s1 i" for s1 pc
  proof -
    have f: "in_flight T (set_pc s1 i pc) d = in_flight T s1 d" for d by (simp add: in_flight_def)
    show ?thesis
      unfolding ticket_inv_def f
      using inv that(1) that(4,5)
      by (auto simp: ticket_inv_def set_pc_nth split: if_splits) (metis that(2,3))+
  qed
  show ?thesis
    using step
  proof (cases rule: client_step_cases)
    case (sent qd wreq label q)
    then have "req_done wreq = i" using inv i unfolding ticket_inv_def by blast
    with send_ok [OF laws sent(3)] show ?thesis
      unfolding sent(4) by (intro keep) (auto simp: in_flight_def)
  next
    case (closed qd wreq label q)
    then have "req_done wreq = i" using inv i unfolding ticket_inv_def by blast
    with send_closed [OF laws closed(3)] show ?thesis
      unfolding closed(4) by (intro keep) (auto simp: in_flight_def drop_done_not_Pending drop_done_dropped)
  next
    case (full qd wreq label q)
    with send_full [OF laws full(3)] show ?thesis by (auto intro!: keep simp: in_flight_def)
  next
    case (count wreq label)
    then show ?thesis unfolding count(3) by (intro keep) (auto simp: in_flight_def)
  qed (auto intro!: keep simp: in_flight_def)
qed

lemma ticket_inv_worker:
  assumes laws: "channel_laws T cap" and inv: "ticket_inv T s" and w: "w < length (sv_workers s)"
    and step: "worker_step T C ch s w = Some s'"
  shows "ticket_inv T s'"
proof -
  have "sv_clients s' = sv_clients s"
    using step by (cases rule: worker_step_cases) (simp_all add: worker_panics_def)
  with inv worker_step_done [OF laws step] worker_step_in_flight [OF laws w step] show ?thesis
    unfolding ticket_inv_def by metis
qed

lemma workers_inv_leave:
  assumes laws: "channel_laws T cap" and "sv_panicked s"
  shows "workers_inv T (leave T s w)"
  using assms by (auto simp: workers_inv_def leave_def Let_def set_worker_def dest: receiver_dropped split: prod.splits)

lemma not_all_Gone: "w < length ws \<Longrightarrow> ws ! w \<noteq> Gone \<Longrightarrow> \<not> list_all (\<lambda>pc. pc = Gone) ws"
  by (auto simp: list_all_length)

lemma workers_inv_set_worker:
  assumes w: "w < length (sv_workers s)" and "pc \<noteq> Gone"
    and "\<not> sv_panicked s \<Longrightarrow> \<not> tk_closed T (sv_write_ch s) \<and> sv_lost s = 0 \<and> Gone \<notin> set (sv_workers s)"
  shows "workers_inv T (set_worker s w pc)"
proof -
  have "\<not> list_all (\<lambda>pc. pc = Gone) (sv_workers (set_worker s w pc))"
    using assms by (intro not_all_Gone [of w]) (simp_all add: set_worker_nth)
  moreover have "set (sv_workers (set_worker s w pc)) \<subseteq> insert pc (set (sv_workers s))"
    by (simp add: set_worker_def set_update_subset_insert)
  ultimately show ?thesis using assms(2,3) by (auto simp: workers_inv_def)
qed

lemma workers_inv_step:
  assumes laws: "channel_laws T cap" and inv: "workers_inv T s" and step: "serve_step cfg T C s s'"
  shows "workers_inv T s'"
  using step
proof cases
  case (by_client i ch)
  from by_client(2) show ?thesis
  proof (cases rule: client_step_cases)
    case (full qd wreq label q)
    with inv send_full [OF laws full(3)] show ?thesis by (auto simp: workers_inv_def)
  next
    case (sent qd wreq label q)
    with inv send_ok [OF laws sent(3)] show ?thesis by (auto simp: workers_inv_def)
  next
    case (closed qd wreq label q)
    with inv send_closed [OF laws closed(3)] show ?thesis by (auto simp: workers_inv_def)
  qed (use inv in \<open>auto simp: workers_inv_def\<close>)
next
  case (by_worker w ch)
  have i: "\<not> sv_panicked s \<Longrightarrow> \<not> tk_closed T (sv_write_ch s) \<and> sv_lost s = 0 \<and> Gone \<notin> set (sv_workers s)"
    using inv by (simp add: workers_inv_def)
  from by_worker(2) show ?thesis
  proof (cases rule: worker_step_cases)
    case (take r q)
    with i received [OF laws take(2)] by_worker(1) show ?thesis by (auto intro!: workers_inv_set_worker)
  next
    case (leave q)
    with recv_connected [OF laws] show ?thesis by blast
  next
    case (panic r e)
    then show ?thesis by (auto simp: worker_panics_def intro!: workers_inv_leave [OF laws])
  qed (use i by_worker(1) in \<open>auto intro!: workers_inv_set_worker\<close>)
qed

lemma ticket_inv_step:
  "channel_laws T cap \<Longrightarrow> ticket_inv T s \<Longrightarrow> serve_step cfg T C s s' \<Longrightarrow> ticket_inv T s'"
  by (erule serve_step.cases) (auto intro: ticket_inv_client ticket_inv_worker)

lemma start_pc: "i < length reqs \<Longrightarrow> cl_pc (sv_clients (server_start e q sem workers reqs) ! i) = Start"
  by (simp add: server_start_def request_def split: prod.splits)

lemma start_invs:
  assumes "tk_items T q = []" "\<not> tk_closed T q"
  shows "ticket_inv T (server_start e q sem workers reqs)" "workers_inv T (server_start e q sem workers reqs)"
proof -
  have "length (sv_clients (server_start e q sem workers reqs)) = length reqs" by (simp add: server_start_def)
  then show "ticket_inv T (server_start e q sem workers reqs)" by (simp add: ticket_inv_def start_pc)
  show "workers_inv T (server_start e q sem workers reqs)"
    using assms by (auto simp: workers_inv_def server_start_def spawn_write_worker_pool_def list_all_iff)
qed

lemma liveness_invs_run:
  assumes "serve_run cfg T C (server_start e q sem workers reqs) k s"
    and "channel_laws T cap" "tk_items T q = []" "\<not> tk_closed T q"
  shows "ticket_inv T s \<and> workers_inv T s \<and> length (sv_workers s) = max workers 1"
  using assms
proof (induction rule: serve_run.induct)
  case run_none
  then show ?case by (simp add: start_invs) (simp add: server_start_def spawn_write_worker_pool_def)
next
  case (run_step n s s')
  have "length (sv_workers s') = length (sv_workers s)"
    using run_step.hyps(2)
  proof cases
    case (by_client i ch)
    from by_client(2) show ?thesis by (cases rule: client_step_cases) simp_all
  next
    case (by_worker w ch)
    from by_worker(2) show ?thesis by (cases rule: worker_step_cases) (simp_all add: worker_panics_def)
  qed
  with run_step show ?case by (auto intro: ticket_inv_step workers_inv_step)
qed

section \<open>Runs are finite\<close>

fun client_weight :: "client_pc \<Rightarrow> nat" where
  "client_weight Start = 10"
| "client_weight (Counted qd wreq label) = 9"
| "client_weight Compacting = 2"
| "client_weight (Searching query top_k) = 2"
| "client_weight (Responded r) = 0"
| "client_weight _ = 1"

fun worker_weight :: "worker_pc \<Rightarrow> nat" where
  "worker_weight (Taken r) = 6"
| "worker_weight (Logged r) = 5"
| "worker_weight (Ran r ok) = 4"
| "worker_weight (Uncounted r ok) = 3"
| "worker_weight Idle = 1"
| "worker_weight Gone = 0"

definition potential :: "('q, 's) tokio \<Rightarrow> ('h, 'q, 's) server \<Rightarrow> nat" where
  "potential T s = tally client_weight s + 7 * length (tk_items T (sv_write_ch s)) + wtally worker_weight s"

lemma potential_decreases:
  assumes laws: "channel_laws T cap" and step: "serve_step cfg T C s s'"
  shows "potential T s' < potential T s"
  using step
proof cases
  case (by_client i ch)
  have less: "potential T (set_pc s1 i pc) < potential T s"
    if "sv_clients s1 = sv_clients s" "sv_workers s1 = sv_workers s"
      "client_weight pc + 7 * length (tk_items T (sv_write_ch s1)) <
       client_weight (cl_pc (sv_clients s ! i)) + 7 * length (tk_items T (sv_write_ch s))" for s1 pc
    using that by_client(1) tally_set_pc [of i s1 client_weight pc]
    by (simp add: potential_def tally_def wtally_def)
  from by_client(2) show ?thesis
  proof (cases rule: client_step_cases)
    case (full qd wreq label q)
    with send_full [OF laws full(3)] show ?thesis by (auto intro!: less)
  next
    case (sent qd wreq label q)
    with send_ok [OF laws sent(3)] show ?thesis by (auto intro!: less)
  next
    case (closed qd wreq label q)
    with send_closed [OF laws closed(3)] show ?thesis by (auto intro!: less)
  next
    case (count wreq label)
    then show ?thesis unfolding count(3) by (intro less) simp_all
  qed (auto intro!: less)
next
  case (by_worker w ch)
  have less: "potential T (set_worker s1 w pc) < potential T s"
    if "sv_clients s1 = sv_clients s" "sv_workers s1 = sv_workers s"
      "worker_weight pc + 7 * length (tk_items T (sv_write_ch s1)) <
       worker_weight (sv_workers s ! w) + 7 * length (tk_items T (sv_write_ch s))" for s1 pc
    using that by_worker(1) wtally_set_worker [of w s1 worker_weight pc]
    by (simp add: potential_def tally_def wtally_def)
  from by_worker(2) show ?thesis
  proof (cases rule: worker_step_cases)
    case (take r q)
    with received [OF laws take(2)] show ?thesis by (auto intro!: less)
  next
    case (leave q)
    with recv_connected [OF laws] show ?thesis by blast
  next
    case (panic r e)
    let ?s1 = "s\<lparr>sv_engine := e, sv_panicked := True, sv_done := drop_done [r] (sv_done s), sv_lost := Suc (sv_lost s)\<rparr>"
    have "length (tk_items T (sv_write_ch (leave T ?s1 w))) \<le> length (tk_items T (sv_write_ch s))"
      by (auto simp: leave_def Let_def dest: receiver_dropped [OF laws] split: prod.splits)
    with panic by_worker(1) wtally_leave [of w ?s1 worker_weight T] show ?thesis
      by (auto simp: potential_def worker_panics_def)
  qed (auto intro!: less)
qed

lemma run_potential:
  assumes "serve_run cfg T C s0 k s" "channel_laws T cap"
  shows "k + potential T s \<le> potential T s0"
  using assms
proof (induction rule: serve_run.induct)
  case (run_step n s s')
  with potential_decreases [of T cap cfg C s s'] show ?case by simp
qed simp

lemma potential_start:
  "tk_items T q = [] \<Longrightarrow> potential T (server_start e q sem workers reqs) = 10 * length reqs + max workers 1"
  by (simp add: potential_def tally_def wtally_def server_start_def spawn_write_worker_pool_def comp_def
      request_def case_prod_beta sum_list_triv sum_list_replicate)

lemma stuck_client:
  assumes "client_step cfg T C ch s i = None"
  shows "(\<exists>r. cl_pc (sv_clients s ! i) = Responded r) \<or>
    (\<exists>label. cl_pc (sv_clients s ! i) = Waiting label \<and> sv_done s i = Pending)"
proof (cases "cl_pc (sv_clients s ! i)")
  case (Waiting label)
  with assms have "await_write_done label (sv_done s i) = None" by (simp add: client_step_def)
  then have "sv_done s i = Pending" by (elim await_write_done.elims) simp_all
  with Waiting show ?thesis by simp
qed (use assms in \<open>simp_all add: client_step_def\<close>)

lemma stuck_worker:
  assumes laws: "channel_laws T cap" and "worker_step T C ch s w = None"
  shows "sv_workers s ! w = Gone \<or> (sv_workers s ! w = Idle \<and> tk_items T (sv_write_ch s) = [])"
proof (cases "sv_workers s ! w")
  case Idle
  with assms(2) show ?thesis
    by (auto simp: worker_step_def poll_def dest: recv_empty [OF laws] split: prod.splits recv_result.splits)
qed (use assms(2) in \<open>simp_all add: worker_step_def\<close>)

lemma stuck_all:
  assumes laws: "channel_laws T cap" and stuck: "\<And>s'. \<not> serve_step cfg T C s s'"
    and inv: "ticket_inv T s" "workers_inv T s"
  shows "tk_items T (sv_write_ch s) = []" and "wtally in_work s = 0"
    and "i < length (sv_clients s) \<Longrightarrow> \<exists>r. cl_pc (sv_clients s ! i) = Responded r"
proof -
  have ws: "sv_workers s ! w = Gone \<or> (sv_workers s ! w = Idle \<and> tk_items T (sv_write_ch s) = [])"
    if "w < length (sv_workers s)" for w
    using stuck that by (intro stuck_worker [OF laws, of C undefined]) (metis by_worker not_None_eq)
  show items: "tk_items T (sv_write_ch s) = []"
    using ws inv(2) by (cases "list_all (\<lambda>pc. pc = Gone) (sv_workers s)") (auto simp: workers_inv_def list_all_length)
  show "wtally in_work s = 0" using ws by (force simp: wtally_zero)
  show "\<exists>r. cl_pc (sv_clients s ! i) = Responded r" if i: "i < length (sv_clients s)"
  proof -
    have "holds (sv_workers s ! w) = []" if "w < length (sv_workers s)" for w using ws [OF that] by auto
    with items have "\<not> in_flight T s i" by (simp add: in_flight_def)
    moreover have "client_step cfg T C undefined s i = None" using stuck i by (metis by_client not_None_eq)
    ultimately show ?thesis using stuck_client [of cfg T C undefined s i] inv(1) i by (auto simp: ticket_inv_def)
  qed
qed

section \<open>An instance of the runtime\<close>

text \<open>A channel of capacity \<open>cap\<close> is its messages and whether it is closed, a semaphore a number.\<close>

definition list_tokio :: "nat \<Rightarrow> (write_req list \<times> bool, nat) tokio" where
  "list_tokio cap =
     \<lparr>tk_try_send = (\<lambda>(rs, cl) r. if cl then (SendClosed, (rs, cl)) else if cap \<le> length rs then (SendFull, (rs, cl))
        else (SendOk, (rs @ [r], cl))),
      tk_try_recv = (\<lambda>(rs, cl). case rs of [] \<Rightarrow> (RecvEmpty, (rs, cl)) | r # rest \<Rightarrow> (Received r, (rest, cl))),
      tk_drop_receiver = (\<lambda>(rs, cl). (rs, ([], True))),
      tk_try_acquire = (\<lambda>n. if n = 0 then None else Some (n - 1)),
      tk_release = Suc, tk_items = fst, tk_closed = snd, tk_permits = id\<rparr>"

lemma list_tokio_laws: "channel_laws (list_tokio cap) cap" "semaphore_laws (list_tokio cap)"
proof -
  show "channel_laws (list_tokio cap) cap"
    unfolding channel_laws_def list_tokio_def
    by (intro conjI allI impI) (auto split: if_splits list.splits)
  show "semaphore_laws (list_tokio cap)" by (auto simp: semaphore_laws_def list_tokio_def split: if_splits)
qed

definition toy_config :: "nat \<Rightarrow> config" where
  "toy_config cap =
     \<lparr>cf_queue_cap = cap, cf_auth = auth_empty, cf_bind_is_loopback = True, cf_base64_decode = Some\<rparr>"

text \<open>
  A run by a schedule: the list says who takes the next step, and \<open>ch\<close> is what the engine answers after a panic.  Every
  scheduled run is a run of the daemon, so a run can be evaluated.
\<close>

datatype actor = ByClient nat | ByWorker nat

definition actor_step ::
  "config \<Rightarrow> ('q, 's) tokio \<Rightarrow> 'h eng_ctx \<Rightarrow> 'h choice \<Rightarrow> ('h, 'q, 's) server \<Rightarrow> actor \<Rightarrow> ('h, 'q, 's) server option" where
  "actor_step cfg T C ch s a =
     (case a of
        ByClient i \<Rightarrow> if i < length (sv_clients s) then client_step cfg T C ch s i else None
      | ByWorker w \<Rightarrow> if w < length (sv_workers s) then worker_step T C ch s w else None)"

fun run_schedule ::
  "config \<Rightarrow> ('q, 's) tokio \<Rightarrow> 'h eng_ctx \<Rightarrow> 'h choice \<Rightarrow> ('h, 'q, 's) server \<Rightarrow> actor list \<Rightarrow> ('h, 'q, 's) server option" where
  "run_schedule cfg T C ch s [] = Some s"
| "run_schedule cfg T C ch s (a # as) =
     (case actor_step cfg T C ch s a of None \<Rightarrow> None | Some s' \<Rightarrow> run_schedule cfg T C ch s' as)"

lemma actor_step_serves: "actor_step cfg T C ch s a = Some s' \<Longrightarrow> serve_step cfg T C s s'"
  by (auto simp: actor_step_def intro: by_client by_worker split: actor.splits if_splits)

lemma serve_run_front:
  assumes "serve_run cfg T C s' n s''" "serve_step cfg T C s s'"
  shows "serve_run cfg T C s (Suc n) s''"
  using assms by (induction rule: serve_run.induct) (blast intro: serve_run.intros)+

lemma run_schedule_runs: "run_schedule cfg T C ch s as = Some s' \<Longrightarrow> serve_run cfg T C s (length as) s'"
  by (induction as arbitrary: s) (auto intro: run_none serve_run_front actor_step_serves split: option.splits)

text \<open>Every handler has responded and every worker is gone or waits at an empty channel.\<close>

definition at_rest :: "('q, 's) tokio \<Rightarrow> ('h, 'q, 's) server \<Rightarrow> bool" where
  "at_rest T s \<longleftrightarrow>
     list_all (\<lambda>c. case cl_pc c of Responded r \<Rightarrow> True | _ \<Rightarrow> False) (sv_clients s) \<and>
     list_all (\<lambda>pc. pc = Gone \<or> pc = Idle \<and> fst (tk_try_recv T (sv_write_ch s)) = RecvEmpty) (sv_workers s)"

lemma at_rest_stuck:
  assumes "at_rest T s"
  shows "\<not> serve_step cfg T C s s'"
proof
  assume "serve_step cfg T C s s'"
  then show False
  proof cases
    case (by_client i ch)
    with assms have "case cl_pc (sv_clients s ! i) of Responded r \<Rightarrow> True | _ \<Rightarrow> False"
      by (simp add: at_rest_def list_all_length)
    then obtain r where "cl_pc (sv_clients s ! i) = Responded r" by (auto split: client_pc.splits)
    with by_client(2) show False by (simp add: client_step_def)
  next
    case (by_worker w ch)
    with assms have "sv_workers s ! w = Gone \<or> sv_workers s ! w = Idle \<and> fst (tk_try_recv T (sv_write_ch s)) = RecvEmpty"
      by (simp add: at_rest_def list_all_length)
    with by_worker(2) show False by (auto simp: worker_step_def poll_def split: prod.splits)
  qed
qed

lemma schedule_run:
  assumes "map_option f (run_schedule cfg T C ch s as) = Some y" "length as = n"
  shows "\<exists>s'. serve_run cfg T C s n s' \<and> f s' = y"
  using assms run_schedule_runs by blast

definition toy_choice :: "mem_db choice" where
  "toy_choice = \<lparr>ch_run = toy_run, ch_statv = None, ch_engine = toy_engine, ch_unit = Ok (), ch_hits = Ok [], ch_compact = Panic\<rparr>"

text \<open>
  A daemon with room for one request and three writes: the first is stored, the second comes while the first is in the
  queue and is turned away, the third has an empty key and fails.
\<close>

abbreviation toy_reqs :: "(bytes option \<times> endpoint) list" where
  "toy_reqs \<equiv> [(None, WriteEp (PutKvReq [1] [2])), (None, WriteEp (PutKvReq [1] [3])), (None, WriteEp (PutKvReq [] [4]))]"

abbreviation toy_server :: "(mem_db, write_req list \<times> bool, nat) server" where
  "toy_server \<equiv> server_start toy_engine ([], False) 64 1 toy_reqs"

abbreviation toy_queued :: "actor list" where
  "toy_queued \<equiv> [ByClient 0, ByClient 0, ByClient 1]"

abbreviation toy_schedule :: "actor list" where
  "toy_schedule \<equiv> toy_queued @
     [ByClient 1, ByWorker 0, ByWorker 0, ByWorker 0, ByWorker 0, ByWorker 0, ByClient 0,
      ByClient 2, ByClient 2, ByWorker 0, ByWorker 0, ByWorker 0, ByWorker 0, ByWorker 0, ByClient 2]"

abbreviation toy_responses :: "client_pc list" where
  "toy_responses \<equiv> [Responded (Status NO_CONTENT), Responded queue_full,
     Responded (Failed (HttpError (AppError INTERNAL_SERVER_ERROR ''put_kv failed'')))]"

text \<open>
  A value longer than a segment panics the worker, the compaction after it panics as well, a search waits for its result
  and a second compaction is refused.
\<close>

abbreviation toy_dying :: "(mem_db, write_req list \<times> bool, nat) server" where
  "toy_dying \<equiv> server_start toy_engine ([], False) 64 2
     [(None, WriteEp (PutKvReq [7] (replicate 17 0))), (None, CompactEp), (None, KnnEp [] 3), (None, CompactEp)]"

abbreviation toy_dying_schedule :: "actor list" where
  "toy_dying_schedule \<equiv>
     [ByClient 0, ByClient 0, ByWorker 0, ByWorker 0, ByWorker 0, ByClient 0, ByClient 1, ByClient 2, ByClient 1, ByClient 3]"

section \<open>Properties\<close>

text \<open>
  Every request is answered (C5).  From the start of the daemon on, handlers and workers take at
  most ten steps for each request and one for each worker, however they interleave and whatever the engine
  returns, panics included.  Where no step is left every handler has responded and, if no engine call has panicked,
  the depth of the queue is back at zero.
\<close>

theorem every_request_answered:
  assumes "channel_laws T cap" "tk_items T q = []" "\<not> tk_closed T q"
    and "cf_queue_cap cfg + length reqs < 2 ^ 64 - 1"
    and "serve_run cfg T C (server_start e q sem workers reqs) k s"
  shows "k \<le> 10 * length reqs + max workers 1 \<and>
    ((\<forall>s'. \<not> serve_step cfg T C s s') \<longrightarrow>
       list_all (\<lambda>c. case cl_pc c of Responded r \<Rightarrow> True | _ \<Rightarrow> False) (sv_clients s) \<and>
       (sv_panicked s \<or> sv_queue_depth s = 0))"
proof (intro conjI impI)
  show "k \<le> 10 * length reqs + max workers 1"
    using run_potential [OF assms(5,1)] potential_start [OF assms(2), of e sem workers reqs] by simp
next
  assume "\<forall>s'. \<not> serve_step cfg T C s s'"
  then have stuck: "\<And>s'. \<not> serve_step cfg T C s s'" by blast
  have inv: "ticket_inv T s" "workers_inv T s" using liveness_invs_run [OF assms(5,1,2,3)] by simp_all
  note fin = stuck_all [OF assms(1) stuck inv]
  show "list_all (\<lambda>c. case cl_pc c of Responded r \<Rightarrow> True | _ \<Rightarrow> False) (sv_clients s)"
    using fin(3) by (fastforce simp: list_all_length)
  have "tally (counted (cf_queue_cap cfg)) s = 0" "tally (refusing (cf_queue_cap cfg)) s = 0"
    using fin(3) by (force simp: tally_zero)+
  with fin queue_inv_run [OF assms(5,1,2,4)] inv(2) show "sv_panicked s \<or> sv_queue_depth s = 0"
    by (auto simp: queue_inv_def accepted_def workers_inv_def unat_eq_zero)
qed

theorem every_request_answered_witness:
  "\<exists>s. serve_run (toy_config 1) (list_tokio 1) toy_eng_ctx toy_server 18 s \<and>
    (\<forall>s'. \<not> serve_step (toy_config 1) (list_tokio 1) toy_eng_ctx s s') \<and>
    map cl_pc (sv_clients s) = toy_responses \<and> 18 \<le> 10 * length toy_reqs + max 1 1 \<and> sv_queue_depth s = 0"
proof -
  have run: "map_option (\<lambda>s. (map cl_pc (sv_clients s), at_rest (list_tokio 1) s, sv_panicked s))
      (run_schedule (toy_config 1) (list_tokio 1) toy_eng_ctx toy_choice toy_server toy_schedule) =
    Some (toy_responses, True, False)"
    by code_simp
  have len: "length toy_schedule = 18" by simp
  from schedule_run [OF run len] obtain s where s: "serve_run (toy_config 1) (list_tokio 1) toy_eng_ctx toy_server 18 s"
    "map cl_pc (sv_clients s) = toy_responses" "at_rest (list_tokio 1) s" "\<not> sv_panicked s"
    unfolding prod.inject simp_thms by (elim exE conjE) (rule that)
  have st: "\<forall>s'. \<not> serve_step (toy_config 1) (list_tokio 1) toy_eng_ctx s s'"
    using at_rest_stuck [OF s(3)] by blast
  have "18 \<le> 10 * length toy_reqs + max 1 1 \<and> sv_queue_depth s = 0"
    using every_request_answered [OF list_tokio_laws(1) _ _ _ s(1)] st s(4)
    by (simp add: list_tokio_def toy_config_def)
  with s st show ?thesis by (intro exI [of _ s] conjI) simp_all
qed

text \<open>
  The queue is bounded (C14).  Under every interleaving the requests that were let into the queue and are not
  finished (the ones about to be sent, in the channel, with a worker, or lost to a panic) are at most the
  capacity, and the depth is exactly their number and that of the handlers about to be turned away.  A
  channel of that capacity is then never full for a handler that passed the check of the depth.
\<close>

theorem queue_bounded:
  assumes "channel_laws T (cf_queue_cap cfg)" "tk_items T q = []"
    and "cf_queue_cap cfg + length reqs < 2 ^ 64 - 1"
    and "serve_run cfg T C (server_start e q sem workers reqs) k s"
  shows "accepted (cf_queue_cap cfg) T s \<le> cf_queue_cap cfg \<and>
    length (tk_items T (sv_write_ch s)) \<le> cf_queue_cap cfg \<and>
    unat (sv_queue_depth s) = accepted (cf_queue_cap cfg) T s + tally (refusing (cf_queue_cap cfg)) s \<and>
    (\<forall>i<length (sv_clients s). \<forall>qd wreq label.
       cl_pc (sv_clients s ! i) = Counted qd wreq label \<and> unat qd < cf_queue_cap cfg \<longrightarrow>
         fst (tk_try_send T (sv_write_ch s) wreq) \<noteq> SendFull)"
proof -
  let ?cap = "cf_queue_cap cfg"
  have inv: "queue_inv ?cap T (length reqs) s" by (rule queue_inv_run [OF assms(4,1,2,3)])
  then have a: "accepted ?cap T s \<le> ?cap" by (simp add: queue_inv_def)
  have "fst (tk_try_send T (sv_write_ch s) wreq) \<noteq> SendFull"
    if i: "i < length (sv_clients s)" and pc: "cl_pc (sv_clients s ! i) = Counted qd wreq label" "unat qd < ?cap"
    for i qd wreq label
  proof
    assume "fst (tk_try_send T (sv_write_ch s) wreq) = SendFull"
    then have "?cap \<le> length (tk_items T (sv_write_ch s))"
      using send_full [OF assms(1)] by (metis prod.collapse)
    moreover have "1 \<le> tally (counted ?cap) s" using tally_ge [OF i, of "counted ?cap"] pc by simp
    ultimately show False using a by (simp add: accepted_def)
  qed
  with inv a show ?thesis by (auto simp: queue_inv_def accepted_def)
qed

theorem queue_bounded_witness:
  "\<exists>s. serve_run (toy_config 1) (list_tokio 1) toy_eng_ctx toy_server 3 s \<and>
    accepted 1 (list_tokio 1) s = 1 \<and> length (tk_items (list_tokio 1) (sv_write_ch s)) \<le> 1 \<and>
    unat (sv_queue_depth s) = accepted 1 (list_tokio 1) s + tally (refusing 1) s \<and> sv_queue_depth s = 2"
proof -
  have run: "map_option (\<lambda>s. (sv_queue_depth s, accepted 1 (list_tokio 1) s))
      (run_schedule (toy_config 1) (list_tokio 1) toy_eng_ctx toy_choice toy_server toy_queued) = Some (2, 1)"
    by code_simp
  have len: "length toy_queued = 3" by simp
  from schedule_run [OF run len] obtain s where s: "serve_run (toy_config 1) (list_tokio 1) toy_eng_ctx toy_server 3 s"
    "sv_queue_depth s = 2" "accepted 1 (list_tokio 1) s = 1"
    unfolding prod.inject simp_thms by (elim exE conjE) (rule that)
  have c: "cf_queue_cap (toy_config 1) = 1" by (simp add: toy_config_def)
  have "length (tk_items (list_tokio 1) (sv_write_ch s)) \<le> 1 \<and>
    unat (sv_queue_depth s) = accepted 1 (list_tokio 1) s + tally (refusing 1) s"
    using queue_bounded [OF _ _ _ s(1)] unfolding c by (simp add: list_tokio_laws) (simp add: list_tokio_def)
  with s show ?thesis by blast
qed

text \<open>
  One compaction at a time (C35).  Under every interleaving at most one handler compacts and at most as many
  search as the semaphore has permits.  The health endpoint answers 503 \<open>unavailable\<close> exactly while a compaction
  runs and after the task of a compaction has panicked: its handler answered 500 without clearing the flag.  After
  such a panic, in every later state, no compaction runs and the health endpoint still answers 503: nothing clears the flag.
\<close>

theorem compaction_exclusive:
  fixes s :: "('h, 'q, 's) server"
  assumes "semaphore_laws T" and "serve_run cfg T C (server_start e q sem workers reqs) k s"
  shows "tally compacting s \<le> 1 \<and> tally searching s \<le> tk_permits T sem \<and>
    (fst (health s) = SERVICE_UNAVAILABLE \<longleftrightarrow> tally compacting s = 1 \<or> compact_panicked s) \<and>
    (fst (health s) = SERVICE_UNAVAILABLE \<longleftrightarrow> hr_status (snd (health s)) = ''unavailable'') \<and>
    (compact_panicked s \<longrightarrow> sv_panicked s \<and>
       (\<forall>m s'. serve_run cfg T C s m s' \<longrightarrow> fst (health s') = SERVICE_UNAVAILABLE \<and> tally compacting s' = 0))"
proof -
  have inv: "compact_inv s" by (rule compact_inv_run [OF assms(2)])
  have died: "compact_panicked s \<longleftrightarrow> sv_compact_in_progress s \<and> tally compacting s = 0"
    using compact_died_inv_run [OF assms(2)] by (simp add: compact_died_inv_def)
  have h: "fst (health x) = SERVICE_UNAVAILABLE \<longleftrightarrow> sv_compact_in_progress x"
    "hr_status (snd (health x)) = ''unavailable'' \<longleftrightarrow> sv_compact_in_progress x" for x :: "('h, 'q, 's) server"
    by (simp_all add: health_def Let_def)
  have "tally searching s \<le> tk_permits T sem"
    using permit_inv_run [OF assms(2,1)] by (simp add: permit_inv_def)
  moreover have "tally compacting s \<le> 1" "sv_compact_in_progress s \<longleftrightarrow> tally compacting s = 1 \<or> compact_panicked s"
    "compact_panicked s \<Longrightarrow> sv_panicked s"
    using inv died by (auto simp: compact_inv_def split: if_splits)
  ultimately show ?thesis
    unfolding h using stuck_flag_run [of cfg T C s] died by blast
qed

theorem compaction_exclusive_witness:
  "\<exists>s. serve_run (toy_config 4) (list_tokio 4) toy_eng_ctx toy_dying 10 s \<and>
    map cl_pc (sv_clients s) =
      [Responded (Failed (HttpError (AppError INTERNAL_SERVER_ERROR ''put_kv worker dropped''))),
       Responded (Failed TaskPanicked), Searching [] 3,
       Responded (Failed (HttpError (AppError CONFLICT ''compact already in progress'')))] \<and>
    tally searching s = 1 \<and> tally searching s \<le> 64 \<and>
    (\<forall>m s'. serve_run (toy_config 4) (list_tokio 4) toy_eng_ctx s m s' \<longrightarrow> fst (health s') = SERVICE_UNAVAILABLE)"
proof -
  have run: "map_option (\<lambda>s. (map cl_pc (sv_clients s), tally searching s, compact_panicked s))
      (run_schedule (toy_config 4) (list_tokio 4) toy_eng_ctx toy_choice toy_dying toy_dying_schedule) =
    Some ([Responded (Failed (HttpError (AppError INTERNAL_SERVER_ERROR ''put_kv worker dropped''))),
       Responded (Failed TaskPanicked), Searching [] 3,
       Responded (Failed (HttpError (AppError CONFLICT ''compact already in progress'')))], 1, True)"
    by code_simp
  have len: "length toy_dying_schedule = 10" by simp
  from schedule_run [OF run len] obtain s where s: "serve_run (toy_config 4) (list_tokio 4) toy_eng_ctx toy_dying 10 s"
    "map cl_pc (sv_clients s) =
      [Responded (Failed (HttpError (AppError INTERNAL_SERVER_ERROR ''put_kv worker dropped''))),
       Responded (Failed TaskPanicked), Searching [] 3,
       Responded (Failed (HttpError (AppError CONFLICT ''compact already in progress'')))]"
    "tally searching s = 1" "compact_panicked s"
    unfolding prod.inject simp_thms by (elim exE conjE) (rule that)
  from compaction_exclusive [OF list_tokio_laws(2) s(1)] s show ?thesis
    by (auto simp: list_tokio_def)
qed

end
