(* ===== verification/Serve_Order.thy ===== *)
theory Serve_Order
  imports Serve_Queue
begin

text \<open>
  The two halves of a write.  A worker appends to the log and then writes to the store; each half holds
  its own lock, and another worker may run between them.  Run without interruption they are the
  engine's operation; interleaved they may reach the log in one order and the store in the other.
\<close>

section \<open>Uninterrupted writes\<close>

definition write_halves ::
  "'h eng_ctx \<Rightarrow> eng_run \<Rightarrow> 'h engine \<Rightarrow> write_req \<Rightarrow> unit res \<times> 'h engine" where
  "write_halves C R e r =
     (case log_req C e r of
        (Ok u, e1) \<Rightarrow> apply_req C R e1 r
      | (Err x, e1) \<Rightarrow> (Err x, e1)
      | (Panic, e1) \<Rightarrow> (Panic, e1))"

text \<open>
  The steps of a worker are the engine call.  The append and the write that a worker makes in two
  steps are together the call of \<open>handle_write_req\<close>, on every outcome.
\<close>

theorem run_req_halves: "run_req C R e r = write_halves C R e r"
proof (cases r)
  case (ReqPutKv k v d)
  then show ?thesis
    by (auto simp: write_halves_def log_req_def engine_put_kv_def split: prod.splits res.splits)
next
  case (ReqInsertVector i v d)
  then show ?thesis
    by (auto simp: write_halves_def log_req_def insert_vector_def split: prod.splits res.splits option.splits)
next
  case (ReqPutColumnar t ipc d)
  show ?thesis
  proof (cases "decode_ipc C ipc")
    case (Ok batch)
    with ReqPutColumnar show ?thesis
      by (cases "encode_ipc C batch")
        (auto simp: write_halves_def log_req_def engine_put_columnar_def split: prod.splits res.splits option.splits)
  qed (use ReqPutColumnar in \<open>simp_all add: write_halves_def log_req_def\<close>)
qed

section \<open>Interleaved writes\<close>

lemma log_req_put_kv:
  assumes clean: "wal_clean (en_wal e) es" and fits: "length (encode_op (PutKv k v)) \<le> U32_MAX"
    and m: "read_marker rd (en_wal e) = Ok m" and log: "log_req C e (ReqPutKv k v d) = (r, e')"
  shows "\<exists>w. r = Ok () \<and> e' = e\<lparr>en_wal := w\<rparr> \<and> wl_next_seq w = wl_next_seq (en_wal e) + 1 \<and>
    wal_clean w (es @ [\<lparr>we_seq = wl_next_seq (en_wal e), we_op = PutKv k v\<rparr>]) \<and> read_marker rd w = Ok m"
proof -
  obtain w where w: "wal_append (en_wal e) (PutKv k v) = (Ok (wl_next_seq (en_wal e)), w)"
    "wl_next_seq w = wl_next_seq (en_wal e) + 1"
    "wal_clean w (es @ [\<lparr>we_seq = wl_next_seq (en_wal e), we_op = PutKv k v\<rparr>])"
    using wal_clean_append [OF clean, of "PutKv k v"] fits by auto
  have "fs_read (wl_dir w) MARKER = fs_read (wl_dir (en_wal e)) MARKER"
    using w(1) clean
    by (auto simp: wal_append_def wal_clean_def fs_read_write_other Let_def split: if_splits)
  with m have "read_marker rd w = Ok m" by (simp add: read_marker_def)
  with w log show ?thesis by (auto simp: log_req_def)
qed

lemma apply_req_put_kv:
  assumes "eng_ctx_ok C" "eng_inv C e" "eng_room e (Suc n)" "apply_req C R e (ReqPutKv k v d) = (Ok (), e')"
  shows "replayed C e (PutKv k v) True e' n"
  using replay_put_kv [OF assms(1-3), of R k v "Ok ()" e'] assms(4) by simp

text \<open>
  The log and the store may disagree (C36).  Two workers put values under the same key; the first to reach the
  log is the last to reach the store, and both calls succeed, so that both clients are told so.  Reads then
  return the value of the first, but a recovery from the log makes it the value of the second.
\<close>

theorem interleaved_puts_diverge:
  assumes ctx: "eng_ctx_ok C" and inv: "eng_inv C e" and room: "eng_room e 4"
    and clean: "wal_clean (en_wal e) []" and m: "read_marker (ec_marker_from_slice C) (en_wal e) = Ok m"
    and sq: "marker_applied m < wl_next_seq (en_wal e)" "marker_applied m < wl_next_seq (en_wal e) + 1"
    and fits: "length (encode_op (PutKv k v1)) \<le> U32_MAX" "length (encode_op (PutKv k v2)) \<le> U32_MAX"
    and run: "log_req C e (ReqPutKv k v1 d1) = (r1, e1)" "log_req C e1 (ReqPutKv k v2 d2) = (r2, e2)"
      "apply_req C R2 e2 (ReqPutKv k v2 d2) = (Ok (), e3)" "apply_req C R1 e3 (ReqPutKv k v1 d1) = (Ok (), e4)"
    and rec: "recover_inner C R e4 = (Ok (), e5)"
  shows "r1 = Ok () \<and> r2 = Ok () \<and> ea_kv (abs_of C e4) k = Some v1 \<and> ea_kv (abs_of C e5) k = Some v2"
proof -
  let ?sq = "wl_next_seq (en_wal e)"
  let ?es = "[\<lparr>we_seq = ?sq, we_op = PutKv k v1\<rparr>, \<lparr>we_seq = ?sq + 1, we_op = PutKv k v2\<rparr>]"
  obtain w1 where w1: "r1 = Ok ()" "e1 = e\<lparr>en_wal := w1\<rparr>" "wl_next_seq w1 = ?sq + 1"
    "wal_clean w1 [\<lparr>we_seq = ?sq, we_op = PutKv k v1\<rparr>]" "read_marker (ec_marker_from_slice C) w1 = Ok m"
    using log_req_put_kv [OF clean fits(1) m run(1)] by auto
  obtain w2 where w2: "r2 = Ok ()" "e2 = e\<lparr>en_wal := w2\<rparr>" "wal_clean w2 ?es"
    "read_marker (ec_marker_from_slice C) w2 = Ok m"
    using log_req_put_kv [OF _ fits(2) _ run(2), of "[\<lparr>we_seq = ?sq, we_op = PutKv k v1\<rparr>]" "ec_marker_from_slice C" m] w1
    by auto
  have e2: "eng_inv C e2" "eng_room e2 (Suc 3)" "en_wal e2 = w2"
    using inv room by (simp_all add: w2(2) eng_inv_def eng_room_def)
  have e3: "eng_inv C e3" "eng_room e3 (Suc 2)" "en_wal e3 = w2"
    using apply_req_put_kv [OF ctx e2(1,2) run(3)] e2(3) by (simp_all add: replayed_def numeral_3_eq_3 numeral_2_eq_2)
  have e4: "eng_inv C e4" "eng_room e4 2" "en_wal e4 = w2"
    "abs_of C e4 = apply_op C (abs_of C e3) (PutKv k v1)"
    using apply_req_put_kv [OF ctx e3(1,2) run(4)] e3(3) by (simp_all add: replayed_def)
  have plan: "engine_plan C e4 = Ok \<lparr>rp_entries = ?es, rp_applied_seq = marker_applied m\<rparr>"
    using wal_clean_read_all [OF w2(3)] w2(4) sq
    by (simp add: engine_plan_def pending_recover_plan_def e4(3))
  have "fs_ok (wl_dir (en_wal e4))" using w2(3) by (simp add: e4(3) wal_clean_def)
  from recover_inner_correct(2) [OF ctx e4(1) this plan _ rec] e4(2)
  have "abs_of C e5 = apply_ops C (abs_of C e4) [PutKv k v1, PutKv k v2]"
    by (simp add: ops_weight_def numeral_2_eq_2)
  with e4(4) w1(1) w2(1) show ?thesis by simp
qed

lemma apply_req_put_kv_eq:
  "apply_req C R e (ReqPutKv k v d) =
     (fst (put_kv (ec_heed C) (er_kv_lock R) (en_kv e) k v None),
      e\<lparr>en_kv := snd (put_kv (ec_heed C) (er_kv_lock R) (en_kv e) k v None)\<rparr>)"
  by (simp add: split_beta)

lemma ops_weight_two: "ops_weight C [\<lparr>we_seq = a, we_op = PutKv k v\<rparr>, \<lparr>we_seq = b, we_op = PutKv k' v'\<rparr>] = 2"
  by (simp add: ops_weight_def)

text \<open>Replaying puts does not look at the log.\<close>

lemma replay_entries_log:
  "fst (replay_entries C R (e\<lparr>en_wal := w\<rparr>) m
     [\<lparr>we_seq = a, we_op = PutKv k v\<rparr>, \<lparr>we_seq = b, we_op = PutKv k' v'\<rparr>]) =
   fst (replay_entries C R e m [\<lparr>we_seq = a, we_op = PutKv k v\<rparr>, \<lparr>we_seq = b, we_op = PutKv k' v'\<rparr>])"
  by (simp split: prod.splits res.splits)

theorem interleaved_puts_diverge_witness:
  "\<exists>e1 e2 e3 e4 e5.
     log_req toy_eng_ctx toy_engine (ReqPutKv [7] [1] 0) = (Ok (), e1) \<and>
     log_req toy_eng_ctx e1 (ReqPutKv [7] [2] 1) = (Ok (), e2) \<and>
     apply_req toy_eng_ctx toy_run e2 (ReqPutKv [7] [2] 1) = (Ok (), e3) \<and>
     apply_req toy_eng_ctx toy_run e3 (ReqPutKv [7] [1] 0) = (Ok (), e4) \<and>
     recover_inner toy_eng_ctx toy_run e4 = (Ok (), e5) \<and>
     ea_kv (abs_of toy_eng_ctx e4) [7] = Some [1] \<and> ea_kv (abs_of toy_eng_ctx e5) [7] = Some [2]"
proof -
  have sq: "wl_next_seq (en_wal toy_engine) = 1" by code_simp
  have room: "eng_room toy_engine 4" by code_simp
  have cl: "wal_clean (en_wal toy_engine) []" using wal_clean_empty by (simp add: toy_engine_def)
  have mk: "read_marker (ec_marker_from_slice toy_eng_ctx) (en_wal toy_engine) = Ok None" by code_simp
  have f: "length (encode_op (PutKv [7] [1])) \<le> U32_MAX" "length (encode_op (PutKv [7] [2])) \<le> U32_MAX"
    by code_simp+
  obtain r1 e1 where l1: "log_req toy_eng_ctx toy_engine (ReqPutKv [7] [1] 0) = (r1, e1)" by (rule prod.exhaust)
  obtain r2 e2 where l2: "log_req toy_eng_ctx e1 (ReqPutKv [7] [2] 1) = (r2, e2)" by (rule prod.exhaust)
  obtain w1 where w1: "e1 = toy_engine\<lparr>en_wal := w1\<rparr>" "wl_next_seq w1 = 2"
    "wal_clean w1 [\<lparr>we_seq = 1, we_op = PutKv [7] [1]\<rparr>]" "read_marker (ec_marker_from_slice toy_eng_ctx) w1 = Ok None"
    using log_req_put_kv [OF cl f(1) mk l1] by (auto simp: sq)
  obtain w2 where w2: "e2 = toy_engine\<lparr>en_wal := w2\<rparr>"
    "wal_clean w2 [\<lparr>we_seq = 1, we_op = PutKv [7] [1]\<rparr>, \<lparr>we_seq = 2, we_op = PutKv [7] [2]\<rparr>]"
    "read_marker (ec_marker_from_slice toy_eng_ctx) w2 = Ok None"
    using log_req_put_kv [OF _ f(2) _ l2, of "[\<lparr>we_seq = 1, we_op = PutKv [7] [1]\<rparr>]" "ec_marker_from_slice toy_eng_ctx" None] w1
    by auto
  define e3 where "e3 = snd (apply_req toy_eng_ctx toy_run e2 (ReqPutKv [7] [2] 1))"
  define e4 where "e4 = snd (apply_req toy_eng_ctx toy_run e3 (ReqPutKv [7] [1] 0))"
  define t3 where "t3 = snd (apply_req toy_eng_ctx toy_run toy_engine (ReqPutKv [7] [2] 1))"
  define t4 where "t4 = snd (apply_req toy_eng_ctx toy_run t3 (ReqPutKv [7] [1] 0))"
  have e34: "e3 = t3\<lparr>en_wal := w2\<rparr>" "e4 = t4\<lparr>en_wal := w2\<rparr>"
    by (simp_all add: e3_def e4_def t3_def t4_def w2(1) apply_req_put_kv_eq del: apply_req.simps)
  have ok: "fst (apply_req toy_eng_ctx toy_run toy_engine (ReqPutKv [7] [2] 1)) = Ok ()"
    "fst (apply_req toy_eng_ctx toy_run t3 (ReqPutKv [7] [1] 0)) = Ok ()"
    unfolding t3_def by code_simp+
  have a3: "apply_req toy_eng_ctx toy_run e2 (ReqPutKv [7] [2] 1) = (Ok (), e3)"
    using ok(1) by (simp add: e3_def w2(1) apply_req_put_kv_eq del: apply_req.simps)
  have a4: "apply_req toy_eng_ctx toy_run e3 (ReqPutKv [7] [1] 0) = (Ok (), e4)"
    using ok(2) by (simp add: e4_def e34(1) apply_req_put_kv_eq del: apply_req.simps)
  have e2: "eng_inv toy_eng_ctx e2" "eng_room e2 (Suc 3)"
    using toy_engine_inv room by (simp_all add: w2(1) eng_inv_def eng_room_def)
  have e3: "eng_inv toy_eng_ctx e3" "eng_room e3 (Suc 2)"
    using apply_req_put_kv [OF toy_eng_ctx_ok e2 a3] by (simp_all add: replayed_def numeral_3_eq_3 numeral_2_eq_2)
  have e4: "eng_inv toy_eng_ctx e4" "eng_room e4 2"
    using apply_req_put_kv [OF toy_eng_ctx_ok e3 a4] by (simp_all add: replayed_def)
  let ?es = "[\<lparr>we_seq = 1, we_op = PutKv [7] [1]\<rparr>, \<lparr>we_seq = 2, we_op = PutKv [7] [2]\<rparr>]"
  have plan: "engine_plan toy_eng_ctx e4 = Ok \<lparr>rp_entries = ?es, rp_applied_seq = 0\<rparr>"
    using wal_clean_read_all [OF w2(2)] w2(3)
    by (simp add: engine_plan_def pending_recover_plan_def e34(2) marker_applied_def)
  have "is_ok (fst (replay_entries toy_eng_ctx toy_run t4 0 ?es))"
    unfolding t4_def t3_def by code_simp
  then have "is_ok (fst (replay_entries toy_eng_ctx toy_run e4 0 ?es))"
    by (simp add: e34(2) replay_entries_log del: replay_entries.simps)
  with recover_inner_ok [OF toy_eng_ctx_ok e4(1) plan _, of toy_run] e4(2)
  obtain e5 where rec: "recover_inner toy_eng_ctx toy_run e4 = (Ok (), e5)"
    by (metis ops_weight_two recover_plan.select_convs)
  from interleaved_puts_diverge [OF toy_eng_ctx_ok toy_engine_inv room cl mk _ _ f l1 l2 a3 a4 rec]
  have "r1 = Ok ()" "r2 = Ok ()" "ea_kv (abs_of toy_eng_ctx e4) [7] = Some [1]" "ea_kv (abs_of toy_eng_ctx e5) [7] = Some [2]"
    by (simp_all add: sq marker_applied_def)
  with l1 l2 a3 a4 rec show ?thesis by blast
qed

end
