(* ===== verification/Ffi.thy ===== *)
theory Ffi
  imports Engine
begin

text \<open>
  \<open>fs-ffi-c/src/lib.rs\<close>: the C interface.  Every function checks its pointers, calls the engine,
  maps the error to a code and copies results into buffers of the caller.

  A pointer argument is an option, \<open>None\<close> being \<open>NULL\<close>; a buffer of the caller is the list of the elements it
  really has, whatever capacity the caller states.  A call returns a code and what it leaves in
  memory, aborts the process (a panic must not cross the C interface), or writes outside a buffer
  (\<open>Undefined\<close>).  Input slices are lists: that they have the stated length is the caller's promise.
  \<open>homes\<close> is what is found under a path.
\<close>

section \<open>Codes\<close>

definition OK :: int where "OK = 0"
definition ERR_IO :: int where "ERR_IO = -1"
definition ERR_HEED :: int where "ERR_HEED = -2"
definition ERR_NOT_FOUND :: int where "ERR_NOT_FOUND = -3"
definition ERR_DUP_VECTOR :: int where "ERR_DUP_VECTOR = -4"
definition ERR_DIM_MISMATCH :: int where "ERR_DIM_MISMATCH = -5"
definition ERR_QUOTA :: int where "ERR_QUOTA = -6"
definition ERR_BUSY :: int where "ERR_BUSY = -7"
definition ERR_LOCK :: int where "ERR_LOCK = -8"
definition ERR_CORRUPT :: int where "ERR_CORRUPT = -9"
definition ERR_TIMEOUT :: int where "ERR_TIMEOUT = -10"
definition ERR_SEGMENT_FULL :: int where "ERR_SEGMENT_FULL = -11"
definition ERR_ARROW :: int where "ERR_ARROW = -12"
definition ERR_SERDE :: int where "ERR_SERDE = -13"
definition ERR_VALUE_TOO_LARGE :: int where "ERR_VALUE_TOO_LARGE = -14"
definition ERR_LOCK_POISONED :: int where "ERR_LOCK_POISONED = -15"
definition ERR_MAP_FULL :: int where "ERR_MAP_FULL = -16"
definition ERR_INVALID_KEY :: int where "ERR_INVALID_KEY = -17"
definition ERR_OTHER :: int where "ERR_OTHER = -99"

lemmas code_defs = OK_def ERR_IO_def ERR_HEED_def ERR_NOT_FOUND_def ERR_DUP_VECTOR_def ERR_DIM_MISMATCH_def
  ERR_QUOTA_def ERR_BUSY_def ERR_LOCK_def ERR_CORRUPT_def ERR_TIMEOUT_def ERR_SEGMENT_FULL_def ERR_ARROW_def
  ERR_SERDE_def ERR_VALUE_TOO_LARGE_def ERR_LOCK_POISONED_def ERR_MAP_FULL_def ERR_INVALID_KEY_def ERR_OTHER_def

fun err_code :: "store_error \<Rightarrow> int" where
  "err_code Io = ERR_IO"
| "err_code (Heed e) = ERR_HEED"
| "err_code NotFound = ERR_NOT_FOUND"
| "err_code (DuplicateVector i) = ERR_DUP_VECTOR"
| "err_code (DimensionMismatch a b) = ERR_DIM_MISMATCH"
| "err_code QuotaExceeded = ERR_QUOTA"
| "err_code Busy = ERR_BUSY"
| "err_code LockBusy = ERR_LOCK"
| "err_code (Corrupt m) = ERR_CORRUPT"
| "err_code Timeout = ERR_TIMEOUT"
| "err_code SegmentFull = ERR_SEGMENT_FULL"
| "err_code Arrow = ERR_ARROW"
| "err_code SerdeJson = ERR_SERDE"
| "err_code (ValueTooLarge n) = ERR_VALUE_TOO_LARGE"
| "err_code LockPoisoned = ERR_LOCK_POISONED"
| "err_code (MapFull a b) = ERR_MAP_FULL"
| "err_code (InvalidKey m) = ERR_INVALID_KEY"

section \<open>Calls\<close>

datatype 'a call = Return int 'a | Abort | Undefined

text \<open>The code of a call that returns nothing else.\<close>

fun unit_code :: "unit res \<Rightarrow> 'a \<Rightarrow> 'a call" where
  "unit_code (Ok u) x = Return OK x"
| "unit_code (Err e) x = Return (err_code e) x"
| "unit_code Panic x = Abort"

text \<open>\<open>copy_nonoverlapping\<close> of a whole slice into a buffer.\<close>

definition copy_into :: "'a list \<Rightarrow> 'a list \<Rightarrow> 'a list option" where
  "copy_into src dst = (if length src \<le> length dst then Some (src @ drop (length src) dst) else None)"

section \<open>Paths\<close>

text \<open>\<open>CStr::to_str\<close>: the bytes must be UTF-8.\<close>

definition cont_byte :: "u8 \<Rightarrow> bool" where
  "cont_byte b \<longleftrightarrow> 0x80 \<le> b \<and> b \<le> 0xBF"

fun utf8_valid :: "bytes \<Rightarrow> bool" where
  "utf8_valid [] = True"
| "utf8_valid (a # rest) =
     (if a < 0x80 then utf8_valid rest
      else
        (case rest of
           [] \<Rightarrow> False
         | b # rest1 \<Rightarrow>
             (if 0xC2 \<le> a \<and> a \<le> 0xDF then cont_byte b \<and> utf8_valid rest1
              else
                (case rest1 of
                   [] \<Rightarrow> False
                 | c # rest2 \<Rightarrow>
                     (if 0xE0 \<le> a \<and> a \<le> 0xEF
                      then cont_byte b \<and> cont_byte c \<and> (a = 0xE0 \<longrightarrow> 0xA0 \<le> b) \<and> (a = 0xED \<longrightarrow> b \<le> 0x9F) \<and>
                           utf8_valid rest2
                      else
                        (case rest2 of
                           [] \<Rightarrow> False
                         | d # rest3 \<Rightarrow>
                             0xF0 \<le> a \<and> a \<le> 0xF4 \<and> cont_byte b \<and> cont_byte c \<and> cont_byte d \<and>
                             (a = 0xF0 \<longrightarrow> 0x90 \<le> b) \<and> (a = 0xF4 \<longrightarrow> b \<le> 0x8F) \<and> utf8_valid rest3))))))"

text \<open>The common part of \<open>fs_store_create\<close> and \<open>fs_store_open\<close>; the handle is the engine it owns.\<close>

definition open_path ::
  "'h eng_ctx \<Rightarrow> eng_run \<Rightarrow> (bytes \<Rightarrow> 'h home) \<Rightarrow> bytes option \<Rightarrow> vector_schema option \<Rightarrow> bool
     \<Rightarrow> 'h engine option call" where
  "open_path C R homes path schema out_given =
     (case path of
        None \<Rightarrow> Return ERR_OTHER None
      | Some p \<Rightarrow>
          (if \<not> out_given then Return ERR_OTHER None
           else if \<not> utf8_valid p then Return ERR_OTHER None
           else
             (case engine_open C R (homes p) schema 0 of
                Ok e \<Rightarrow> Return OK (Some e)
              | Err x \<Rightarrow> Return (err_code x) None
              | Panic \<Rightarrow> Abort)))"

definition fs_store_create ::
  "'h eng_ctx \<Rightarrow> eng_run \<Rightarrow> (bytes \<Rightarrow> 'h home) \<Rightarrow> bytes option \<Rightarrow> nat \<Rightarrow> bool \<Rightarrow> 'h engine option call" where
  "fs_store_create C R homes path dim out_given =
     open_path C R homes path (Some (schema_new dim L2)) out_given"

definition fs_store_open ::
  "'h eng_ctx \<Rightarrow> eng_run \<Rightarrow> (bytes \<Rightarrow> 'h home) \<Rightarrow> bytes option \<Rightarrow> bool \<Rightarrow> 'h engine option call" where
  "fs_store_open C R homes path out_given = open_path C R homes path None out_given"

text \<open>Closing leaves the directories of the engine; an error is only logged.\<close>

definition fs_store_close :: "'h eng_ctx \<Rightarrow> 'h engine option \<Rightarrow> 'h home option call" where
  "fs_store_close C h =
     (case h of
        None \<Rightarrow> Return OK None
      | Some e \<Rightarrow>
          (case engine_close C e of
             (Panic, e') \<Rightarrow> Abort
           | (_, e') \<Rightarrow> Return OK (Some (engine_home e'))))"

section \<open>Keys and values\<close>

definition fs_store_put_kv ::
  "'h eng_ctx \<Rightarrow> eng_run \<Rightarrow> 'h engine option \<Rightarrow> bytes option \<Rightarrow> bytes option \<Rightarrow> 'h engine option call" where
  "fs_store_put_kv C R h key val =
     (case (h, key, val) of
        (Some e, Some k, Some v) \<Rightarrow>
          (case engine_put_kv C R e k v None of (r, e') \<Rightarrow> unit_code r (Some e'))
      | _ \<Rightarrow> Return ERR_OTHER h)"

text \<open>The result: the handle, the buffer, and \<open>vlen_out\<close> if it was written.\<close>

definition fs_store_get_kv ::
  "'h eng_ctx \<Rightarrow> 'h engine option \<Rightarrow> bytes option \<Rightarrow> bytes option \<Rightarrow> nat \<Rightarrow> bool
     \<Rightarrow> ('h engine option \<times> bytes option \<times> nat option) call" where
  "fs_store_get_kv C h key out_val out_cap vlen_given =
     (case (h, key, out_val) of
        (Some e, Some k, Some buf) \<Rightarrow>
          (if \<not> vlen_given then Return ERR_OTHER (h, out_val, None)
           else
             (case engine_get_kv C e k of
                (Ok (Some z), e') \<Rightarrow>
                  (let bs = buffer_as_bytes (sp_data_dir (ks_pool (en_kv e'))) z in
                   if length bs > out_cap then Return ERR_OTHER (Some e', out_val, Some (length bs))
                   else
                     (case copy_into bs buf of
                        None \<Rightarrow> Undefined
                      | Some buf' \<Rightarrow> Return OK (Some e', Some buf', Some (length bs))))
              | (Ok None, e') \<Rightarrow> Return ERR_NOT_FOUND (Some e', out_val, None)
              | (Err x, e') \<Rightarrow> Return (err_code x) (Some e', out_val, None)
              | (Panic, e') \<Rightarrow> Abort))
      | _ \<Rightarrow> Return ERR_OTHER (h, out_val, None))"

section \<open>Vectors\<close>

definition fs_store_insert_vector ::
  "'h eng_ctx \<Rightarrow> eng_run \<Rightarrow> 'h engine option \<Rightarrow> u64 \<Rightarrow> f32 list option \<Rightarrow> 'h engine option call" where
  "fs_store_insert_vector C R h i v =
     (case (h, v) of
        (Some e, Some vec) \<Rightarrow> (case insert_vector C R e i vec of (r, e') \<Rightarrow> unit_code r (Some e'))
      | _ \<Rightarrow> Return ERR_OTHER h)"

text \<open>The loop writes one id and one distance at a time.\<close>

fun write_hits ::
  "nat \<Rightarrow> (u64 \<times> f32) list \<Rightarrow> u64 list \<Rightarrow> f32 list \<Rightarrow> (u64 list \<times> f32 list) option" where
  "write_hits i [] ids dists = Some (ids, dists)"
| "write_hits i ((vid, dist) # rest) ids dists =
     (if i < length ids \<and> i < length dists
      then write_hits (Suc i) rest (ids[i := vid]) (dists[i := dist])
      else None)"

definition fs_store_search_knn ::
  "'h eng_ctx \<Rightarrow> eng_run \<Rightarrow> 'h engine option \<Rightarrow> f32 list option \<Rightarrow> nat \<Rightarrow> u64 list option \<Rightarrow> f32 list option \<Rightarrow> bool
     \<Rightarrow> ('h engine option \<times> u64 list option \<times> f32 list option \<times> nat option) call" where
  "fs_store_search_knn C R h q top_k out_ids out_dists out_n_given =
     (case (h, q, out_ids, out_dists) of
        (Some e, Some query, Some ids, Some dists) \<Rightarrow>
          (if \<not> out_n_given then Return ERR_OTHER (h, out_ids, out_dists, None)
           else
             (case engine_search_knn C R e query top_k of
                (Ok results, e') \<Rightarrow>
                  (let n = min (length results) top_k in
                   (case write_hits 0 (take n results) ids dists of
                      None \<Rightarrow> Undefined
                    | Some (ids', dists') \<Rightarrow> Return OK (Some e', Some ids', Some dists', Some n)))
              | (Err x, e') \<Rightarrow> Return (err_code x) (Some e', out_ids, out_dists, None)
              | (Panic, e') \<Rightarrow> Abort))
      | _ \<Rightarrow> Return ERR_OTHER (h, out_ids, out_dists, None))"

definition fs_store_delete_vector :: "'h engine option \<Rightarrow> u64 \<Rightarrow> 'h engine option call" where
  "fs_store_delete_vector h i =
     (case h of
        None \<Rightarrow> Return ERR_OTHER None
      | Some e \<Rightarrow>
          (case delete_vector e i of
             (Ok deleted, e') \<Rightarrow> Return (if deleted then OK else ERR_NOT_FOUND) (Some e')
           | (Err x, e') \<Rightarrow> Return (err_code x) (Some e')
           | (Panic, e') \<Rightarrow> Abort))"

text \<open>\<open>out_cap\<close> and \<open>vlen_out\<close> count elements.\<close>

definition fs_store_get_vector ::
  "'h eng_ctx \<Rightarrow> eng_run \<Rightarrow> 'h engine option \<Rightarrow> u64 \<Rightarrow> f32 list option \<Rightarrow> nat \<Rightarrow> bool
     \<Rightarrow> ('h engine option \<times> f32 list option \<times> nat option) call" where
  "fs_store_get_vector C R h i out_val out_cap vlen_given =
     (case (h, out_val) of
        (Some e, Some buf) \<Rightarrow>
          (if \<not> vlen_given then Return ERR_OTHER (h, out_val, None)
           else
             (case engine_get_vector C R e i of
                (Ok (Some v), e') \<Rightarrow>
                  (if length v > out_cap then Return ERR_OTHER (Some e', out_val, Some (length v))
                   else
                     (case copy_into v buf of
                        None \<Rightarrow> Undefined
                      | Some buf' \<Rightarrow> Return OK (Some e', Some buf', Some (length v))))
              | (Ok None, e') \<Rightarrow> Return ERR_NOT_FOUND (Some e', out_val, None)
              | (Err x, e') \<Rightarrow> Return (err_code x) (Some e', out_val, None)
              | (Panic, e') \<Rightarrow> Abort))
      | _ \<Rightarrow> Return ERR_OTHER (h, out_val, None))"

definition fs_store_list_vector_ids ::
  "'h engine option \<Rightarrow> u64 list option \<Rightarrow> nat \<Rightarrow> bool \<Rightarrow> (u64 list option \<times> nat option) call" where
  "fs_store_list_vector_ids h out_ids cap out_n_given =
     (case (h, out_ids) of
        (Some e, Some buf) \<Rightarrow>
          (if \<not> out_n_given then Return ERR_OTHER (out_ids, None)
           else
             (case engine_list_vector_ids e of
                Ok ids \<Rightarrow>
                  (if length ids > cap then Return ERR_OTHER (out_ids, Some (length ids))
                   else
                     (case copy_into ids buf of
                        None \<Rightarrow> Undefined
                      | Some buf' \<Rightarrow> Return OK (Some buf', Some (length ids))))
              | Err x \<Rightarrow> Return (err_code x) (out_ids, None)
              | Panic \<Rightarrow> Abort))
      | _ \<Rightarrow> Return ERR_OTHER (out_ids, None))"

definition fs_store_vector_dim :: "'h engine option \<Rightarrow> nat" where
  "fs_store_vector_dim h =
     (case h of
        None \<Rightarrow> 0
      | Some e \<Rightarrow> (case en_vec e of Some idx \<Rightarrow> vs_dim (vi_schema idx) | None \<Rightarrow> 0))"

definition fs_store_checkpoint :: "'h eng_ctx \<Rightarrow> 'h engine option \<Rightarrow> 'h engine option call" where
  "fs_store_checkpoint C h =
     (case h of
        None \<Rightarrow> Return ERR_OTHER None
      | Some e \<Rightarrow> (case engine_checkpoint C e of (r, e') \<Rightarrow> unit_code r (Some e')))"

section \<open>Buffers\<close>

lemma copy_into_fits: "length src \<le> length dst \<Longrightarrow> copy_into src dst = Some (src @ drop (length src) dst)"
  by (simp add: copy_into_def)

lemma take_update_Suc: "i < length xs \<Longrightarrow> take (Suc i) (xs[i := x]) = take i xs @ [x]"
  by (simp add: take_Suc_conv_app_nth)

lemma write_hits_fits:
  "i + length hits \<le> length ids \<Longrightarrow> i + length hits \<le> length dists \<Longrightarrow>
     write_hits i hits ids dists =
       Some (take i ids @ map fst hits @ drop (i + length hits) ids,
             take i dists @ map snd hits @ drop (i + length hits) dists)"
proof (induction i hits ids dists rule: write_hits.induct)
  case (2 i vid dist rest ids dists)
  then show ?case by (simp add: take_update_Suc)
qed simp

section \<open>Codes\<close>

text \<open>No error has the code of success.\<close>

lemma err_code_range: "-17 \<le> err_code e" "err_code e \<le> -1"
  by (cases e; simp add: code_defs)+

lemma unit_code_OK: "unit_code r x = Return c y \<Longrightarrow> y = x \<and> (c = OK \<longleftrightarrow> r = Ok ())"
proof (cases r)
  case (Err e)
  assume "unit_code r x = Return c y"
  with Err err_code_range(2) [of e] show ?thesis by (auto simp: OK_def)
qed simp_all

section \<open>Reading what was written\<close>

lemma get_kv_call:
  assumes inv: "kv_inv (ec_heed C) (en_kv e)" and rt: "hd_read_txn (ec_heed C) (ks_env (en_kv e)) = HOk ()"
    and v: "kv_abs (ec_heed C) (en_kv e) k = Some v" and cap: "cap \<le> length buf"
  shows "\<exists>e'. kv_abs (ec_heed C) (en_kv e') = kv_abs (ec_heed C) (en_kv e) \<and>
    fs_store_get_kv C (Some e) (Some k) (Some buf) cap True =
      (if length v \<le> cap then Return OK (Some e', Some (v @ drop (length v) buf), Some (length v))
       else Return ERR_OTHER (Some e', Some buf, Some (length v)))"
proof -
  obtain z st where g: "get_kv_zero_copy (ec_heed C) (en_kv e) k = (Ok (Some z), st)"
    "buffer_as_bytes (sp_data_dir (ks_pool st)) z = v"
    using get_kv_cases(1) [OF inv rt v] by blast
  then have "engine_get_kv C e k = (Ok (Some z), e\<lparr>en_kv := st\<rparr>)" by (simp add: engine_get_kv_def)
  moreover have "kv_abs (ec_heed C) st = kv_abs (ec_heed C) (en_kv e)" using get_kv_keeps [OF inv g(1)] by blast
  ultimately show ?thesis
    using g(2) cap
    by (intro exI [of _ "e\<lparr>en_kv := st\<rparr>"]) (auto simp: fs_store_get_kv_def Let_def copy_into_fits)
qed

lemma get_kv_call_missing:
  assumes inv: "kv_inv (ec_heed C) (en_kv e)" and rt: "hd_read_txn (ec_heed C) (ks_env (en_kv e)) = HOk ()"
    and get: "hd_get (ec_heed C) (ks_env (en_kv e)) KV_DB_NAME k = HOk old"
    and v: "kv_abs (ec_heed C) (en_kv e) k = None"
  shows "fs_store_get_kv C (Some e) (Some k) (Some buf) cap True = Return ERR_NOT_FOUND (Some e, Some buf, None)"
  using get_kv_cases(2) [OF inv rt v get] by (simp add: fs_store_get_kv_def engine_get_kv_def)

text \<open>
  Put and get across the C interface (C38).  A put that returns gives 0 exactly if the engine stored the value.  A get of any key
  after it, with a buffer that has the stated capacity, gives the value of the key in the map that the code of the put
  describes: with 0 the map has the new value at the key of the put, with any other code it is the map before.  The get returns 0
  and the value at the start of the buffer if it fits; -99 and the length that is needed, with the buffer untouched, if it
  does not; and -3 with the buffer untouched if the key has no value.  (The read transaction and the look-up in LMDB do not fail.)
\<close>

theorem ffi_put_get:
  assumes ctx: "eng_ctx_ok C" and inv: "eng_inv C e" and room: "eng_room e 1" and log: "wal_clean (en_wal e) es"
    and fits: "length (encode_op (PutKv k v)) \<le> U32_MAX"
    and put: "fs_store_put_kv C R (Some e) (Some k) (Some v) = Return c (Some e1)"
    and rt: "hd_read_txn (ec_heed C) (ks_env (en_kv e1)) = HOk ()"
    and get: "hd_get (ec_heed C) (ks_env (en_kv e1)) KV_DB_NAME k' = HOk old" and cap: "cap \<le> length buf"
  shows "(c = OK \<longleftrightarrow> fst (engine_put_kv C R e k v None) = Ok ()) \<and>
    (\<exists>e2. fs_store_get_kv C (Some e1) (Some k') (Some buf) cap True =
      (case (if c = OK then (ea_kv (abs_of C e))(k \<mapsto> v) else ea_kv (abs_of C e)) k' of
         Some v' \<Rightarrow>
           (if length v' \<le> cap then Return OK (Some e2, Some (v' @ drop (length v') buf), Some (length v'))
            else Return ERR_OTHER (Some e2, Some buf, Some (length v')))
       | None \<Rightarrow> Return ERR_NOT_FOUND (Some e2, Some buf, None)))"
proof -
  obtain r e' where p: "engine_put_kv C R e k v None = (r, e')" by (rule prod.exhaust)
  have "unit_code r (Some e') = Return c (Some e1)" using put by (simp add: fs_store_put_kv_def p)
  then have code: "e' = e1" "c = OK \<longleftrightarrow> r = Ok ()" by (auto dest: unit_code_OK)
  have e1: "kv_inv (ec_heed C) (en_kv e1)"
    "kv_abs (ec_heed C) (en_kv e1) = (if c = OK then (ea_kv (abs_of C e))(k \<mapsto> v) else ea_kv (abs_of C e))"
    using engine_put_kv_correct [OF ctx inv room log fits p] code by (cases r; auto simp: eng_inv_def abs_of_def)+
  show ?thesis
  proof (cases "kv_abs (ec_heed C) (en_kv e1) k'")
    case None
    with get_kv_call_missing [OF e1(1) rt get None] code p e1(2) show ?thesis by auto
  next
    case (Some v')
    with get_kv_call [OF e1(1) rt Some cap] code p e1(2) show ?thesis by auto
  qed
qed

theorem ffi_put_get_witness:
  "case fs_store_put_kv toy_eng_ctx toy_run (Some toy_engine) (Some [7]) (Some [1, 2]) of
     Return c (Some e1) \<Rightarrow>
       c = OK \<and>
       (\<exists>e2. fs_store_get_kv toy_eng_ctx (Some e1) (Some [7]) (Some [0, 0, 9]) 3 True =
         Return OK (Some e2, Some [1, 2, 9], Some 2)) \<and>
       (\<exists>e2. fs_store_get_kv toy_eng_ctx (Some e1) (Some [7]) (Some [9]) 1 True = Return ERR_OTHER (Some e2, Some [9], Some 2)) \<and>
       (\<exists>e2. fs_store_get_kv toy_eng_ctx (Some e1) (Some [8]) (Some [9]) 1 True = Return ERR_NOT_FOUND (Some e2, Some [9], None))
   | _ \<Rightarrow> False"
proof -
  let ?p = "engine_put_kv toy_eng_ctx toy_run toy_engine [7] [1, 2] None"
  have r: "fst ?p = Ok ()" by code_simp
  have put: "fs_store_put_kv toy_eng_ctx toy_run (Some toy_engine) (Some [7]) (Some [1, 2]) = Return OK (Some (snd ?p))"
    using r by (cases ?p) (simp add: fs_store_put_kv_def)
  have room: "eng_room toy_engine 1" by code_simp
  have cl: "wal_clean (en_wal toy_engine) []" using wal_clean_empty by (simp add: toy_engine_def)
  have len: "length (encode_op (PutKv [7] [1, 2])) \<le> U32_MAX" by code_simp
  have rt: "hd_read_txn (ec_heed toy_eng_ctx) h = HOk ()" for h by (simp add: toy_eng_ctx_def mem_heed_def)
  have get: "\<exists>old. hd_get (ec_heed toy_eng_ctx) h KV_DB_NAME key = HOk old" if "\<not> bad_key key" for h key
    using that by (simp add: toy_eng_ctx_def mem_heed_def)
  have keys: "\<not> bad_key [7]" "\<not> bad_key [8]" by code_simp+
  have empty: "ea_kv (abs_of toy_eng_ctx toy_engine) = Map.empty"
    using kv_fresh_inv(3) by (simp add: abs_of_def toy_engine_def toy_eng_ctx_def)
  note main = ffi_put_get [OF toy_eng_ctx_ok toy_engine_inv room cl len put rt]
  have "\<exists>e2. fs_store_get_kv toy_eng_ctx (Some (snd ?p)) (Some [7]) (Some [0, 0, 9]) 3 True =
      Return OK (Some e2, Some [1, 2, 9], Some 2)"
    using get [OF keys(1), of "ks_env (en_kv (snd ?p))"] main [of "[7]" _ 3 "[0, 0, 9]"] by (auto simp: numeral_2_eq_2)
  moreover have "\<exists>e2. fs_store_get_kv toy_eng_ctx (Some (snd ?p)) (Some [7]) (Some [9]) 1 True = Return ERR_OTHER (Some e2, Some [9], Some 2)"
    using get [OF keys(1), of "ks_env (en_kv (snd ?p))"] main [of "[7]" _ 1 "[9]"] by (auto simp: numeral_2_eq_2)
  moreover have "\<exists>e2. fs_store_get_kv toy_eng_ctx (Some (snd ?p)) (Some [8]) (Some [9]) 1 True = Return ERR_NOT_FOUND (Some e2, Some [9], None)"
    using get [OF keys(2), of "ks_env (en_kv (snd ?p))"] main [of "[8]" _ 1 "[9]"] by (auto simp: empty)
  ultimately show ?thesis unfolding put by simp
qed

text \<open>
  Memory of the caller (C37).  If the buffers have at least the stated capacity, counted in elements (\<open>top_k\<close> elements for a search),
  no call writes outside them, and none changes their length; this holds for every state of the
  engine and every result of a search, also one with more than \<open>top_k\<close> hits.  The capacity of \<open>fs_store_get_vector\<close> counts
  elements as well, although its comment speaks of bytes: a caller that states the size of the buffer in bytes, four times its
  elements, makes the call write past the end exactly if the stored vector is longer than the buffer and at most four times as long.
\<close>

theorem ffi_stays_in_buffers:
  assumes "cap \<le> length buf" "cap \<le> length vbuf" "cap \<le> length ids" "top_k \<le> length ids" "top_k \<le> length dists"
  shows "(case fs_store_get_kv C h key (Some buf) cap given of
            Return c (h', b, n) \<Rightarrow> map_option length b = Some (length buf) | Abort \<Rightarrow> True | Undefined \<Rightarrow> False) \<and>
         (case fs_store_get_vector C R h i (Some vbuf) cap given of
            Return c (h', b, n) \<Rightarrow> map_option length b = Some (length vbuf) | Abort \<Rightarrow> True | Undefined \<Rightarrow> False) \<and>
         (case fs_store_list_vector_ids h (Some ids) cap given of
            Return c (b, n) \<Rightarrow> map_option length b = Some (length ids) | Abort \<Rightarrow> True | Undefined \<Rightarrow> False) \<and>
         (case fs_store_search_knn C R h q top_k (Some ids) (Some dists) given of
            Return c (h', b, d, n) \<Rightarrow>
              map_option length b = Some (length ids) \<and> map_option length d = Some (length dists)
          | Abort \<Rightarrow> True | Undefined \<Rightarrow> False) \<and>
         (fs_store_get_vector C R (Some e) i (Some vbuf) (4 * length vbuf) True = Undefined \<longleftrightarrow>
            (\<exists>v e'. engine_get_vector C R e i = (Ok (Some v), e') \<and> length vbuf < length v \<and> length v \<le> 4 * length vbuf))"
proof (intro conjI)
  show "case fs_store_get_kv C h key (Some buf) cap given of
      Return c (h', b, n) \<Rightarrow> map_option length b = Some (length buf) | Abort \<Rightarrow> True | Undefined \<Rightarrow> False"
    using assms(1) by (auto simp: fs_store_get_kv_def Let_def copy_into_def split: option.splits prod.splits res.splits)
  show "case fs_store_get_vector C R h i (Some vbuf) cap given of
      Return c (h', b, n) \<Rightarrow> map_option length b = Some (length vbuf) | Abort \<Rightarrow> True | Undefined \<Rightarrow> False"
    using assms(2) by (auto simp: fs_store_get_vector_def copy_into_def split: option.splits prod.splits res.splits)
  show "case fs_store_list_vector_ids h (Some ids) cap given of
      Return c (b, n) \<Rightarrow> map_option length b = Some (length ids) | Abort \<Rightarrow> True | Undefined \<Rightarrow> False"
    using assms(3) by (auto simp: fs_store_list_vector_ids_def copy_into_def split: option.splits prod.splits res.splits)
  have "write_hits 0 (take (min (length rs) top_k) rs) ids dists =
      Some (map fst (take (min (length rs) top_k) rs) @ drop (min (length rs) top_k) ids,
            map snd (take (min (length rs) top_k) rs) @ drop (min (length rs) top_k) dists)" for rs
    using write_hits_fits [of 0 "take (min (length rs) top_k) rs" ids dists] assms(4,5) by simp
  with assms(4,5) show "case fs_store_search_knn C R h q top_k (Some ids) (Some dists) given of
      Return c (h', b, d, n) \<Rightarrow> map_option length b = Some (length ids) \<and> map_option length d = Some (length dists)
    | Abort \<Rightarrow> True | Undefined \<Rightarrow> False"
    by (auto simp: fs_store_search_knn_def Let_def split: option.splits prod.splits res.splits)
  show "fs_store_get_vector C R (Some e) i (Some vbuf) (4 * length vbuf) True = Undefined \<longleftrightarrow>
    (\<exists>v e'. engine_get_vector C R e i = (Ok (Some v), e') \<and> length vbuf < length v \<and> length v \<le> 4 * length vbuf)"
    by (auto simp: fs_store_get_vector_def copy_into_def split: option.splits prod.splits res.splits)
qed

text \<open>A store with one vector of dimension two.\<close>

definition ffi_engine :: "mem_db engine" where
  "ffi_engine =
     toy_engine\<lparr>en_vec := Some (case index_open toy_ctx [] fs_empty (schema_new 2 L2) 64 of
        Ok idx \<Rightarrow> snd (index_insert toy_ctx no_reader 0 idx 3 [5, 6]))\<rparr>"

theorem ffi_stays_in_buffers_witness:
  "(case fs_store_get_vector toy_eng_ctx toy_run (Some ffi_engine) 3 (Some [0, 0, 9]) 3 True of
      Return c (h', b, n) \<Rightarrow> c = OK \<and> b = Some [5, 6, 9] \<and> n = Some 2 \<and> map_option length b = Some (length [0, 0, 9 :: f32])
    | _ \<Rightarrow> False) \<and>
   fs_store_get_vector toy_eng_ctx toy_run (Some ffi_engine) 3 (Some [0]) (4 * length [0 :: f32]) True = Undefined"
proof
  have v: "fst (engine_get_vector toy_eng_ctx toy_run ffi_engine 3) = Ok (Some [5, 6])" by code_simp
  have "3 \<le> length [0, 0, 0 :: u8]" "3 \<le> length [0, 0, 9 :: f32]" "3 \<le> length [0, 0, 0 :: u64]" "3 \<le> length [0, 0, 0 :: u64]"
    "3 \<le> length [0, 0, 9 :: f32]" by simp_all
  from ffi_stays_in_buffers [OF this, of toy_eng_ctx "Some ffi_engine" None True toy_run 3 None]
  have "case fs_store_get_vector toy_eng_ctx toy_run (Some ffi_engine) 3 (Some [0, 0, 9]) 3 True of
      Return c (h', b, n) \<Rightarrow> map_option length b = Some (length [0, 0, 9 :: f32]) | Abort \<Rightarrow> True | Undefined \<Rightarrow> False"
    by blast
  moreover have "case fs_store_get_vector toy_eng_ctx toy_run (Some ffi_engine) 3 (Some [0, 0, 9]) 3 True of
      Return c (h', b, n) \<Rightarrow> c = OK \<and> b = Some [5, 6, 9] \<and> n = Some 2 | _ \<Rightarrow> False"
    using v by (cases "engine_get_vector toy_eng_ctx toy_run ffi_engine 3") (simp add: fs_store_get_vector_def copy_into_def)
  ultimately show "case fs_store_get_vector toy_eng_ctx toy_run (Some ffi_engine) 3 (Some [0, 0, 9]) 3 True of
      Return c (h', b, n) \<Rightarrow> c = OK \<and> b = Some [5, 6, 9] \<and> n = Some 2 \<and> map_option length b = Some (length [0, 0, 9 :: f32])
    | _ \<Rightarrow> False"
    by (auto split: call.splits)
  have "0 \<le> length ([] :: u8 list)" "0 \<le> length [0 :: f32]" "0 \<le> length ([] :: u64 list)" "0 \<le> length ([] :: u64 list)"
    "0 \<le> length ([] :: f32 list)" by simp_all
  from ffi_stays_in_buffers [OF this, of toy_eng_ctx None None True toy_run 3 None ffi_engine]
  show "fs_store_get_vector toy_eng_ctx toy_run (Some ffi_engine) 3 (Some [0]) (4 * length [0 :: f32]) True = Undefined"
    using v by (cases "engine_get_vector toy_eng_ctx toy_run ffi_engine 3") simp
qed

end
