(* ===== verification/Py.thy ===== *)
theory Py
  imports Sharded
begin

text \<open>
  \<open>fs-ffi-py/src/lib.rs\<close>: the Python class \<open>Store\<close>.  A method returns a value, raises \<open>RuntimeError\<close> or panics (which
  \<open>PyO3\<close> turns into an exception of its own).  A buffer argument is what \<open>PyBuffer::as_slice\<close> gives, \<open>None\<close> if the array is not
  contiguous; results are copies.  \<open>homes\<close> is what is found under a path and \<open>home\<close> the variable \<open>HOME\<close>.
\<close>

datatype py_error = EngineError store_error | NotContiguous string

datatype 'a py = Returned 'a | Raised py_error | Panicked

fun map_err :: "'a res \<Rightarrow> 'a py" where
  "map_err (Ok x) = Returned x"
| "map_err (Err e) = Raised (EngineError e)"
| "map_err Panic = Panicked"

record 'h py_store =
  ps_engine :: "'h engine"

definition on_engine :: "'h py_store \<Rightarrow> 'a res \<times> 'h engine \<Rightarrow> 'a py \<times> 'h py_store" where
  "on_engine st re = (case re of (r, e) \<Rightarrow> (map_err r, st\<lparr>ps_engine := e\<rparr>))"

section \<open>Opening\<close>

definition expand_tilde :: "string option \<Rightarrow> string \<Rightarrow> string" where
  "expand_tilde home path =
     (case path of
        [] \<Rightarrow> path
      | c # rest \<Rightarrow>
          (if c = CHR ''~''
           then (case home of
                   Some h \<Rightarrow> path_join h (dropWhile (\<lambda>c. c = CHR ''/'') rest)
                 | None \<Rightarrow> path)
           else path))"

definition py_open ::
  "'h eng_ctx \<Rightarrow> eng_run \<Rightarrow> (string \<Rightarrow> 'h home) \<Rightarrow> string option \<Rightarrow> string \<Rightarrow> nat option \<Rightarrow> 'h py_store py" where
  "py_open C R homes home path dim =
     (case engine_open C R (homes (expand_tilde home path)) (map_option (\<lambda>d. schema_new d L2) dim) 0 of
        Ok e \<Rightarrow> Returned \<lparr>ps_engine = e\<rparr>
      | Err x \<Rightarrow> Raised (EngineError x)
      | Panic \<Rightarrow> Panicked)"

section \<open>Methods\<close>

definition py_put_kv ::
  "'h eng_ctx \<Rightarrow> eng_run \<Rightarrow> 'h py_store \<Rightarrow> bytes \<Rightarrow> bytes \<Rightarrow> unit py \<times> 'h py_store" where
  "py_put_kv C R st key value = on_engine st (engine_put_kv C R (ps_engine st) key value None)"

definition py_get_kv :: "'h eng_ctx \<Rightarrow> 'h py_store \<Rightarrow> bytes \<Rightarrow> bytes option py \<times> 'h py_store" where
  "py_get_kv C st key =
     (case engine_get_kv C (ps_engine st) key of
        (r, e) \<Rightarrow>
          on_engine st
            (res_bind r (\<lambda>found. Ok (map_option (buffer_as_bytes (sp_data_dir (ks_pool (en_kv e)))) found)), e))"

definition py_insert_vector ::
  "'h eng_ctx \<Rightarrow> eng_run \<Rightarrow> 'h py_store \<Rightarrow> u64 \<Rightarrow> f32 list option \<Rightarrow> unit py \<times> 'h py_store" where
  "py_insert_vector C R st i vec =
     (case vec of
        None \<Rightarrow> (Raised (NotContiguous ''vec must be C-contiguous float32 numpy array''), st)
      | Some v \<Rightarrow> on_engine st (insert_vector C R (ps_engine st) i v))"

definition py_search_knn ::
  "'h eng_ctx \<Rightarrow> eng_run \<Rightarrow> 'h py_store \<Rightarrow> f32 list option \<Rightarrow> nat \<Rightarrow> (u64 list \<times> f32 list) py \<times> 'h py_store" where
  "py_search_knn C R st query top_k =
     (case query of
        None \<Rightarrow> (Raised (NotContiguous ''query must be C-contiguous float32 numpy array''), st)
      | Some q \<Rightarrow>
          (case engine_search_knn C R (ps_engine st) q top_k of
             (r, e) \<Rightarrow> on_engine st (res_bind r (\<lambda>hits. Ok (map fst hits, map snd hits)), e)))"

definition py_checkpoint :: "'h eng_ctx \<Rightarrow> 'h py_store \<Rightarrow> unit py \<times> 'h py_store" where
  "py_checkpoint C st = on_engine st (engine_checkpoint C (ps_engine st))"

definition py_vector_dim :: "'h py_store \<Rightarrow> nat" where
  "py_vector_dim st = (case ensure_vec (ps_engine st) of Ok idx \<Rightarrow> vs_dim (vi_schema idx) | _ \<Rightarrow> 0)"

definition py_vector_count :: "'h py_store \<Rightarrow> nat" where
  "py_vector_count st = (case ensure_vec (ps_engine st) of Ok idx \<Rightarrow> vec_index_len idx | _ \<Rightarrow> 0)"

definition py_delete_vector :: "'h py_store \<Rightarrow> u64 \<Rightarrow> bool py \<times> 'h py_store" where
  "py_delete_vector st i = on_engine st (delete_vector (ps_engine st) i)"

definition py_get_vector ::
  "'h eng_ctx \<Rightarrow> eng_run \<Rightarrow> 'h py_store \<Rightarrow> u64 \<Rightarrow> f32 list option py \<times> 'h py_store" where
  "py_get_vector C R st i = on_engine st (engine_get_vector C R (ps_engine st) i)"

definition py_list_vector_ids :: "'h py_store \<Rightarrow> u64 list py" where
  "py_list_vector_ids st = map_err (engine_list_vector_ids (ps_engine st))"

section \<open>Vectors through the class\<close>

abbreviation py_live :: "'h eng_ctx \<Rightarrow> 'h py_store \<Rightarrow> u64 \<rightharpoonup> f32 list" where
  "py_live C st \<equiv> ea_live (abs_of C (ps_engine st))"

lemma map_err_Returned [simp]: "map_err r = Returned x \<longleftrightarrow> r = Ok x"
  by (cases r) simp_all

lemma py_get_vector_live:
  assumes inv: "eng_inv C (ps_engine st)" and vec: "en_vec (ps_engine st) = Some idx"
  shows "fst (py_get_vector C R st i) = Returned (py_live C st i)"
proof -
  have "index_inv (ec_vec C) idx" using inv vec by (simp add: eng_inv_def)
  with index_get_vector(1) [of "ec_vec C" idx "er_held R" i] show ?thesis
    by (cases "get_vector (ec_vec C) (er_held R) idx i")
      (simp add: py_get_vector_def on_engine_def engine_get_vector_def vec abs_of_def)
qed

lemma py_delete_live:
  assumes inv: "eng_inv C (ps_engine st)" and del: "py_delete_vector st i = (Returned b, st')"
  shows "eng_inv C (ps_engine st')" "b \<longleftrightarrow> py_live C st i \<noteq> None" "py_live C st' = (py_live C st)(i := None)"
proof -
  obtain w idx idx' where idx: "en_vec (ps_engine st) = Some idx" "index_delete idx i = (b, idx')"
    and st': "st' = st\<lparr>ps_engine := (ps_engine st)\<lparr>en_wal := w, en_vec := Some idx'\<rparr>\<rparr>"
    using del
    by (auto simp: py_delete_vector_def on_engine_def delete_vector_def split: prod.splits res.splits option.splits)
  have "index_inv (ec_vec C) idx" using inv idx(1) by (simp add: eng_inv_def)
  note d = index_delete_keeps [OF this idx(2)]
  from d inv show "eng_inv C (ps_engine st')" "b \<longleftrightarrow> py_live C st i \<noteq> None" "py_live C st' = (py_live C st)(i := None)"
    by (simp_all add: st' eng_inv_def abs_of_def idx(1))
qed

text \<open>
  A vector through the Python class.  An insertion that returns makes the vector readable and listed; a
  deletion returns whether there was a live vector, after which it is neither.
\<close>

theorem py_vector_lifecycle:
  assumes ctx: "eng_ctx_ok C" and inv: "eng_inv C (ps_engine st)" and room: "eng_room (ps_engine st) 1"
    and log: "wal_clean (en_wal (ps_engine st)) es" and fits: "length (encode_op (InsertVector i v)) \<le> U32_MAX"
    and ins: "py_insert_vector C R st i (Some v) = (Returned (), st1)" and del: "py_delete_vector st1 i = (Returned b, st2)"
  shows "fst (py_get_vector C R' st1 i) = Returned (Some v) \<and> b \<and> fst (py_get_vector C R' st2 i) = Returned None \<and>
    (\<exists>ids1 ids2. py_list_vector_ids st1 = Returned ids1 \<and> py_list_vector_ids st2 = Returned ids2 \<and>
       i \<in> set ids1 \<and> set ids2 = set ids1 - {i})"
proof -
  obtain e1 where e1: "insert_vector C R (ps_engine st) i v = (Ok (), e1)" "ps_engine st1 = e1"
    using ins by (auto simp: py_insert_vector_def on_engine_def split: prod.splits)
  note p = insert_vector_correct [OF ctx inv room log fits e1(1), folded e1(2)]
  note d = py_delete_live [OF p(1) del]
  have live1: "py_live C st1 i = Some v" using p(2,3) by simp
  obtain idx1 where v1: "en_vec (ps_engine st1) = Some idx1"
    using live1 by (cases "en_vec (ps_engine st1)") (simp_all add: abs_of_def)
  obtain idx2 where v2: "en_vec (ps_engine st2) = Some idx2"
    using del by (auto simp: py_delete_vector_def on_engine_def delete_vector_def split: prod.splits res.splits option.splits)
  have ids: "engine_list_vector_ids (ps_engine st1) = Ok (list_vector_ids idx1)"
    "engine_list_vector_ids (ps_engine st2) = Ok (list_vector_ids idx2)"
    by (simp_all add: engine_list_vector_ids_def ensure_vec_def v1 v2)
  have "set (list_vector_ids idx1) = dom (py_live C st1)" "set (list_vector_ids idx2) = dom (py_live C st1) - {i}"
    using engine_ids(2) [OF p(1) ids(1)] engine_ids(2) [OF d(1) ids(2)] d(3) by auto
  then have "i \<in> set (list_vector_ids idx1) \<and> set (list_vector_ids idx2) = set (list_vector_ids idx1) - {i}"
    using live1 by auto
  with ids py_get_vector_live [OF p(1) v1, of R' i] py_get_vector_live [OF d(1) v2, of R' i] d(2,3) live1
  show ?thesis by (simp add: py_list_vector_ids_def)
qed

theorem py_vector_lifecycle_witness:
  "let st = \<lparr>ps_engine = toy_engine\<rparr>; st1 = snd (py_insert_vector toy_eng_ctx toy_run st 3 (Some [5]))
   in fst (py_get_vector toy_eng_ctx toy_run st1 3) = Returned (Some [5]) \<and>
      fst (py_get_vector toy_eng_ctx toy_run (snd (py_delete_vector st1 3)) 3) = Returned None"
proof -
  let ?st = "\<lparr>ps_engine = toy_engine\<rparr>"
  let ?st1 = "snd (py_insert_vector toy_eng_ctx toy_run ?st 3 (Some [5]))"
  have inv: "eng_inv toy_eng_ctx (ps_engine ?st)" using toy_engine_inv by simp
  have room: "eng_room (ps_engine ?st) 1" by code_simp
  have cl: "wal_clean (en_wal (ps_engine ?st)) []" using wal_clean_empty by (simp add: toy_engine_def)
  have len: "length (encode_op (InsertVector 3 [5])) \<le> U32_MAX" by code_simp
  have "fst (py_insert_vector toy_eng_ctx toy_run ?st 3 (Some [5])) = Returned ()" by code_simp
  then have ins: "py_insert_vector toy_eng_ctx toy_run ?st 3 (Some [5]) = (Returned (), ?st1)" by (simp add: prod_eq_iff)
  have "fst (py_delete_vector ?st1 3) = Returned True" by code_simp
  then have del: "py_delete_vector ?st1 3 = (Returned True, snd (py_delete_vector ?st1 3))" by (simp add: prod_eq_iff)
  from py_vector_lifecycle [OF toy_eng_ctx_ok inv room cl len ins del] show ?thesis unfolding Let_def by simp
qed

end
