(* ===== verification/Metrics.thy ===== *)
theory Metrics
  imports Store_Error
begin

text \<open>
  \<open>fs-serve/src/metrics.rs\<close>: the counters and gauges of the daemon.  The crate \<open>prometheus\<close> is an argument: a registry of
  named metrics with labels, whose registration may fail, with what its documentation says of \<open>inc\<close> and \<open>set\<close> as laws.
  \<open>METRICS\<close> is the \<open>OnceLock\<close>: \<open>None\<close> before \<open>init\<close>.  An \<open>as i64\<close> reads the 64 bits as a signed number.
\<close>

record 'p prometheus =
  pm_new :: 'p
  pm_register :: "'p \<Rightarrow> string \<Rightarrow> 'p option"
  pm_inc :: "'p \<Rightarrow> string \<Rightarrow> string list \<Rightarrow> 'p"
  pm_observe :: "'p \<Rightarrow> string \<Rightarrow> string list \<Rightarrow> u64 \<Rightarrow> 'p"
  pm_set :: "'p \<Rightarrow> string \<Rightarrow> int \<Rightarrow> 'p"
  pm_encode :: "'p \<Rightarrow> bytes \<times> bool"
  pm_count :: "'p \<Rightarrow> string \<Rightarrow> string list \<Rightarrow> nat"
  pm_gauge :: "'p \<Rightarrow> string \<Rightarrow> int"

record 'p metrics =
  mt_registry :: 'p
  mt_ops_total :: bool
  mt_ops_latency_us :: bool
  mt_seg_used_bytes :: bool
  mt_seg_capacity_bytes :: bool
  mt_backpressure_queue_depth :: bool

definition OPS_TOTAL :: string where "OPS_TOTAL = ''fusion_store_ops_total''"
definition OPS_LATENCY :: string where "OPS_LATENCY = ''fusion_store_ops_latency_us''"
definition SEG_USED :: string where "SEG_USED = ''fusion_store_seg_used_bytes''"
definition SEG_CAPACITY :: string where "SEG_CAPACITY = ''fusion_store_seg_capacity_bytes''"
definition QUEUE_DEPTH :: string where "QUEUE_DEPTH = ''fusion_store_backpressure_queue_depth''"

lemmas metric_names = OPS_TOTAL_def OPS_LATENCY_def SEG_USED_def SEG_CAPACITY_def QUEUE_DEPTH_def

section \<open>Operations\<close>

text \<open>A metric that cannot be registered is left out.\<close>

definition register_or_degrade :: "'p prometheus \<Rightarrow> string \<Rightarrow> 'p \<Rightarrow> bool \<times> 'p" where
  "register_or_degrade P name r = (case pm_register P r name of Some r' \<Rightarrow> (True, r') | None \<Rightarrow> (False, r))"

definition metrics_init :: "'p prometheus \<Rightarrow> 'p metrics option \<Rightarrow> 'p metrics option" where
  "metrics_init P m =
     (case m of
        Some x \<Rightarrow> Some x
      | None \<Rightarrow>
          (let (ops, r1) = register_or_degrade P OPS_TOTAL (pm_new P);
               (lat, r2) = register_or_degrade P OPS_LATENCY r1;
               (used, r3) = register_or_degrade P SEG_USED r2;
               (cap, r4) = register_or_degrade P SEG_CAPACITY r3;
               (depth, r5) = register_or_degrade P QUEUE_DEPTH r4
           in Some \<lparr>mt_registry = r5, mt_ops_total = ops, mt_ops_latency_us = lat, mt_seg_used_bytes = used,
                    mt_seg_capacity_bytes = cap, mt_backpressure_queue_depth = depth\<rparr>))"

definition if_registered :: "('p metrics \<Rightarrow> bool) \<Rightarrow> ('p \<Rightarrow> 'p) \<Rightarrow> 'p metrics \<Rightarrow> 'p metrics" where
  "if_registered has f m = (if has m then m\<lparr>mt_registry := f (mt_registry m)\<rparr> else m)"

definition metrics_inc :: "'p prometheus \<Rightarrow> 'p metrics option \<Rightarrow> string \<Rightarrow> string \<Rightarrow> 'p metrics option" where
  "metrics_inc P m op result =
     map_option (if_registered mt_ops_total (\<lambda>r. pm_inc P r OPS_TOTAL [op, result])) m"

definition metrics_observe ::
  "'p prometheus \<Rightarrow> 'p metrics option \<Rightarrow> string \<Rightarrow> string \<Rightarrow> u64 \<Rightarrow> 'p metrics option" where
  "metrics_observe P m op result elapsed_us =
     map_option (\<lambda>x. if_registered mt_ops_latency_us (\<lambda>r. pm_observe P r OPS_LATENCY [op] elapsed_us)
       (if_registered mt_ops_total (\<lambda>r. pm_inc P r OPS_TOTAL [op, result]) x)) m"

definition set_seg_util :: "'p prometheus \<Rightarrow> 'p metrics option \<Rightarrow> u64 \<Rightarrow> u64 \<Rightarrow> 'p metrics option" where
  "set_seg_util P m used capacity =
     map_option (\<lambda>x. if_registered mt_seg_capacity_bytes (\<lambda>r. pm_set P r SEG_CAPACITY (sint capacity))
       (if_registered mt_seg_used_bytes (\<lambda>r. pm_set P r SEG_USED (sint used)) x)) m"

definition set_queue_depth :: "'p prometheus \<Rightarrow> 'p metrics option \<Rightarrow> u64 \<Rightarrow> 'p metrics option" where
  "set_queue_depth P m depth =
     map_option (if_registered mt_backpressure_queue_depth (\<lambda>r. pm_set P r QUEUE_DEPTH (sint depth))) m"

text \<open>An encoder that fails has written a part of the text.\<close>

definition gather :: "'p prometheus \<Rightarrow> 'p metrics option \<Rightarrow> bytes" where
  "gather P m = (case m of Some x \<Rightarrow> fst (pm_encode P (mt_registry x)) | None \<Rightarrow> [])"

section \<open>The laws\<close>

definition prom_laws :: "'p prometheus \<Rightarrow> bool" where
  "prom_laws P \<longleftrightarrow>
     (\<forall>n ls. pm_count P (pm_new P) n ls = 0) \<and>
     (\<forall>r n r' n' ls. pm_register P r n = Some r' \<longrightarrow> pm_count P r' n' ls = pm_count P r n' ls) \<and>
     (\<forall>r n ls n' ls'. pm_count P (pm_inc P r n ls) n' ls' =
        (if n' = n \<and> ls' = ls then Suc (pm_count P r n' ls') else pm_count P r n' ls')) \<and>
     (\<forall>r n ls v n' ls'. n' \<noteq> n \<longrightarrow> pm_count P (pm_observe P r n ls v) n' ls' = pm_count P r n' ls') \<and>
     (\<forall>r n v n' ls'. n' \<noteq> n \<longrightarrow> pm_count P (pm_set P r n v) n' ls' = pm_count P r n' ls') \<and>
     (\<forall>r n v n'. pm_gauge P (pm_set P r n v) n' = (if n' = n then v else pm_gauge P r n')) \<and>
     (\<forall>r n ls n'. n' \<noteq> n \<longrightarrow> pm_gauge P (pm_inc P r n ls) n' = pm_gauge P r n')"

definition ops_count :: "'p prometheus \<Rightarrow> 'p metrics option \<Rightarrow> string \<Rightarrow> string \<Rightarrow> nat" where
  "ops_count P m op result =
     (case m of Some x \<Rightarrow> pm_count P (mt_registry x) OPS_TOTAL [op, result] | None \<Rightarrow> 0)"

definition counting :: "'p metrics option \<Rightarrow> bool" where
  "counting m \<longleftrightarrow> (case m of Some x \<Rightarrow> mt_ops_total x | None \<Rightarrow> False)"

lemma metric_names_distinct [simp]:
  "OPS_TOTAL \<noteq> OPS_LATENCY" "OPS_TOTAL \<noteq> SEG_USED" "OPS_TOTAL \<noteq> SEG_CAPACITY" "OPS_TOTAL \<noteq> QUEUE_DEPTH"
  by (simp_all add: metric_names)

lemma ops_count_inc [simp]:
  "prom_laws P \<Longrightarrow> ops_count P (metrics_inc P m op result) op' result' =
     ops_count P m op' result' + (if counting m \<and> op' = op \<and> result' = result then 1 else 0)"
  by (cases m) (auto simp: ops_count_def metrics_inc_def if_registered_def counting_def prom_laws_def)

lemma ops_count_observe [simp]:
  "prom_laws P \<Longrightarrow> ops_count P (metrics_observe P m op result us) op' result' =
     ops_count P m op' result' + (if counting m \<and> op' = op \<and> result' = result then 1 else 0)"
  by (cases m) (auto simp: ops_count_def metrics_observe_def if_registered_def counting_def prom_laws_def)

lemma ops_count_gauges [simp]:
  assumes "prom_laws P"
  shows "ops_count P (set_seg_util P m used cap) op result = ops_count P m op result"
    "ops_count P (set_queue_depth P m d) op result = ops_count P m op result"
  using assms
  by (cases m; simp add: ops_count_def set_seg_util_def set_queue_depth_def if_registered_def prom_laws_def)+

lemma counting_keeps [simp]:
  "counting (metrics_inc P m op result) = counting m" "counting (metrics_observe P m op result us) = counting m"
  "counting (set_seg_util P m used cap) = counting m" "counting (set_queue_depth P m d) = counting m"
  by (cases m;
      simp add: counting_def metrics_inc_def metrics_observe_def set_seg_util_def set_queue_depth_def if_registered_def)+

lemma register_count:
  "prom_laws P \<Longrightarrow> pm_count P (snd (register_or_degrade P n r)) n' ls = pm_count P r n' ls"
  by (auto simp: register_or_degrade_def prom_laws_def split: option.splits)

lemma metrics_init_zero: "prom_laws P \<Longrightarrow> ops_count P (metrics_init P None) op result = 0"
  by (simp add: ops_count_def metrics_init_def Let_def split_beta register_count) (simp add: prom_laws_def)

lemma metrics_init_again [simp]: "metrics_init P (metrics_init P m) = metrics_init P m"
  by (cases m) (simp_all add: metrics_init_def Let_def split_beta)

text \<open>A registry that has been refused a name keeps working without it: nothing is counted, nothing fails.\<close>

lemma degraded_silent:
  "\<not> counting m \<Longrightarrow> metrics_inc P m op result = m"
  by (cases m) (simp_all add: counting_def metrics_inc_def if_registered_def)

end
