(* ===== verification/Serve_Metrics.thy ===== *)
theory Serve_Metrics
  imports Serve_Queue Metrics
begin

text \<open>
  The daemon with its metrics: the calls of \<open>metrics.rs\<close> that the handlers and workers of \<open>fs-serve/src/lib.rs\<close> make, added to the
  steps of \<open>Serve\<close>.  A counter that is incremented next to an access to shared state is incremented in that step; the
  theorems are about counters, for which the order of two increments does not matter.  \<open>us\<close> is the time a call took.
\<close>

section \<open>The calls\<close>

fun req_label :: "write_req \<Rightarrow> string" where
  "req_label (ReqPutKv key val d) = ''put_kv''"
| "req_label (ReqInsertVector i vector d) = ''insert_vector''"
| "req_label (ReqPutColumnar table_id ipc d) = ''put_columnar''"

definition label_of :: "client \<Rightarrow> string option" where
  "label_of c = (case cl_endpoint c of WriteEp body \<Rightarrow> Some (write_label body) | _ \<Rightarrow> None)"

definition refresh_seg_metrics ::
  "'p prometheus \<Rightarrow> 'h eng_ctx \<Rightarrow> 'h engine \<Rightarrow> 'p metrics option \<Rightarrow> 'p metrics option" where
  "refresh_seg_metrics P C e m =
     (case used_bytes (ec_heed C) (en_kv e) of
        Ok used \<Rightarrow> set_seg_util P m used (ks_quota_limit (en_kv e))
      | _ \<Rightarrow> m)"

definition enqueue_metrics ::
  "'p prometheus \<Rightarrow> u64 \<Rightarrow> string \<Rightarrow> client_pc \<Rightarrow> 'p metrics option \<Rightarrow> 'p metrics option" where
  "enqueue_metrics P qd label pc m =
     (case pc of
        Responded r \<Rightarrow> metrics_inc P m label ''backpressure_503''
      | Waiting l \<Rightarrow> set_queue_depth P m (qd + 1)
      | _ \<Rightarrow> m)"

definition refuse_metrics :: "'p prometheus \<Rightarrow> client \<Rightarrow> 'p metrics option \<Rightarrow> 'p metrics option" where
  "refuse_metrics P c m =
     (case label_of c of Some label \<Rightarrow> metrics_inc P m label ''backpressure_503'' | None \<Rightarrow> m)"

definition compact_metrics :: "'p prometheus \<Rightarrow> u64 \<Rightarrow> response \<Rightarrow> 'p metrics option \<Rightarrow> 'p metrics option" where
  "compact_metrics P us r m =
     (case r of
        CompactResp live segs \<Rightarrow> metrics_observe P m ''compact'' ''ok'' us
      | _ \<Rightarrow> metrics_observe P m ''compact'' ''error'' us)"

text \<open>A search that fails is not counted.\<close>

definition knn_metrics :: "'p prometheus \<Rightarrow> u64 \<Rightarrow> response \<Rightarrow> 'p metrics option \<Rightarrow> 'p metrics option" where
  "knn_metrics P us r m = (case r of KnnResp hits \<Rightarrow> metrics_observe P m ''knn'' ''ok'' us | _ \<Rightarrow> m)"

definition start_metrics :: "'p prometheus \<Rightarrow> client \<Rightarrow> client_pc \<Rightarrow> 'p metrics option \<Rightarrow> 'p metrics option" where
  "start_metrics P c pc m =
     (case (cl_endpoint c, pc) of
        (KnnEp query top_k, Responded r) \<Rightarrow> metrics_inc P m ''knn'' ''concurrency_503''
      | _ \<Rightarrow> m)"

text \<open>What handler \<open>i\<close> counts in the step from \<open>s\<close> to \<open>s'\<close>.\<close>

definition client_metrics ::
  "'p prometheus \<Rightarrow> u64 \<Rightarrow> ('h, 'q, 's) server \<Rightarrow> nat \<Rightarrow> ('h, 'q, 's) server \<Rightarrow> 'p metrics option \<Rightarrow> 'p metrics option" where
  "client_metrics P us s i s' m =
     (let c = sv_clients s ! i; pc' = cl_pc (sv_clients s' ! i) in
      (case cl_pc c of
         Start \<Rightarrow> start_metrics P c pc' m
       | Counted qd wreq label \<Rightarrow> enqueue_metrics P qd label pc' m
       | Refused \<Rightarrow> refuse_metrics P c m
       | CompactRan r \<Rightarrow> compact_metrics P us r m
       | Searched r \<Rightarrow> knn_metrics P us r m
       | _ \<Rightarrow> m))"

definition answer_metrics ::
  "'p prometheus \<Rightarrow> 'h eng_ctx \<Rightarrow> u64 \<Rightarrow> 'h engine \<Rightarrow> write_req \<Rightarrow> bool \<Rightarrow> 'p metrics option \<Rightarrow> 'p metrics option" where
  "answer_metrics P C us e r ok m =
     (if ok
      then (let m1 = metrics_observe P m (req_label r) ''ok'' us in
            if req_label r = ''put_kv'' then refresh_seg_metrics P C e m1 else m1)
      else metrics_observe P m (req_label r) ''error'' us)"

text \<open>
  A worker counts a request after it has subtracted it from the depth and before it answers: the counters change in the step to
  \<open>Uncounted\<close>, and \<open>done.send\<close> is the step after it.
\<close>

definition worker_metrics ::
  "'p prometheus \<Rightarrow> 'h eng_ctx \<Rightarrow> u64 \<Rightarrow> ('h, 'q, 's) server \<Rightarrow> nat \<Rightarrow> 'p metrics option \<Rightarrow> 'p metrics option" where
  "worker_metrics P C us s w m =
     (case sv_workers s ! w of
        Ran r ok \<Rightarrow>
          answer_metrics P C us (sv_engine s) r ok
            (set_queue_depth P m (if sv_queue_depth s = 0 then 0 else sv_queue_depth s - 1))
      | _ \<Rightarrow> m)"

definition metrics_endpoint :: "'p prometheus \<Rightarrow> 'p metrics option \<Rightarrow> status_code \<times> string \<times> bytes" where
  "metrics_endpoint P m = (OK_200, ''text/plain; version=0.0.4'', gather P m)"

section \<open>Metered runs\<close>

inductive metered_step ::
  "config \<Rightarrow> ('q, 's) tokio \<Rightarrow> 'h eng_ctx \<Rightarrow> 'p prometheus
     \<Rightarrow> ('h, 'q, 's) server \<Rightarrow> 'p metrics option \<Rightarrow> ('h, 'q, 's) server \<Rightarrow> 'p metrics option \<Rightarrow> bool"
  for cfg T C P where
  metered_client: "i < length (sv_clients s) \<Longrightarrow> client_step cfg T C ch s i = Some s' \<Longrightarrow>
    metered_step cfg T C P s m s' (client_metrics P us s i s' m)"
| metered_worker: "w < length (sv_workers s) \<Longrightarrow> worker_step T C ch s w = Some s' \<Longrightarrow>
    metered_step cfg T C P s m s' (worker_metrics P C us s w m)"
| metered_health: "metered_step cfg T C P s m s (metrics_inc P m ''health'' (hr_status (snd (health s))))"
| metered_stats: "stats cfg C graph_mem s header = Inr resp \<Longrightarrow> metered_step cfg T C P s m s (metrics_inc P m ''stats'' ''ok'')"

inductive metered_run ::
  "config \<Rightarrow> ('q, 's) tokio \<Rightarrow> 'h eng_ctx \<Rightarrow> 'p prometheus
     \<Rightarrow> ('h, 'q, 's) server \<Rightarrow> 'p metrics option \<Rightarrow> ('h, 'q, 's) server \<Rightarrow> 'p metrics option \<Rightarrow> bool"
  for cfg T C P s0 m0 where
  metered_none: "metered_run cfg T C P s0 m0 s0 m0"
| metered_more: "metered_run cfg T C P s0 m0 s m \<Longrightarrow> metered_step cfg T C P s m s' m' \<Longrightarrow> metered_run cfg T C P s0 m0 s' m'"

text \<open>The metrics do not change what the daemon does: the runs of the daemon are the metered runs without their counters.\<close>

lemma metered_run_serves: "metered_run cfg T C P s0 m0 s m \<Longrightarrow> \<exists>k. serve_run cfg T C s0 k s"
proof (induction rule: metered_run.induct)
  case (metered_more s m s' m')
  then obtain k where k: "serve_run cfg T C s0 k s" by blast
  from metered_more.hyps(2) show ?case
    by cases (use k in \<open>blast intro: run_step [OF k] by_client by_worker\<close>)+
qed (blast intro: run_none)

lemma serve_run_metered: "serve_run cfg T C s0 k s \<Longrightarrow> \<exists>m. metered_run cfg T C P s0 m0 s m"
proof (induction rule: serve_run.induct)
  case (run_step n s s')
  then obtain m where m: "metered_run cfg T C P s0 m0 s m" by blast
  from run_step.hyps(2) show ?case
    by cases (blast intro: metered_more [OF m] metered_client metered_worker)+
qed (blast intro: metered_none)

section \<open>What was answered and what was turned away\<close>

definition answered :: "string \<Rightarrow> bool \<Rightarrow> ('h, 'q, 's) server \<Rightarrow> nat" where
  "answered label ok s =
     length (filter (\<lambda>i. sv_done s i = Answered ok \<and> label_of (sv_clients s ! i) = Some label) [0..<length (sv_clients s)])"

text \<open>The requests a worker has counted and not answered yet.\<close>

fun unsent_pc :: "string \<Rightarrow> bool \<Rightarrow> worker_pc \<Rightarrow> nat" where
  "unsent_pc label ok (Uncounted r ok') = (if ok' = ok \<and> req_label r = label then 1 else 0)"
| "unsent_pc label ok _ = 0"

definition unsent :: "string \<Rightarrow> bool \<Rightarrow> ('h, 'q, 's) server \<Rightarrow> nat" where
  "unsent label ok s = wtally (unsent_pc label ok) s"

definition turned_away :: "string \<Rightarrow> ('h, 'q, 's) server \<Rightarrow> nat" where
  "turned_away label s =
     length (filter (\<lambda>c. cl_pc c = Responded queue_full \<and> label_of c = Some label) (sv_clients s))"

lemma count_upt_cong: "(\<And>i. i < n \<Longrightarrow> p' i = p i) \<Longrightarrow> length (filter p' [0..<n]) = length (filter p [0..<n])"
  by (rule arg_cong [of _ _ length]) (auto intro: filter_cong)

lemma count_upt_add:
  assumes "d < n" "\<not> p d" "p' d" "\<And>i. i < n \<Longrightarrow> i \<noteq> d \<Longrightarrow> p' i = p i"
  shows "length (filter p' [0..<n]) = Suc (length (filter p [0..<n]))"
proof -
  have "{i. i < n \<and> p' i} = insert d {i. i < n \<and> p i}" using assms by auto
  moreover have "length (filter f [0..<n]) = card {i. i < n \<and> f i}" for f by (simp add: length_filter_conv_card cong: conj_cong)
  ultimately show ?thesis using assms(2) by simp
qed

lemma label_of_set_pc [simp]:
  "j < length (sv_clients s) \<Longrightarrow> label_of (sv_clients (set_pc s i pc) ! j) = label_of (sv_clients s ! j)"
  by (cases "j = i") (simp_all add: set_pc_def label_of_def)

lemma answered_cong:
  assumes "sv_clients s' = sv_clients s" "\<And>i. (sv_done s' i = Answered ok) = (sv_done s i = Answered ok)"
  shows "answered label ok s' = answered label ok s"
  using assms by (simp add: answered_def)

lemma answered_set_pc [simp]: "answered label ok (set_pc s i pc) = answered label ok s"
  unfolding answered_def by simp (rule count_upt_cong, simp)

lemma length_filter_sum: "length (filter p xs) = sum_list (map (\<lambda>x. if p x then 1 else 0) xs)"
  by (induction xs) simp_all

abbreviation is_away :: "string \<Rightarrow> client \<Rightarrow> client_pc \<Rightarrow> nat" where
  "is_away label c pc \<equiv> (if pc = Responded queue_full \<and> label_of c = Some label then 1 else 0)"

lemma turned_away_set_pc:
  assumes "i < length (sv_clients s)"
  shows "turned_away label (set_pc s i pc) + is_away label (sv_clients s ! i) (cl_pc (sv_clients s ! i)) =
    turned_away label s + is_away label (sv_clients s ! i) pc"
  using sum_list_map_update [OF assms, of "\<lambda>c. is_away label c (cl_pc c)" "(sv_clients s ! i)\<lparr>cl_pc := pc\<rparr>"]
  by (simp add: turned_away_def set_pc_def length_filter_sum label_of_def)

lemma drop_done_Answered [simp]: "drop_done rs d i = Answered ok \<longleftrightarrow> d i = Answered ok"
  by (simp add: drop_done_def)

lemma leave_Answered [simp]: "sv_done (leave T s w) i = Answered ok \<longleftrightarrow> sv_done s i = Answered ok"
  by (simp add: leave_def Let_def set_worker_def split: prod.splits)

section \<open>Each request has one ticket\<close>

text \<open>
  A ticket is with the handler that has not sent it, in the channel, with a worker, or used up: there is never more than one
  for a handler, and it carries the label of the handler's endpoint.
\<close>

fun fresh :: "client_pc \<Rightarrow> nat" where
  "fresh Start = 1"
| "fresh (Counted qd wreq label) = 1"
| "fresh _ = 0"

fun off_queue :: "client_pc \<Rightarrow> bool" where
  "off_queue Compacting = True"
| "off_queue (CompactRan r) = True"
| "off_queue (Searching query top_k) = True"
| "off_queue (Searched r) = True"
| "off_queue _ = False"

abbreviation held :: "nat \<Rightarrow> worker_pc \<Rightarrow> nat" where
  "held d pc \<equiv> count_list (map req_done (holds pc)) d"

definition tickets :: "('q, 's) tokio \<Rightarrow> ('h, 'q, 's) server \<Rightarrow> nat \<Rightarrow> nat" where
  "tickets T s d =
     count_list (map req_done (tk_items T (sv_write_ch s))) d + wtally (held d) s + fresh (cl_pc (sv_clients s ! d)) +
     (if sv_done s d = Pending then 0 else 1)"

definition labelled :: "('h, 'q, 's) server \<Rightarrow> write_req \<Rightarrow> bool" where
  "labelled s r \<longleftrightarrow> req_done r < length (sv_clients s) \<and> label_of (sv_clients s ! req_done r) = Some (req_label r)"

fun pc_labelled :: "('h, 'q, 's) server \<Rightarrow> nat \<Rightarrow> client_pc \<Rightarrow> bool" where
  "pc_labelled s i (Counted qd wreq label) = (labelled s wreq \<and> req_done wreq = i \<and> label = req_label wreq)"
| "pc_labelled s i pc = (off_queue pc \<longrightarrow> label_of (sv_clients s ! i) = None)"

definition meter_inv :: "('q, 's) tokio \<Rightarrow> ('h, 'q, 's) server \<Rightarrow> bool" where
  "meter_inv T s \<longleftrightarrow>
     (\<forall>d<length (sv_clients s). tickets T s d \<le> 1 \<and> pc_labelled s d (cl_pc (sv_clients s ! d))) \<and>
     list_all (labelled s) (tk_items T (sv_write_ch s)) \<and> list_all (\<lambda>pc. list_all (labelled s) (holds pc)) (sv_workers s)"

lemma require_role_not_full: "require_role a h mn = Inl (AppError st msg) \<Longrightarrow> st \<noteq> SERVICE_UNAVAILABLE"
  by (auto simp: require_role_def split: prod.splits if_splits option.splits)

text \<open>What the first step of a handler leaves.\<close>

lemma start_labelled:
  assumes "client_step cfg T C ch s i = Some s'" "cl_pc (sv_clients s ! i) = Start" "i < length (sv_clients s)"
  shows "pc_labelled s i (cl_pc (sv_clients s' ! i))"
    and "label_of (sv_clients s ! i) \<noteq> None \<Longrightarrow> cl_pc (sv_clients s' ! i) \<noteq> Responded queue_full"
proof -
  let ?c = "sv_clients s ! i"
  have s': "s' = start_step cfg T s i ?c" using assms(1,2) by (simp add: client_step_def)
  note pc = set_pc_nth assms(3)
  have "pc_labelled s i (cl_pc (sv_clients s' ! i)) \<and>
    (label_of ?c \<noteq> None \<longrightarrow> cl_pc (sv_clients s' ! i) \<noteq> Responded queue_full)"
  proof (cases "cl_endpoint ?c")
    case (WriteEp body)
    show ?thesis
    proof (cases "and_then (require_role (cf_auth cfg) (cl_header ?c) Readwrite) (\<lambda>role. write_req_of cfg i body)")
      case (Inl e)
      then have "e \<noteq> AppError SERVICE_UNAVAILABLE ''backpressure: queue full''"
        using require_role_not_full [of "cf_auth cfg" "cl_header ?c" Readwrite]
        by (cases "require_role (cf_auth cfg) (cl_header ?c) Readwrite"; cases body) (auto split: option.splits)
      with Inl WriteEp show ?thesis by (simp add: s' start_step_def write_start_def pc queue_full_def)
    next
      case (Inr wreq)
      then have "req_done wreq = i \<and> req_label wreq = write_label body"
        by (cases "require_role (cf_auth cfg) (cl_header ?c) Readwrite"; cases body) (auto split: option.splits)
      with Inr WriteEp assms(3) show ?thesis
        by (simp add: s' start_step_def write_start_def pc labelled_def label_of_def)
    qed
  next
    case CompactEp
    then show ?thesis by (simp add: s' start_step_def compact_start_def pc label_of_def split: sum.splits)
  next
    case (KnnEp query top_k)
    then show ?thesis by (simp add: s' start_step_def knn_start_def pc label_of_def split: option.splits)
  qed
  then show "pc_labelled s i (cl_pc (sv_clients s' ! i))"
    and "label_of ?c \<noteq> None \<Longrightarrow> cl_pc (sv_clients s' ! i) \<noteq> Responded queue_full" by blast+
qed

lemma labelled_cong:
  assumes "length (sv_clients s') = length (sv_clients s)"
    "\<And>j. j < length (sv_clients s) \<Longrightarrow> label_of (sv_clients s' ! j) = label_of (sv_clients s ! j)"
  shows "labelled s' = labelled s" "i < length (sv_clients s) \<Longrightarrow> pc_labelled s' i pc = pc_labelled s i pc"
proof -
  show l: "labelled s' = labelled s" using assms by (auto simp: labelled_def fun_eq_iff)
  show "i < length (sv_clients s) \<Longrightarrow> pc_labelled s' i pc = pc_labelled s i pc" using assms by (cases pc) (simp_all add: l)
qed

abbreviation queued :: "('q, 's) tokio \<Rightarrow> ('h, 'q, 's) server \<Rightarrow> nat \<Rightarrow> nat" where
  "queued T s d \<equiv> count_list (map req_done (tk_items T (sv_write_ch s))) d"

abbreviation spent :: "('h, 'q, 's) server \<Rightarrow> nat \<Rightarrow> nat" where
  "spent s d \<equiv> (if sv_done s d = Pending then 0 else 1)"

lemma meter_inv_set_pc:
  assumes inv: "meter_inv T s" and i: "i < length (sv_clients s)"
    and s1: "sv_clients s1 = sv_clients s" "sv_workers s1 = sv_workers s" "list_all (labelled s) (tk_items T (sv_write_ch s1))"
    and pc: "pc_labelled s i pc"
    and le: "\<And>d. queued T s1 d + spent s1 d + (if d = i then fresh pc else 0) \<le>
      queued T s d + spent s d + (if d = i then fresh (cl_pc (sv_clients s ! i)) else 0)"
  shows "meter_inv T (set_pc s1 i pc)"
proof -
  let ?s' = "set_pc s1 i pc"
  have lc: "labelled ?s' = labelled s" "d < length (sv_clients s) \<Longrightarrow> pc_labelled ?s' d p = pc_labelled s d p" for d p
    by (rule labelled_cong; simp add: s1(1))+
  have "tickets T ?s' d \<le> tickets T s d" if "d < length (sv_clients s)" for d
    using le [of d] that by (auto simp: tickets_def set_pc_nth s1(1,2) wtally_def split: if_splits)
  with inv i s1 pc show ?thesis
    by (fastforce simp: meter_inv_def lc set_pc_nth)
qed

lemma meter_inv_client:
  assumes laws: "channel_laws T cap" and inv: "meter_inv T s" and i: "i < length (sv_clients s)"
    and step: "client_step cfg T C ch s i = Some s'"
  shows "meter_inv T s'"
proof -
  note keep = meter_inv_set_pc [OF inv i]
  have items: "list_all (labelled s) (tk_items T (sv_write_ch s))" and pci: "pc_labelled s i (cl_pc (sv_clients s ! i))"
    using inv i by (simp_all add: meter_inv_def)
  have start: "pc_labelled s i pc" if "cl_pc (sv_clients s ! i) = Start" "s' = set_pc s1 i pc" "sv_clients s1 = sv_clients s" for pc s1
    using start_labelled(1) [OF step that(1) i] i by (simp add: that(2,3) set_pc_nth)
  show ?thesis
    using step
  proof (cases rule: client_step_cases)
    case (sent qd wreq label q)
    have "labelled s wreq" "req_done wreq = i" using pci by (simp_all add: sent(1))
    with send_ok [OF laws sent(3)] items sent(1) show ?thesis unfolding sent(4) by (intro keep) auto
  next
    case (closed qd wreq label q)
    have "req_done wreq = i" using pci by (simp add: closed(1))
    with send_closed [OF laws closed(3)] items closed(1) show ?thesis
      unfolding closed(4) by (intro keep) (auto simp: drop_done_def)
  next
    case (full qd wreq label q)
    with send_full [OF laws full(3)] items show ?thesis unfolding full(4) by (intro keep) auto
  next
    case (count wreq label)
    from start [OF count(1,3)] items count(1) show ?thesis unfolding count(3) by (intro keep) auto
  next
    case (over qd wreq label)
    with items show ?thesis unfolding over(3) by (intro keep) auto
  next
    case compact
    from start [OF compact(1,3)] items show ?thesis unfolding compact(3) by (intro keep) auto
  next
    case (search sem query top_k)
    from start [OF search(1,3)] items show ?thesis unfolding search(3) by (intro keep) auto
  qed (use items pci in \<open>auto intro!: keep\<close>)
qed


lemma meter_inv_worker_pc:
  assumes inv: "meter_inv T s" and w: "w < length (sv_workers s)"
    and s1: "sv_clients s1 = sv_clients s" "list_all (labelled s) (tk_items T (sv_write_ch s1))"
    and ws: "sv_workers s1 = (sv_workers s)[w := pc]" "list_all (labelled s) (holds pc)"
    and le: "\<And>d. queued T s1 d + spent s1 d + held d pc \<le> queued T s d + spent s d + held d (sv_workers s ! w)"
  shows "meter_inv T s1"
proof -
  have lc: "labelled s1 = labelled s" "d < length (sv_clients s) \<Longrightarrow> pc_labelled s1 d p = pc_labelled s d p" for d p
    by (rule labelled_cong; simp add: s1(1))+
  have "tickets T s1 d \<le> tickets T s d" for d
    using le [of d] sum_list_map_update [OF w, of "held d" pc] unfolding tickets_def wtally_def ws(1) s1(1) by linarith
  moreover have "list_all (\<lambda>pc. list_all (labelled s) (holds pc)) (sv_workers s1)"
    using inv ws(2) set_update_subset_insert [of "sv_workers s" w pc] unfolding ws(1) meter_inv_def list_all_iff by blast
  ultimately show ?thesis
    using inv s1(2) unfolding meter_inv_def lc(1) s1(1) using lc(2) by (blast intro: order_trans)
qed

lemma spent_drop: "spent (s\<lparr>sv_done := drop_done rs (sv_done s)\<rparr>) d \<le> count_list (map req_done rs) d + spent s d"
proof (cases "d \<in> set (map req_done rs)")
  case True
  then have "0 < count_list (map req_done rs) d" by (simp add: count_list_0_iff neq0_conv [symmetric] del: neq0_conv)
  then show ?thesis by simp
qed (simp add: drop_done_def)

lemma leave_tickets:
  assumes "channel_laws T cap"
  shows "queued T (leave T s w) d + spent (leave T s w) d \<le> queued T s d + spent s d"
    and "list_all p (tk_items T (sv_write_ch s)) \<Longrightarrow> list_all p (tk_items T (sv_write_ch (leave T s w)))"
  using spent_drop [where s = s and rs = "tk_items T (sv_write_ch s)" and d = d] receiver_dropped [OF assms, of "sv_write_ch s"]
  by (auto simp: leave_def Let_def set_worker_def split: prod.splits)

lemma meter_inv_worker:
  assumes laws: "channel_laws T cap" and inv: "meter_inv T s" and w: "w < length (sv_workers s)"
    and step: "worker_step T C ch s w = Some s'"
  shows "meter_inv T s'"
proof -
  note keep = meter_inv_worker_pc [OF inv w]
  have items: "list_all (labelled s) (tk_items T (sv_write_ch s))" "list_all (labelled s) (holds (sv_workers s ! w))"
    using inv w by (simp_all add: meter_inv_def list_all_length)
  show ?thesis
    using step
  proof (cases rule: worker_step_cases)
    case (take r q)
    with received [OF laws take(2)] items show ?thesis unfolding take(3) by (intro keep) (auto simp: set_worker_def)
  next
    case (leave q)
    with recv_connected [OF laws] show ?thesis by blast
  next
    case (panic r e)
    let ?s1 = "s\<lparr>sv_engine := e, sv_panicked := True, sv_done := drop_done [r] (sv_done s), sv_lost := Suc (sv_lost s)\<rparr>"
    have s': "s' = leave T ?s1 w" using panic(2) by (simp add: worker_panics_def)
    have h: "held d (sv_workers s ! w) = (if req_done r = d then 1 else 0)" for d using panic(1) by auto
    show ?thesis
      unfolding s'
    proof (rule keep [where pc = Gone])
      show "list_all (labelled s) (tk_items T (sv_write_ch (leave T ?s1 w)))" by (rule leave_tickets(2) [OF laws]) (simp add: items(1))
      show "queued T (leave T ?s1 w) d + spent (leave T ?s1 w) d + held d Gone \<le> queued T s d + spent s d + held d (sv_workers s ! w)" for d
      proof -
        have "spent ?s1 d \<le> held d (sv_workers s ! w) + spent s d"
          by (auto simp: h drop_done_def)
        moreover have "queued T ?s1 d = queued T s d" "held d Gone = 0" by simp_all
        ultimately show ?thesis using leave_tickets(1) [OF laws, of ?s1 w d] by linarith
      qed
    qed simp_all
  next
    case (answer r ok)
    with items show ?thesis unfolding answer(2) by (intro keep) (auto simp: set_worker_def)
  qed (use items in \<open>auto intro!: keep simp: set_worker_def\<close>)
qed

lemma meter_inv_start: "tk_items T q = [] \<Longrightarrow> meter_inv T (server_start e q sem workers reqs)"
proof -
  assume q: "tk_items T q = []"
  let ?s = "server_start e q sem workers reqs"
  have "tickets T ?s d \<le> 1" if "d < length (sv_clients ?s)" for d
  proof -
    have "d < length reqs" using that by (simp add: server_start_def)
    moreover have "wtally (held d) ?s = 0" by (rule start_tallies(2) [of "\<lambda>pc. 0"]) simp_all
    ultimately show ?thesis using q by (simp add: tickets_def start_pc) (simp add: server_start_def)
  qed
  moreover have "pc_labelled ?s d (cl_pc (sv_clients ?s ! d))" if "d < length (sv_clients ?s)" for d
  proof -
    have "d < length reqs" using that by (simp add: server_start_def)
    then show ?thesis by (simp add: start_pc)
  qed
  moreover have "list_all (\<lambda>pc. list_all (labelled ?s) (holds pc)) (sv_workers ?s)"
    by (simp add: server_start_def spawn_write_worker_pool_def list_all_iff)
  ultimately show ?thesis using q by (simp add: meter_inv_def) (simp add: server_start_def)
qed

section \<open>The counters\<close>

definition counters_exact :: "'p prometheus \<Rightarrow> ('h, 'q, 's) server \<Rightarrow> 'p metrics option \<Rightarrow> bool" where
  "counters_exact P s m \<longleftrightarrow> counting m \<and>
     (\<forall>body. ops_count P m (write_label body) ''ok'' = answered (write_label body) True s + unsent (write_label body) True s \<and>
        ops_count P m (write_label body) ''error'' = answered (write_label body) False s + unsent (write_label body) False s \<and>
        ops_count P m (write_label body) ''backpressure_503'' = turned_away (write_label body) s)"

lemma write_label_cases: "write_label body = ''put_kv'' \<or> write_label body = ''insert_vector'' \<or> write_label body = ''put_columnar''"
  by (cases body) simp_all

lemma write_label_other [simp]:
  "write_label body \<noteq> ''knn''" "write_label body \<noteq> ''compact''" "write_label body \<noteq> ''health''" "write_label body \<noteq> ''stats''"
  by (cases body; simp)+

lemma start_metrics_count [simp]:
  "prom_laws P \<Longrightarrow> ops_count P (start_metrics P c pc m) (write_label body) r = ops_count P m (write_label body) r"
  "counting (start_metrics P c pc m) = counting m"
  by (simp_all add: start_metrics_def split: endpoint.splits client_pc.splits)

lemma compact_metrics_count [simp]:
  "prom_laws P \<Longrightarrow> ops_count P (compact_metrics P us x m) (write_label body) r = ops_count P m (write_label body) r"
  "counting (compact_metrics P us x m) = counting m"
  by (simp_all add: compact_metrics_def split: response.splits)

lemma knn_metrics_count [simp]:
  "prom_laws P \<Longrightarrow> ops_count P (knn_metrics P us x m) (write_label body) r = ops_count P m (write_label body) r"
  "counting (knn_metrics P us x m) = counting m"
  by (simp_all add: knn_metrics_def split: response.splits)

lemma refresh_count [simp]:
  "prom_laws P \<Longrightarrow> ops_count P (refresh_seg_metrics P C e m) l r = ops_count P m l r"
  "counting (refresh_seg_metrics P C e m) = counting m"
  by (simp_all add: refresh_seg_metrics_def split: res.splits)

lemma answer_metrics_count:
  assumes "prom_laws P" "counting m"
  shows "ops_count P (answer_metrics P C us e r ok m) l x =
      ops_count P m l x + (if l = req_label r \<and> x = (if ok then ''ok'' else ''error'') then 1 else 0)"
    "counting (answer_metrics P C us e r ok m)"
  using assms by (simp_all add: answer_metrics_def Let_def)

lemma answered_fields [simp]:
  "answered l ok (s\<lparr>sv_engine := x0\<rparr>) = answered l ok s"
  "answered l ok (s\<lparr>sv_queue_depth := x1\<rparr>) = answered l ok s"
  "answered l ok (s\<lparr>sv_compact_in_progress := x2\<rparr>) = answered l ok s"
  "answered l ok (s\<lparr>sv_write_ch := x3\<rparr>) = answered l ok s"
  "answered l ok (s\<lparr>sv_knn_sem := x4\<rparr>) = answered l ok s"
  "answered l ok (s\<lparr>sv_panicked := x5\<rparr>) = answered l ok s"
  "answered l ok (set_worker s w pc) = answered l ok s"
  by (simp_all add: answered_def)

lemma client_answered:
  assumes "client_step cfg T C ch s i = Some s'"
  shows "answered l ok s' = answered l ok s"
  using assms
proof (cases rule: client_step_cases)
  case (closed qd wreq label q)
  show ?thesis unfolding closed(4) answered_set_pc by (rule answered_cong) simp_all
qed simp_all

text \<open>What a step of a handler adds to the counters of the write endpoints: one when it turns its request away.\<close>

lemma client_metrics_count:
  fixes s :: "('h, 'q, 's) server"
  assumes laws: "prom_laws P" "counting m" and inv: "meter_inv T s" and i: "i < length (sv_clients s)"
    and step: "client_step cfg T C ch s i = Some s'"
  shows "counting (client_metrics P us s i s' m)"
    and "ops_count P (client_metrics P us s i s' m) (write_label body) x + (if x = ''backpressure_503'' then turned_away (write_label body) s else 0) =
      ops_count P m (write_label body) x + (if x = ''backpressure_503'' then turned_away (write_label body) s' else 0)"
proof -
  let ?c = "sv_clients s ! i" and ?L = "write_label body" and ?b = "''backpressure_503''"
  have away: "turned_away ?L (set_pc s1 i pc) + is_away ?L ?c (cl_pc ?c) = turned_away ?L s + is_away ?L ?c pc"
    if "sv_clients s1 = sv_clients s" for s1 :: "('h, 'q, 's) server" and pc
    using turned_away_set_pc [of i s1 ?L pc] i that by (simp add: turned_away_def)
  have pci: "pc_labelled s i (cl_pc ?c)" using inv i by (simp add: meter_inv_def)
  have no: "label_of ?c = Some ?L \<Longrightarrow> \<not> off_queue (cl_pc ?c)" using pci by (cases "cl_pc ?c") auto
  have "counting (client_metrics P us s i s' m) \<and>
    ops_count P (client_metrics P us s i s' m) ?L x + (if x = ?b then turned_away ?L s else 0) =
      ops_count P m ?L x + (if x = ?b then turned_away ?L s' else 0)"
    using step
  proof (cases rule: client_step_cases)
    case (fail r)
    then have "label_of ?c \<noteq> None \<Longrightarrow> r \<noteq> queue_full" using start_labelled(2) [OF step fail(1) i] i by (simp add: set_pc_nth)
    with fail laws away [of s "Responded r"] show ?thesis by (auto simp: client_metrics_def)
  next
    case (over qd wreq label)
    then have "label_of ?c = Some label" using pci by (auto simp: labelled_def)
    with over laws away [of "s\<lparr>sv_queue_depth := sv_queue_depth s - 1\<rparr>" "Responded queue_full"] i show ?thesis
      by (auto simp: client_metrics_def enqueue_metrics_def set_pc_nth)
  next
    case refused
    with laws away [of "s\<lparr>sv_queue_depth := sv_queue_depth s - 1\<rparr>" "Responded queue_full"] i show ?thesis
      by (auto simp: client_metrics_def refuse_metrics_def set_pc_nth split: option.splits)
  next
    case (waited label r)
    have "r \<noteq> queue_full" using waited(2) by (auto simp: queue_full_def elim!: await_write_done.elims)
    with waited laws away [of s "Responded r"] show ?thesis by (auto simp: client_metrics_def)
  next
    case (unflag r)
    with laws away [of "s\<lparr>sv_compact_in_progress := False\<rparr>" "Responded r"] no i show ?thesis
      by (auto simp: client_metrics_def)
  next
    case (release r)
    with laws away [of "s\<lparr>sv_knn_sem := tk_release T (sv_knn_sem s)\<rparr>" "Responded r"] no i show ?thesis
      by (auto simp: client_metrics_def)
  next
    case (compact_panic e)
    with laws away [of "s\<lparr>sv_engine := e, sv_panicked := True\<rparr>" "Responded (Failed TaskPanicked)"] i show ?thesis
      by (auto simp: client_metrics_def queue_full_def)
  next
    case (closed qd wreq label q)
    with laws away [of "s\<lparr>sv_write_ch := q, sv_done := drop_done [wreq] (sv_done s), sv_lost := Suc (sv_lost s)\<rparr>" "Waiting label"] i
    show ?thesis by (auto simp: client_metrics_def enqueue_metrics_def set_pc_nth)
  qed (use laws away i in \<open>auto simp: client_metrics_def enqueue_metrics_def set_pc_nth\<close>)
  then show "counting (client_metrics P us s i s' m)"
    and "ops_count P (client_metrics P us s i s' m) ?L x + (if x = ?b then turned_away ?L s else 0) =
      ops_count P m ?L x + (if x = ?b then turned_away ?L s' else 0)" by blast+
qed

lemma worker_keeps_clients:
  assumes "worker_step T C ch s w = Some s'"
  shows "sv_clients s' = sv_clients s"
  using assms by (cases rule: worker_step_cases) (simp_all add: worker_panics_def)

lemma client_keeps_workers:
  assumes "client_step cfg T C ch s i = Some s'"
  shows "sv_workers s' = sv_workers s"
  using assms by (cases rule: client_step_cases) simp_all

text \<open>A worker that is about to answer holds the only ticket of the request.\<close>

lemma answer_pending:
  assumes "meter_inv T s" "w < length (sv_workers s)" "sv_workers s ! w = Uncounted r ok"
  shows "sv_done s (req_done r) = Pending" "labelled s r"
proof -
  show l: "labelled s r" using assms by (auto simp: meter_inv_def list_all_length)
  have "held (req_done r) (sv_workers s ! w) \<le> wtally (held (req_done r)) s"
    unfolding wtally_def using assms(2) elem_le_sum_list [of w "map (held (req_done r)) (sv_workers s)"] by simp
  moreover have "tickets T s (req_done r) \<le> 1" using assms(1) l by (simp add: meter_inv_def labelled_def)
  ultimately show "sv_done s (req_done r) = Pending" by (auto simp: tickets_def assms(3) split: if_splits)
qed

lemma answered_add:
  assumes "labelled s r" "sv_done s (req_done r) = Pending"
  shows "answered l ok (s\<lparr>sv_done := (sv_done s)(req_done r := Answered ok')\<rparr>) =
    answered l ok s + (if l = req_label r \<and> ok = ok' then 1 else 0)"
proof -
  let ?p = "\<lambda>i. sv_done s i = Answered ok \<and> label_of (sv_clients s ! i) = Some l"
  let ?p' = "\<lambda>i. ((sv_done s)(req_done r := Answered ok')) i = Answered ok \<and> label_of (sv_clients s ! i) = Some l"
  have "length (filter ?p' [0..<length (sv_clients s)]) =
    length (filter ?p [0..<length (sv_clients s)]) + (if l = req_label r \<and> ok = ok' then 1 else 0)"
  proof (cases "l = req_label r \<and> ok = ok'")
    case True
    have "length (filter ?p' [0..<length (sv_clients s)]) = Suc (length (filter ?p [0..<length (sv_clients s)]))"
      by (rule count_upt_add [of "req_done r"]) (use assms True in \<open>auto simp: labelled_def\<close>)
    with True show ?thesis by simp
  next
    case False
    have "length (filter ?p' [0..<length (sv_clients s)]) = length (filter ?p [0..<length (sv_clients s)])"
      by (rule count_upt_cong) (use assms False in \<open>auto simp: labelled_def\<close>)
    with False show ?thesis by auto
  qed
  then show ?thesis by (simp add: answered_def)
qed

text \<open>What a step of a worker adds: one for the request it is done with.\<close>

lemma worker_metrics_count:
  fixes s :: "('h, 'q, 's) server"
  assumes laws: "prom_laws P" "counting m" and inv: "meter_inv T s" and w: "w < length (sv_workers s)"
    and step: "worker_step T C ch s w = Some s'"
  shows "counting (worker_metrics P C us s w m)"
    and "ops_count P (worker_metrics P C us s w m) l (if ok then ''ok'' else ''error'') + (answered l ok s + unsent l ok s) =
      ops_count P m l (if ok then ''ok'' else ''error'') + (answered l ok s' + unsent l ok s')"
    and "ops_count P (worker_metrics P C us s w m) l ''backpressure_503'' = ops_count P m l ''backpressure_503''"
proof -
  have moved: "unsent l ok (set_worker s1 w pc) + unsent_pc l ok (sv_workers s ! w) = unsent l ok s + unsent_pc l ok pc"
    if "sv_workers s1 = sv_workers s" for s1 :: "('h, 'q, 's) server" and pc
    using wtally_set_worker [of w s1 "unsent_pc l ok" pc] w that by (simp add: unsent_def wtally_def)
  have left: "unsent l ok (Serve.leave T s1 w) + unsent_pc l ok (sv_workers s ! w) = unsent l ok s"
    if "sv_workers s1 = sv_workers s" for s1 :: "('h, 'q, 's) server"
    using wtally_leave [of w s1 "unsent_pc l ok" T] w that by (simp add: unsent_def wtally_def)
  have "counting (worker_metrics P C us s w m) \<and>
    ops_count P (worker_metrics P C us s w m) l (if ok then ''ok'' else ''error'') + (answered l ok s + unsent l ok s) =
      ops_count P m l (if ok then ''ok'' else ''error'') + (answered l ok s' + unsent l ok s') \<and>
    ops_count P (worker_metrics P C us s w m) l ''backpressure_503'' = ops_count P m l ''backpressure_503''"
    using step
  proof (cases rule: worker_step_cases)
    case (uncount r ok')
    then show ?thesis
      using moved [of "s\<lparr>sv_queue_depth := sv_queue_depth s - 1\<rparr>" "Uncounted r ok'"] laws
      by (auto simp: worker_metrics_def answer_metrics_count)
  next
    case (answer r ok')
    note p = answer_pending [OF inv w answer(1)]
    show ?thesis
      using answered_add [OF p(2,1), of l ok ok'] laws
        moved [of "s\<lparr>sv_done := (sv_done s)(req_done r := Answered ok')\<rparr>" Idle]
      by (auto simp: answer worker_metrics_def)
  next
    case (leave q)
    have "answered l ok s' = answered l ok s" unfolding leave(3) by (rule answered_cong) simp_all
    then show ?thesis using laws left [of "s\<lparr>sv_write_ch := q\<rparr>"] by (simp add: leave(1,3) worker_metrics_def)
  next
    case (panic r e)
    have "answered l ok s' = answered l ok s" unfolding panic(2) worker_panics_def by (rule answered_cong) simp_all
    moreover have "unsent l ok s' = unsent l ok s"
      using left [of "s\<lparr>sv_engine := e, sv_panicked := True, sv_done := drop_done [r] (sv_done s), sv_lost := Suc (sv_lost s)\<rparr>"] panic
      by (auto simp: worker_panics_def)
    ultimately show ?thesis using laws panic(1) by (auto simp: worker_metrics_def)
  next
    case (take r q)
    then show ?thesis using laws moved [of "s\<lparr>sv_write_ch := q\<rparr>" "Taken r"] by (simp add: worker_metrics_def)
  next
    case (log r e)
    then show ?thesis using laws moved [of "s\<lparr>sv_engine := e\<rparr>" "Logged r"] by (simp add: worker_metrics_def)
  next
    case (ran r e ok')
    then show ?thesis using laws moved [of "s\<lparr>sv_engine := e\<rparr>" "Ran r ok'"] by (auto simp: worker_metrics_def)
  qed
  then show "counting (worker_metrics P C us s w m)"
    and "ops_count P (worker_metrics P C us s w m) l (if ok then ''ok'' else ''error'') + (answered l ok s + unsent l ok s) =
      ops_count P m l (if ok then ''ok'' else ''error'') + (answered l ok s' + unsent l ok s')"
    and "ops_count P (worker_metrics P C us s w m) l ''backpressure_503'' = ops_count P m l ''backpressure_503''" by blast+
qed

lemma metered_step_exact:
  assumes "prom_laws P" "channel_laws T cap" "meter_inv T s" "counters_exact P s m" and step: "metered_step cfg T C P s m s' m'"
  shows "meter_inv T s' \<and> counters_exact P s' m'"
  using step
proof cases
  case (metered_client i ch us)
  note c = client_metrics_count [OF assms(1) _ assms(3) metered_client(2,3)]
  have "unsent l ok s' = unsent l ok s" for l ok
    by (simp add: unsent_def wtally_def client_keeps_workers [OF metered_client(3)])
  moreover have "counting m" using assms(4) by (simp add: counters_exact_def)
  ultimately have "counters_exact P s' m'"
    using assms(4) c(1) c(2) [of m us _ "''ok''"] c(2) [of m us _ "''error''"] c(2) [of m us _ "''backpressure_503''"]
    by (auto simp: counters_exact_def metered_client(1) client_answered [OF metered_client(3)])
  with meter_inv_client [OF assms(2,3) metered_client(2,3)] show ?thesis by blast
next
  case (metered_worker w ch us)
  have "turned_away l s' = turned_away l s" for l by (simp add: turned_away_def worker_keeps_clients [OF metered_worker(3)])
  moreover have cm: "counting m" using assms(4) by (simp add: counters_exact_def)
  note c = worker_metrics_count [OF assms(1) cm assms(3) metered_worker(2,3), where us = us]
  have "ops_count P m' (write_label b) ''ok'' = answered (write_label b) True s' + unsent (write_label b) True s'"
    "ops_count P m' (write_label b) ''error'' = answered (write_label b) False s' + unsent (write_label b) False s'" for b
    using c(2) [where ok = True and l = "write_label b"] c(2) [where ok = False and l = "write_label b"] assms(4)
    by (simp_all add: metered_worker(1) counters_exact_def)
  ultimately have "counters_exact P s' m'"
    using assms(4) c(1,3) by (auto simp: counters_exact_def metered_worker(1))
  with meter_inv_worker [OF assms(2,3) metered_worker(2,3)] show ?thesis by blast
qed (use assms in \<open>auto simp: counters_exact_def\<close>)

lemma metered_run_exact:
  assumes "metered_run cfg T C P s0 m0 s m" "prom_laws P" "channel_laws T cap" "meter_inv T s0" "counters_exact P s0 m0"
  shows "meter_inv T s \<and> counters_exact P s m"
  using assms by (induction rule: metered_run.induct) (auto dest: metered_step_exact)

lemma counters_exact_start:
  assumes "prom_laws P" "counting (metrics_init P None)"
  shows "counters_exact P (server_start e q sem workers reqs) (metrics_init P None)"
proof -
  have "turned_away l (server_start e q sem workers reqs) = 0" "answered l ok (server_start e q sem workers reqs) = 0" for l ok
    by (simp_all add: turned_away_def answered_def server_start_def request_def filter_empty_conv case_prod_beta)
  moreover have "unsent l ok (server_start e q sem workers reqs) = 0" for l ok
    unfolding unsent_def by (rule start_tallies(2) [of "\<lambda>pc. 0"]) simp_all
  ultimately show ?thesis using assms by (simp add: counters_exact_def metrics_init_zero)
qed

section \<open>What the handlers respond\<close>

text \<open>
  \<open>responded label r s\<close> is the number of handlers of a write endpoint that have responded \<open>r\<close>, and \<open>unread label ok s\<close> the number of
  those that a worker has answered and that have not read the answer yet.
\<close>

definition responded :: "string \<Rightarrow> response \<Rightarrow> ('h, 'q, 's) server \<Rightarrow> nat" where
  "responded label r s = length (filter (\<lambda>c. cl_pc c = Responded r \<and> label_of c = Some label) (sv_clients s))"

definition unread :: "string \<Rightarrow> bool \<Rightarrow> ('h, 'q, 's) server \<Rightarrow> nat" where
  "unread label ok s =
     length (filter (\<lambda>i. sv_done s i = Answered ok \<and> cl_pc (sv_clients s ! i) = Waiting label) [0..<length (sv_clients s)])"

definition written :: response where
  "written = Status NO_CONTENT"

definition write_failed :: "string \<Rightarrow> response" where
  "write_failed label = Failed (HttpError (AppError INTERNAL_SERVER_ERROR (label @ '' failed'')))"

definition worker_dropped :: "string \<Rightarrow> response" where
  "worker_dropped label = Failed (HttpError (AppError INTERNAL_SERVER_ERROR (label @ '' worker dropped'')))"

definition rejected :: "response \<Rightarrow> bool" where
  "rejected r \<longleftrightarrow> (\<exists>st msg. r = Failed (HttpError (AppError st msg)) \<and> st \<in> {BAD_REQUEST, UNAUTHORIZED, FORBIDDEN})"

text \<open>What the response of a write endpoint says about the answer of the worker.\<close>

definition response_fits :: "string \<Rightarrow> oneshot \<Rightarrow> response \<Rightarrow> bool" where
  "response_fits label d r \<longleftrightarrow>
     (d = Answered True \<and> r = written) \<or> (d = Answered False \<and> r = write_failed label) \<or>
     (d = Dropped \<and> r = worker_dropped label) \<or> (d = Pending \<and> (r = queue_full \<or> rejected r))"

fun pc_fits :: "string option \<Rightarrow> oneshot \<Rightarrow> client_pc \<Rightarrow> bool" where
  "pc_fits l d (Waiting label) = (l = Some label)"
| "pc_fits l d (Responded r) = (case l of Some label \<Rightarrow> response_fits label d r | None \<Rightarrow> True)"
| "pc_fits l d _ = (d = Pending)"

definition reply_ok :: "('h, 'q, 's) server \<Rightarrow> nat \<Rightarrow> bool" where
  "reply_ok s i = pc_fits (label_of (sv_clients s ! i)) (sv_done s i) (cl_pc (sv_clients s ! i))"

abbreviation in_transit :: "('q, 's) tokio \<Rightarrow> ('h, 'q, 's) server \<Rightarrow> nat \<Rightarrow> nat" where
  "in_transit T s d \<equiv> queued T s d + wtally (held d) s"

text \<open>Only a handler that waits has its request with the workers.\<close>

definition reply_inv :: "('q, 's) tokio \<Rightarrow> ('h, 'q, 's) server \<Rightarrow> bool" where
  "reply_inv T s \<longleftrightarrow>
     (\<forall>d<length (sv_clients s). reply_ok s d \<and>
        (in_transit T s d \<noteq> 0 \<longrightarrow> (\<exists>label. cl_pc (sv_clients s ! d) = Waiting label)))"

lemma require_role_rejected: "require_role a h mn = Inl e \<Longrightarrow> rejected (Failed (HttpError e))"
  by (auto simp: require_role_def rejected_def split: prod.splits if_splits option.splits)

lemma start_rejected:
  assumes "client_step cfg T C ch s i = Some s'" "cl_pc (sv_clients s ! i) = Start" "i < length (sv_clients s)"
    and "label_of (sv_clients s ! i) = Some label" "cl_pc (sv_clients s' ! i) = Responded r"
  shows "rejected r"
proof -
  let ?c = "sv_clients s ! i"
  from assms(4) obtain body where body: "cl_endpoint ?c = WriteEp body" by (auto simp: label_of_def split: endpoint.splits)
  with assms(1,2) have s': "s' = write_start cfg s i ?c body" by (simp add: client_step_def start_step_def)
  with assms(3,5) obtain e where
    e: "and_then (require_role (cf_auth cfg) (cl_header ?c) Readwrite) (\<lambda>role. write_req_of cfg i body) = Inl e"
    and r: "r = Failed (HttpError e)"
    by (auto simp: write_start_def set_pc_nth split: sum.splits)
  from e have "require_role (cf_auth cfg) (cl_header ?c) Readwrite = Inl e \<or> write_req_of cfg i body = Inl e"
    by (cases "require_role (cf_auth cfg) (cl_header ?c) Readwrite") simp_all
  then show ?thesis
    using require_role_rejected r by (cases body) (auto simp: rejected_def split: option.splits)
qed

lemma reply_ok_set_pc:
  "i < length (sv_clients s) \<Longrightarrow> reply_ok (set_pc s i pc) i = pc_fits (label_of (sv_clients s ! i)) (sv_done s i) pc"
  by (simp add: reply_ok_def set_pc_nth)

lemma reply_inv_set_pc:
  assumes inv: "reply_inv T s" and i: "i < length (sv_clients s)"
    and s1: "sv_clients s1 = sv_clients s" "sv_workers s1 = sv_workers s"
    and other: "\<And>d. d \<noteq> i \<Longrightarrow> sv_done s1 d = sv_done s d \<and> queued T s1 d = queued T s d"
    and ok: "reply_ok (set_pc s1 i pc) i"
    and tr: "queued T s1 i + wtally (held i) s \<noteq> 0 \<Longrightarrow> \<exists>label. pc = Waiting label"
  shows "reply_inv T (set_pc s1 i pc)"
  unfolding reply_inv_def
proof (intro allI impI)
  fix d
  assume d: "d < length (sv_clients (set_pc s1 i pc))"
  have w: "wtally (held d) (set_pc s1 i pc) = wtally (held d) s" by (simp add: wtally_def s1(2))
  show "reply_ok (set_pc s1 i pc) d \<and>
    (in_transit T (set_pc s1 i pc) d \<noteq> 0 \<longrightarrow> (\<exists>label. cl_pc (sv_clients (set_pc s1 i pc) ! d) = Waiting label))"
  proof (cases "d = i")
    case True
    with ok tr i w show ?thesis by (auto simp: set_pc_nth s1(1))
  next
    case False
    with inv d other [OF False] w show ?thesis
      by (simp add: reply_inv_def reply_ok_def set_pc_nth s1(1) label_of_set_pc)
  qed
qed

lemma await_fits: "await_write_done label d = Some r \<Longrightarrow> response_fits label d r \<and> d \<noteq> Pending"
  by (elim await_write_done.elims) (simp_all add: response_fits_def written_def write_failed_def worker_dropped_def)

lemma reply_inv_client:
  assumes laws: "channel_laws T cap" and inv: "reply_inv T s" "meter_inv T s" and i: "i < length (sv_clients s)"
    and step: "client_step cfg T C ch s i = Some s'"
  shows "reply_inv T s'"
proof -
  let ?c = "sv_clients s ! i"
  note keep = reply_inv_set_pc [OF inv(1) i]
  note okp = reply_ok_set_pc [of i]
  have ok: "pc_fits (label_of ?c) (sv_done s i) (cl_pc ?c)" and idle: "(\<And>label. cl_pc ?c \<noteq> Waiting label) \<Longrightarrow> in_transit T s i = 0"
    using inv(1) i by (auto simp: reply_inv_def reply_ok_def)
  have pci: "pc_labelled s i (cl_pc ?c)" and tk: "tickets T s i \<le> 1" using inv(2) i by (simp_all add: meter_inv_def)
  show ?thesis
    using step
  proof (cases rule: client_step_cases)
    case (fail r)
    have "rejected r" if "label_of ?c = Some label" for label
      using start_rejected [OF step fail(1) i that] fail(2) i by (simp add: set_pc_nth)
    with ok idle i fail(1) show ?thesis
      unfolding fail(2) by (intro keep) (auto simp: okp response_fits_def split: option.splits)
  next
    case (sent qd wreq label q)
    have "label_of ?c = Some label" "req_done wreq = i" using pci by (auto simp: sent(1) labelled_def)
    with send_ok [OF laws sent(3)] i show ?thesis unfolding sent(4) by (intro keep) (auto simp: okp)
  next
    case (closed qd wreq label q)
    have "label_of ?c = Some label" "req_done wreq = i" using pci by (auto simp: closed(1) labelled_def)
    with send_closed [OF laws closed(3)] i show ?thesis
      unfolding closed(4) by (intro keep) (auto simp: okp drop_done_def)
  next
    case (full qd wreq label q)
    with send_full [OF laws full(3)] ok idle i show ?thesis
      unfolding full(4) by (intro keep) (auto simp: okp)
  next
    case (count wreq label)
    from count(1) ok idle i show ?thesis unfolding count(3) by (intro keep) (auto simp: okp)
  next
    case (waited label r)
    note fits = await_fits [OF waited(2)]
    then have "in_transit T s i = 0" using tk by (auto simp: tickets_def split: if_splits)
    with fits ok i waited(1) show ?thesis
      unfolding waited(3) by (intro keep) (auto simp: okp)
  next
    case (over qd wreq label)
    from over(1) ok idle i show ?thesis
      unfolding over(3) by (intro keep) (auto simp: okp response_fits_def split: option.splits)
  qed (use ok idle pci i in \<open>auto intro!: keep simp: okp response_fits_def split: option.splits\<close>)
qed

lemma reply_inv_workers:
  assumes inv: "reply_inv T s" and cl: "sv_clients s' = sv_clients s"
    and tr: "\<And>d. in_transit T s' d \<le> in_transit T s d"
    and dn: "\<And>d. sv_done s' d \<noteq> sv_done s d \<Longrightarrow> in_transit T s d \<noteq> 0"
  shows "reply_inv T s'"
  unfolding reply_inv_def cl
proof (intro allI impI)
  fix d
  assume d: "d < length (sv_clients s)"
  have ok: "reply_ok s d" "in_transit T s d \<noteq> 0 \<Longrightarrow> \<exists>label. cl_pc (sv_clients s ! d) = Waiting label"
    using inv d unfolding reply_inv_def by blast+
  have "reply_ok s' d"
  proof (cases "sv_done s' d = sv_done s d")
    case True
    with ok(1) show ?thesis by (simp add: reply_ok_def cl)
  next
    case False
    from ok(2) [OF dn [OF this]] ok(1) show ?thesis by (auto simp: reply_ok_def cl)
  qed
  moreover have "in_transit T s' d \<noteq> 0 \<Longrightarrow> in_transit T s d \<noteq> 0" using tr [of d] by linarith
  ultimately show "reply_ok s' d \<and> (in_transit T s' d \<noteq> 0 \<longrightarrow> (\<exists>label. cl_pc (sv_clients s ! d) = Waiting label))"
    using ok(2) by blast
qed

lemma count_req_done: "count_list (map req_done rs) d \<noteq> 0 \<longleftrightarrow> d \<in> set (map req_done rs)"
  by (simp add: count_list_0_iff del: set_map)

lemma reply_inv_worker:
  assumes laws: "channel_laws T cap" and inv: "reply_inv T s" and w: "w < length (sv_workers s)"
    and step: "worker_step T C ch s w = Some s'"
  shows "reply_inv T s'"
proof -
  note keep = reply_inv_workers [OF inv]
  have moved: "wtally (held d) (set_worker s1 w pc) + held d (sv_workers s ! w) = wtally (held d) s + held d pc"
    if "sv_workers s1 = sv_workers s" for s1 pc d
    using wtally_set_worker [of w s1 "held d" pc] w that by (simp add: wtally_def)
  have mine: "held d (sv_workers s ! w) \<le> wtally (held d) s" for d
    unfolding wtally_def using w elem_le_sum_list [of w "map (held d) (sv_workers s)"] by simp
  show ?thesis
    using step
  proof (cases rule: worker_step_cases)
    case (take r q)
    have "in_transit T s' d = in_transit T s d" for d
      using received [OF laws take(2)] moved [of "s\<lparr>sv_write_ch := q\<rparr>" d "Taken r"] by (simp add: take(1,3))
    then show ?thesis by (intro keep) (simp_all add: take(3))
  next
    case (leave q)
    with recv_connected [OF laws] show ?thesis by blast
  next
    case (panic r e)
    let ?s1 = "s\<lparr>sv_engine := e, sv_panicked := True, sv_done := drop_done [r] (sv_done s), sv_lost := Suc (sv_lost s)\<rparr>"
    have s': "s' = Serve.leave T ?s1 w" using panic(2) by (simp add: worker_panics_def)
    have h: "held d (sv_workers s ! w) = (if req_done r = d then 1 else 0)" for d using panic(1) by auto
    have items: "queued T s' d \<le> queued T s d"
      and dn: "sv_done s' d \<noteq> sv_done s d \<Longrightarrow> d = req_done r \<or> d \<in> set (map req_done (tk_items T (sv_write_ch s)))" for d
      using receiver_dropped [OF laws, of "sv_write_ch s"]
      by (auto simp: s' leave_def Let_def set_worker_def drop_done_def split: prod.splits if_splits)
    have "in_transit T s' d \<le> in_transit T s d" for d
      using items [of d] wtally_leave [of w ?s1 "held d" T] w by (simp add: s' wtally_def)
    moreover have "in_transit T s d \<noteq> 0" if "sv_done s' d \<noteq> sv_done s d" for d
      using dn [OF that] mine [of d] count_req_done [of "tk_items T (sv_write_ch s)" d] by (auto simp: h)
    ultimately show ?thesis by (intro keep) (simp_all add: s')
  next
    case (answer r ok)
    have "in_transit T s' d \<le> in_transit T s d" for d
      using moved [of "s\<lparr>sv_done := (sv_done s)(req_done r := Answered ok)\<rparr>" d Idle] by (simp add: answer)
    moreover have "in_transit T s d \<noteq> 0" if "sv_done s' d \<noteq> sv_done s d" for d
      using mine [of d] that by (auto simp: answer split: if_splits)
    ultimately show ?thesis by (intro keep) (simp_all add: answer)
  next
    case (log r e)
    then show ?thesis using moved [of "s\<lparr>sv_engine := e\<rparr>" _ "Logged r"] by (intro keep) auto
  next
    case (ran r e ok)
    then show ?thesis using moved [of "s\<lparr>sv_engine := e\<rparr>" _ "Ran r ok"] by (intro keep) auto
  next
    case (uncount r ok)
    then show ?thesis
      using moved [of "s\<lparr>sv_queue_depth := sv_queue_depth s - 1\<rparr>" _ "Uncounted r ok"] by (intro keep) auto
  qed
qed

lemma reply_inv_start:
  assumes "tk_items T q = []"
  shows "reply_inv T (server_start e q sem workers reqs)"
proof -
  let ?s = "server_start e q sem workers reqs"
  have "reply_ok ?s d \<and> in_transit T ?s d = 0" if "d < length (sv_clients ?s)" for d
  proof -
    have "d < length reqs" using that by (simp add: server_start_def)
    moreover have "wtally (held d) ?s = 0" by (rule start_tallies(2) [of "\<lambda>pc. 0"]) simp_all
    ultimately show ?thesis using assms by (simp add: reply_ok_def start_pc) (simp add: server_start_def)
  qed
  then show ?thesis by (simp add: reply_inv_def)
qed

lemma reply_inv_run:
  assumes "serve_run cfg T C (server_start e q sem workers reqs) k s" "channel_laws T cap" "tk_items T q = []"
  shows "meter_inv T s \<and> reply_inv T s"
  using assms
proof (induction rule: serve_run.induct)
  case run_none
  then show ?case by (simp add: meter_inv_start reply_inv_start)
next
  case (run_step n s s')
  then have inv: "meter_inv T s" "reply_inv T s" by simp_all
  from run_step.hyps(2) show ?case
  proof cases
    case (by_client i ch)
    with inv run_step.prems(1) meter_inv_client reply_inv_client show ?thesis by metis
  next
    case (by_worker w ch)
    with inv run_step.prems(1) meter_inv_worker reply_inv_worker show ?thesis by metis
  qed
qed

text \<open>The answers of the workers are the responses of the handlers and the answers not read yet.\<close>

lemma length_filter_split:
  assumes "\<And>x. x \<in> set xs \<Longrightarrow> a x \<longleftrightarrow> b x \<or> c x" "\<And>x. x \<in> set xs \<Longrightarrow> \<not> (b x \<and> c x)"
  shows "length (filter a xs) = length (filter b xs) + length (filter c xs)"
  using assms by (induction xs) auto

lemma length_filter_nth: "length (filter p xs) = length (filter (\<lambda>i. p (xs ! i)) [0..<length xs])"
  by (metis (no_types, lifting) comp_apply filter_cong filter_map length_map map_nth)

abbreviation outcome :: "string \<Rightarrow> bool \<Rightarrow> response" where
  "outcome label ok \<equiv> (if ok then written else write_failed label)"

lemma response_fits_outcome:
  "response_fits label d written \<longleftrightarrow> d = Answered True" "response_fits label d (write_failed label) \<longleftrightarrow> d = Answered False"
  by (auto simp: response_fits_def written_def write_failed_def worker_dropped_def queue_full_def rejected_def)

lemma response_fits_answered: "response_fits label (Answered ok) r \<longleftrightarrow> r = outcome label ok"
  by (auto simp: response_fits_def)

lemma answered_responded:
  assumes "reply_inv T s"
  shows "answered label ok s = responded label (outcome label ok) s + unread label ok s"
proof -
  have "answered label ok s =
    length (filter (\<lambda>i. cl_pc (sv_clients s ! i) = Responded (outcome label ok) \<and> label_of (sv_clients s ! i) = Some label)
      [0..<length (sv_clients s)]) + unread label ok s"
    unfolding answered_def unread_def
  proof (rule length_filter_split)
    fix i
    assume "i \<in> set [0..<length (sv_clients s)]"
    with assms have fits: "pc_fits (label_of (sv_clients s ! i)) (sv_done s i) (cl_pc (sv_clients s ! i))"
      by (simp add: reply_inv_def reply_ok_def)
    show "sv_done s i = Answered ok \<and> label_of (sv_clients s ! i) = Some label \<longleftrightarrow>
      (cl_pc (sv_clients s ! i) = Responded (outcome label ok) \<and> label_of (sv_clients s ! i) = Some label) \<or>
      (sv_done s i = Answered ok \<and> cl_pc (sv_clients s ! i) = Waiting label)"
      using fits by (cases "cl_pc (sv_clients s ! i)") (auto simp: response_fits_outcome response_fits_answered)
  qed auto
  then show ?thesis unfolding responded_def length_filter_nth [of _ "sv_clients s"] .
qed

lemma nothing_unread:
  assumes "\<And>s'. \<not> serve_step cfg T C s s'"
  shows "unread label ok s = 0" "unsent label ok s = 0"
proof -
  have "cl_pc (sv_clients s ! i) \<noteq> Waiting label" if "i < length (sv_clients s)" "sv_done s i = Answered ok" for i
  proof
    assume "cl_pc (sv_clients s ! i) = Waiting label"
    with that(2) have "\<exists>s'. client_step cfg T C undefined s i = Some s'" by (cases ok) (simp_all add: client_step_def)
    with assms that(1) show False by (blast intro: by_client)
  qed
  then show "unread label ok s = 0" by (auto simp: unread_def filter_empty_conv)
  have "unsent_pc label ok (sv_workers s ! w) = 0" if "w < length (sv_workers s)" for w
  proof (rule ccontr)
    assume "unsent_pc label ok (sv_workers s ! w) \<noteq> 0"
    then have "\<exists>s'. worker_step T C undefined s w = Some s'"
      by (cases "sv_workers s ! w") (simp_all add: worker_step_def)
    with assms that show False by (blast intro: by_worker)
  qed
  then show "unsent label ok s = 0" by (simp add: unsent_def wtally_zero)
qed

lemma responses_known:
  assumes "reply_inv T s" "c \<in> set (sv_clients s)" "label_of c = Some label" "cl_pc c = Responded r"
  shows "r \<in> {written, write_failed label, queue_full, worker_dropped label} \<or> rejected r"
proof -
  from assms(2) obtain i where "i < length (sv_clients s)" "c = sv_clients s ! i" by (auto simp: in_set_conv_nth)
  with assms(1,3,4) have "response_fits label (sv_done s i) r" by (auto simp: reply_inv_def reply_ok_def)
  then show ?thesis by (auto simp: response_fits_def)
qed

section \<open>A registry to run\<close>

text \<open>A registry that keeps what was counted and the values of the gauges.\<close>

definition list_prometheus :: "((string \<times> string list) list \<times> (string \<Rightarrow> int)) prometheus" where
  "list_prometheus =
     \<lparr>pm_new = ([], \<lambda>n. 0), pm_register = (\<lambda>r n. Some r), pm_inc = (\<lambda>(cs, gs) n ls. ((n, ls) # cs, gs)),
      pm_observe = (\<lambda>r n ls v. r), pm_set = (\<lambda>(cs, gs) n v. (cs, gs(n := v))), pm_encode = (\<lambda>r. ([], True)),
      pm_count = (\<lambda>(cs, gs) n ls. count_list cs (n, ls)), pm_gauge = (\<lambda>(cs, gs) n. gs n)\<rparr>"

lemma list_prometheus_laws: "prom_laws list_prometheus" "counting (metrics_init list_prometheus None)"
proof -
  show "prom_laws list_prometheus" by (simp add: prom_laws_def list_prometheus_def)
  show "counting (metrics_init list_prometheus None)"
    by (simp add: counting_def metrics_init_def register_or_degrade_def list_prometheus_def)
qed

section \<open>Properties\<close>

text \<open>
  The counters are exact (C23).  Under every interleaving of handlers, workers and readers of the health and
  the statistics, engine panics included, the \<open>ok\<close> counter of a write endpoint is the number of its handlers that responded 204,
  of those whose worker has answered success and that have not read it yet, and of the workers about to answer success; the \<open>error\<close> counter is
  the same for 500 \<open>failed\<close>, and the \<open>backpressure_503\<close> counter is the number of handlers that responded 503.
  Where no step is left the three counters are exactly the numbers of these responses.  The only other responses of the endpoint, which
  no counter shows, are 500 \<open>worker dropped\<close>, after a worker has panicked, and the refusals 400, 401 and 403 before the queue.
\<close>

theorem write_metrics_exact:
  assumes "prom_laws P" "counting (metrics_init P None)" "channel_laws T cap" "tk_items T q = []"
    and "metered_run cfg T C P (server_start e q sem workers reqs) (metrics_init P None) s m"
  shows "let l = write_label body in
    ops_count P m l ''ok'' = responded l written s + unread l True s + unsent l True s \<and>
    ops_count P m l ''error'' = responded l (write_failed l) s + unread l False s + unsent l False s \<and>
    ops_count P m l ''backpressure_503'' = responded l queue_full s \<and>
    ((\<forall>s'. \<not> serve_step cfg T C s s') \<longrightarrow>
       ops_count P m l ''ok'' = responded l written s \<and> ops_count P m l ''error'' = responded l (write_failed l) s) \<and>
    (\<forall>c\<in>set (sv_clients s). \<forall>r. label_of c = Some l \<and> cl_pc c = Responded r \<longrightarrow>
       r \<in> {written, write_failed l, queue_full, worker_dropped l} \<or> rejected r) \<and>
    (\<exists>k. serve_run cfg T C (server_start e q sem workers reqs) k s)"
proof -
  let ?l = "write_label body"
  obtain k where k: "serve_run cfg T C (server_start e q sem workers reqs) k s"
    using metered_run_serves [OF assms(5)] by blast
  have inv: "reply_inv T s" using reply_inv_run [OF k assms(3,4)] by blast
  have "counters_exact P s m"
    using metered_run_exact [OF assms(5,1,3) meter_inv_start counters_exact_start] assms(1,2,4) by blast
  then have cnt: "ops_count P m ?l ''ok'' = responded ?l written s + unread ?l True s + unsent ?l True s"
    "ops_count P m ?l ''error'' = responded ?l (write_failed ?l) s + unread ?l False s + unsent ?l False s"
    "ops_count P m ?l ''backpressure_503'' = responded ?l queue_full s"
    using answered_responded [OF inv, of ?l True] answered_responded [OF inv, of ?l False]
    by (simp_all add: counters_exact_def turned_away_def responded_def)
  moreover have "ops_count P m ?l ''ok'' = responded ?l written s \<and> ops_count P m ?l ''error'' = responded ?l (write_failed ?l) s"
    if "\<forall>s'. \<not> serve_step cfg T C s s'"
    using nothing_unread [of cfg T C s] that by (simp add: cnt)
  ultimately show ?thesis
    unfolding Let_def using responses_known [OF inv] k by blast
qed

theorem write_metrics_exact_witness:
  "\<exists>s m. metered_run (toy_config 1) (list_tokio 1) toy_eng_ctx list_prometheus toy_server (metrics_init list_prometheus None) s m \<and>
    map cl_pc (sv_clients s) = toy_responses \<and>
    ops_count list_prometheus m ''put_kv'' ''ok'' = 1 \<and> ops_count list_prometheus m ''put_kv'' ''error'' = 1 \<and>
    ops_count list_prometheus m ''put_kv'' ''backpressure_503'' = 1"
proof -
  have run: "map_option (\<lambda>s. (map cl_pc (sv_clients s), at_rest (list_tokio 1) s, responded ''put_kv'' written s,
        responded ''put_kv'' (write_failed ''put_kv'') s, responded ''put_kv'' queue_full s))
      (run_schedule (toy_config 1) (list_tokio 1) toy_eng_ctx toy_choice toy_server toy_schedule) =
    Some (toy_responses, True, 1, 1, 1)"
    by code_simp
  have len: "length toy_schedule = 18" by simp
  from schedule_run [OF run len] obtain s where s: "serve_run (toy_config 1) (list_tokio 1) toy_eng_ctx toy_server 18 s"
    "map cl_pc (sv_clients s) = toy_responses" "at_rest (list_tokio 1) s" "responded ''put_kv'' written s = 1"
    "responded ''put_kv'' (write_failed ''put_kv'') s = 1" "responded ''put_kv'' queue_full s = 1"
    unfolding prod.inject simp_thms by (elim exE conjE) (rule that)
  obtain m where m: "metered_run (toy_config 1) (list_tokio 1) toy_eng_ctx list_prometheus toy_server
      (metrics_init list_prometheus None) s m"
    using serve_run_metered [OF s(1)] by blast
  have q: "tk_items (list_tokio 1) ([], False) = []" by (simp add: list_tokio_def)
  have "ops_count list_prometheus m ''put_kv'' ''ok'' = 1 \<and> ops_count list_prometheus m ''put_kv'' ''error'' = 1 \<and>
    ops_count list_prometheus m ''put_kv'' ''backpressure_503'' = 1"
    using write_metrics_exact [OF list_prometheus_laws list_tokio_laws(1) q m, of "PutKvReq [1] [2]"] s(4-6)
      at_rest_stuck [OF s(3)] by (simp add: Let_def)
  with m s(2) show ?thesis by (intro exI [of _ s] exI [of _ m] conjI) simp_all
qed

end
