(* ===== verification/Spec2Isabelle.thy ===== *)
theory Spec2Isabelle
  imports Vec_Durability Serve_Order Ffi Py Serve_Metrics
begin

text \<open>
  Verification of \<open>fusion-store\<close>, an embedded store for key-value pairs, vectors and Arrow
  tables (crates under \<open>src/crates\<close>).

  \<^bold>\<open>The program.\<close>  One namespace is a directory with four parts: a KV store and a columnar store, each an
  LMDB environment (crate \<open>heed\<close>) that maps keys to locators and a pool of append-only memory-mapped
  segment files that hold the bytes; a vector index, which adds a navigable small-world graph in
  memory with a snapshot file; and a write-ahead log with a checkpoint marker.  The engine appends
  every write to the log, applies it to a part, replays the log when it opens and cuts it at a checkpoint.
  Around it there are an engine of several shards, an HTTP daemon with a bounded write queue, a pool of workers and
  bearer tokens, a C interface, a Python class and a command line.

  \<^bold>\<open>Theories.\<close>  All paths are relative to \<open>src/crates/fs-core/src\<close> unless they name a crate.

  \<^item> \<open>Prelude\<close>, \<open>Store_Error\<close> (\<open>error.rs\<close>): machine integers as words, little-endian encodings, slices; the errors and
    the outcome of a Rust expression, \<open>Ok\<close>, \<open>Err\<close> or \<open>Panic\<close>.
  \<^item> \<open>Fs\<close>, \<open>Mmap\<close> (\<open>mem/mmap.rs\<close>), \<open>Seg_Names\<close>: a directory as names that point to inodes (an unlinked inode keeps its
    bytes, as a mapping needs), mappings and zero-copy buffers as windows into an inode, segment file names.
  \<^item> \<open>Payload_Store\<close>: the locale of an append-only store of payloads, interpreted in \<open>Segment\<close> and \<open>Vec_Pool\<close>.
  \<^item> \<open>Store_Trait\<close> (\<open>engine.rs\<close>): the KV part of the trait \<open>FusionStoreEngine\<close> as a locale with the laws of one call and
    what they give for runs, and a router over several stores that keeps the contract (a sublocale); interpreted on the
    KV store and the engine (in \<open>Engine\<close>) and on the sharded engine (in \<open>Sharded\<close>).
  \<^item> \<open>Vec_Trait\<close>, \<open>Vec_Impl\<close>: the same for the calls on single vectors; interpreted on the index, the engine and the sharded engine.
  \<^item> \<open>Segment\<close> (\<open>mem/segment.rs\<close>): the pool, its rotation, sealing, rewind, eviction, flush and reopening.  Appends read
    back, buffers are stable under everything the pool does later except a rewind below their end (\<open>pool_step_sparing\<close>).
  \<^item> \<open>Wal\<close> (\<open>mem/wal.rs\<close>), \<open>Recover\<close> (\<open>mem/recover.rs\<close>): the encoding of operations and frames, appends, batches, truncation,
    torn tails, the marker and the recovery plan.
  \<^item> \<open>Heed\<close>: the interface of \<open>heed\<close> as a record of operations with its documented laws, and an instance.
  \<^item> \<open>Kv\<close> (\<open>store/kv.rs\<close>): put, get, delete, quota, locking with deadline; refinement of a finite map.
  \<^item> \<open>F32\<close>, \<open>Distance\<close> (\<open>vector/schema.rs\<close>, \<open>vector/simd.rs\<close>): \<open>f32\<close> as its bits with the order of \<open>total_cmp\<close> and
    the arithmetic as an argument; the NEON kernel equals the scalar one.
  \<^item> \<open>Nsw\<close> (\<open>vector/nsw.rs\<close>), \<open>Snapshot\<close> (\<open>vector/snapshot.rs\<close>): the graph, its search (total; the deadline is an
    argument), inserts and soft deletes, the snapshot file with its CRC.
  \<^item> \<open>Vec_Pool\<close>, \<open>Vec_Index\<close> (\<open>vector/store.rs\<close>, \<open>compact.rs\<close>): the segments of the vectors with their cache of
    mappings, and the index: insert, batch, search, delete, compaction, reclaim, reopening with rebuild.
  \<^item> \<open>Columnar\<close> (\<open>columnar/types.rs\<close>, \<open>columnar/store.rs\<close>): writing and projecting record batches.
  \<^item> \<open>Engine\<close> (\<open>engine_impl.rs\<close>): the engine over its parts.  \<open>abs_of\<close> is the abstract state (a KV map, the vectors with the
    ids that are taken, the tables), \<open>apply_op\<close> the effect of a logged operation; recovery refines the replay of
    the pending operations, writes refine \<open>apply_op\<close>, a checkpoint keeps everything.
  \<^item> \<open>Sharded\<close> (\<open>sharded.rs\<close>): routing, dispatch and the fan-out search; the shards are one map.
  \<^item> \<open>Auth\<close>, \<open>Serve\<close>, \<open>Serve_Queue\<close>, \<open>Serve_Order\<close> (\<open>fs-serve/src/lib.rs\<close>): access control; the daemon as
    interleaved steps of handlers and workers (\<open>client_step\<close>, \<open>worker_step\<close>, \<open>serve_step\<close>, \<open>serve_run\<close>); the bounds of
    the queue, mutual exclusion of compactions and what a panic in one does to the health endpoint, and that every request is
    answered; a run by a list of actors (\<open>run_schedule\<close>), on which runs are evaluated; the two halves of a write and what
    their interleaving does to the log.
  \<^item> \<open>Daemon\<close> (\<open>fs-serve/src/main.rs\<close>): starting the daemon, and what a restart finds.
  \<^item> \<open>Kv_Crash\<close>, \<open>Cli\<close> (\<open>fs-cli/src/main.rs\<close>): the KV store after the end of a process, with and without a recorded
    cursor; the commands, which end without closing the engine: a put of one process is what a get of the next prints;
    the dispatch of \<open>main\<close>.
  \<^item> \<open>Metrics\<close> (\<open>fs-serve/src/metrics.rs\<close>), \<open>Serve_Metrics\<close>: counters and gauges over the registry of the crate \<open>prometheus\<close>;
    the daemon with the calls that count, and that the counters of a write endpoint are its responses 204, 500 and 503.
  \<^item> \<open>Durability\<close>, \<open>Vec_Durability\<close>: a run of the trait that succeeds survives the end of the process, without and with a
    vector index.  Both are about a KV pool that was never flushed or rotated, a clean log, and a next process that can open the
    namespace; with an index the snapshot is missing or stale, all deletions are in the log and no id is inserted after a deletion of it.
  \<^item> \<open>Ffi\<close> (\<open>fs-ffi-c/src/lib.rs\<close>): the C functions with null pointers, caller buffers and error codes.
  \<^item> \<open>Py\<close> (\<open>fs-ffi-py/src/lib.rs\<close>): the methods of the Python class.

  \<^bold>\<open>Conventions.\<close>  A struct is a record whose fields carry a prefix, an operation takes and returns the record.  Every
  \<open>?\<close>, early return and panic of the source is a branch.  Where a name clashes, the component's name is put first
  (\<open>engine_put_kv\<close>, \<open>sharded_put_kv\<close>).  A panic ends the run that is modelled; in the daemon, where it
  ends one task only, engine calls after a panic return what the surroundings choose.  Code outside the
  repository is an argument with named laws: \<open>heed_laws\<close>, \<open>serde_marker_law\<close>, \<open>vec_ctx_ok\<close>, \<open>col_ctx_ok\<close>, \<open>channel_laws\<close>,
  \<open>semaphore_laws\<close>, \<open>prom_laws\<close>; each has an instance (\<open>mem_heed\<close>, \<open>toy_eng_ctx\<close>, \<open>list_tokio\<close>, \<open>list_prometheus\<close>) on which the witnesses evaluate.  What the
  surroundings decide (locks held by other processes, readers that hold a segment, the clock, free disk
  space) is an argument too.

  \<^bold>\<open>Invariants and bounds.\<close>  \<open>pool_inv\<close> of \<open>Segment\<close>, \<open>kv_inv\<close>, \<open>nsw_wf\<close>, \<open>index_inv\<close>, \<open>col_inv\<close> and \<open>eng_inv\<close> are kept by the
  operations, on errors as well, with three exceptions for \<open>index_inv\<close> (and with it \<open>eng_inv\<close>): reclaiming segments that still hold live
  vectors, \<open>VectorIndex::open\<close> on a namespace that has data, and a compaction that fails after it has updated the cache of locators.  Segment ids are 32-bit numbers: \<open>room_for p n\<close> says that \<open>n\<close> more can be
  taken, and \<open>eng_room\<close> that all pools of an engine have so many.  No definition uses fuel: loops are structural
  recursion or have a termination proof; the lock loop with a deadline is bounded by the deadline; a run of the daemon is
  bounded by a measure of its requests and workers.

  \<^bold>\<open>What goes wrong.\<close>  Some theorems state behaviour the code should not have: recovery loses a vector that was deleted and
  inserted again, a pending put with a bad key or any pending columnar put makes every open fail, sequence numbers that restart
  hide writes from recovery, a torn tail corrupts the next append, reclaiming after a compaction removes live vectors,
  a node may become unreachable, concurrent puts may reach the log and the store in different orders, a stale
  cursor lets the next process write over values, a restarted daemon does not find the vectors that are in no
  snapshot, a compaction that panics leaves the health endpoint at 503, and a C caller that states the capacity for a vector in bytes
  gets a write past its buffer.

  \<^bold>\<open>Not modelled.\<close>  I/O errors of the file system calls; the log lines; argument parsing, routing,
  JSON and printing, which are calls into libraries around operations that are modelled; the estimate of the memory of
  a graph, which depends on the allocator; crashes inside a memory-mapped write.  The kernels \<open>dot_scalar\<close> and \<open>dot_neon\<close> are
  defined on vectors of equal length: on others the source panics or reads out of bounds, and the callers compare the dimension first.
  Candidates of a search with equal distance are kept in the order of a sorted list, not in that of a binary heap.  A record batch has
  no nullability and no metadata.  The future of a handler is never dropped at an \<open>await\<close>: when a client disconnects, the source releases
  the permit of a search that still runs, and leaves the compaction flag set.  The counters of a worker change in the step that subtracts from the
  depth.  \<open>heed_laws\<close> are about named databases and the unnamed one as separate maps; that the unnamed database also holds
  the names of the others is not covered.
\<close>

end
